(* ===== verification/Prelude.thy ===== *)
theory Prelude imports "HOL-Library.Word" "HOL-Library.Multiset" begin

text \<open>
  Shared vocabulary of the development: the widths of the C integer types on the 32-bit
  ARM target the repository configures (\<open>ARCH := arm\<close> in the top-level Makefile), the
  error codes the modelled functions return, the three ways a C function can fail to
  return a value, and the generic facts on lists and words that the components share.
\<close>

unbundle bit_operations_syntax

section \<open>C integer types\<close>

type_synonym u8 = "8 word"
type_synonym u16 = "16 word"
type_synonym u32 = "32 word"
type_synonym u64 = "64 word"

text \<open>\<open>unsigned long\<close> is 32 bits wide on the target.\<close>

type_synonym ulong = "32 word"

abbreviation (input) BITS_PER_LONG :: nat where
  "BITS_PER_LONG \<equiv> 32"

section \<open>Errors as values\<close>

text \<open>
  The \<open>-errno\<close> values the modelled functions return.
\<close>

datatype errno =
    EPERM | ENOENT | EINTR | EIO | E2BIG | EAGAIN | ENOMEM | EACCES | EFAULT | EBUSY | EEXIST
  | EINVAL | EFBIG | ENOSPC | ERANGE | EDEADLK | EIDRM | ESRCH | ENOTDIR | ETIME | EOPNOTSUPP
  | ENOLCK | EOVERFLOW | EBADF | EMFILE

text \<open>
  A call that does not return a value either returns an error code, stops the machine in
  a \<open>BUG_ON\<close> or \<open>panic\<close>, or touches memory outside the object it was given.
\<close>

datatype failure = Err errno | Bug | Fault

type_synonym 'a result = "failure + 'a"

fun is_ok :: "'a result \<Rightarrow> bool" where
  "is_ok (Inr _) = True"
| "is_ok (Inl _) = False"

lemma is_ok_iff: "is_ok r \<longleftrightarrow> (\<exists>x. r = Inr x)"
  by (cases r) auto

section \<open>Byte-wise memory copies\<close>

text \<open>
  \<open>memcpy (dst + off, src, n)\<close> on byte lists. A copy that leaves either object is the
  value \<open>None\<close>.
\<close>

definition blit :: "'a list \<Rightarrow> nat \<Rightarrow> 'a list \<Rightarrow> nat \<Rightarrow> nat \<Rightarrow> 'a list option" where
  "blit dst off src soff n =
     (if off + n \<le> length dst \<and> soff + n \<le> length src
      then Some (take off dst @ take n (drop soff src) @ drop (off + n) dst)
      else None)"

lemma blit_Some_length: "blit dst off src soff n = Some d \<Longrightarrow> length d = length dst"
  by (auto simp: blit_def split: if_splits)

lemma blit_defined:
  "off + n \<le> length dst \<Longrightarrow> soff + n \<le> length src \<Longrightarrow> \<exists>d. blit dst off src soff n = Some d"
  by (simp add: blit_def)

lemma blit_nth:
  assumes "blit dst off src soff n = Some d" and "i < length dst"
  shows "d ! i = (if off \<le> i \<and> i < off + n then src ! (soff + (i - off)) else dst ! i)"
proof -
  from assms(1) have len: "off + n \<le> length dst" "soff + n \<le> length src"
    and d: "d = take off dst @ take n (drop soff src) @ drop (off + n) dst"
    by (auto simp: blit_def split: if_splits)
  consider "i < off" | "off \<le> i" "i < off + n" | "off + n \<le> i" by linarith
  moreover have "length (take n (drop soff src)) = n" and "length (take off dst) = off"
    using len by auto
  ultimately show ?thesis
    using len assms(2) by cases (auto simp: d nth_append)
qed

section \<open>Words\<close>

lemma unat_bound: "unat (x :: 'a::len word) < 2 ^ LENGTH('a)"
  by (rule unsigned_less)

lemma unat_bound32: "unat (x :: u32) < 4294967296"
  using unat_bound [of x] by simp

lemma and_pow2_minus_1: "(x :: 'a::len word) AND (2 ^ k - 1) = take_bit k x"
  by (simp add: take_bit_eq_mask mask_eq_exp_minus_1)

lemma unat_and_pow2_minus_1: "unat ((x :: 'a::len word) AND (2 ^ k - 1)) = unat x mod 2 ^ k"
  by (simp only: and_pow2_minus_1 unsigned_take_bit_eq) (simp add: take_bit_eq_mod)

lemma unat_pow2: "k < LENGTH('a::len) \<Longrightarrow> unat (2 ^ k :: 'a word) = 2 ^ k"
  by (metis of_nat_numeral of_nat_power take_bit_of_exp unat_of_nat take_bit_eq_mod
      unsigned_of_nat min_less_iff_conj power_strict_increasing_iff one_less_numeral_iff
      semiring_norm(76) mod_less)

lemma unat_sub_mod:
  "unat ((x :: 'a::len word) - y) = (unat x + 2 ^ LENGTH('a) - unat y) mod 2 ^ LENGTH('a)"
proof (cases "unat y \<le> unat x")
  case True
  then have "unat x + 2 ^ LENGTH('a) - unat y = (unat x - unat y) + 2 ^ LENGTH('a)" by simp
  moreover have "unat x - unat y < 2 ^ LENGTH('a)"
    using unat_bound [of x] by (rule order.strict_trans1 [rotated]) simp
  ultimately show ?thesis using True by (simp only: unat_sub_if' mod_add_self2 mod_less if_True)
next
  case False
  with unat_bound [of y] have "unat x + 2 ^ LENGTH('a) - unat y < 2 ^ LENGTH('a)" by linarith
  with False show ?thesis by (simp add: unat_sub_if')
qed

lemma and_not_mask: "(x :: 'a::ring_bit_operations) AND NOT (mask k) = push_bit k (drop_bit k x)"
  by (rule bit_eqI) (auto simp: bit_simps not_le intro: ccontr)

lemma and_not_pow2_minus_1: "(x :: 'a::ring_bit_operations) AND NOT (2 ^ k - 1) = push_bit k (drop_bit k x)"
  by (simp add: and_not_mask flip: mask_eq_exp_minus_1)

lemma unat_and_not_mask: "unat ((y :: 'a::len word) AND NOT (2 ^ k - 1)) = unat y div 2 ^ k * 2 ^ k"
proof -
  have "unat y div 2 ^ k * 2 ^ k < 2 ^ LENGTH('a)"
    using unat_bound [of y] by (auto intro: le_less_trans [OF div_times_less_eq_dividend])
  then show ?thesis
    by (simp only: and_not_pow2_minus_1 unsigned_push_bit_eq unat_drop_bit_eq)
      (simp add: drop_bit_eq_div push_bit_eq_mult take_bit_eq_mod mult.commute)
qed

lemma pow2_dvd_32: "k < 32 \<Longrightarrow> (2 ^ k :: nat) dvd 4294967296"
  using le_imp_power_dvd [of k 32 "2 :: nat"] by simp

section \<open>Transition systems\<close>

text \<open>
  A component whose operations are the steps of a relation, with an invariant every step
  keeps. Interpreting the locale discharges the preservation once; runs of any length
  follow.
\<close>

locale step_invariant =
  fixes step :: "'s \<Rightarrow> 's \<Rightarrow> bool" and inv :: "'s \<Rightarrow> bool"
  assumes step_keeps: "inv s \<Longrightarrow> step s t \<Longrightarrow> inv t"
begin

lemma run_keeps: "step\<^sup>*\<^sup>* s t \<Longrightarrow> inv s \<Longrightarrow> inv t"
  by (induction rule: rtranclp_induct) (auto intro: step_keeps)

end

end
