(* ===== verification/Bits.thy ===== *)
theory Bits imports Prelude "HOL-Library.Monad_Syntax" begin

text \<open>
  Bit searching: \<open>fls\<close> and \<open>__ffs\<close> of \<open>include/asm-generic/bitops\<close>, the power-of-two
  helpers of \<open>include/linux/log2.h\<close>, and the four search routines of
  \<open>lib/find_next_bit.c\<close> over arrays of \<open>unsigned long\<close>. Arrays are lists of words; an
  access outside the list is \<open>None\<close>, so a result \<open>Some r\<close> includes that every read was
  inside the array.
\<close>

section \<open>Words: fls, __ffs, hweight\<close>

text \<open>
  \<open>fls\<close>: each of the five tests shifts left and subtracts when the upper half of what
  remains is empty.
\<close>

definition fls_step :: "u32 \<Rightarrow> nat \<Rightarrow> u32 \<times> nat \<Rightarrow> u32 \<times> nat" where
  "fls_step m s xr =
     (case xr of (x, r) \<Rightarrow> if x AND m = 0 then (push_bit s x, r - s) else (x, r))"

definition fls :: "u32 \<Rightarrow> nat" where
  "fls x =
     (if x = 0 then 0
      else snd (fls_step 0x80000000 1 (fls_step 0xc0000000 2 (fls_step 0xf0000000 4
                 (fls_step 0xff000000 8 (fls_step 0xffff0000 16 (x, 32)))))))"

definition ffs_step :: "ulong \<Rightarrow> nat \<Rightarrow> ulong \<times> nat \<Rightarrow> ulong \<times> nat" where
  "ffs_step m s wn =
     (case wn of (w, n) \<Rightarrow> if w AND m = 0 then (drop_bit s w, n + s) else (w, n))"

definition ffs_word :: "ulong \<Rightarrow> nat" where
  "ffs_word word =
     (case ffs_step 0x3 2 (ffs_step 0xf 4 (ffs_step 0xff 8 (ffs_step 0xffff 16 (word, 0)))) of
        (w, num) \<Rightarrow> if w AND 0x1 = 0 then num + 1 else num)"

definition ffz :: "ulong \<Rightarrow> nat" where
  "ffz x = ffs_word (NOT x)"

definition is_power_of_2 :: "ulong \<Rightarrow> bool" where
  "is_power_of_2 n \<longleftrightarrow> n \<noteq> 0 \<and> n AND (n - 1) = 0"

definition roundup_pow_of_two :: "ulong \<Rightarrow> ulong" where
  "roundup_pow_of_two n = push_bit (fls (n - 1)) 1"

definition hweight32 :: "u32 \<Rightarrow> u32" where
  "hweight32 w =
     (let res = w - ((drop_bit 1 w) AND 0x55555555);
          res = (res AND 0x33333333) + ((drop_bit 2 res) AND 0x33333333);
          res = (res + drop_bit 4 res) AND 0x0F0F0F0F;
          res = res + drop_bit 8 res
      in (res + drop_bit 16 res) AND 0x000000FF)"

section \<open>Arrays of words\<close>

definition rd :: "'a list \<Rightarrow> nat \<Rightarrow> 'a option" where
  "rd xs k = (if k < length xs then Some (xs ! k) else None)"

definition wr :: "'a list \<Rightarrow> nat \<Rightarrow> 'a \<Rightarrow> 'a list option" where
  "wr xs k x = (if k < length xs then Some (xs[k := x]) else None)"

text \<open>The bit \<open>i\<close> of an array: bit \<open>i mod 32\<close> of word \<open>i div 32\<close>.\<close>

definition tb :: "ulong list \<Rightarrow> nat \<Rightarrow> bool" where
  "tb bm i \<longleftrightarrow> bit (bm ! (i div 32)) (i mod 32)"

definition test_bit :: "nat \<Rightarrow> ulong list \<Rightarrow> bool option" where
  "test_bit nr addr = do { w \<leftarrow> rd addr (nr div 32); Some (drop_bit (nr mod 32) w AND 1 \<noteq> 0) }"

definition set_bit_op :: "nat \<Rightarrow> ulong list \<Rightarrow> ulong list option" where
  "set_bit_op nr addr =
     do { w \<leftarrow> rd addr (nr div 32); wr addr (nr div 32) (w OR push_bit (nr mod 32) 1) }"

definition clear_bit_op :: "nat \<Rightarrow> ulong list \<Rightarrow> ulong list option" where
  "clear_bit_op nr addr =
     do { w \<leftarrow> rd addr (nr div 32); wr addr (nr div 32) (w AND NOT (push_bit (nr mod 32) 1)) }"

definition test_and_set_bit :: "nat \<Rightarrow> ulong list \<Rightarrow> (bool \<times> ulong list) option" where
  "test_and_set_bit nr addr =
     do { w \<leftarrow> rd addr (nr div 32);
          addr' \<leftarrow> wr addr (nr div 32) (w OR push_bit (nr mod 32) 1);
          Some (w AND push_bit (nr mod 32) 1 \<noteq> 0, addr') }"

section \<open>The searches of lib/find_next_bit.c\<close>

text \<open>
  The loop over whole words that the four searches share. \<open>f\<close> is the identity for a
  search of set bits and \<open>NOT\<close> for a search of zero bits. \<open>Inl\<close> is the jump to
  \<open>found_middle\<close>; \<open>Inr\<close> is the fall through with fewer than 32 bits left. Sizes are
  natural numbers: no subtraction below goes under zero.
\<close>

function scan_words ::
    "(ulong \<Rightarrow> ulong) \<Rightarrow> ulong list \<Rightarrow> nat \<Rightarrow> nat \<Rightarrow> nat \<Rightarrow> (ulong \<times> nat + nat \<times> nat \<times> nat) option" where
  "scan_words f addr p result sz =
     (if BITS_PER_LONG \<le> sz then
        do { tmp \<leftarrow> rd addr p;
             if f tmp \<noteq> 0 then Some (Inl (tmp, result))
             else scan_words f addr (p + 1) (result + BITS_PER_LONG) (sz - BITS_PER_LONG) }
      else Some (Inr (p, result, sz)))"
  by pat_completeness auto
termination
  by (relation "measure (\<lambda>(f, addr, p, result, sz). sz)") auto

declare scan_words.simps [simp del]

definition found_first :: "ulong \<Rightarrow> nat \<Rightarrow> nat \<Rightarrow> nat" where
  "found_first tmp result sz =
     (let tmp = tmp AND drop_bit (BITS_PER_LONG - sz) (NOT 0)
      in if tmp = 0 then result + sz else result + ffs_word tmp)"

definition found_first_zero :: "ulong \<Rightarrow> nat \<Rightarrow> nat \<Rightarrow> nat" where
  "found_first_zero tmp result sz =
     (let tmp = tmp OR push_bit sz (NOT 0)
      in if tmp = NOT 0 then result + sz else result + ffz tmp)"

text \<open>The part from the word loop on, shared by the \<open>next\<close> and \<open>first\<close> searches.\<close>

definition search_from :: "ulong list \<Rightarrow> nat \<Rightarrow> nat \<Rightarrow> nat \<Rightarrow> nat option" where
  "search_from addr p result sz =
     do { r \<leftarrow> scan_words id addr p result sz;
          case r of
            Inl (tmp, result) \<Rightarrow> Some (result + ffs_word tmp)
          | Inr (p, result, sz) \<Rightarrow>
              if sz = 0 then Some result
              else do { tmp \<leftarrow> rd addr p; Some (found_first tmp result sz) } }"

definition search_zero_from :: "ulong list \<Rightarrow> nat \<Rightarrow> nat \<Rightarrow> nat \<Rightarrow> nat option" where
  "search_zero_from addr p result sz =
     do { r \<leftarrow> scan_words (\<lambda>w. NOT w) addr p result sz;
          case r of
            Inl (tmp, result) \<Rightarrow> Some (result + ffz tmp)
          | Inr (p, result, sz) \<Rightarrow>
              if sz = 0 then Some result
              else do { tmp \<leftarrow> rd addr p; Some (found_first_zero tmp result sz) } }"

definition find_next_bit :: "ulong list \<Rightarrow> nat \<Rightarrow> nat \<Rightarrow> nat option" where
  "find_next_bit addr sz offset =
     (let p = offset div BITS_PER_LONG;
          result = offset - offset mod BITS_PER_LONG
      in if sz \<le> offset then Some sz
         else let sz = sz - result; offset = offset mod BITS_PER_LONG
              in if offset \<noteq> 0 then
                   do { w \<leftarrow> rd addr p;
                        let tmp = w AND push_bit offset (NOT 0) in
                        if sz < BITS_PER_LONG then Some (found_first tmp result sz)
                        else if tmp \<noteq> 0 then Some (result + ffs_word tmp)
                        else search_from addr (p + 1) (result + BITS_PER_LONG) (sz - BITS_PER_LONG) }
                 else search_from addr p result sz)"

definition find_next_zero_bit :: "ulong list \<Rightarrow> nat \<Rightarrow> nat \<Rightarrow> nat option" where
  "find_next_zero_bit addr sz offset =
     (let p = offset div BITS_PER_LONG;
          result = offset - offset mod BITS_PER_LONG
      in if sz \<le> offset then Some sz
         else let sz = sz - result; offset = offset mod BITS_PER_LONG
              in if offset \<noteq> 0 then
                   do { w \<leftarrow> rd addr p;
                        let tmp = w OR drop_bit (BITS_PER_LONG - offset) (NOT 0) in
                        if sz < BITS_PER_LONG then Some (found_first_zero tmp result sz)
                        else if NOT tmp \<noteq> 0 then Some (result + ffz tmp)
                        else search_zero_from addr (p + 1) (result + BITS_PER_LONG)
                               (sz - BITS_PER_LONG) }
                 else search_zero_from addr p result sz)"

definition find_first_bit :: "ulong list \<Rightarrow> nat \<Rightarrow> nat option" where
  "find_first_bit addr sz = search_from addr 0 0 sz"

definition find_first_zero_bit :: "ulong list \<Rightarrow> nat \<Rightarrow> nat option" where
  "find_first_zero_bit addr sz = search_zero_from addr 0 0 sz"


section \<open>Facts on words\<close>

lemma take_bit_0_iff_bits: "take_bit s (w :: 'a::len word) = 0 \<longleftrightarrow> (\<forall>j < s. \<not> bit w j)"
  by (auto simp: bit_eq_iff bit_take_bit_iff) (metis bit_imp_le_length)

lemma word_neq_0_bit: "(w :: 'a::len word) \<noteq> 0 \<longleftrightarrow> (\<exists>j<LENGTH('a). bit w j)"
  by (auto simp: bit_eq_iff)

lemma mask_literals:
  "(0xffff :: ulong) = mask 16" "(0xff :: ulong) = mask 8" "(0xf :: ulong) = mask 4"
  "(0x3 :: ulong) = mask 2" "(0x1 :: ulong) = mask 1"
  by (simp_all add: mask_eq_exp_minus_1)

lemma top_mask_literals:
  "(0xffff0000 :: u32) = NOT (mask 16)" "(0xff000000 :: u32) = NOT (mask 24)"
  "(0xf0000000 :: u32) = NOT (mask 28)" "(0xc0000000 :: u32) = NOT (mask 30)"
  "(0x80000000 :: u32) = NOT (mask 31)"
  by (simp_all add: mask_eq_exp_minus_1)

lemma and_not_mask_0_iff: "(x :: u32) AND NOT (mask k) = 0 \<longleftrightarrow> unat x < 2 ^ k"
proof -
  have "x AND NOT (mask k) = 0 \<longleftrightarrow> take_bit k x = x"
    by (auto simp: bit_eq_iff bit_simps)
  also have "\<dots> \<longleftrightarrow> take_bit k (unat x) = unat x"
    by (metis unsigned_take_bit_eq word_unat_eq_iff)
  also have "\<dots> \<longleftrightarrow> unat x < 2 ^ k"
    by (simp add: take_bit_nat_eq_self_iff)
  finally show ?thesis .
qed

lemma unat_push_bit_small:
  assumes "unat (x :: u32) * 2 ^ s < 2 ^ 32"
  shows "unat (push_bit s x) = unat x * 2 ^ s"
proof -
  have "unat (push_bit s x) = take_bit 32 (push_bit s (unat x))"
    by (simp add: unsigned_push_bit_eq)
  with assms show ?thesis by (simp add: push_bit_eq_mult take_bit_nat_eq_self)
qed

section \<open>fls\<close>

lemma fls_step_inv:
  assumes "fls_step (NOT (mask (32 - s))) s (x, r) = (x', r')"
    and "unat x * 2 ^ r = n * 2 ^ 32" and "s \<le> r" and "s \<le> 32"
  shows "unat x' * 2 ^ r' = n * 2 ^ 32" and "r - s \<le> r'" and "r' \<le> r"
    and "2 ^ (32 - 2 * s) \<le> unat x \<Longrightarrow> 2 * s \<le> 32 \<Longrightarrow> 2 ^ (32 - s) \<le> unat x'"
proof -
  have e: "(2::nat) ^ (32 - s) * 2 ^ s = 2 ^ 32" "(2::nat) ^ (r - s) * 2 ^ s = 2 ^ r"
    using assms(3,4) by (simp_all flip: power_add)
  have push: "unat (push_bit s x) = unat x * 2 ^ s" if "unat x < 2 ^ (32 - s)"
  proof (rule unat_push_bit_small)
    from that have "unat x * 2 ^ s < 2 ^ (32 - s) * 2 ^ s" by simp
    with e(1) show "unat x * 2 ^ s < 2 ^ 32" by simp
  qed
  have cases: "(unat x < 2 ^ (32 - s) \<and> x' = push_bit s x \<and> r' = r - s) \<or>
      (\<not> unat x < 2 ^ (32 - s) \<and> x' = x \<and> r' = r)"
    using assms(1) by (auto simp: fls_step_def and_not_mask_0_iff split: if_splits)
  show "unat x' * 2 ^ r' = n * 2 ^ 32"
    using cases push assms(2) e(2) by (auto simp: algebra_simps)
  show "r - s \<le> r'" and "r' \<le> r" using cases by auto
  assume a: "2 ^ (32 - 2 * s) \<le> unat x" "2 * s \<le> 32"
  show "2 ^ (32 - s) \<le> unat x'"
  proof (cases "unat x < 2 ^ (32 - s)")
    case True
    have "(2::nat) ^ (32 - s) = 2 ^ (32 - 2 * s) * 2 ^ s"
      using a(2) by (simp flip: power_add)
    also have "\<dots> \<le> unat x * 2 ^ s" using a(1) by simp
    finally show ?thesis using True cases push by simp
  qed (use cases in auto)
qed

lemma fls_bounds:
  assumes "x \<noteq> 0"
  shows "2 ^ (fls x - 1) \<le> unat x" and "unat x < 2 ^ fls x" and "1 \<le> fls x" and "fls x \<le> 32"
proof -
  obtain x1 r1 where s1: "fls_step (NOT (mask (32 - 16))) 16 (x, 32) = (x1, r1)" by fastforce
  obtain x2 r2 where s2: "fls_step (NOT (mask (32 - 8))) 8 (x1, r1) = (x2, r2)" by fastforce
  obtain x3 r3 where s3: "fls_step (NOT (mask (32 - 4))) 4 (x2, r2) = (x3, r3)" by fastforce
  obtain x4 r4 where s4: "fls_step (NOT (mask (32 - 2))) 2 (x3, r3) = (x4, r4)" by fastforce
  obtain x5 r5 where s5: "fls_step (NOT (mask (32 - 1))) 1 (x4, r4) = (x5, r5)" by fastforce
  have fls: "fls x = r5"
    using assms s1 s2 s3 s4 s5 by (simp add: fls_def top_mask_literals)
  from assms have x: "0 < unat x" by (simp add: unat_gt_0)
  note i1 = fls_step_inv [OF s1, of "unat x"]
  note i2 = fls_step_inv [OF s2, of "unat x"]
  note i3 = fls_step_inv [OF s3, of "unat x"]
  note i4 = fls_step_inv [OF s4, of "unat x"]
  note i5 = fls_step_inv [OF s5, of "unat x"]
  have r1: "16 \<le> r1" "r1 \<le> 32" "unat x1 * 2 ^ r1 = unat x * 2 ^ 32" "2 ^ 16 \<le> unat x1"
    using i1 x by auto
  have r2: "8 \<le> r2" "r2 \<le> 32" "unat x2 * 2 ^ r2 = unat x * 2 ^ 32" "2 ^ 24 \<le> unat x2"
    using i2 r1 by auto
  have r3: "4 \<le> r3" "r3 \<le> 32" "unat x3 * 2 ^ r3 = unat x * 2 ^ 32" "2 ^ 28 \<le> unat x3"
    using i3 r2 by auto
  have r4: "2 \<le> r4" "r4 \<le> 32" "unat x4 * 2 ^ r4 = unat x * 2 ^ 32" "2 ^ 30 \<le> unat x4"
    using i4 r3 by auto
  have r5: "1 \<le> r5" "r5 \<le> 32" "unat x5 * 2 ^ r5 = unat x * 2 ^ 32" "2 ^ 31 \<le> unat x5"
    using i5 r4 by auto
  have "unat x * 2 ^ 32 < 2 ^ 32 * 2 ^ r5"
  proof -
    have "unat x5 * 2 ^ r5 < 2 ^ 32 * 2 ^ r5" using unat_bound32 [of x5] by simp
    with r5(3) show ?thesis by simp
  qed
  then have up: "unat x < 2 ^ r5" by (simp add: mult.commute)
  have "2 ^ 31 * 2 ^ r5 \<le> unat x * 2 ^ 32"
    using r5(3,4) by (metis mult_le_mono1)
  moreover have "(2::nat) ^ 31 * 2 ^ r5 = 2 ^ (r5 - 1) * 2 ^ 32"
    using r5(1) by (cases r5) auto
  ultimately have lo: "2 ^ (r5 - 1) \<le> unat x" by simp
  show "2 ^ (fls x - 1) \<le> unat x" "unat x < 2 ^ fls x" "1 \<le> fls x" "fls x \<le> 32"
    using lo up r5(1,2) fls by auto
qed


text \<open>\<open>is_power_of_2\<close> holds exactly of the 32 powers of two.\<close>

lemma bit_top_unat:
  assumes "2 ^ k \<le> unat (n :: u32)" and "unat n < 2 ^ Suc k"
  shows "bit n k"
proof -
  have "unat n div 2 ^ k = 1"
    using assms by (intro div_nat_eqI) auto
  then have "bit (unat n) k" by (simp add: bit_iff_odd)
  then show ?thesis by (simp add: bit_unsigned_iff)
qed

lemma is_power_of_2_iff: "is_power_of_2 n \<longleftrightarrow> (\<exists>k<32. n = 2 ^ k)"
proof
  assume "is_power_of_2 n"
  then have nz: "n \<noteq> 0" and an: "n AND (n - 1) = 0" by (auto simp: is_power_of_2_def)
  define k where "k = fls n - 1"
  have b: "2 ^ k \<le> unat n" "unat n < 2 ^ Suc k" "k < 32"
    using fls_bounds [OF nz] by (auto simp: k_def)
  have "unat n = 2 ^ k"
  proof (rule ccontr)
    assume "unat n \<noteq> 2 ^ k"
    moreover have "unat (n - 1) = unat n - 1"
      using nz by (simp add: unat_minus_one)
    ultimately have "2 ^ k \<le> unat (n - 1)" "unat (n - 1) < 2 ^ Suc k" using b by auto
    then have "bit (n - 1) k" by (rule bit_top_unat)
    moreover have "bit n k" using b by (intro bit_top_unat)
    ultimately have "bit (n AND (n - 1)) k" by (simp add: bit_simps)
    with an show False by simp
  qed
  with b(3) have "n = 2 ^ k"
    by (simp add: word_unat_eq_iff unat_pow2)
  with b(3) show "\<exists>k<32. n = 2 ^ k" by blast
next
  assume "\<exists>k<32. n = 2 ^ k"
  then obtain k where k: "k < 32" "n = 2 ^ k" by blast
  have "take_bit k (2 ^ k :: u32) = 0" by (auto simp: take_bit_0_iff_bits bit_exp_iff)
  with k have "n AND (n - 1) = 0" by (simp add: and_pow2_minus_1)
  moreover have "unat n \<noteq> 0" using k by (simp add: unat_pow2)
  ultimately show "is_power_of_2 n" by (auto simp: is_power_of_2_def)
qed


text \<open>\<open>roundup_pow_of_two\<close> is the least power of two that is not smaller.\<close>

lemma roundup_pow_of_two_spec:
  assumes "1 \<le> unat n" and "unat n \<le> 2 ^ 31"
  shows "\<exists>k<32. roundup_pow_of_two n = 2 ^ k \<and> unat n \<le> 2 ^ k \<and> (k = 0 \<or> 2 ^ (k - 1) < unat n)"
proof (cases "n = 1")
  case True
  then show ?thesis by (intro exI [of _ 0]) (simp add: roundup_pow_of_two_def fls_def)
next
  case False
  with assms(1) have n2: "1 < unat n"
    by (metis le_neq_implies_less unat_1 word_unat_eq_iff)
  then have "n \<noteq> 0" by auto
  then have u: "unat (n - 1) = unat n - 1" by (rule unat_minus_one)
  with n2 have nz: "n - 1 \<noteq> 0" by auto
  define k where "k = fls (n - 1)"
  have b: "2 ^ (k - 1) \<le> unat n - 1" "unat n - 1 < 2 ^ k" "1 \<le> k"
    using fls_bounds [OF nz] by (auto simp: k_def u)
  have "k < 32"
  proof (rule ccontr)
    assume "\<not> k < 32"
    then have "31 \<le> k - 1" by simp
    then have "(2::nat) ^ 31 \<le> 2 ^ (k - 1)" by (intro power_increasing) auto
    also note b(1)
    finally show False using assms(2) n2 by simp
  qed
  moreover have "roundup_pow_of_two n = 2 ^ k"
    by (simp add: roundup_pow_of_two_def k_def push_bit_eq_mult)
  ultimately show ?thesis using b n2 by (intro exI [of _ k]) auto
qed

section \<open>__ffs\<close>

lemma ffs_step_inv:
  assumes "ffs_step (mask s) s (w, n) = (w', n')" and "w = drop_bit n w0"
    and "\<forall>j<n. \<not> bit w0 j" and "take_bit (2 * s) w \<noteq> 0"
  shows "w' = drop_bit n' w0" and "\<forall>j<n'. \<not> bit w0 j" and "take_bit s w' \<noteq> 0"
proof -
  have "w AND mask s = take_bit s w" by (simp add: take_bit_eq_mask)
  then have c: "(take_bit s w = 0 \<and> w' = drop_bit s w \<and> n' = n + s) \<or>
      (take_bit s w \<noteq> 0 \<and> w' = w \<and> n' = n)"
    using assms(1) by (auto simp: ffs_step_def split: if_splits)
  show "w' = drop_bit n' w0" using c assms(2) by (auto simp: add.commute)
  show "\<forall>j<n'. \<not> bit w0 j"
  proof (intro allI impI)
    fix j assume "j < n'"
    show "\<not> bit w0 j"
    proof (cases "j < n")
      case False
      with \<open>j < n'\<close> c have t: "take_bit s w = 0" "j - n < s" by auto
      then have "\<not> bit w (j - n)" by (auto simp: take_bit_0_iff_bits)
      with False assms(2) show ?thesis by (simp add: bit_drop_bit_eq)
    qed (use assms(3) in auto)
  qed
  show "take_bit s w' \<noteq> 0"
  proof (cases "take_bit s w = 0")
    case True
    from assms(4) obtain j where j: "j < 2 * s" "bit w j" by (auto simp: take_bit_0_iff_bits)
    with True have "s \<le> j" using take_bit_0_iff_bits [of s w] not_less by blast
    with j have "bit (drop_bit s w) (j - s)" "j - s < s" by (auto simp: bit_drop_bit_eq)
    with True c show ?thesis by (auto simp: take_bit_0_iff_bits)
  qed (use c in auto)
qed

lemma ffs_word_spec:
  assumes "w \<noteq> 0"
  shows "bit w (ffs_word w)" and "\<forall>j<ffs_word w. \<not> bit w j" and "ffs_word w < 32"
proof -
  obtain w1 n1 where s1: "ffs_step (mask 16) 16 (w, 0) = (w1, n1)" by fastforce
  obtain w2 n2 where s2: "ffs_step (mask 8) 8 (w1, n1) = (w2, n2)" by fastforce
  obtain w3 n3 where s3: "ffs_step (mask 4) 4 (w2, n2) = (w3, n3)" by fastforce
  obtain w4 n4 where s4: "ffs_step (mask 2) 2 (w3, n3) = (w4, n4)" by fastforce
  have "ffs_word w = (if w4 AND 1 = 0 then n4 + 1 else n4)"
    by (simp only: ffs_word_def mask_literals(1-4) s1 s2 s3 s4 prod.case)
  moreover have "w4 AND 1 = 0 \<longleftrightarrow> \<not> bit w4 0"
    by (simp add: and_one_eq mod_2_eq_odd bit_0)
  ultimately have ffs: "ffs_word w = (if bit w4 0 then n4 else n4 + 1)" by simp
  have w0: "w = drop_bit 0 w" "\<forall>j<0. \<not> bit w j" "take_bit (2 * 16) w \<noteq> 0"
    using assms take_bit_length_eq [of w] by simp_all
  note i1 = ffs_step_inv [OF s1 w0]
  have t1: "take_bit (2 * 8) w1 \<noteq> 0" using i1(3) by simp
  note i2 = ffs_step_inv [OF s2 i1(1,2) t1]
  have t2: "take_bit (2 * 4) w2 \<noteq> 0" using i2(3) by simp
  note i3 = ffs_step_inv [OF s3 i2(1,2) t2]
  have t3: "take_bit (2 * 2) w3 \<noteq> 0" using i3(3) by simp
  note i4 = ffs_step_inv [OF s4 i3(1,2) t3]
  from i4(3) have "bit w4 0 \<or> bit w4 1"
    by (auto simp: take_bit_0_iff_bits less_2_cases_iff)
  with i4(1) have b: "bit w n4 \<or> bit w (n4 + 1)" by (auto simp: bit_drop_bit_eq)
  have z: "bit w4 0 \<longleftrightarrow> bit w n4" using i4(1) by (simp add: bit_drop_bit_eq)
  show r: "bit w (ffs_word w)" using b z by (auto simp: ffs)
  then show "ffs_word w < 32" using bit_imp_le_length [of w] by auto
  show "\<forall>j<ffs_word w. \<not> bit w j" using i4(2) z by (auto simp: ffs less_Suc_eq)
qed


section \<open>The searches\<close>

text \<open>
  What a search of the set bits of \<open>P\<close> below \<open>sz\<close> from \<open>off\<close> on returns: the first
  position at or after \<open>off\<close> with the property, or \<open>sz\<close>.
\<close>

definition next_in :: "(nat \<Rightarrow> bool) \<Rightarrow> nat \<Rightarrow> nat \<Rightarrow> nat \<Rightarrow> bool" where
  "next_in P sz off r \<longleftrightarrow>
     (if sz \<le> off then r = sz
      else off \<le> r \<and> r \<le> sz \<and> (\<forall>i. off \<le> i \<and> i < r \<longrightarrow> \<not> P i) \<and> (r < sz \<longrightarrow> P r))"

lemma next_in_unique: "next_in P sz off r \<Longrightarrow> next_in P sz off r' \<Longrightarrow> r = r'"
  unfolding next_in_def by (metis linorder_neqE_nat le_trans not_le)

lemma next_in_extend:
  assumes "next_in P sz a r" and "off \<le> a" and "a \<le> sz"
    and "\<And>i. off \<le> i \<Longrightarrow> i < a \<Longrightarrow> \<not> P i"
  shows "next_in P sz off r"
proof (cases "sz \<le> a")
  case True
  with assms show ?thesis by (auto simp: next_in_def)
next
  case False
  with assms(1) have r: "a \<le> r" "r \<le> sz" "\<And>i. a \<le> i \<Longrightarrow> i < r \<Longrightarrow> \<not> P i" "r < sz \<Longrightarrow> P r"
    by (auto simp: next_in_def)
  then have "\<not> P i" if "off \<le> i" "i < r" for i
    using that assms(4) [of i] by (cases "i < a") auto
  with r assms(2) False show ?thesis by (auto simp: next_in_def)
qed

lemma next_in_none: "next_in P sz off sz \<Longrightarrow> off \<le> i \<Longrightarrow> i < sz \<Longrightarrow> \<not> P i"
  by (auto simp: next_in_def split: if_splits)

lemma next_inD:
  assumes "next_in P sz off r" and "r < sz"
  shows "off \<le> r" and "P r" and "off \<le> i \<Longrightarrow> i < r \<Longrightarrow> \<not> P i"
  using assms by (auto simp: next_in_def split: if_splits)

lemma tb_word: "p * 32 \<le> i \<Longrightarrow> i < (p + 1) * 32 \<Longrightarrow> tb bm i \<longleftrightarrow> bit (bm ! p) (i - p * 32)"
proof -
  assume a: "p * 32 \<le> i" "i < (p + 1) * 32"
  then have "i div 32 = p" by (intro div_nat_eqI) auto
  then show ?thesis using a by (simp add: tb_def minus_div_mult_eq_mod [symmetric])
qed

lemma tb_word_add: "j < 32 \<Longrightarrow> tb bm (p * 32 + j) \<longleftrightarrow> bit (bm ! p) j"
  by (simp add: tb_def)

text \<open>The first set bit of one word, shifted to the word's position in the array.\<close>

lemma word_next_in:
  assumes "\<forall>j<32. bit w j \<longrightarrow> j < lim" and "w \<noteq> 0" and "lim \<le> 32"
    and "\<forall>j<32. (off \<le> j \<and> j < lim \<longrightarrow> (bit w j \<longleftrightarrow> P (p * 32 + j)))"
    and "\<forall>j<off. \<not> bit w j" and "off < lim"
    and "p * 32 + lim \<le> sz"
  shows "next_in P sz (p * 32 + off) (p * 32 + ffs_word w)"
proof -
  note f = ffs_word_spec [OF assms(2)]
  have l: "ffs_word w < lim" using f(1,3) assms(1) by blast
  have o: "off \<le> ffs_word w" using f(1) assms(5) not_less by blast
  have "\<not> P i" if "p * 32 + off \<le> i" "i < p * 32 + ffs_word w" for i
  proof -
    define j where "j = i - p * 32"
    have j: "i = p * 32 + j" "off \<le> j" "j < ffs_word w" using that by (auto simp: j_def)
    with f(2) assms(4) l f(3) show ?thesis by (metis less_trans)
  qed
  moreover have "P (p * 32 + ffs_word w)" using f assms(4) l o by blast
  ultimately show ?thesis
    using assms(6,7) o l by (auto simp: next_in_def)
qed

text \<open>
  The word loop over a view \<open>v\<close> of the words (\<open>id\<close> for set bits, \<open>NOT\<close> for zero bits).
\<close>

definition vtb :: "(ulong \<Rightarrow> ulong) \<Rightarrow> ulong list \<Rightarrow> nat \<Rightarrow> bool" where
  "vtb f bm i \<longleftrightarrow> bit (f (bm ! (i div 32))) (i mod 32)"

lemma vtb_word_add: "j < 32 \<Longrightarrow> vtb f bm (p * 32 + j) \<longleftrightarrow> bit (f (bm ! p)) j"
  by (simp add: vtb_def)

lemma vtb_id: "vtb id bm = tb bm"
  by (simp add: fun_eq_iff vtb_def tb_def)

lemma vtb_not: "vtb (\<lambda>w. NOT w) bm = (\<lambda>i. \<not> tb bm i)"
  by (simp add: fun_eq_iff vtb_def tb_def bit_not_iff)

lemma scan_words_spec:
  assumes "scan_words f bm p (p * 32) n = Some r"
  shows "(\<exists>q. r = Inl (bm ! q, q * 32) \<and> p \<le> q \<and> (q + 1) * 32 \<le> p * 32 + n \<and> f (bm ! q) \<noteq> 0 \<and>
            q < length bm \<and> (\<forall>i. p * 32 \<le> i \<and> i < q * 32 \<longrightarrow> \<not> vtb f bm i)) \<or>
         (\<exists>q. r = Inr (q, q * 32, n - (q - p) * 32) \<and> p \<le> q \<and> n - (q - p) * 32 < 32 \<and> (q - p) * 32 \<le> n \<and>
            (\<forall>i. p * 32 \<le> i \<and> i < q * 32 \<longrightarrow> \<not> vtb f bm i))"
  using assms
proof (induction n arbitrary: p rule: less_induct)
  case (less n)
  show ?case
  proof (cases "32 \<le> n")
    case False
    with less.prems have "r = Inr (p, p * 32, n)" by (simp add: scan_words.simps)
    with False show ?thesis by (intro disjI2 exI [of _ p]) auto
  next
    case True
    with less.prems have p: "p < length bm"
      by (auto simp: scan_words.simps [of f bm p] rd_def split: if_splits)
    show ?thesis
    proof (cases "f (bm ! p) = 0")
      case False
      with True p less.prems have "r = Inl (bm ! p, p * 32)"
        by (simp add: scan_words.simps [of f bm p] rd_def)
      with False True p show ?thesis by (intro disjI1 exI [of _ p]) auto
    next
      case z: True
      with True p less.prems have "scan_words f bm (p + 1) ((p + 1) * 32) (n - 32) = Some r"
        by (simp add: scan_words.simps [of f bm p] rd_def add.commute)
      from less.IH [OF _ this] True
      have IH: "(\<exists>q. r = Inl (bm ! q, q * 32) \<and> p + 1 \<le> q \<and> (q + 1) * 32 \<le> (p + 1) * 32 + (n - 32) \<and>
            f (bm ! q) \<noteq> 0 \<and> q < length bm \<and> (\<forall>i. (p + 1) * 32 \<le> i \<and> i < q * 32 \<longrightarrow> \<not> vtb f bm i)) \<or>
         (\<exists>q. r = Inr (q, q * 32, n - 32 - (q - (p + 1)) * 32) \<and> p + 1 \<le> q \<and>
            n - 32 - (q - (p + 1)) * 32 < 32 \<and> (q - (p + 1)) * 32 \<le> n - 32 \<and>
            (\<forall>i. (p + 1) * 32 \<le> i \<and> i < q * 32 \<longrightarrow> \<not> vtb f bm i))"
        by simp
      have zz: "\<not> vtb f bm i" if "p * 32 \<le> i" "i < (p + 1) * 32" for i
        using z vtb_word_add [of "i - p * 32" f bm p] that by auto
      have step: "(\<forall>i. p * 32 \<le> i \<and> i < q * 32 \<longrightarrow> \<not> vtb f bm i)"
        if "\<forall>i. (p + 1) * 32 \<le> i \<and> i < q * 32 \<longrightarrow> \<not> vtb f bm i" for q
        using that zz by (meson not_le)
      from IH show ?thesis
      proof (elim disjE exE conjE)
        fix q assume "r = Inl (bm ! q, q * 32)" "p + 1 \<le> q" "f (bm ! q) \<noteq> 0" "q < length bm"
          "(q + 1) * 32 \<le> (p + 1) * 32 + (n - 32)"
          "\<forall>i. (p + 1) * 32 \<le> i \<and> i < q * 32 \<longrightarrow> \<not> vtb f bm i"
        with step True show ?thesis by (intro disjI1 exI [of _ q]) auto
      next
        fix q assume a: "r = Inr (q, q * 32, n - 32 - (q - (p + 1)) * 32)" "p + 1 \<le> q"
          "n - 32 - (q - (p + 1)) * 32 < 32" "(q - (p + 1)) * 32 \<le> n - 32"
          "\<forall>i. (p + 1) * 32 \<le> i \<and> i < q * 32 \<longrightarrow> \<not> vtb f bm i"
        have "(q - p) * 32 = (q - (p + 1)) * 32 + 32" using a(2) by simp
        with a step True show ?thesis
          by (intro disjI2 exI [of _ q]) (auto simp: add.commute)
      qed
    qed
  qed
qed

lemma scan_words_defined:
  assumes "p * 32 + n \<le> 32 * length bm"
  shows "\<exists>r. scan_words f bm p res n = Some r"
  using assms
proof (induction n arbitrary: p res rule: less_induct)
  case (less n)
  show ?case
  proof (cases "32 \<le> n")
    case True
    with less.prems have "p < length bm" by simp
    with True less.IH [of "n - 32" "p + 1" "res + 32"] less.prems show ?thesis
      by (auto simp: scan_words.simps [of f bm p] rd_def)
  qed (simp add: scan_words.simps)
qed


lemma last_word_next_in:
  assumes "0 < n" and "n < 32" and "off < n"
    and "\<forall>j<off. \<not> bit w j" and "\<forall>j<32. off \<le> j \<longrightarrow> (bit w j \<longleftrightarrow> P (p * 32 + j))"
  shows "next_in P (p * 32 + n) (p * 32 + off) (found_first w (p * 32) n)"
proof -
  define w' where "w' = w AND drop_bit (32 - n) (NOT 0)"
  have b: "bit w' j \<longleftrightarrow> bit w j \<and> j < n" for j
    using assms(1,2) bit_imp_le_length [of w j]
    by (auto simp: w'_def bit_and_iff bit_drop_bit_eq bit_not_iff bit_mask_iff)
  have ff: "found_first w (p * 32) n = (if w' = 0 then p * 32 + n else p * 32 + ffs_word w')"
    by (simp only: found_first_def w'_def Let_def)
  show ?thesis
  proof (cases "w' = 0")
    case True
    have "\<not> P i" if "p * 32 + off \<le> i" "i < p * 32 + n" for i
    proof -
      define j where "j = i - p * 32"
      have "i = p * 32 + j" "off \<le> j" "j < n" using that by (auto simp: j_def)
      with b [of j] True assms(2,5) show ?thesis by auto
    qed
    with True ff assms(3) show ?thesis by (simp add: next_in_def)
  next
    case False
    have "next_in P (p * 32 + n) (p * 32 + off) (p * 32 + ffs_word w')"
      using assms False b by (intro word_next_in [where lim = n]) auto
    with False ff show ?thesis by simp
  qed
qed

lemma push_bit_NOT_0: "n < 32 \<Longrightarrow> push_bit n (NOT 0) = NOT (drop_bit (32 - n) (NOT 0 :: ulong))"
  by (rule bit_eqI) (auto simp: bit_push_bit_iff bit_not_iff bit_drop_bit_eq)

lemma found_first_zero_not:
  assumes "n < 32"
  shows "found_first_zero w res n = found_first (NOT w) res n"
proof -
  have e: "NOT (w OR push_bit n (NOT 0)) = NOT w AND drop_bit (32 - n) (NOT 0)"
    unfolding push_bit_NOT_0 [OF assms] by simp
  have z: "w OR push_bit n (NOT 0) = NOT 0 \<longleftrightarrow> NOT (w OR push_bit n (NOT 0)) = 0"
    by (metis bit.double_compl)
  show ?thesis
    unfolding found_first_zero_def found_first_def Let_def ffz_def z e ..
qed

text \<open>
  Both families of searches in one form, over the view \<open>f\<close>. The code's zero search is this
  form at \<open>NOT\<close>.
\<close>

definition vsearch :: "(ulong \<Rightarrow> ulong) \<Rightarrow> ulong list \<Rightarrow> nat \<Rightarrow> nat \<Rightarrow> nat \<Rightarrow> nat option" where
  "vsearch f addr p result n =
     do { r \<leftarrow> scan_words f addr p result n;
          case r of
            Inl (tmp, result) \<Rightarrow> Some (result + ffs_word (f tmp))
          | Inr (p, result, n) \<Rightarrow>
              if n = 0 then Some result
              else do { tmp \<leftarrow> rd addr p; Some (found_first (f tmp) result n) } }"

lemma scan_words_rest_less:
  "scan_words f bm p res n = Some (Inr (q, res', m)) \<Longrightarrow> m < 32"
  by (induction f bm p res n rule: scan_words.induct)
    (subst (asm) (2) scan_words.simps, auto split: if_splits bind_splits)

lemma search_from_eq: "search_from = vsearch id"
  unfolding fun_eq_iff search_from_def vsearch_def id_apply by simp

lemma search_zero_from_eq: "search_zero_from = vsearch (\<lambda>w. NOT w)"
proof (intro ext)
  fix bm p res n
  show "search_zero_from bm p res n = vsearch (\<lambda>w. NOT w) bm p res n"
  proof (cases "scan_words (\<lambda>w. NOT w) bm p res n")
    case (Some r)
    show ?thesis
    proof (cases r)
      case (Inr a)
      obtain q res' m where a: "a = (q, res', m)" by (cases a)
      with Some Inr have "m < 32" by (auto dest: scan_words_rest_less)
      with Some Inr a show ?thesis
        by (simp add: search_zero_from_def vsearch_def found_first_zero_not)
    qed (use Some in \<open>auto simp: search_zero_from_def vsearch_def ffz_def\<close>)
  qed (simp add: search_zero_from_def vsearch_def)
qed

lemma vsearch_next_in:
  assumes "vsearch f bm p (p * 32) n = Some r"
  shows "next_in (vtb f bm) (p * 32 + n) (p * 32) r"
proof -
  from assms obtain s where s: "scan_words f bm p (p * 32) n = Some s"
    by (auto simp: vsearch_def split: bind_splits)
  from scan_words_spec [OF this] show ?thesis
  proof (elim disjE exE conjE)
    fix q assume a: "s = Inl (bm ! q, q * 32)" "p \<le> q" "(q + 1) * 32 \<le> p * 32 + n"
      "f (bm ! q) \<noteq> 0" "\<forall>i. p * 32 \<le> i \<and> i < q * 32 \<longrightarrow> \<not> vtb f bm i"
    with assms s have r: "r = q * 32 + ffs_word (f (bm ! q))" by (simp add: vsearch_def)
    have "next_in (vtb f bm) (p * 32 + n) (q * 32 + 0) (q * 32 + ffs_word (f (bm ! q)))"
      using a(3,4) by (intro word_next_in [where lim = 32]) (auto simp: vtb_word_add)
    with a r show ?thesis
      by (intro next_in_extend [where a = "q * 32" and off = "p * 32"]) auto
  next
    fix q assume a: "s = Inr (q, q * 32, n - (q - p) * 32)" "p \<le> q" "n - (q - p) * 32 < 32"
      "(q - p) * 32 \<le> n" "\<forall>i. p * 32 \<le> i \<and> i < q * 32 \<longrightarrow> \<not> vtb f bm i"
    define m where "m = n - (q - p) * 32"
    have e: "q * 32 + m = p * 32 + n" using a(2,4) by (simp add: m_def diff_mult_distrib)
    show ?thesis
    proof (cases "m = 0")
      case True
      with assms s a(1) have "r = q * 32" by (simp add: vsearch_def m_def [symmetric])
      with True e a(2,5) show ?thesis by (auto simp: next_in_def)
    next
      case False
      with assms s a(1) have r: "r = found_first (f (bm ! q)) (q * 32) m"
        by (auto simp: vsearch_def rd_def m_def [symmetric] split: if_splits)
      have "next_in (vtb f bm) (q * 32 + m) (q * 32 + 0) r"
        unfolding r using False a(3) by (intro last_word_next_in) (auto simp: m_def vtb_word_add)
      with a(2,5) e show ?thesis
        by (intro next_in_extend [where a = "q * 32" and off = "p * 32"]) auto
    qed
  qed
qed


lemma vsearch_defined: "p * 32 + n \<le> 32 * length bm \<Longrightarrow> \<exists>r. vsearch f bm p (p * 32) n = Some r"
proof -
  assume le: "p * 32 + n \<le> 32 * length bm"
  from scan_words_defined [OF this] obtain s where s: "scan_words f bm p (p * 32) n = Some s" by blast
  from scan_words_spec [OF this] show ?thesis
  proof (elim disjE exE conjE)
    fix q assume a: "s = Inr (q, q * 32, n - (q - p) * 32)" "p \<le> q" "(q - p) * 32 \<le> n"
    show ?thesis
    proof (cases "n - (q - p) * 32 = 0")
      case False
      with le a(2,3) have "q < length bm" by (simp add: diff_mult_distrib)
      with s a(1) show ?thesis by (simp add: vsearch_def rd_def)
    qed (use s a(1) in \<open>simp add: vsearch_def\<close>)
  qed (use s in \<open>simp add: vsearch_def\<close>)
qed

text \<open>The \<open>next\<close> searches over a view.\<close>

definition vnext :: "(ulong \<Rightarrow> ulong) \<Rightarrow> ulong list \<Rightarrow> nat \<Rightarrow> nat \<Rightarrow> nat option" where
  "vnext f addr n offset =
     (let p = offset div 32; result = offset - offset mod 32
      in if n \<le> offset then Some n
         else let n = n - result; offset = offset mod 32
              in if offset \<noteq> 0 then
                   do { w \<leftarrow> rd addr p;
                        let tmp = f w AND push_bit offset (NOT 0) in
                        if n < 32 then Some (found_first tmp result n)
                        else if tmp \<noteq> 0 then Some (result + ffs_word tmp)
                        else vsearch f addr (p + 1) (result + 32) (n - 32) }
                 else vsearch f addr p result n)"

lemma find_next_bit_eq: "find_next_bit = vnext id"
  unfolding fun_eq_iff find_next_bit_def vnext_def search_from_eq id_apply by simp

lemma not_or_drop:
  assumes "o' < 32"
  shows "NOT (w OR drop_bit (32 - o') (NOT 0)) = NOT w AND push_bit o' (NOT 0 :: ulong)"
  using assms push_bit_NOT_0 [of o'] by simp

lemma find_next_zero_bit_eq: "find_next_zero_bit = vnext (\<lambda>w. NOT w)"
proof (intro ext)
  fix bm and n off :: nat
  have o: "off mod 32 < 32" by simp
  show "find_next_zero_bit bm n off = vnext (\<lambda>w. NOT w) bm n off"
  proof (cases "n - (off - off mod 32) < 32")
    case True
    then show ?thesis
      unfolding find_next_zero_bit_def vnext_def search_zero_from_eq Let_def ffz_def
        not_or_drop [OF o] found_first_zero_not [OF True] by simp
  next
    case False
    then show ?thesis
      unfolding find_next_zero_bit_def vnext_def search_zero_from_eq Let_def ffz_def
        not_or_drop [OF o] by simp
  qed
qed

lemma vnext_next_in:
  assumes "vnext f bm n off = Some r"
  shows "next_in (vtb f bm) n off r"
proof (cases "n \<le> off")
  case True
  with assms show ?thesis by (simp add: vnext_def next_in_def)
next
  case False
  define p j where "p = off div 32" and "j = off mod 32"
  have off: "off = p * 32 + j" "off - off mod 32 = p * 32" "j < 32"
    by (simp_all add: p_def j_def minus_mod_eq_div_mult)
  define m where "m = n - p * 32"
  have m: "n = p * 32 + m" "j < m" using False off by (auto simp: m_def)
  show ?thesis
  proof (cases "j = 0")
    case True
    with off(1) have e: "p * 32 = off" by simp
    from True assms False have "vsearch f bm p off (n - off) = Some r"
      by (simp add: vnext_def flip: p_def j_def)
    then have "vsearch f bm p (p * 32) m = Some r" by (simp add: e m_def)
    from vsearch_next_in [OF this] show ?thesis using m off True by simp
  next
    case j0: False
    define w where "w = f (bm ! p) AND push_bit j (NOT 0)"
    have b: "bit w i \<longleftrightarrow> bit (f (bm ! p)) i \<and> j \<le> i" for i
      using bit_imp_le_length [of "f (bm ! p)" i]
      by (auto simp: w_def bit_and_iff bit_push_bit_iff bit_not_iff bit_mask_iff)
    have "p < length bm"
    proof (rule ccontr)
      assume "\<not> p < length bm"
      then have "rd bm p = None" by (simp add: rd_def)
      with assms False j0 show False by (simp add: vnext_def flip: p_def j_def)
    qed
    with assms False j0 have r: "Some r =
       (if m < 32 then Some (found_first w (p * 32) m)
        else if w \<noteq> 0 then Some (p * 32 + ffs_word w)
        else vsearch f bm (p + 1) ((p + 1) * 32) (m - 32))"
      unfolding vnext_def Let_def off(2)
      unfolding p_def [symmetric] j_def [symmetric]
      by (auto simp: rd_def w_def m_def add.commute split: if_splits)
    consider "m < 32" | "32 \<le> m" "w \<noteq> 0" | "32 \<le> m" "w = 0" by linarith
    then show ?thesis
    proof cases
      case 1
      then have r1: "r = found_first w (p * 32) m" using r by simp
      have "next_in (vtb f bm) (p * 32 + m) (p * 32 + j) (found_first w (p * 32) m)"
        by (rule last_word_next_in) (use 1 m(2) in \<open>simp_all add: b vtb_word_add\<close>)
      with r1 m(1) off(1) show ?thesis by simp
    next
      case 2
      then have r2: "r = p * 32 + ffs_word w" using r by simp
      have "next_in (vtb f bm) (p * 32 + m) (p * 32 + j) (p * 32 + ffs_word w)"
        by (rule word_next_in [where lim = 32])
          (use 2 off(3) in \<open>simp_all add: b vtb_word_add\<close>)
      with r2 m(1) off(1) show ?thesis by simp
    next
      case 3
      with r have "vsearch f bm (p + 1) ((p + 1) * 32) (m - 32) = Some r" by simp
      from vsearch_next_in [OF this] 3 m(1)
      have nx: "next_in (vtb f bm) n ((p + 1) * 32) r" by simp
      have "\<not> vtb f bm i" if i: "off \<le> i" "i < (p + 1) * 32" for i
      proof -
        from i off(1) have "i = p * 32 + (i - p * 32)" "j \<le> i - p * 32" "i - p * 32 < 32" by auto
        with b [of "i - p * 32"] 3(2) vtb_word_add [of "i - p * 32" f bm p] show ?thesis by auto
      qed
      with nx 3(1) m(1) off show ?thesis by (intro next_in_extend [OF nx]) auto
    qed
  qed
qed

lemma vnext_defined:
  assumes "n \<le> 32 * length bm"
  shows "\<exists>r. vnext f bm n off = Some r"
proof (cases "n \<le> off")
  case False
  have e: "off - off mod 32 = off div 32 * 32" by (simp add: minus_mod_eq_div_mult)
  have le: "off div 32 * 32 \<le> off" by simp
  with False assms have p: "off div 32 < length bm" by linarith
  have "\<exists>r. vsearch f bm (off div 32) (off div 32 * 32) (n - off div 32 * 32) = Some r"
    using False assms le by (intro vsearch_defined) linarith
  moreover have "\<exists>r. vsearch f bm (off div 32 + 1) ((off div 32 + 1) * 32) (n - off div 32 * 32 - 32) = Some r"
    if "32 \<le> n - off div 32 * 32"
    using that assms by (intro vsearch_defined) simp
  ultimately show ?thesis
    using False p unfolding vnext_def Let_def e
    by (auto simp: rd_def add.commute)
qed (simp add: vnext_def)


section \<open>The contract of a bit search, and its four providers\<close>

text \<open>
  What a caller relies on: on an array long enough for \<open>n\<close> bits the search returns,
  without leaving the array, the first position with the property at or after the
  offset, or \<open>n\<close>.
\<close>

locale bit_search =
  fixes search :: "ulong list \<Rightarrow> nat \<Rightarrow> nat \<Rightarrow> nat option"
    and P :: "ulong list \<Rightarrow> nat \<Rightarrow> bool"
  assumes search_next: "search bm n off = Some r \<Longrightarrow> next_in (P bm) n off r"
    and search_defined: "n \<le> 32 * length bm \<Longrightarrow> \<exists>r. search bm n off = Some r"
begin

lemma search_total: "n \<le> 32 * length bm \<Longrightarrow> \<exists>r. search bm n off = Some r \<and> next_in (P bm) n off r"
  using search_defined search_next by blast

lemma search_eqI:
  "n \<le> 32 * length bm \<Longrightarrow> next_in (P bm) n off r \<Longrightarrow> search bm n off = Some r"
  using search_total next_in_unique by blast

lemma search_ge: "search bm n off = Some r \<Longrightarrow> off < n \<Longrightarrow> off \<le> r \<and> r \<le> n"
  by (drule search_next) (auto simp: next_in_def)

lemma search_hit: "search bm n off = Some r \<Longrightarrow> r < n \<Longrightarrow> P bm r"
  by (drule search_next) (auto simp: next_in_def split: if_splits)

lemma search_skips: "search bm n off = Some r \<Longrightarrow> off \<le> i \<Longrightarrow> i < r \<Longrightarrow> i < n \<Longrightarrow> \<not> P bm i"
  by (drule search_next) (auto simp: next_in_def split: if_splits)

lemma search_miss: "search bm n off = Some n \<Longrightarrow> off \<le> i \<Longrightarrow> i < n \<Longrightarrow> \<not> P bm i"
  by (rule search_skips)

end

interpretation nb: bit_search find_next_bit tb
proof
  show "next_in (tb bm) n off r" if "find_next_bit bm n off = Some r" for bm n off r
    using vnext_next_in [of id] that by (simp add: find_next_bit_eq vtb_id)
  show "\<exists>r. find_next_bit bm n off = Some r" if "n \<le> 32 * length bm" for bm n off
    using vnext_defined [OF that] by (simp add: find_next_bit_eq)
qed

interpretation nzb: bit_search find_next_zero_bit "\<lambda>bm i. \<not> tb bm i"
proof
  show "next_in (\<lambda>i. \<not> tb bm i) n off r" if "find_next_zero_bit bm n off = Some r" for bm n off r
    using vnext_next_in [of "\<lambda>w. NOT w"] that by (simp add: find_next_zero_bit_eq vtb_not)
  show "\<exists>r. find_next_zero_bit bm n off = Some r" if "n \<le> 32 * length bm" for bm n off
    using vnext_defined [OF that] by (simp add: find_next_zero_bit_eq)
qed

text \<open>\<open>find_first_bit\<close> and \<open>find_first_zero_bit\<close> are the searches from offset zero.\<close>

lemma vsearch_0_vnext: "vsearch f bm 0 0 n = vnext f bm n 0"
  by (auto simp: vnext_def vsearch_def scan_words.simps)

lemma find_first_bit_eq: "find_first_bit bm n = find_next_bit bm n 0"
  by (simp add: find_first_bit_def search_from_eq vsearch_0_vnext find_next_bit_eq)

lemma find_first_zero_bit_eq: "find_first_zero_bit bm n = find_next_zero_bit bm n 0"
  by (simp add: find_first_zero_bit_def search_zero_from_eq vsearch_0_vnext find_next_zero_bit_eq)

section \<open>Single-bit operations\<close>

lemma bit_one_shift: "drop_bit k (w :: ulong) AND 1 \<noteq> 0 \<longleftrightarrow> bit w k"
  by (simp add: and_one_eq mod_2_eq_odd bit_iff_odd_drop_bit)

lemma bit_pow2: "bit (2 ^ k :: ulong) j \<longleftrightarrow> j = k \<and> k < 32"
  by (auto simp: bit_exp_iff)

lemma and_pow2_bit: "(w :: ulong) AND 2 ^ k \<noteq> 0 \<longleftrightarrow> bit w k"
proof -
  have "bit (w AND 2 ^ k) j \<longleftrightarrow> bit w k \<and> j = k" for j
    using bit_imp_le_length [of w j] by (auto simp: bit_and_iff bit_pow2)
  then show ?thesis by (metis bit_eq_iff bit_0_eq bot_fun_def bot_bool_def)
qed

lemma tb_update:
  assumes "k < length bm"
  shows "tb (bm[k := w]) i \<longleftrightarrow> (if i div 32 = k then bit w (i mod 32) else tb bm i)"
  using assms by (auto simp: tb_def)

lemma test_bit_eq: "nr < 32 * length bm \<Longrightarrow> test_bit nr bm = Some (tb bm nr)"
  by (simp add: test_bit_def rd_def tb_def bit_one_shift less_mult_imp_div_less mult.commute)

lemma set_bit_op_eq:
  assumes "nr < 32 * length bm"
  shows "\<exists>bm'. set_bit_op nr bm = Some bm' \<and> length bm' = length bm \<and>
    (\<forall>i. tb bm' i \<longleftrightarrow> i = nr \<or> tb bm i)"
proof -
  have k: "nr div 32 < length bm" using assms by (simp add: less_mult_imp_div_less mult.commute)
  have "i div 32 = nr div 32 \<Longrightarrow> i mod 32 = nr mod 32 \<Longrightarrow> i = nr" for i :: nat
    by (metis div_mult_mod_eq)
  with k show ?thesis
    by (auto simp: set_bit_op_def rd_def wr_def tb_update bit_or_iff bit_pow2)
      (auto simp: tb_def)
qed

lemma clear_bit_op_eq:
  assumes "nr < 32 * length bm"
  shows "\<exists>bm'. clear_bit_op nr bm = Some bm' \<and> length bm' = length bm \<and>
    (\<forall>i. tb bm' i \<longleftrightarrow> i \<noteq> nr \<and> tb bm i)"
proof -
  have k: "nr div 32 < length bm" using assms by (simp add: less_mult_imp_div_less mult.commute)
  have e: "i div 32 = nr div 32 \<Longrightarrow> i mod 32 = nr mod 32 \<Longrightarrow> i = nr" for i :: nat
    by (metis div_mult_mod_eq)
  show ?thesis
    using k e
    by (auto simp: clear_bit_op_def rd_def wr_def tb_update bit_and_iff bit_not_iff
        bit_pow2) (auto simp: tb_def)
qed

lemma test_and_set_bit_eq:
  assumes "nr < 32 * length bm"
  shows "\<exists>bm'. test_and_set_bit nr bm = Some (tb bm nr, bm') \<and> length bm' = length bm \<and>
    (\<forall>i. tb bm' i \<longleftrightarrow> i = nr \<or> tb bm i)"
proof -
  have "nr div 32 < length bm" using assms by (simp add: less_mult_imp_div_less mult.commute)
  with set_bit_op_eq [OF assms] show ?thesis
    by (auto simp: test_and_set_bit_def set_bit_op_def rd_def wr_def tb_def and_pow2_bit)
qed

section \<open>The searches find the right bit\<close>

text \<open>
  On an array that covers \<open>n\<close> bits, \<open>find_next_bit\<close> returns the least set bit at or
  behind \<open>off\<close>, or \<open>n\<close> if there is none, and \<open>find_next_zero_bit\<close> the least clear one;
  \<open>find_first_bit\<close> and \<open>find_first_zero_bit\<close> do so from 0. None of them reads behind the
  array, and bits behind \<open>n\<close> in the last word do not count.
\<close>

theorem find_bit_spec:
  assumes "n \<le> 32 * length bm"
  shows "(\<exists>r. find_next_bit bm n off = Some r \<and> next_in (tb bm) n off r) \<and>
    (\<exists>r. find_next_zero_bit bm n off = Some r \<and> next_in (\<lambda>i. \<not> tb bm i) n off r) \<and>
    (\<exists>r. find_first_bit bm n = Some r \<and> next_in (tb bm) n 0 r) \<and>
    (\<exists>r. find_first_zero_bit bm n = Some r \<and> next_in (\<lambda>i. \<not> tb bm i) n 0 r)"
  using assms nb.search_total nzb.search_total
  by (simp add: find_first_bit_eq find_first_zero_bit_eq)

theorem find_bit_spec_witness:
  "(\<exists>r. find_next_bit [0xfffffff0, 7] 40 36 = Some r \<and> next_in (tb [0xfffffff0, 7]) 40 36 r) \<and>
   find_next_bit [0xfffffff0, 7] 40 36 = Some 40 \<and> find_first_bit [0xfffffff0, 7] 40 = Some 4"
proof (intro conjI)
  show "\<exists>r. find_next_bit [0xfffffff0, 7] 40 36 = Some r \<and> next_in (tb [0xfffffff0, 7]) 40 36 r"
    using find_bit_spec [of 40 "[0xfffffff0, 7]" 36] by simp
  show "find_next_bit [0xfffffff0, 7] 40 36 = Some 40" "find_first_bit [0xfffffff0, 7] 40 = Some 4"
    by code_simp+
qed

end
