(* ===== verification/Hweight.thy ===== *)
theory Hweight imports Bits begin

text \<open>
  The population counts of \<open>lib/hweight.c\<close>: the parallel bit-slice additions count the set
  bits of a word. \<open>hweight32\<close> itself is in theory \<open>Bits\<close>.
\<close>

section \<open>The parallel count\<close>

text \<open>The stages of the parallel count, for the proof.\<close>

definition hw1 :: "u32 \<Rightarrow> u32" where
  "hw1 w = w - (drop_bit 1 w AND 0x55555555)"

definition hw2 :: "u32 \<Rightarrow> u32" where
  "hw2 r = (r AND 0x33333333) + (drop_bit 2 r AND 0x33333333)"

definition hw3 :: "u32 \<Rightarrow> u32" where
  "hw3 r = r AND 0x0F0F0F0F"

lemma word_add_or: "x AND y = 0 \<Longrightarrow> (x :: 'a::len word) + y = x OR y"
  by (metis word_plus_and_or add_0)

text \<open>Each stage distributes over words that share no bit.\<close>

definition additive :: "(u32 \<Rightarrow> u32) \<Rightarrow> bool" where
  "additive F \<longleftrightarrow> F 0 = 0 \<and> (\<forall>x y. x AND y = 0 \<longrightarrow> F (x + y) = F x + F y)"

lemma disjoint_parts:
  fixes x y :: u32
  assumes "x AND y = 0"
  shows "drop_bit k (x + y) AND m = (drop_bit k x AND m) + (drop_bit k y AND m)"
proof -
  have "(drop_bit k x AND m) AND (drop_bit k y AND m) = drop_bit k (x AND y) AND m"
    by (rule bit_word_eqI) (auto simp: bit_simps)
  then have "(drop_bit k x AND m) + (drop_bit k y AND m) = (drop_bit k x AND m) OR (drop_bit k y AND m)"
    using assms by (intro word_add_or) simp
  also have "\<dots> = drop_bit k (x OR y) AND m"
    by (rule bit_word_eqI) (auto simp: bit_simps)
  finally show ?thesis using assms by (simp add: word_add_or)
qed

lemma hw_additive: "additive id" "additive hw1" "additive hw2" "additive hw3"
  using disjoint_parts [where k = 0] disjoint_parts [where k = 1] disjoint_parts [where k = 2]
  by (simp_all add: additive_def hw1_def hw2_def hw3_def)

lemma field_sum_less:
  assumes "\<And>j. c j < (2 :: nat) ^ k"
  shows "(\<Sum>j<n. c j * 2 ^ (k * j)) < 2 ^ (k * n)"
proof (induction n)
  case (Suc n)
  have "(\<Sum>j<Suc n. c j * 2 ^ (k * j)) < (c n + 1) * 2 ^ (k * n)" using Suc by simp
  also have "\<dots> \<le> 2 ^ k * 2 ^ (k * n)" using assms [of n] by (intro mult_right_mono) auto
  finally show ?case by (simp add: power_add mult.commute)
qed simp

lemma additive_fields:
  assumes add: "additive F" and c: "\<And>j. c j < (2 :: nat) ^ k"
  shows "F (word_of_nat (\<Sum>j<n. c j * 2 ^ (k * j))) = (\<Sum>j<n. F (word_of_nat (c j * 2 ^ (k * j))))"
proof (induction n)
  case 0
  with add show ?case by (simp add: additive_def)
next
  case (Suc n)
  let ?S = "\<Sum>j<n. c j * 2 ^ (k * j)"
  have S: "?S < 2 ^ (k * n)" by (rule field_sum_less [OF c])
  have "?S AND c n * 2 ^ (k * n) = 0"
  proof (rule bit_eqI)
    fix i
    have "take_bit (k * n) ?S = ?S" using S by (simp add: take_bit_nat_eq_self)
    then have "bit ?S i \<longleftrightarrow> i < k * n \<and> bit ?S i" by (metis bit_take_bit_iff)
    moreover have "bit (c n * 2 ^ (k * n)) i \<Longrightarrow> k * n \<le> i"
      by (simp add: bit_push_bit_iff flip: push_bit_eq_mult)
    ultimately show "bit (?S AND c n * 2 ^ (k * n)) i \<longleftrightarrow> bit 0 i"
      by (auto simp: bit_and_iff)
  qed
  then have "word_of_nat ?S AND (word_of_nat (c n * 2 ^ (k * n)) :: u32) = word_of_nat 0"
    by (simp only: of_nat_and_eq [symmetric])
  with add Suc show ?case by (simp add: additive_def del: of_nat_sum)
qed

lemma word_fields: "w = word_of_nat (\<Sum>j<32. of_bool (bit w j) * 2 ^ (1 * j))" for w :: u32
proof -
  have "unat w = (\<Sum>j<32. of_bool (bit (unat w) j) * 2 ^ j)"
    using take_bit_sum [of 32 "unat w"] unat_bound [of w]
    by (simp add: take_bit_nat_eq_self push_bit_eq_mult lessThan_atLeast0)
  also have "\<dots> = (\<Sum>j<32. of_bool (bit w j) * 2 ^ (1 * j))"
    by (intro sum.cong) (simp_all add: bit_unsigned_iff)
  finally have "word_of_nat (unat w) = (word_of_nat (\<Sum>j<32. of_bool (bit w j) * 2 ^ (1 * j)) :: u32)"
    by (rule arg_cong)
  then show ?thesis by simp
qed

lemma hw1_field: "c < 2 \<Longrightarrow> j < 32 \<Longrightarrow> hw1 (word_of_nat (c * 2 ^ (1 * j))) = word_of_nat (c * 4 ^ (j div 2))"
proof -
  have "\<forall>c \<in> set [0..<2]. \<forall>j \<in> set [0..<32]. hw1 (word_of_nat (c * 2 ^ (1 * j))) = word_of_nat (c * 4 ^ (j div 2))"
    by (simp add: hw1_def hw2_def hw3_def upt_rec)
  then show "c < 2 \<Longrightarrow> j < 32 \<Longrightarrow> ?thesis" by simp
qed

lemma hw2_field: "c < 3 \<Longrightarrow> j < 16 \<Longrightarrow> hw2 (word_of_nat (c * 2 ^ (2 * j))) = word_of_nat (c * 16 ^ (j div 2))"
proof -
  have "\<forall>c \<in> set [0..<3]. \<forall>j \<in> set [0..<16]. hw2 (word_of_nat (c * 2 ^ (2 * j))) = word_of_nat (c * 16 ^ (j div 2))"
    by (simp add: hw1_def hw2_def hw3_def upt_rec)
  then show "c < 3 \<Longrightarrow> j < 16 \<Longrightarrow> ?thesis" by simp
qed

lemma hw3_field: "c < 9 \<Longrightarrow> j < 8 \<Longrightarrow>
  hw3 (word_of_nat (c * 2 ^ (4 * j))) = (if even j then word_of_nat (c * 2 ^ (4 * j)) else 0)"
proof -
  have "\<forall>c \<in> set [0..<9]. \<forall>j \<in> set [0..<8].
    hw3 (word_of_nat (c * 2 ^ (4 * j))) = (if even j then word_of_nat (c * 2 ^ (4 * j)) else 0)"
    by (simp add: hw1_def hw2_def hw3_def upt_rec)
  then show "c < 9 \<Longrightarrow> j < 8 \<Longrightarrow> ?thesis" by simp
qed

lemma sum_pairs: "(\<Sum>j<2 * (n :: nat). f j :: nat) = (\<Sum>j<n. f (2 * j) + f (2 * j + 1))"
  by (induction n) simp_all

definition popcount :: "u32 \<Rightarrow> nat" where
  "popcount w = card {j. j < 32 \<and> bit w j}"

text \<open>The last two shift-and-add steps on four byte fields.\<close>

lemma byte_sum:
  fixes f :: "nat \<Rightarrow> nat"
  assumes f: "\<And>j. f j \<le> 8" and R: "R = (word_of_nat (f 0 + f 1 * 256 + f 2 * 65536 + f 3 * 16777216) :: u32)"
  shows "unat ((R + drop_bit 8 R + drop_bit 16 (R + drop_bit 8 R)) AND 0xFF) = f 0 + f 1 + f 2 + f 3"
proof -
  define M where "M = f 0 + f 1 * 256 + f 2 * 65536 + f 3 * 16777216"
  note b = f [of 0] f [of 1] f [of 2] f [of 3]
  have M: "unat R = M" unfolding R M_def [symmetric] unat_of_nat using b by (simp add: M_def)
  have d8: "M div 256 = f 1 + f 2 * 256 + f 3 * 65536" unfolding M_def using b by (intro div_nat_eqI) auto
  define N where "N = (f 0 + f 1) + (f 1 + f 2) * 256 + (f 2 + f 3) * 65536 + f 3 * 16777216"
  have "M + M div 256 = N" unfolding d8 by (simp add: M_def N_def)
  moreover have "N < 2 ^ 32" unfolding N_def using b by simp
  ultimately have N: "unat (R + drop_bit 8 R) = N"
    using M by (simp add: unat_word_ariths unat_drop_bit_eq drop_bit_eq_div)
  have d16: "N div 65536 = (f 2 + f 3) + f 3 * 256" unfolding N_def using b by (intro div_nat_eqI) auto
  have "N + N div 65536 = (f 0 + f 1 + f 2 + f 3) + 256 * ((f 1 + f 2) + f 3 + (f 2 + f 3) * 256 + f 3 * 65536)"
    unfolding d16 by (simp add: N_def algebra_simps)
  then have "(N + N div 65536) mod 256 = (f 0 + f 1 + f 2 + f 3) mod 256"
    by (simp only: mod_mult_self2)
  then have "(N + N div 65536) mod 256 = f 0 + f 1 + f 2 + f 3" using b by simp
  moreover have "N + N div 65536 < 2 ^ 32" unfolding d16 N_def using b by simp
  ultimately show ?thesis
    using N unat_and_pow2_minus_1 [of "R + drop_bit 8 R + drop_bit 16 (R + drop_bit 8 R)" 8]
    by (simp add: unat_word_ariths unat_drop_bit_eq drop_bit_eq_div)
qed

lemma sum8: "(\<Sum>j<8. g (j :: nat) :: 'a::comm_monoid_add) = g 0 + g 1 + g 2 + g 3 + g 4 + g 5 + g 6 + g 7"
  by (simp add: lessThan_nat_numeral ac_simps)

text \<open>Adding the shifted nibbles.\<close>

lemma nibble_sum:
  fixes d :: "nat \<Rightarrow> nat"
  assumes "d 0 < 16"
  defines "N \<equiv> (\<Sum>j<8. d j * 2 ^ (4 * j))"
  shows "(\<Sum>j<8. (d j + (if j = 7 then 0 else d (Suc j))) * 2 ^ (4 * j)) = N + N div 16"
proof -
  define M where "M = d 1 + d 2 * 16 + d 3 * 256 + d 4 * 4096 + d 5 * 65536 + d 6 * 1048576 + d 7 * 16777216"
  have N: "N = d 0 + 16 * M" unfolding N_def sum8 M_def by simp
  then have "N div 16 = M" using assms(1) by simp
  then show ?thesis unfolding N unfolding sum8 M_def by (simp add: add_mult_distrib numeral_2_eq_2 [symmetric])
qed

text \<open>The count of a word as sums of pairs, nibbles and bytes of bits.\<close>

lemma hw12_eq:
  fixes b :: "nat \<Rightarrow> nat"
  assumes b: "\<And>j. b j \<le> 1" and w: "w = word_of_nat (\<Sum>j<32. b j * 2 ^ (1 * j))"
  defines "c \<equiv> \<lambda>j. b (2 * j) + b (2 * j + 1)"
  defines "d \<equiv> \<lambda>j. c (2 * j) + c (2 * j + 1)"
  shows "hw2 (hw1 w) = word_of_nat (\<Sum>j<8. d j * 2 ^ (4 * j))"
proof -
  have p: "(2 :: nat) ^ (2 * j) = 4 ^ j" "(2 :: nat) ^ (4 * j) = 16 ^ j" for j
    by (simp_all add: power_mult)
  have b1: "b j < 2 ^ 1" for j using b [of j] by simp
  have c: "c j < 2 ^ 2" "c j < 3" for j using b [of "2 * j"] b [of "2 * j + 1"] by (simp_all add: c_def)
  have "hw1 w = (\<Sum>j<32. hw1 (word_of_nat (b j * 2 ^ (1 * j))))"
    unfolding w by (rule additive_fields [OF hw_additive(2) b1])
  also have "\<dots> = (\<Sum>j<32. word_of_nat (b j * 4 ^ (j div 2)))"
    using b1 by (intro sum.cong refl hw1_field) simp_all
  also have "\<dots> = word_of_nat (\<Sum>j<2 * 16. b j * 4 ^ (j div 2))" by simp
  also have "(\<Sum>j<2 * 16. b j * 4 ^ (j div 2)) = (\<Sum>j<16. c j * 2 ^ (2 * j))"
    unfolding sum_pairs by (intro sum.cong) (simp_all add: c_def p add_mult_distrib)
  finally have "hw2 (hw1 w) = hw2 (word_of_nat (\<Sum>j<16. c j * 2 ^ (2 * j)))" by simp
  also have "\<dots> = (\<Sum>j<16. hw2 (word_of_nat (c j * 2 ^ (2 * j))))"
    by (rule additive_fields [OF hw_additive(3) c(1)])
  also have "\<dots> = (\<Sum>j<16. word_of_nat (c j * 16 ^ (j div 2)))"
    using c(2) by (intro sum.cong refl hw2_field) simp_all
  also have "\<dots> = word_of_nat (\<Sum>j<2 * 8. c j * 16 ^ (j div 2))" by simp
  also have "(\<Sum>j<2 * 8. c j * 16 ^ (j div 2)) = (\<Sum>j<8. d j * 2 ^ (4 * j))"
    unfolding sum_pairs by (intro sum.cong) (simp_all add: d_def p add_mult_distrib)
  finally show ?thesis .
qed

lemma hw3_eq:
  fixes d :: "nat \<Rightarrow> nat"
  assumes d: "\<And>j. d j \<le> 4" and R: "R = word_of_nat (\<Sum>j<8. d j * 2 ^ (4 * j))"
  shows "hw3 (R + drop_bit 4 R) =
    word_of_nat ((d 0 + d 1) + (d 2 + d 3) * 256 + (d 4 + d 5) * 65536 + (d 6 + d 7) * 16777216)"
proof -
  define e where "e = (\<lambda>j. d j + (if j = 7 then 0 else d (Suc j)))"
  define N where "N = (\<Sum>j<8. d j * 2 ^ (4 * j))"
  have d4: "d j < 2 ^ 4" for j using d [of j] by simp
  have e: "e j < 2 ^ 4" "e j < 9" for j using d [of j] d [of "Suc j"] by (auto simp: e_def)
  have "(\<Sum>j<8. e j * 2 ^ (4 * j)) = N + N div 16"
    unfolding N_def e_def using d4 [of 0] by (intro nibble_sum) simp
  moreover have "N < 2 ^ 32" using field_sum_less [of d 4 8] d4 by (simp add: N_def)
  then have uR: "unat R = N"
    unfolding R N_def [symmetric] unat_of_nat by simp
  then have "unat (drop_bit 4 R) = N div 16" by (subst unat_drop_bit_eq) (simp add: drop_bit_eq_div)
  with uR have "R + drop_bit 4 R = word_of_nat (N + N div 16)"
    using word_arith_nat_add [of R "drop_bit 4 R"] by simp
  ultimately have "hw3 (R + drop_bit 4 R) = hw3 (word_of_nat (\<Sum>j<8. e j * 2 ^ (4 * j)))"
    by simp
  also have "\<dots> = (\<Sum>j<8. hw3 (word_of_nat (e j * 2 ^ (4 * j))))"
    by (rule additive_fields [OF hw_additive(4) e(1)])
  also have "\<dots> = (\<Sum>j<8. if even j then word_of_nat (e j * 2 ^ (4 * j)) else 0)"
    using e(2) by (intro sum.cong refl hw3_field) simp_all
  also have "\<dots> = word_of_nat (e 0 + e 2 * 256 + e 4 * 65536 + e 6 * 16777216)"
    unfolding sum8 by simp
  finally show ?thesis by (simp add: e_def)
qed

lemma hweight32_stages:
  "hweight32 w = (let R = hw3 (hw2 (hw1 w) + drop_bit 4 (hw2 (hw1 w)))
     in (R + drop_bit 8 R + drop_bit 16 (R + drop_bit 8 R)) AND 0xFF)"
  by (simp only: hweight32_def hw1_def hw2_def hw3_def Let_def)

lemma hweight32_eq: "unat (hweight32 w) = popcount w"
proof -
  define b :: "nat \<Rightarrow> nat" where "b = (\<lambda>j. of_bool (bit w j))"
  define c where "c = (\<lambda>j. b (2 * j) + b (2 * j + 1))"
  define d where "d = (\<lambda>j. c (2 * j) + c (2 * j + 1))"
  define f where "f = (\<lambda>j. d (2 * j) + d (2 * j + 1))"
  have b: "b j \<le> 1" for j by (simp add: b_def)
  have c: "c j \<le> 2" for j using b [of "2 * j"] b [of "2 * j + 1"] by (simp add: c_def)
  have d: "d j \<le> 4" for j using c [of "2 * j"] c [of "2 * j + 1"] by (simp add: d_def)
  have w: "w = word_of_nat (\<Sum>j<32. b j * 2 ^ (1 * j))" unfolding b_def by (rule word_fields)
  have R2: "hw2 (hw1 w) = word_of_nat (\<Sum>j<8. d j * 2 ^ (4 * j))"
    using hw12_eq [OF b w] unfolding d_def c_def .
  have R3: "hw3 (hw2 (hw1 w) + drop_bit 4 (hw2 (hw1 w))) =
    word_of_nat (f 0 + f 1 * 256 + f 2 * 65536 + f 3 * 16777216)"
    using hw3_eq [OF d R2] by (simp add: f_def)
  have "f j \<le> 8" for j using d [of "2 * j"] d [of "2 * j + 1"] by (simp add: f_def)
  from byte_sum [OF this R3] have "unat (hweight32 w) = f 0 + f 1 + f 2 + f 3"
    by (simp only: hweight32_stages Let_def)
  also have "\<dots> = (\<Sum>j<4. f j)" by (simp add: lessThan_nat_numeral)
  also have "\<dots> = (\<Sum>j<2 * 4. d j)" unfolding sum_pairs by (simp add: f_def)
  also have "\<dots> = (\<Sum>j<2 * 8. c j)" unfolding sum_pairs [of c] by (simp add: d_def)
  also have "\<dots> = (\<Sum>j<2 * 16. b j)" unfolding sum_pairs [of b] by (simp add: c_def)
  also have "\<dots> = card ({..<32} \<inter> {j. bit w j})" by (simp add: b_def)
  also have "{..<32} \<inter> {j. bit w j} = {j. j < 32 \<and> bit w j}" by auto
  also have "card \<dots> = popcount w" by (simp add: popcount_def)
  finally show ?thesis .
qed

section \<open>Wider words\<close>

text \<open>\<open>hweight64\<close> in its branch for 32-bit \<open>long\<close>, and \<open>hweight_long\<close>.\<close>

definition hweight64 :: "u64 \<Rightarrow> ulong" where
  "hweight64 w = hweight32 (ucast (drop_bit 32 w)) + hweight32 (ucast w)"

definition hweight_long :: "ulong \<Rightarrow> ulong" where
  "hweight_long w = hweight32 w"

lemma popcount_le: "popcount w \<le> 32"
  unfolding popcount_def by (rule order.trans [OF card_mono [of "{..<32}"]]) auto

text \<open>
  \<open>hweight32\<close> and \<open>hweight64\<close> return the number of set bits of their argument: the
  shift, mask and add steps never let a partial count spill into its neighbour.
\<close>

theorem hweight_counts:
  "unat (hweight32 w) = card {j. j < 32 \<and> bit w j} \<and> unat (hweight64 v) = card {j. j < 64 \<and> bit v j}"
proof
  show "unat (hweight32 w) = card {j. j < 32 \<and> bit w j}" by (simp add: hweight32_eq popcount_def)
  let ?hi = "ucast (drop_bit 32 v) :: u32" and ?lo = "ucast v :: u32"
  have "unat (hweight64 v) = popcount ?hi + popcount ?lo"
    using popcount_le [of ?hi] popcount_le [of ?lo]
    by (simp add: hweight64_def unat_word_ariths hweight32_eq)
  also have "popcount ?lo = card {j. j < 32 \<and> bit v j}"
    unfolding popcount_def by (rule arg_cong [where f = card]) (auto simp: bit_simps)
  also have "popcount ?hi = card ((+) 32 ` {j. j < 32 \<and> bit ?hi j})"
    unfolding popcount_def by (rule card_image [symmetric]) simp
  also have "(+) 32 ` {j. j < 32 \<and> bit ?hi j} = {j. 32 \<le> j \<and> j < 64 \<and> bit v j}"
  proof
    show "{j. 32 \<le> j \<and> j < 64 \<and> bit v j} \<subseteq> (+) 32 ` {j. j < 32 \<and> bit ?hi j}"
    proof
      fix j assume "j \<in> {j. 32 \<le> j \<and> j < 64 \<and> bit v j}"
      then show "j \<in> (+) 32 ` {j. j < 32 \<and> bit ?hi j}"
        by (intro image_eqI [of _ _ "j - 32"]) (auto simp: bit_simps)
    qed
  qed (auto simp: bit_simps)
  also have "card {j. 32 \<le> j \<and> j < 64 \<and> bit v j} + card {j. j < 32 \<and> bit v j} =
      card ({j. 32 \<le> j \<and> j < 64 \<and> bit v j} \<union> {j. j < 32 \<and> bit v j})"
    by (rule card_Un_disjoint [symmetric]) auto
  also have "{j. 32 \<le> j \<and> j < 64 \<and> bit v j} \<union> {j. j < 32 \<and> bit v j} = {j. j < 64 \<and> bit v j}" by auto
  finally show "unat (hweight64 v) = card {j. j < 64 \<and> bit v j}" .
qed

end
