(* ===== verification/Bitmap.thy ===== *)
theory Bitmap imports Hweight begin

text \<open>
  The bitmaps of \<open>lib/bitmap.c\<close> and \<open>include/linux/bitmap.h\<close>: tests, word-wise logic,
  the right shift and the weight. A bitmap is a list of words, an access outside it the
  value \<open>None\<close>. The theory relates every operation to the set of bits the bitmap holds.
\<close>

section \<open>Words of a bitmap\<close>

definition BITS_TO_LONGS :: "nat \<Rightarrow> nat" where
  "BITS_TO_LONGS nr = (nr + BITS_PER_LONG - 1) div BITS_PER_LONG"

definition LAST_WORD_MASK :: "nat \<Rightarrow> ulong" where
  "LAST_WORD_MASK nbits =
     (if nbits mod BITS_PER_LONG \<noteq> 0 then push_bit (nbits mod BITS_PER_LONG) 1 - 1 else NOT 0)"

text \<open>
  The shape the Boolean operations share: a loop over the full words that leaves early at a
  word \<open>v k\<close> that is not zero, then the masked last word. The result is whether no word
  made it leave.
\<close>

function zero_upto :: "(nat \<Rightarrow> ulong option) \<Rightarrow> nat \<Rightarrow> nat \<Rightarrow> bool option" where
  "zero_upto v k lim =
     (if k < lim then do { w \<leftarrow> v k; if w \<noteq> 0 then Some False else zero_upto v (k + 1) lim }
      else Some True)"
  by pat_completeness auto
termination by (relation "measure (\<lambda>(v, k, lim). lim - k)") auto

declare zero_upto.simps [simp del]

definition zero_words :: "(nat \<Rightarrow> ulong option) \<Rightarrow> nat \<Rightarrow> bool option" where
  "zero_words v bits =
     (let lim = bits div BITS_PER_LONG in
      do { b \<leftarrow> zero_upto v 0 lim;
           if \<not> b then Some False
           else if bits mod BITS_PER_LONG \<noteq> 0
           then do { w \<leftarrow> v lim; Some (w AND LAST_WORD_MASK bits = 0) }
           else Some True })"

definition rd2 :: "(ulong \<Rightarrow> ulong \<Rightarrow> ulong) \<Rightarrow> ulong list \<Rightarrow> ulong list \<Rightarrow> nat \<Rightarrow> ulong option" where
  "rd2 f bm1 bm2 k = do { a \<leftarrow> rd bm1 k; b \<leftarrow> rd bm2 k; Some (f a b) }"

text \<open>
  The operations of \<open>bitmap.h\<close>: up to one word inline, above it the function of
  \<open>bitmap.c\<close>.
\<close>

definition small_test :: "(nat \<Rightarrow> ulong option) \<Rightarrow> nat \<Rightarrow> bool option" where
  "small_test v nbits = do { w \<leftarrow> v 0; Some (w AND LAST_WORD_MASK nbits = 0) }"

definition bitmap_empty :: "ulong list \<Rightarrow> nat \<Rightarrow> bool option" where
  "bitmap_empty src nbits =
     (if nbits \<le> BITS_PER_LONG then small_test (rd src) nbits else zero_words (rd src) nbits)"

definition bitmap_full :: "ulong list \<Rightarrow> nat \<Rightarrow> bool option" where
  "bitmap_full src nbits =
     (let v = (\<lambda>k. do { w \<leftarrow> rd src k; Some (NOT w) }) in
      if nbits \<le> BITS_PER_LONG then small_test v nbits else zero_words v nbits)"

definition bitmap_equal :: "ulong list \<Rightarrow> ulong list \<Rightarrow> nat \<Rightarrow> bool option" where
  "bitmap_equal src1 src2 nbits =
     (let v = rd2 (\<lambda>a b. a XOR b) src1 src2 in
      if nbits \<le> BITS_PER_LONG then small_test v nbits else zero_words v nbits)"

definition bitmap_subset :: "ulong list \<Rightarrow> ulong list \<Rightarrow> nat \<Rightarrow> bool option" where
  "bitmap_subset src1 src2 nbits =
     (let v = rd2 (\<lambda>a b. a AND NOT b) src1 src2 in
      if nbits \<le> BITS_PER_LONG then small_test v nbits else zero_words v nbits)"

definition bitmap_intersects :: "ulong list \<Rightarrow> ulong list \<Rightarrow> nat \<Rightarrow> bool option" where
  "bitmap_intersects src1 src2 nbits =
     (let v = rd2 (\<lambda>a b. a AND b) src1 src2 in
      do { z \<leftarrow> (if nbits \<le> BITS_PER_LONG then small_test v nbits else zero_words v nbits);
           Some (\<not> z) })"

text \<open>The loops that write the words of \<open>dst\<close>; \<open>v k\<close> is the value for word \<open>k\<close>.\<close>

function write_words :: "(nat \<Rightarrow> ulong option) \<Rightarrow> nat \<Rightarrow> nat \<Rightarrow> ulong list \<Rightarrow> ulong list option" where
  "write_words v k nr dst =
     (if k < nr then do { w \<leftarrow> v k; dst \<leftarrow> wr dst k w; write_words v (k + 1) nr dst }
      else Some dst)"
  by pat_completeness auto
termination by (relation "measure (\<lambda>(v, k, nr, dst). nr - k)") auto

declare write_words.simps [simp del]

definition bitmap_zero :: "ulong list \<Rightarrow> nat \<Rightarrow> ulong list option" where
  "bitmap_zero dst nbits =
     (if nbits \<le> BITS_PER_LONG then wr dst 0 0
      else write_words (\<lambda>_. Some 0) 0 (BITS_TO_LONGS nbits) dst)"

definition bitmap_fill :: "ulong list \<Rightarrow> nat \<Rightarrow> ulong list option" where
  "bitmap_fill dst nbits =
     (let nlongs = BITS_TO_LONGS nbits in
      do { dst \<leftarrow> (if 1 < nlongs then write_words (\<lambda>_. Some (NOT 0)) 0 (nlongs - 1) dst else Some dst);
           if nlongs = 0 then None else wr dst (nlongs - 1) (LAST_WORD_MASK nbits) })"

definition word_op :: "(nat \<Rightarrow> ulong option) \<Rightarrow> ulong list \<Rightarrow> nat \<Rightarrow> ulong list option" where
  "word_op v dst nbits =
     (if nbits \<le> BITS_PER_LONG then do { w \<leftarrow> v 0; wr dst 0 w }
      else write_words v 0 (BITS_TO_LONGS nbits) dst)"

definition bitmap_copy :: "ulong list \<Rightarrow> ulong list \<Rightarrow> nat \<Rightarrow> ulong list option" where
  "bitmap_copy dst src nbits = word_op (rd src) dst nbits"

definition bitmap_and :: "ulong list \<Rightarrow> ulong list \<Rightarrow> ulong list \<Rightarrow> nat \<Rightarrow> ulong list option" where
  "bitmap_and dst src1 src2 nbits = word_op (rd2 (\<lambda>a b. a AND b) src1 src2) dst nbits"

definition bitmap_or :: "ulong list \<Rightarrow> ulong list \<Rightarrow> ulong list \<Rightarrow> nat \<Rightarrow> ulong list option" where
  "bitmap_or dst src1 src2 nbits = word_op (rd2 (\<lambda>a b. a OR b) src1 src2) dst nbits"

definition bitmap_xor :: "ulong list \<Rightarrow> ulong list \<Rightarrow> ulong list \<Rightarrow> nat \<Rightarrow> ulong list option" where
  "bitmap_xor dst src1 src2 nbits = word_op (rd2 (\<lambda>a b. a XOR b) src1 src2) dst nbits"

definition bitmap_andnot :: "ulong list \<Rightarrow> ulong list \<Rightarrow> ulong list \<Rightarrow> nat \<Rightarrow> ulong list option" where
  "bitmap_andnot dst src1 src2 nbits = word_op (rd2 (\<lambda>a b. a AND NOT b) src1 src2) dst nbits"

definition bitmap_complement :: "ulong list \<Rightarrow> ulong list \<Rightarrow> nat \<Rightarrow> ulong list option" where
  "bitmap_complement dst src nbits =
     (let lim = nbits div BITS_PER_LONG; last = do { w \<leftarrow> rd src lim; Some (NOT w AND LAST_WORD_MASK nbits) } in
      if nbits \<le> BITS_PER_LONG
      then do { w \<leftarrow> rd src 0; wr dst 0 (NOT w AND LAST_WORD_MASK nbits) }
      else do { dst \<leftarrow> write_words (\<lambda>k. do { w \<leftarrow> rd src k; Some (NOT w) }) 0 lim dst;
                if nbits mod BITS_PER_LONG \<noteq> 0 then do { w \<leftarrow> last; wr dst lim w } else Some dst })"

section \<open>Shifts\<close>

text \<open>\<open>__bitmap_shift_right\<close> of \<open>src\<close> into a distinct \<open>dst\<close>: the value of one word.\<close>

definition shift_right_word :: "ulong list \<Rightarrow> nat \<Rightarrow> nat \<Rightarrow> nat \<Rightarrow> ulong option" where
  "shift_right_word src shift bits k =
     (let lim = BITS_TO_LONGS bits; left = bits mod BITS_PER_LONG;
          off = shift div BITS_PER_LONG; rem = shift mod BITS_PER_LONG;
          mask = push_bit left 1 - 1 in
      do { upper \<leftarrow> (if rem = 0 \<or> lim \<le> off + k + 1 then Some 0
                     else do { u \<leftarrow> rd src (off + k + 1);
                               Some (if off + k + 1 = lim - 1 \<and> left \<noteq> 0 then u AND mask else u) });
           l \<leftarrow> rd src (off + k);
           let lower = (if left \<noteq> 0 \<and> off + k = lim - 1 then l AND mask else l) in
           let d = push_bit (BITS_PER_LONG - rem) upper OR drop_bit rem lower in
           Some (if left \<noteq> 0 \<and> k = lim - 1 then d AND mask else d) })"

definition shift_right_words :: "ulong list \<Rightarrow> ulong list \<Rightarrow> nat \<Rightarrow> nat \<Rightarrow> ulong list option" where
  "shift_right_words dst src shift bits =
     (let lim = BITS_TO_LONGS bits; off = shift div BITS_PER_LONG in
      do { dst \<leftarrow> write_words (shift_right_word src shift bits) 0 (lim - off) dst;
           if off = 0 then Some dst
           else if lim < off then None
           else write_words (\<lambda>_. Some 0) (lim - off) lim dst })"

definition bitmap_shift_right :: "ulong list \<Rightarrow> ulong list \<Rightarrow> nat \<Rightarrow> nat \<Rightarrow> ulong list option" where
  "bitmap_shift_right dst src n nbits =
     (if nbits \<le> BITS_PER_LONG then do { w \<leftarrow> rd src 0; wr dst 0 (drop_bit n w) }
      else shift_right_words dst src n nbits)"

section \<open>Weight and iteration\<close>

function weight_upto :: "ulong list \<Rightarrow> nat \<Rightarrow> nat \<Rightarrow> nat \<Rightarrow> nat option" where
  "weight_upto bm k lim w =
     (if k < lim then do { x \<leftarrow> rd bm k; weight_upto bm (k + 1) lim (w + unat (hweight_long x)) }
      else Some w)"
  by pat_completeness auto
termination by (relation "measure (\<lambda>(bm, k, lim, w). lim - k)") auto

declare weight_upto.simps [simp del]

definition bitmap_weight :: "ulong list \<Rightarrow> nat \<Rightarrow> nat option" where
  "bitmap_weight src nbits =
     (let lim = nbits div BITS_PER_LONG in
      if nbits \<le> BITS_PER_LONG
      then do { x \<leftarrow> rd src 0; Some (unat (hweight_long (x AND LAST_WORD_MASK nbits))) }
      else do { w \<leftarrow> weight_upto src 0 lim 0;
                if nbits mod BITS_PER_LONG \<noteq> 0
                then do { x \<leftarrow> rd src lim; Some (w + unat (hweight_long (x AND LAST_WORD_MASK nbits))) }
                else Some w })"

section \<open>Bitmaps as sets\<close>

definition bits_of :: "ulong list \<Rightarrow> nat \<Rightarrow> nat set" where
  "bits_of bm n = {i. i < n \<and> tb bm i}"

lemma bits_of_iff [simp]: "i \<in> bits_of bm n \<longleftrightarrow> i < n \<and> tb bm i"
  by (simp add: bits_of_def)

lemma bits_of_finite [simp]: "finite (bits_of bm n)"
  by (rule finite_subset [of _ "{..<n}"]) auto

lemma BITS_TO_LONGS_eq: "BITS_TO_LONGS n = n div 32 + (if n mod 32 = 0 then 0 else 1)"
proof -
  have "BITS_TO_LONGS n = (n mod 32 + 31 + 32 * (n div 32)) div 32"
    by (simp add: BITS_TO_LONGS_def)
  also have "\<dots> = n div 32 + (n mod 32 + 31) div 32" by (simp only: div_mult_self2)
  also have "(n mod 32 + 31) div 32 = (if n mod 32 = 0 then 0 else 1)"
    by (auto intro!: div_nat_eqI)
  finally show ?thesis .
qed

lemma longs_index: "i < n \<Longrightarrow> i div 32 < BITS_TO_LONGS n"
proof -
  assume "i < n"
  then have "(i + 32) div 32 \<le> (n + 31) div 32" by (intro div_le_mono) simp
  then have "i div 32 + 1 \<le> (n + 31) div 32" by simp
  then show ?thesis by (simp add: BITS_TO_LONGS_def)
qed

lemma longs_fit: "n \<le> 32 * l \<Longrightarrow> BITS_TO_LONGS n \<le> l"
proof -
  assume "n \<le> 32 * l"
  then have "(n + 31) div 32 \<le> (32 * l + 31) div 32" by (intro div_le_mono) simp
  then show ?thesis by (simp add: BITS_TO_LONGS_def)
qed

lemma longs_last: "n mod 32 \<noteq> 0 \<Longrightarrow> n div 32 < BITS_TO_LONGS n \<and> BITS_TO_LONGS n = n div 32 + 1"
  by (simp add: BITS_TO_LONGS_eq)

lemma longs_full: "n mod 32 = 0 \<Longrightarrow> BITS_TO_LONGS n = n div 32"
  by (simp add: BITS_TO_LONGS_eq)

lemma longs_small: "0 < n \<Longrightarrow> n \<le> 32 \<Longrightarrow> BITS_TO_LONGS n = 1"
  by (cases "n = 32") (simp_all add: BITS_TO_LONGS_eq)

lemma bit_LAST_WORD_MASK:
  "bit (LAST_WORD_MASK n) j \<longleftrightarrow> j < (if n mod 32 = 0 then 32 else n mod 32)"
proof (cases "n mod 32 = 0")
  case False
  then have "LAST_WORD_MASK n = mask (n mod 32)"
    by (simp add: LAST_WORD_MASK_def mask_eq_exp_minus_1 push_bit_eq_mult)
  with False show ?thesis by (auto simp: bit_mask_iff possible_bit_def)
qed (simp add: LAST_WORD_MASK_def bit_not_iff possible_bit_def)

lemma masked_zero:
  "w AND LAST_WORD_MASK n = 0 \<longleftrightarrow> (\<forall>j < (if n mod 32 = 0 then 32 else n mod 32). \<not> bit w j)"
proof -
  have "w AND LAST_WORD_MASK n = 0 \<longleftrightarrow> (\<forall>j. \<not> (bit w j \<and> bit (LAST_WORD_MASK n) j))"
    using bit_imp_le_length [of w] by (auto simp: bit_eq_iff bit_and_iff)
  then show ?thesis unfolding bit_LAST_WORD_MASK by blast
qed

lemma all_bits_split:
  fixes n :: nat
  shows "(\<forall>i < n. P (i div 32) (i mod 32)) \<longleftrightarrow>
     (\<forall>k < n div 32. \<forall>j < 32. P k j) \<and> (\<forall>j < n mod 32. P (n div 32) j)"
proof
  assume L: "\<forall>i < n. P (i div 32) (i mod 32)"
  have "P k j" if k: "k < n div 32" and j: "j < 32" for k j
  proof -
    have "(k + 1) * 32 \<le> n div 32 * 32" using k by (intro mult_right_mono) auto
    also have "\<dots> \<le> n" by simp
    finally have "k * 32 + j < n" using j by simp
    with L have "P ((k * 32 + j) div 32) ((k * 32 + j) mod 32)" by blast
    then show ?thesis using j by simp
  qed
  moreover have "P (n div 32) j" if j: "j < n mod 32" for j
  proof -
    have "n = n div 32 * 32 + n mod 32" by simp
    with j have "n div 32 * 32 + j < n" by linarith
    with L have "P ((n div 32 * 32 + j) div 32) ((n div 32 * 32 + j) mod 32)" by blast
    moreover have "j < 32" using j by (rule less_trans) simp
    ultimately show ?thesis by simp
  qed
  ultimately show "(\<forall>k < n div 32. \<forall>j < 32. P k j) \<and> (\<forall>j < n mod 32. P (n div 32) j)" by blast
next
  assume R: "(\<forall>k < n div 32. \<forall>j < 32. P k j) \<and> (\<forall>j < n mod 32. P (n div 32) j)"
  show "\<forall>i < n. P (i div 32) (i mod 32)"
  proof (intro allI impI)
    fix i assume i: "i < n"
    then have "i div 32 \<le> n div 32" by (intro div_le_mono) simp
    then consider "i div 32 < n div 32" | "i div 32 = n div 32" by linarith
    then show "P (i div 32) (i mod 32)"
    proof cases
      case 2
      have "i = i div 32 * 32 + i mod 32" "n = n div 32 * 32 + n mod 32" by simp_all
      with i 2 have "i mod 32 < n mod 32" by linarith
      with R 2 show ?thesis by simp
    qed (use R in simp)
  qed
qed

lemma zero_upto_spec:
  "\<forall>j < lim. v j = Some (f j) \<Longrightarrow> zero_upto v k lim = Some (\<forall>j. k \<le> j \<and> j < lim \<longrightarrow> f j = 0)"
proof (induction v k lim rule: zero_upto.induct)
  case (1 v k lim)
  show ?case
  proof (cases "k < lim \<and> f k = 0")
    case True
    then have "(\<forall>j. k + 1 \<le> j \<and> j < lim \<longrightarrow> f j = 0) \<longleftrightarrow> (\<forall>j. k \<le> j \<and> j < lim \<longrightarrow> f j = 0)"
      by (metis Suc_eq_plus1 Suc_leD Suc_leI le_neq_implies_less)
    with True 1 show ?thesis by (subst zero_upto.simps) simp
  next
    case False
    with 1 show ?thesis by (subst zero_upto.simps) auto
  qed
qed

text \<open>The Boolean operations see exactly the bits below \<open>n\<close>.\<close>

lemma zero_words_spec:
  assumes v: "\<forall>k < BITS_TO_LONGS n. v k = Some (f k)"
  shows "zero_words v n = Some (\<forall>i < n. \<not> bit (f (i div 32)) (i mod 32))"
proof -
  have word: "w = 0 \<longleftrightarrow> (\<forall>j < 32. \<not> bit w j)" for w :: ulong
    using word_neq_0_bit [of w] by auto
  have lim: "n div 32 \<le> BITS_TO_LONGS n" by (simp add: BITS_TO_LONGS_eq)
  with v have "zero_upto v 0 (n div 32) = Some (\<forall>k < n div 32. f k = 0)"
    by (subst zero_upto_spec [of _ _ f]) auto
  then have up: "zero_upto v 0 (n div 32) = Some (\<forall>k < n div 32. \<forall>j < 32. \<not> bit (f k) j)"
    using word by simp
  show ?thesis
  proof (cases "n mod 32 = 0")
    case True
    with up show ?thesis
      unfolding all_bits_split [of n "\<lambda>k j. \<not> bit (f k) j"] by (simp add: zero_words_def Let_def)
  next
    case False
    with v longs_last [OF False] have "v (n div 32) = Some (f (n div 32))" by blast
    with up False show ?thesis
      unfolding all_bits_split [of n "\<lambda>k j. \<not> bit (f k) j"]
      by (auto simp: zero_words_def masked_zero Let_def)
  qed
qed

lemma small_test_spec:
  assumes v: "v 0 = Some (f 0)" and n: "0 < n" "n \<le> 32"
  shows "small_test v n = Some (\<forall>i < n. \<not> bit (f (i div 32)) (i mod 32))"
proof -
  have "(if n mod 32 = 0 then 32 else n mod 32) = n" using n by (auto simp: mod_if)
  moreover have "(\<forall>i < n. \<not> bit (f (i div 32)) (i mod 32)) \<longleftrightarrow> (\<forall>i < n. \<not> bit (f 0) i)"
    using n(2) bit_imp_le_length [of "f 0"] by (auto simp: div_if mod_if)
  ultimately show ?thesis using v by (simp add: small_test_def masked_zero)
qed

lemma test_spec:
  assumes v: "\<forall>k < BITS_TO_LONGS n. v k = Some (f k)" and n: "0 < n"
  shows "(if n \<le> 32 then small_test v n else zero_words v n) =
    Some (\<forall>i < n. \<not> bit (f (i div 32)) (i mod 32))"
proof (cases "n \<le> 32")
  case True
  with v longs_small [OF n True] have "v 0 = Some (f 0)" by simp
  with small_test_spec [of v f n] n True show ?thesis by simp
next
  case False
  with zero_words_spec [OF v] show ?thesis by simp
qed

lemma rd_word: "n \<le> 32 * length bm \<Longrightarrow> \<forall>k < BITS_TO_LONGS n. rd bm k = Some (bm ! k)"
  using longs_fit [of n "length bm"] by (auto simp: rd_def)

lemma rd2_word:
  "n \<le> 32 * length bm1 \<Longrightarrow> n \<le> 32 * length bm2 \<Longrightarrow>
   \<forall>k < BITS_TO_LONGS n. rd2 f bm1 bm2 k = Some (f (bm1 ! k) (bm2 ! k))"
  using longs_fit [of n "length bm1"] longs_fit [of n "length bm2"] by (auto simp: rd_def rd2_def)

text \<open>
  On bitmaps that cover the \<open>n\<close> bits, \<open>bitmap_empty\<close>, \<open>bitmap_full\<close>, \<open>bitmap_equal\<close>,
  \<open>bitmap_subset\<close> and \<open>bitmap_intersects\<close> decide emptiness, fullness, equality, inclusion
  and intersection of the sets of bits below \<open>n\<close>; the unused bits of the last word do not
  matter, and nothing outside the arrays is read.
\<close>

theorem bitmap_tests:
  assumes n: "0 < n" and b1: "n \<le> 32 * length a" and b2: "n \<le> 32 * length b"
  shows "bitmap_empty a n = Some (bits_of a n = {}) \<and>
    bitmap_full a n = Some (bits_of a n = {..<n}) \<and>
    bitmap_equal a b n = Some (bits_of a n = bits_of b n) \<and>
    bitmap_subset a b n = Some (bits_of a n \<subseteq> bits_of b n) \<and>
    bitmap_intersects a b n = Some (bits_of a n \<inter> bits_of b n \<noteq> {})"
proof (intro conjI)
  note rd = rd_word [OF b1] and rd2 = rd2_word [OF b1 b2]
  have not_bit: "bit (NOT w) (i mod 32) \<longleftrightarrow> \<not> bit w (i mod 32)" for w :: ulong and i
    by (simp add: bit_not_iff possible_bit_def)
  show "bitmap_empty a n = Some (bits_of a n = {})"
    unfolding bitmap_empty_def test_spec [OF rd n] by (auto simp: tb_def bits_of_def)
  have "\<forall>k < BITS_TO_LONGS n. (do { w \<leftarrow> rd a k; Some (NOT w) }) = Some (NOT (a ! k))" using rd by simp
  from test_spec [OF this n] show "bitmap_full a n = Some (bits_of a n = {..<n})"
    unfolding bitmap_full_def Let_def by (auto simp: tb_def bits_of_def not_bit)
  show "bitmap_equal a b n = Some (bits_of a n = bits_of b n)"
    unfolding bitmap_equal_def Let_def test_spec [OF rd2 n] by (auto simp: tb_def bits_of_def bit_xor_iff)
  show "bitmap_subset a b n = Some (bits_of a n \<subseteq> bits_of b n)"
    unfolding bitmap_subset_def Let_def test_spec [OF rd2 n]
    by (auto simp: tb_def bits_of_def bit_and_iff not_bit)
  show "bitmap_intersects a b n = Some (bits_of a n \<inter> bits_of b n \<noteq> {})"
    unfolding bitmap_intersects_def Let_def test_spec [OF rd2 n]
    by (auto simp: tb_def bits_of_def bit_and_iff)
qed

theorem bitmap_tests_witness:
  "bitmap_equal [0xff00, 0xa] [0xff00, 0x5a] 36 = Some True \<and> bitmap_empty [0xff00, 0xa] 36 = Some False \<and>
   bits_of [0xff00, 0xa] 36 = bits_of [0xff00, 0x5a] 36"
proof -
  have e: "bitmap_equal [0xff00, 0xa] [0xff00, 0x5a] 36 = Some True"
    by (simp add: bitmap_equal_def Let_def zero_words_def zero_upto.simps rd2_def rd_def LAST_WORD_MASK_def)
  moreover have "bitmap_empty [0xff00, 0xa] 36 = Some False"
    by (simp add: bitmap_empty_def Let_def zero_words_def zero_upto.simps rd_def LAST_WORD_MASK_def)
  moreover have "bitmap_equal [0xff00, 0xa] [0xff00, 0x5a] 36 =
      Some (bits_of [0xff00, 0xa] 36 = bits_of [0xff00, 0x5a] 36)"
    using bitmap_tests [of 36 "[0xff00, 0xa]" "[0xff00, 0x5a]"] by (simp only: list.size) simp
  ultimately show ?thesis by simp
qed

section \<open>Word-wise logic\<close>

lemma write_words_spec:
  assumes "\<forall>j < nr. v j = Some (f j)" "nr \<le> length dst"
  shows "\<exists>d. write_words v k nr dst = Some d \<and> length d = length dst \<and>
    (\<forall>j < length dst. d ! j = (if k \<le> j \<and> j < nr then f j else dst ! j))"
  using assms
proof (induction v k nr dst rule: write_words.induct)
  case (1 v k nr dst)
  show ?case
  proof (cases "k < nr")
    case True
    with "1.prems" have v: "v k = Some (f k)" and w: "wr dst k (f k) = Some (dst[k := f k])"
      by (auto simp: wr_def)
    from "1.IH" [OF True v w] "1.prems" obtain d where
      d: "write_words v (k + 1) nr (dst[k := f k]) = Some d" "length d = length dst"
      "\<forall>j < length dst. d ! j = (if k + 1 \<le> j \<and> j < nr then f j else dst[k := f k] ! j)" by auto
    have "write_words v k nr dst = Some d"
      using True v w d(1) by (subst write_words.simps) simp
    moreover have "d ! j = (if k \<le> j \<and> j < nr then f j else dst ! j)" if "j < length dst" for j
      using d(3) that True by (cases "j = k") (auto simp: nth_list_update)
    ultimately show ?thesis using d(2) by blast
  next
    case False
    then show ?thesis by (subst write_words.simps) auto
  qed
qed

lemma word_op_spec:
  assumes v: "\<forall>k < BITS_TO_LONGS n. v k = Some (f k)" and n: "0 < n" "n \<le> 32 * length dst"
  shows "\<exists>d. word_op v dst n = Some d \<and> length d = length dst \<and>
    (\<forall>k < BITS_TO_LONGS n. d ! k = f k)"
proof (cases "n \<le> 32")
  case True
  have "dst \<noteq> []" using n by auto
  with True v n longs_small [of n] show ?thesis by (simp add: word_op_def wr_def)
next
  case False
  have fit: "BITS_TO_LONGS n \<le> length dst" using n(2) by (rule longs_fit)
  from write_words_spec [OF v this, of 0] obtain d where d: "write_words v 0 (BITS_TO_LONGS n) dst = Some d"
    "length d = length dst"
    "\<forall>j < length dst. d ! j = (if 0 \<le> j \<and> j < BITS_TO_LONGS n then f j else dst ! j)" by blast
  with False fit show ?thesis by (intro exI [of _ d]) (simp add: word_op_def)
qed

lemma bits_of_words:
  "\<forall>k < BITS_TO_LONGS n. d ! k = f k \<Longrightarrow> bits_of d n = {i. i < n \<and> bit (f (i div 32)) (i mod 32)}"
  using longs_index by (auto simp: bits_of_def tb_def)

lemma word_op_bits:
  assumes "\<forall>k < BITS_TO_LONGS n. v k = Some (f k)" "0 < n" "n \<le> 32 * length dst"
  shows "\<exists>d. word_op v dst n = Some d \<and> length d = length dst \<and>
    bits_of d n = {i. i < n \<and> bit (f (i div 32)) (i mod 32)}"
  using word_op_spec [OF assms] bits_of_words by blast

lemma complement_bits:
  assumes a: "n \<le> 32 * length a" and n: "0 < n" "n \<le> 32 * length dst"
  shows "\<exists>d. bitmap_complement dst a n = Some d \<and> length d = length dst \<and> bits_of d n = {..<n} - bits_of a n"
proof -
  let ?f = "\<lambda>k. NOT (a ! k)"
  have rd: "\<forall>k < BITS_TO_LONGS n. rd a k = Some (a ! k)" by (rule rd_word [OF a])
  have fit: "BITS_TO_LONGS n \<le> length dst" using n(2) by (rule longs_fit)
  have set: "{i. i < n \<and> bit (?f (i div 32)) (i mod 32)} = {..<n} - bits_of a n"
    by (auto simp: bits_of_def tb_def bit_not_iff possible_bit_def)
  have masked: "bit (w AND LAST_WORD_MASK n) j \<longleftrightarrow> bit w j"
    if "n mod 32 \<noteq> 0 \<longrightarrow> j < n mod 32" "j < 32" for w :: ulong and j
    using that by (simp add: bit_and_iff bit_LAST_WORD_MASK)
  show ?thesis
  proof (cases "n \<le> 32")
    case True
    have ne: "dst \<noteq> []" using n by auto
    have m: "bit (w AND LAST_WORD_MASK n) i \<longleftrightarrow> bit w i" if "i < n" for w :: ulong and i
      using that True by (cases "n = 32") (auto simp: bit_and_iff bit_LAST_WORD_MASK)
    have "i div 32 = 0" "i mod 32 = i" if "i < n" for i using that True by simp_all
    then have "bits_of (dst[0 := NOT (a ! 0) AND LAST_WORD_MASK n]) n = {i. i < n \<and> bit (?f (i div 32)) (i mod 32)}"
      using ne m by (auto simp: bits_of_def tb_def)
    with True rd ne longs_small [OF n(1) True] set show ?thesis
      by (simp add: bitmap_complement_def wr_def Let_def)
  next
    case False
    have lim: "n div 32 \<le> BITS_TO_LONGS n" by (simp add: BITS_TO_LONGS_eq)
    with rd have v: "\<forall>k < n div 32. (do { w \<leftarrow> rd a k; Some (NOT w) }) = Some (?f k)" by simp
    from write_words_spec [OF v, of dst 0] lim fit obtain d where
      d: "write_words (\<lambda>k. do { w \<leftarrow> rd a k; Some (NOT w) }) 0 (n div 32) dst = Some d" "length d = length dst"
      "\<forall>j < length dst. d ! j = (if 0 \<le> j \<and> j < n div 32 then ?f j else dst ! j)" by auto
    show ?thesis
    proof (cases "n mod 32 = 0")
      case True
      with d fit longs_full have "\<forall>k < BITS_TO_LONGS n. d ! k = ?f k" by auto
      from bits_of_words [OF this] set d True False show ?thesis
        by (simp add: bitmap_complement_def Let_def)
    next
      case nz: False
      note last = longs_last [OF nz]
      let ?d = "d[n div 32 := ?f (n div 32) AND LAST_WORD_MASK n]"
      have "bits_of ?d n = {i. i < n \<and> bit (?f (i div 32)) (i mod 32)}"
      proof -
        have "tb ?d i \<longleftrightarrow> bit (?f (i div 32)) (i mod 32)" if i: "i < n" for i
        proof (cases "i div 32 = n div 32")
          case True
          have "i = i div 32 * 32 + i mod 32" "n = n div 32 * 32 + n mod 32" by simp_all
          with i True have "i mod 32 < n mod 32" by linarith
          with True last fit d(2) masked show ?thesis by (simp add: tb_def)
        next
          case False
          with longs_index [OF i] last have "i div 32 < n div 32" by linarith
          with d last fit show ?thesis by (simp add: tb_def)
        qed
        then show ?thesis by (auto simp: bits_of_def)
      qed
      with set d nz False rd last fit show ?thesis
        by (simp add: bitmap_complement_def Let_def wr_def)
    qed
  qed
qed

text \<open>
  \<open>bitmap_and\<close>, \<open>bitmap_or\<close>, \<open>bitmap_xor\<close>, \<open>bitmap_andnot\<close>, \<open>bitmap_complement\<close>
  and \<open>bitmap_copy\<close> compute intersection, union, symmetric difference, difference,
  complement and identity of the sets of bits below \<open>n\<close>, whatever the destination held,
  without leaving the arrays.
\<close>

theorem bitmap_logic:
  assumes n: "0 < n" and a: "n \<le> 32 * length a" and b: "n \<le> 32 * length b" and d: "n \<le> 32 * length dst"
  shows "(\<exists>d. bitmap_and dst a b n = Some d \<and> length d = length dst \<and> bits_of d n = bits_of a n \<inter> bits_of b n) \<and>
    (\<exists>d. bitmap_or dst a b n = Some d \<and> length d = length dst \<and> bits_of d n = bits_of a n \<union> bits_of b n) \<and>
    (\<exists>d. bitmap_xor dst a b n = Some d \<and> length d = length dst \<and>
       bits_of d n = (bits_of a n - bits_of b n) \<union> (bits_of b n - bits_of a n)) \<and>
    (\<exists>d. bitmap_andnot dst a b n = Some d \<and> length d = length dst \<and> bits_of d n = bits_of a n - bits_of b n) \<and>
    (\<exists>d. bitmap_complement dst a n = Some d \<and> length d = length dst \<and> bits_of d n = {..<n} - bits_of a n) \<and>
    (\<exists>d. bitmap_copy dst a n = Some d \<and> length d = length dst \<and> bits_of d n = bits_of a n)"
proof (intro conjI)
  note rd2 = rd2_word [OF a b]
  have nb: "bit (NOT w) (i mod 32) \<longleftrightarrow> \<not> bit w (i mod 32)" for w :: ulong and i
    by (simp add: bit_not_iff possible_bit_def)
  have "{i. i < n \<and> bit (a ! (i div 32) AND b ! (i div 32)) (i mod 32)} = bits_of a n \<inter> bits_of b n"
    by (auto simp: bits_of_def tb_def bit_and_iff)
  with word_op_bits [OF rd2 n d, of "\<lambda>x y. x AND y"]
  show "\<exists>d. bitmap_and dst a b n = Some d \<and> length d = length dst \<and> bits_of d n = bits_of a n \<inter> bits_of b n"
    by (simp add: bitmap_and_def)
  have "{i. i < n \<and> bit (a ! (i div 32) OR b ! (i div 32)) (i mod 32)} = bits_of a n \<union> bits_of b n"
    by (auto simp: bits_of_def tb_def bit_or_iff)
  with word_op_bits [OF rd2 n d, of "\<lambda>x y. x OR y"]
  show "\<exists>d. bitmap_or dst a b n = Some d \<and> length d = length dst \<and> bits_of d n = bits_of a n \<union> bits_of b n"
    by (simp add: bitmap_or_def)
  have "{i. i < n \<and> bit (a ! (i div 32) XOR b ! (i div 32)) (i mod 32)} =
      (bits_of a n - bits_of b n) \<union> (bits_of b n - bits_of a n)"
    by (auto simp: bits_of_def tb_def bit_xor_iff)
  with word_op_bits [OF rd2 n d, of "\<lambda>x y. x XOR y"]
  show "\<exists>d. bitmap_xor dst a b n = Some d \<and> length d = length dst \<and>
      bits_of d n = (bits_of a n - bits_of b n) \<union> (bits_of b n - bits_of a n)"
    by (simp add: bitmap_xor_def)
  have "{i. i < n \<and> bit (a ! (i div 32) AND NOT (b ! (i div 32))) (i mod 32)} = bits_of a n - bits_of b n"
    by (auto simp: bits_of_def tb_def bit_and_iff nb)
  with word_op_bits [OF rd2 n d, of "\<lambda>x y. x AND NOT y"]
  show "\<exists>d. bitmap_andnot dst a b n = Some d \<and> length d = length dst \<and> bits_of d n = bits_of a n - bits_of b n"
    by (simp add: bitmap_andnot_def)
  show "\<exists>d. bitmap_complement dst a n = Some d \<and> length d = length dst \<and> bits_of d n = {..<n} - bits_of a n"
    by (rule complement_bits [OF a n d])
  have "{i. i < n \<and> bit (a ! (i div 32)) (i mod 32)} = bits_of a n" by (auto simp: bits_of_def tb_def)
  with word_op_bits [OF rd_word [OF a] n d]
  show "\<exists>d. bitmap_copy dst a n = Some d \<and> length d = length dst \<and> bits_of d n = bits_of a n"
    by (simp add: bitmap_copy_def)
qed

theorem bitmap_logic_witness:
  "\<exists>d. bitmap_xor [0, 0] [0xff00, 0xa] [0x0ff0, 0x3] 36 = Some d \<and>
     bits_of d 36 = (bits_of [0xff00, 0xa] 36 - bits_of [0x0ff0, 0x3] 36) \<union>
       (bits_of [0x0ff0, 0x3] 36 - bits_of [0xff00, 0xa] 36)"
proof -
  have "(0 :: nat) < 36" "(36 :: nat) \<le> 32 * length [0xff00 :: ulong, 0xa]"
    "(36 :: nat) \<le> 32 * length [0x0ff0 :: ulong, 0x3]" "(36 :: nat) \<le> 32 * length [0 :: ulong, 0]" by simp_all
  from bitmap_logic [OF this] show ?thesis by blast
qed

section \<open>Shifting right\<close>

text \<open>The word \<open>off + k\<close> of the source with the bits behind \<open>bits\<close> cleared.\<close>

definition valid_word :: "ulong list \<Rightarrow> nat \<Rightarrow> nat \<Rightarrow> ulong" where
  "valid_word src bits k =
     (if bits mod 32 \<noteq> 0 \<and> k = BITS_TO_LONGS bits - 1
      then src ! k AND (push_bit (bits mod 32) 1 - 1) else src ! k)"

lemma left_mask: "n < 32 \<Longrightarrow> bit (push_bit n 1 - 1 :: ulong) j \<longleftrightarrow> j < n"
proof -
  assume n: "n < 32"
  have "push_bit n 1 - 1 = (mask n :: ulong)" by (simp add: mask_eq_exp_minus_1 push_bit_eq_mult)
  then show ?thesis using n by (auto simp: bit_mask_iff possible_bit_def)
qed

lemma word_position:
  fixes n :: nat
  assumes "j < 32"
  shows "k * 32 + j < n \<longleftrightarrow> k < n div 32 \<or> (k = n div 32 \<and> j < n mod 32)"
proof -
  have n: "n = n div 32 * 32 + n mod 32" by simp
  have m: "n mod 32 < 32" by simp
  consider "k < n div 32" | "k = n div 32" | "n div 32 < k" by linarith
  then show ?thesis
  proof cases
    case 1
    then have "(k + 1) * 32 \<le> n div 32 * 32" by (intro mult_right_mono) auto
    with 1 n assms show ?thesis by linarith
  next
    case 2
    with n show ?thesis by linarith
  next
    case 3
    then have "(n div 32 + 1) * 32 \<le> k * 32" by (intro mult_right_mono) auto
    with 3 n m show ?thesis by linarith
  qed
qed

lemma bit_valid_word:
  assumes "k < BITS_TO_LONGS bits" "j < 32"
  shows "bit (valid_word src bits k) j \<longleftrightarrow> k * 32 + j < bits \<and> bit (src ! k) j"
proof (cases "bits mod 32 = 0")
  case True
  then have "k < bits div 32" using assms(1) longs_full by simp
  with True show ?thesis using word_position [OF assms(2), of k bits] by (simp add: valid_word_def)
next
  case False
  note last = longs_last [OF False]
  have "bits mod 32 < 32" by simp
  from left_mask [OF this] show ?thesis
    using word_position [OF assms(2), of k bits] assms last False
    by (auto simp: valid_word_def bit_and_iff)
qed

lemma valid_word_behind: "BITS_TO_LONGS bits \<le> k \<Longrightarrow> \<not> k * 32 + j < bits"
proof -
  assume "BITS_TO_LONGS bits \<le> k"
  then have "BITS_TO_LONGS bits * 32 \<le> k * 32" by simp
  moreover have "bits = bits div 32 * 32 + bits mod 32" "bits mod 32 < 32" by simp_all
  then have "bits \<le> BITS_TO_LONGS bits * 32" unfolding BITS_TO_LONGS_eq by (auto split: if_splits)
  ultimately show ?thesis by linarith
qed

text \<open>What the loop stores in word \<open>k\<close>: the source moved down, bits behind \<open>bits\<close> zero.\<close>

lemma shift_right_word_spec:
  assumes src: "bits \<le> 32 * length src" and k: "shift div 32 + k < BITS_TO_LONGS bits"
  shows "\<exists>w. shift_right_word src shift bits k = Some w \<and>
    (\<forall>j < 32. bit w j \<longleftrightarrow> k * 32 + j + shift < bits \<and> tb src (k * 32 + j + shift))"
proof -
  define off rem lim where "off = shift div 32" and "rem = shift mod 32" and "lim = BITS_TO_LONGS bits"
  have fit: "lim \<le> length src" unfolding lim_def using src by (rule longs_fit)
  have k': "off + k < lim" using k by (simp add: off_def lim_def)
  have rem: "rem < 32" by (simp add: rem_def)
  have shift: "shift = off * 32 + rem" by (simp add: off_def rem_def)
  define upper where "upper = (if rem = 0 \<or> lim \<le> off + k + 1 then 0 else valid_word src bits (off + k + 1))"
  define lower where "lower = valid_word src bits (off + k)"
  define d where "d = push_bit (32 - rem) upper OR drop_bit rem lower"
  have w: "shift_right_word src shift bits k =
    Some (if bits mod 32 \<noteq> 0 \<and> k = lim - 1 then d AND (push_bit (bits mod 32) 1 - 1) else d)"
    using k' fit
    by (simp add: shift_right_word_def Let_def rd_def d_def upper_def lower_def valid_word_def
        flip: off_def rem_def lim_def)
  have low: "bit lower i \<longleftrightarrow> (off + k) * 32 + i < bits \<and> bit (src ! (off + k)) i" if "i < 32" for i
    unfolding lower_def using bit_valid_word [OF _ that] k' by (simp add: lim_def)
  have up: "bit upper i \<longleftrightarrow> rem \<noteq> 0 \<and> (off + k + 1) * 32 + i < bits \<and> bit (src ! (off + k + 1)) i" if "i < 32" for i
  proof (cases "rem = 0 \<or> lim \<le> off + k + 1")
    case True
    then show ?thesis using valid_word_behind [of bits "off + k + 1" i] by (auto simp: upper_def lim_def)
  next
    case False
    then show ?thesis using bit_valid_word [OF _ that, of "off + k + 1" bits src] by (simp add: upper_def lim_def)
  qed
  have d: "bit d j \<longleftrightarrow> k * 32 + j + shift < bits \<and> tb src (k * 32 + j + shift)" if j: "j < 32" for j
  proof (cases "j + rem < 32")
    case True
    have pos: "k * 32 + j + shift = (off + k) * 32 + (j + rem)" by (simp add: shift)
    have "\<not> bit (push_bit (32 - rem) upper) j" using True by (auto simp: bit_push_bit_iff)
    moreover have "bit (drop_bit rem lower) j \<longleftrightarrow> bit lower (j + rem)"
      by (simp add: bit_drop_bit_eq add.commute)
    ultimately show ?thesis
      unfolding d_def pos tb_word_add [OF True] using low [OF True] by (simp add: bit_or_iff)
  next
    case False
    have pos: "k * 32 + j + shift = (off + k + 1) * 32 + (j + rem - 32)" using False by (simp add: shift)
    have i: "j + rem - 32 < 32" using j rem by simp
    have "\<not> bit (drop_bit rem lower) j" using False bit_imp_le_length [of lower "rem + j"]
      by (auto simp: bit_drop_bit_eq)
    moreover have "bit (push_bit (32 - rem) upper) j \<longleftrightarrow> bit upper (j + rem - 32)"
      using False j rem by (auto simp: bit_push_bit_iff diff_diff_right)
    moreover have "rem \<noteq> 0" using False j by auto
    ultimately show ?thesis
      unfolding d_def pos tb_word_add [OF i] using up [OF i] by (simp add: bit_or_iff)
  qed
  have "bit (d AND (push_bit (bits mod 32) 1 - 1)) j \<longleftrightarrow> bit d j"
    if "bits mod 32 \<noteq> 0" "k = lim - 1" "j < 32" for j
  proof -
    have "bits mod 32 < 32" by simp
    have "k = bits div 32" using that longs_last lim_def by simp
    then have "bit d j \<Longrightarrow> j < bits mod 32"
      using d [OF that(3)] word_position [OF that(3), of k bits] by simp
    with left_mask [OF \<open>bits mod 32 < 32\<close>] show ?thesis by (auto simp: bit_and_iff)
  qed
  with w d show ?thesis by auto
qed

text \<open>
  \<open>__bitmap_shift_right\<close> by at most the size of the bitmap moves every bit down by
  \<open>shift\<close>, drops the bits that leave at the bottom, feeds zeros at the top, and ignores
  whatever the unused bits of the source hold.
\<close>

theorem shift_right_words_spec:
  assumes src: "n \<le> 32 * length src" and dst: "n \<le> 32 * length dst" and shift: "shift \<le> n"
  shows "\<exists>d. shift_right_words dst src shift n = Some d \<and> length d = length dst \<and>
    bits_of d n = {i. i + shift \<in> bits_of src n}"
proof -
  define off lim where "off = shift div 32" and "lim = BITS_TO_LONGS n"
  have fit: "lim \<le> length dst" unfolding lim_def using dst by (rule longs_fit)
  have "off \<le> n div 32" unfolding off_def using shift by (rule div_le_mono)
  then have off: "off \<le> lim" by (simp add: lim_def BITS_TO_LONGS_eq)
  define f where "f = (\<lambda>k. the (shift_right_word src shift n k))"
  have word: "shift_right_word src shift n k = Some (f k)"
    "j < 32 \<Longrightarrow> bit (f k) j \<longleftrightarrow> k * 32 + j + shift < n \<and> tb src (k * 32 + j + shift)" if "k < lim - off" for k j
  proof -
    have "shift div 32 + k < BITS_TO_LONGS n" using that by (simp add: off_def lim_def)
    from shift_right_word_spec [OF src this] show "shift_right_word src shift n k = Some (f k)"
      "j < 32 \<Longrightarrow> bit (f k) j \<longleftrightarrow> k * 32 + j + shift < n \<and> tb src (k * 32 + j + shift)"
      by (auto simp: f_def)
  qed
  have le: "lim - off \<le> length dst" using fit by simp
  from write_words_spec [OF _ le, of "shift_right_word src shift n" f 0] word(1) le
  obtain d1 where d1: "write_words (shift_right_word src shift n) 0 (lim - off) dst = Some d1"
    "length d1 = length dst" "\<forall>k < lim - off. d1 ! k = f k" by fastforce
  obtain d where d: "shift_right_words dst src shift n = Some d" "length d = length dst"
    "\<forall>k < lim. d ! k = (if k < lim - off then f k else 0)"
  proof (cases "off = 0")
    case True
    with d1 that [of d1] show ?thesis by (simp add: shift_right_words_def Let_def flip: off_def lim_def)
  next
    case False
    from write_words_spec [of lim "\<lambda>_. Some 0" "\<lambda>_. 0" d1 "lim - off"] fit d1(2) obtain d2 where
      "write_words (\<lambda>_. Some 0) (lim - off) lim d1 = Some d2" "length d2 = length dst"
      "\<forall>j < length dst. d2 ! j = (if lim - off \<le> j \<and> j < lim then 0 else d1 ! j)" by auto
    with d1 off False fit that [of d2] show ?thesis
      by (simp add: shift_right_words_def Let_def not_less flip: off_def lim_def)
  qed
  have "tb d i \<longleftrightarrow> i + shift < n \<and> tb src (i + shift)" if i: "i < n" for i
  proof -
    have il: "i div 32 < lim" unfolding lim_def using i by (rule longs_index)
    have pos: "i div 32 * 32 + i mod 32 = i" by simp
    show ?thesis
    proof (cases "i div 32 < lim - off")
      case True
      with word(2) [OF True, of "i mod 32"] d(3) il pos show ?thesis by (simp add: tb_def)
    next
      case False
      then have "lim \<le> i div 32 + off" by simp
      then have "\<not> (i div 32 + off) * 32 + 0 < n" unfolding lim_def by (rule valid_word_behind)
      moreover have "(i div 32 + off) * 32 \<le> i + shift"
        using div_times_less_eq_dividend [of i 32] div_times_less_eq_dividend [of shift 32]
        by (simp add: off_def algebra_simps)
      ultimately have "\<not> i + shift < n" by simp
      with False d(3) il show ?thesis by (simp add: tb_def)
    qed
  qed
  then have "bits_of d n = {i. i + shift \<in> bits_of src n}" by (auto simp: bits_of_def)
  with d show ?thesis by blast
qed

theorem shift_right_words_spec_witness:
  "\<exists>d. shift_right_words [0, 0] [0x100, 0xf1] 4 36 = Some d \<and>
     bits_of d 36 = {i. i + 4 \<in> bits_of [0x100, 0xf1] 36}"
proof -
  have "(36 :: nat) \<le> 32 * length [0x100 :: ulong, 0xf1]" "(36 :: nat) \<le> 32 * length [0 :: ulong, 0]"
    "(4 :: nat) \<le> 36" by simp_all
  from shift_right_words_spec [OF this] show ?thesis by blast
qed

text \<open>
  For bitmaps of at most one word the inline \<open>bitmap_shift_right\<close> does not filter the
  unused bits: a bit set behind \<open>n\<close>, which is not part of the bitmap, is moved into it.
\<close>

theorem bitmap_shift_right_small_leaks:
  assumes "n < 32" and "0 < s" "s \<le> n" and "bit w n"
  shows "bitmap_shift_right [d] [w] s n = Some [drop_bit s w] \<and> n - s \<in> bits_of [drop_bit s w] n \<and>
    n - s \<notin> {i. i + s \<in> bits_of [w] n}"
proof -
  have "bit (drop_bit s w) (n - s)" using assms by (simp add: bit_drop_bit_eq)
  moreover have "(n - s) div 32 = 0" "(n - s) mod 32 = n - s" using assms(1) by simp_all
  ultimately show ?thesis
    using assms by (simp add: bitmap_shift_right_def rd_def wr_def tb_def)
qed

theorem bitmap_shift_right_small_leaks_witness:
  "bitmap_shift_right [0] [0x100] 4 8 = Some [0x10] \<and> 4 \<in> bits_of [0x10] 8"
proof -
  have "bit (0x100 :: ulong) 8" by (simp add: bit_numeral_rec)
  from bitmap_shift_right_small_leaks [of 8 4, OF _ _ _ this, of 0] show ?thesis by simp
qed

section \<open>Weight\<close>

lemma weight_upto_spec:
  assumes "lim \<le> length bm"
  shows "weight_upto bm k lim w = Some (w + (\<Sum>j = k..<lim. popcount (bm ! j)))"
  using assms
proof (induction bm k lim w rule: weight_upto.induct)
  case (1 bm k lim w)
  show ?case
  proof (cases "k < lim")
    case True
    with "1.prems" have rd: "rd bm k = Some (bm ! k)" by (simp add: rd_def)
    have "weight_upto bm k lim w = weight_upto bm (k + 1) lim (w + unat (hweight_long (bm ! k)))"
      using True rd by (subst weight_upto.simps) simp
    also have "\<dots> = Some (w + (popcount (bm ! k) + (\<Sum>j = k + 1..<lim. popcount (bm ! j))))"
      using "1.IH" [OF True rd "1.prems"] by (simp add: hweight_long_def hweight32_eq)
    also have "popcount (bm ! k) + (\<Sum>j = k + 1..<lim. popcount (bm ! j)) = (\<Sum>j = k..<lim. popcount (bm ! j))"
      using True by (simp add: sum.atLeast_Suc_lessThan)
    finally show ?thesis .
  next
    case False
    then show ?thesis by (subst weight_upto.simps) simp
  qed
qed

lemma card_bits_words: "card (bits_of bm (m * 32)) = (\<Sum>j = 0..<m. popcount (bm ! j))"
proof (induction m)
  case 0
  then show ?case by (simp add: bits_of_def)
next
  case (Suc m)
  let ?new = "(\<lambda>j. m * 32 + j) ` {j. j < 32 \<and> bit (bm ! m) j}"
  have "bits_of bm (Suc m * 32) = bits_of bm (m * 32) \<union> ?new"
  proof (intro equalityI subsetI)
    fix i assume i: "i \<in> bits_of bm (Suc m * 32)"
    show "i \<in> bits_of bm (m * 32) \<union> ?new"
    proof (cases "i < m * 32")
      case False
      define j where "j = i - m * 32"
      have j: "i = m * 32 + j" "j < 32" using i False by (auto simp: j_def)
      with i show ?thesis by (auto simp: tb_def)
    qed (use i in simp)
  qed (auto simp: tb_def)
  moreover have "bits_of bm (m * 32) \<inter> ?new = {}" by auto
  moreover have "card ?new = popcount (bm ! m)"
    unfolding popcount_def by (rule card_image) simp
  ultimately show ?case using Suc by (simp add: card_Un_disjoint)
qed

lemma card_bits_last:
  assumes "r < 32"
  shows "card (bits_of bm (m * 32 + r)) = card (bits_of bm (m * 32)) + card {j. j < r \<and> bit (bm ! m) j}"
proof -
  let ?new = "(\<lambda>j. m * 32 + j) ` {j. j < r \<and> bit (bm ! m) j}"
  have "bits_of bm (m * 32 + r) = bits_of bm (m * 32) \<union> ?new"
  proof (intro equalityI subsetI)
    fix i assume i: "i \<in> bits_of bm (m * 32 + r)"
    show "i \<in> bits_of bm (m * 32) \<union> ?new"
    proof (cases "i < m * 32")
      case False
      define j where "j = i - m * 32"
      have j: "i = m * 32 + j" "j < r" using i False by (auto simp: j_def)
      with i assms show ?thesis by (auto simp: tb_def)
    qed (use i in simp)
  qed (use assms in \<open>auto simp: tb_def\<close>)
  moreover have "bits_of bm (m * 32) \<inter> ?new = {}" by auto
  moreover have "card ?new = card {j. j < r \<and> bit (bm ! m) j}" by (rule card_image) simp
  ultimately show ?thesis by (simp add: card_Un_disjoint)
qed

lemma popcount_masked:
  "popcount (w AND LAST_WORD_MASK n) = card {j. j < (if n mod 32 = 0 then 32 else n mod 32) \<and> bit w j}"
proof -
  have "n mod 32 < 32" by simp
  then show ?thesis
    unfolding popcount_def bit_and_iff bit_LAST_WORD_MASK
    by (intro arg_cong [where f = card]) auto
qed

lemma bitmap_weight_eq:
  assumes n: "0 < n" "n \<le> 32 * length bm"
  shows "bitmap_weight bm n = Some (card (bits_of bm n))"
proof (cases "n \<le> 32")
  case True
  have "bm \<noteq> []" using n by auto
  then have rd: "rd bm 0 = Some (bm ! 0)" by (simp add: rd_def)
  have "(if n mod 32 = 0 then 32 else n mod 32) = n" using n True by (cases "n = 32") auto
  moreover have "bits_of bm n = {j. j < n \<and> bit (bm ! 0) j}" using True by (auto simp: bits_of_def tb_def)
  ultimately show ?thesis
    using True rd by (simp add: bitmap_weight_def hweight_long_def hweight32_eq popcount_masked)
next
  case False
  have fit: "BITS_TO_LONGS n \<le> length bm" using n(2) by (rule longs_fit)
  then have lim: "n div 32 \<le> length bm" by (simp add: BITS_TO_LONGS_eq)
  have up: "weight_upto bm 0 (n div 32) 0 = Some (card (bits_of bm (n div 32 * 32)))"
    using weight_upto_spec [OF lim, of 0 0] by (simp add: card_bits_words)
  show ?thesis
  proof (cases "n mod 32 = 0")
    case True
    then have "n div 32 * 32 = n" by auto
    with up True False show ?thesis by (simp add: bitmap_weight_def Let_def)
  next
    case nz: False
    with fit longs_last [OF nz] have rd: "rd bm (n div 32) = Some (bm ! (n div 32))" by (simp add: rd_def)
    have "card (bits_of bm n) = card (bits_of bm (n div 32 * 32)) + card {j. j < n mod 32 \<and> bit (bm ! (n div 32)) j}"
      using card_bits_last [of "n mod 32" bm "n div 32"] by simp
    with up nz False rd show ?thesis
      by (simp add: bitmap_weight_def Let_def hweight_long_def hweight32_eq popcount_masked)
  qed
qed

end
