(* ===== verification/BitmapMap.thy ===== *)
theory BitmapMap imports Bitmap begin

text \<open>
  Iteration over the set bits of a bitmap and the maps between bitmaps of \<open>lib/bitmap.c\<close>:
  positions and ordinals, \<open>bitmap_remap\<close>, \<open>bitmap_bitremap\<close>, \<open>bitmap_onto\<close> and
  \<open>bitmap_fold\<close>, shown equal to maps on sets of bit numbers.
\<close>

section \<open>Iterating over the set bits\<close>

text \<open>
  The loop \<open>for (i = find_first_bit (...); i < bits; i = find_next_bit (..., i + 1))\<close> from a
  given \<open>i\<close> on, with the loop body \<open>f\<close>.
\<close>

lemma next_bit_gt: "find_next_bit bm n (i + 1) = Some r \<Longrightarrow> i < n \<Longrightarrow> i < r \<and> r \<le> n"
proof (cases "i + 1 < n")
  case True
  assume "find_next_bit bm n (i + 1) = Some r"
  from nb.search_ge [OF this True] show ?thesis by simp
next
  case False
  assume "find_next_bit bm n (i + 1) = Some r" "i < n"
  with nb.search_next [of bm n "i + 1" r] False show ?thesis by (auto simp: next_in_def)
qed

function each_bit :: "(nat \<Rightarrow> 's \<Rightarrow> 's option) \<Rightarrow> ulong list \<Rightarrow> nat \<Rightarrow> nat \<Rightarrow> 's \<Rightarrow> 's option" where
  "each_bit f bm n i s =
     (if i < n then do { s \<leftarrow> f i s; i \<leftarrow> find_next_bit bm n (i + 1); each_bit f bm n i s }
      else Some s)"
  by pat_completeness auto
termination
  by (relation "measure (\<lambda>(f, bm, n, i, s). n - i)") (auto dest!: next_bit_gt [simplified])

declare each_bit.simps [simp del]

section \<open>Relative maps\<close>

text \<open>\<open>bitmap_pos_to_ord\<close>: \<open>-1\<close> for a position that is not a set bit.\<close>

function ord_loop :: "ulong list \<Rightarrow> nat \<Rightarrow> nat \<Rightarrow> nat \<Rightarrow> nat \<Rightarrow> (nat \<times> nat) option" where
  "ord_loop buf n pos i ord =
     (if i < pos \<and> i < n then do { i \<leftarrow> find_next_bit buf n (i + 1); ord_loop buf n pos i (ord + 1) }
      else Some (i, ord))"
  by pat_completeness auto
termination
  by (relation "measure (\<lambda>(buf, n, pos, i, ord). n - i)") (auto dest!: next_bit_gt [simplified])

declare ord_loop.simps [simp del]

definition bitmap_pos_to_ord :: "ulong list \<Rightarrow> int \<Rightarrow> nat \<Rightarrow> int result option" where
  "bitmap_pos_to_ord buf pos bits =
     (if pos < 0 \<or> int bits \<le> pos then Some (Inr (- 1))
      else do { b \<leftarrow> test_bit (nat pos) buf;
                if \<not> b then Some (Inr (- 1))
                else do { i \<leftarrow> find_first_bit buf bits;
                          (i, ord) \<leftarrow> ord_loop buf bits (nat pos) i 0;
                          Some (if i \<noteq> nat pos then Inl Bug else Inr (int ord)) } })"

text \<open>\<open>bitmap_ord_to_pos\<close>; the loop stops at the bit with \<open>ord\<close> bits before it.\<close>

function pos_loop :: "ulong list \<Rightarrow> nat \<Rightarrow> nat \<Rightarrow> nat \<Rightarrow> (nat \<times> nat) option" where
  "pos_loop buf n i ord =
     (if i < n \<and> 0 < ord then do { i \<leftarrow> find_next_bit buf n (i + 1); pos_loop buf n i (ord - 1) }
      else Some (i, ord))"
  by pat_completeness auto
termination
  by (relation "measure (\<lambda>(buf, n, i, ord). ord)") auto

declare pos_loop.simps [simp del]

definition bitmap_ord_to_pos :: "ulong list \<Rightarrow> int \<Rightarrow> nat \<Rightarrow> nat option" where
  "bitmap_ord_to_pos buf ord bits =
     (if 0 \<le> ord \<and> ord < int bits
      then do { i \<leftarrow> find_first_bit buf bits;
                (i, ord) \<leftarrow> pos_loop buf bits i (nat ord);
                Some (if i < bits \<and> ord = 0 then i else 0) }
      else Some 0)"

text \<open>
  The maps. The flag \<open>same\<close> is the test \<open>dst == src\<close> (\<open>dst == orig\<close>) on the two pointers,
  with which the functions return at once; when it is false the arrays are distinct.
\<close>

definition map_bit :: "ulong list \<Rightarrow> ulong list \<Rightarrow> nat \<Rightarrow> nat \<Rightarrow> nat \<Rightarrow> nat result option" where
  "map_bit old new bits w oldbit =
     do { n \<leftarrow> bitmap_pos_to_ord old (int oldbit) bits;
          case n of
            Inl e \<Rightarrow> Some (Inl e)
          | Inr n \<Rightarrow>
              if n < 0 \<or> w = 0 then Some (Inr oldbit)
              else do { p \<leftarrow> bitmap_ord_to_pos new (n mod int w) bits; Some (Inr p) } }"

definition bitmap_remap ::
  "bool \<Rightarrow> ulong list \<Rightarrow> ulong list \<Rightarrow> ulong list \<Rightarrow> ulong list \<Rightarrow> nat \<Rightarrow> ulong list option" where
  "bitmap_remap same dst src old new bits =
     (if same then Some dst else do { dst \<leftarrow> bitmap_zero dst bits;
          w \<leftarrow> bitmap_weight new bits;
          i \<leftarrow> find_first_bit src bits;
          each_bit (\<lambda>oldbit dst. do { r \<leftarrow> map_bit old new bits w oldbit;
                                       case r of Inl _ \<Rightarrow> None | Inr p \<Rightarrow> set_bit_op p dst })
            src bits i dst })"

definition bitmap_bitremap :: "nat \<Rightarrow> ulong list \<Rightarrow> ulong list \<Rightarrow> nat \<Rightarrow> nat result option" where
  "bitmap_bitremap oldbit old new bits =
     do { w \<leftarrow> bitmap_weight new bits; map_bit old new bits w oldbit }"

definition bitmap_onto :: "bool \<Rightarrow> ulong list \<Rightarrow> ulong list \<Rightarrow> ulong list \<Rightarrow> nat \<Rightarrow> ulong list option" where
  "bitmap_onto same dst orig relmap bits =
     (if same then Some dst else do { dst \<leftarrow> bitmap_zero dst bits;
          n \<leftarrow> find_first_bit relmap bits;
          (dst, m) \<leftarrow> each_bit (\<lambda>n (dst, m). do {
                b \<leftarrow> test_bit m orig;
                dst \<leftarrow> (if b then set_bit_op n dst else Some dst);
                Some (dst, m + 1) }) relmap bits n (dst, 0);
          Some dst })"

definition bitmap_fold :: "bool \<Rightarrow> ulong list \<Rightarrow> ulong list \<Rightarrow> nat \<Rightarrow> nat \<Rightarrow> ulong list option" where
  "bitmap_fold same dst orig sz bits =
     (if same then Some dst else do { dst \<leftarrow> bitmap_zero dst bits;
          i \<leftarrow> find_first_bit orig bits;
          each_bit (\<lambda>oldbit dst. if sz = 0 then None else set_bit_op (oldbit mod sz) dst) orig bits i dst })"

section \<open>The loop visits the set bits in order\<close>

fun fold_opt :: "('a \<Rightarrow> 's \<Rightarrow> 's option) \<Rightarrow> 'a list \<Rightarrow> 's \<Rightarrow> 's option" where
  "fold_opt f [] s = Some s"
| "fold_opt f (x # xs) s = do { s \<leftarrow> f x s; fold_opt f xs s }"

text \<open>The set bits from \<open>off\<close> on, in increasing order.\<close>

definition bits_from :: "ulong list \<Rightarrow> nat \<Rightarrow> nat \<Rightarrow> nat list" where
  "bits_from bm n off = filter (tb bm) [off..<n]"

lemma bits_from_next:
  assumes "next_in (tb bm) n off i"
  shows "bits_from bm n off = (if i < n then i # bits_from bm n (i + 1) else [])"
proof (cases "off < n")
  case True
  with assms have i: "off \<le> i" "i \<le> n" "\<forall>j. off \<le> j \<and> j < i \<longrightarrow> \<not> tb bm j" "i < n \<longrightarrow> tb bm i"
    by (auto simp: next_in_def)
  have "[off..<n] = [off..<i] @ [i..<n]" using i by (metis upt_add_eq_append le_add_diff_inverse)
  moreover have "filter (tb bm) [off..<i] = []" using i(3) by (auto simp: filter_empty_conv)
  ultimately show ?thesis using i(2,4) by (auto simp: bits_from_def upt_conv_Cons)
next
  case False
  with assms show ?thesis by (auto simp: bits_from_def next_in_def)
qed

lemma each_bit_eq:
  assumes n: "n \<le> 32 * length bm" and i: "next_in (tb bm) n off i"
  shows "each_bit f bm n i s = fold_opt f (bits_from bm n off) s"
  using i
proof (induction "n - i" arbitrary: i s off rule: less_induct)
  case less
  note bits = bits_from_next [OF less.prems]
  show ?case
  proof (cases "i < n")
    case True
    from nb.search_total [OF n] obtain r where r: "find_next_bit bm n (i + 1) = Some r"
      "next_in (tb bm) n (i + 1) r" by blast
    from next_bit_gt [OF r(1) True] have "n - r < n - i" using True by linarith
    from less.hyps [OF this r(2)] have IH: "each_bit f bm n r s = fold_opt f (bits_from bm n (i + 1)) s" for s .
    have "each_bit f bm n i s = do { s \<leftarrow> f i s; each_bit f bm n r s }"
      using True r(1) by (subst each_bit.simps) simp
    also have "\<dots> = fold_opt f (bits_from bm n off) s" unfolding bits using True IH by simp
    finally show ?thesis .
  next
    case False
    with bits show ?thesis by (subst each_bit.simps) simp
  qed
qed

lemma bits_from_set: "set (bits_from bm n off) = {i \<in> bits_of bm n. off \<le> i}"
  by (auto simp: bits_from_def)

lemma bits_from_sorted: "sorted (bits_from bm n off)" "distinct (bits_from bm n off)"
  by (simp_all add: bits_from_def sorted_wrt_filter)

text \<open>The \<open>m\<close>-th set bit, counting from zero, and the number of set bits before one.\<close>

definition nth_bit :: "nat set \<Rightarrow> nat \<Rightarrow> nat" where
  "nth_bit S m = sorted_list_of_set S ! m"

definition ord_bit :: "nat set \<Rightarrow> nat \<Rightarrow> nat" where
  "ord_bit S i = card {j \<in> S. j < i}"

lemma bits_from_0: "bits_from bm n 0 = sorted_list_of_set (bits_of bm n)"
  using bits_from_set [of bm n 0] bits_from_sorted [of bm n 0]
  by (metis (no_types, lifting) Collect_cong Collect_mem_eq le0 sorted_list_of_set.idem_if_sorted_distinct)

lemma first_bit:
  assumes "n \<le> 32 * length bm"
  obtains i where "find_first_bit bm n = Some i" "next_in (tb bm) n 0 i"
  using nb.search_total [OF assms] by (auto simp: find_first_bit_eq)

lemma ord_loop_spec:
  assumes n: "n \<le> 32 * length bm" and pos: "pos < n" "tb bm pos"
  shows "next_in (tb bm) n off i \<Longrightarrow> off \<le> pos \<Longrightarrow>
    ord_loop bm n pos i ord = Some (pos, ord + card {j \<in> bits_of bm n. off \<le> j \<and> j < pos})"
proof (induction "n - i" arbitrary: i ord off rule: less_induct)
  case less
  have off: "off < n" using less.prems(2) pos(1) by simp
  with less.prems(1) have i: "off \<le> i" "i \<le> n" "\<forall>j. off \<le> j \<and> j < i \<longrightarrow> \<not> tb bm j" "i < n \<longrightarrow> tb bm i"
    by (auto simp: next_in_def)
  have le: "i \<le> pos" using i(3) pos(2) less.prems(2) by (meson not_le)
  show ?case
  proof (cases "i < pos")
    case True
    then have in_n: "i < n" using pos(1) by simp
    from nb.search_total [OF n] obtain r where r: "find_next_bit bm n (i + 1) = Some r"
      "next_in (tb bm) n (i + 1) r" by blast
    from next_bit_gt [OF r(1) in_n] have "n - r < n - i" using in_n by linarith
    from less.hyps [OF this r(2), of "ord + 1"] True
    have IH: "ord_loop bm n pos r (ord + 1) = Some (pos, ord + 1 + card {j \<in> bits_of bm n. i + 1 \<le> j \<and> j < pos})"
      by simp
    have "{j \<in> bits_of bm n. off \<le> j \<and> j < pos} = insert i {j \<in> bits_of bm n. i + 1 \<le> j \<and> j < pos}"
    proof (intro equalityI subsetI)
      fix j assume j: "j \<in> {j \<in> bits_of bm n. off \<le> j \<and> j < pos}"
      then have "\<not> j < i" using i(3) by auto
      with j show "j \<in> insert i {j \<in> bits_of bm n. i + 1 \<le> j \<and> j < pos}" by auto
    qed (use i in_n True in auto)
    then have "card {j \<in> bits_of bm n. off \<le> j \<and> j < pos} = 1 + card {j \<in> bits_of bm n. i + 1 \<le> j \<and> j < pos}"
      by simp
    with IH True in_n r(1) show ?thesis by (subst ord_loop.simps) simp
  next
    case False
    with le have "i = pos" by simp
    moreover have "{j \<in> bits_of bm n. off \<le> j \<and> j < pos} = {}" using i(3) \<open>i = pos\<close> by auto
    ultimately show ?thesis by (subst ord_loop.simps) simp
  qed
qed

lemma pos_to_ord_eq:
  assumes n: "n \<le> 32 * length bm"
  shows "bitmap_pos_to_ord bm (int p) n =
    Some (Inr (if p \<in> bits_of bm n then int (ord_bit (bits_of bm n) p) else - 1))"
proof (cases "p < n")
  case True
  with n have tb: "test_bit p bm = Some (tb bm p)" by (intro test_bit_eq) simp
  from first_bit [OF n] obtain i where i: "find_first_bit bm n = Some i" "next_in (tb bm) n 0 i" .
  show ?thesis
  proof (cases "tb bm p")
    case t: True
    from ord_loop_spec [OF n True t i(2), of 0] True t tb i(1) show ?thesis
      by (simp add: bitmap_pos_to_ord_def ord_bit_def)
  next
    case False
    with True tb show ?thesis by (simp add: bitmap_pos_to_ord_def)
  qed
qed (simp add: bitmap_pos_to_ord_def)

lemma pos_loop_spec:
  assumes n: "n \<le> 32 * length bm"
  shows "next_in (tb bm) n off i \<Longrightarrow> \<exists>i' ord'. pos_loop bm n i ord = Some (i', ord') \<and>
    (if ord < length (bits_from bm n off) then i' = bits_from bm n off ! ord \<and> ord' = 0 else n \<le> i')"
proof (induction ord arbitrary: i off)
  case 0
  then show ?case
    using bits_from_next [OF 0] by (subst pos_loop.simps) auto
next
  case (Suc ord)
  note bits = bits_from_next [OF Suc.prems]
  show ?case
  proof (cases "i < n")
    case True
    from nb.search_total [OF n] obtain r where r: "find_next_bit bm n (i + 1) = Some r"
      "next_in (tb bm) n (i + 1) r" by blast
    from Suc.IH [OF r(2)] obtain i' ord' where IH: "pos_loop bm n r ord = Some (i', ord')"
      "if ord < length (bits_from bm n (i + 1)) then i' = bits_from bm n (i + 1) ! ord \<and> ord' = 0 else n \<le> i'"
      by blast
    have "pos_loop bm n i (Suc ord) = Some (i', ord')"
      using True r(1) IH(1) by (subst pos_loop.simps) simp
    with IH(2) bits True show ?thesis by simp
  next
    case False
    with bits show ?thesis by (subst pos_loop.simps) simp
  qed
qed

lemma ord_to_pos_eq:
  assumes n: "n \<le> 32 * length bm" and m: "m < card (bits_of bm n)"
  shows "bitmap_ord_to_pos bm (int m) n = Some (nth_bit (bits_of bm n) m)"
proof -
  have "card (bits_of bm n) \<le> card {..<n}" by (rule card_mono) auto
  then have mn: "m < n" using m by simp
  from first_bit [OF n] obtain i where i: "find_first_bit bm n = Some i" "next_in (tb bm) n 0 i" .
  have len: "m < length (bits_from bm n 0)" using m by (simp add: bits_from_0)
  with pos_loop_spec [OF n i(2), of m] have loop: "pos_loop bm n i m = Some (bits_from bm n 0 ! m, 0)" by auto
  have "bits_from bm n 0 ! m \<in> set (bits_from bm n 0)" using len by (rule nth_mem)
  then have "bits_from bm n 0 ! m < n" by (auto simp: bits_from_set)
  with mn i(1) loop show ?thesis by (simp add: bitmap_ord_to_pos_def nth_bit_def bits_from_0)
qed

section \<open>The maps on sets\<close>

lemma bitmap_zero_eq:
  assumes "n \<le> 32 * length dst" "0 < n"
  shows "\<exists>d. bitmap_zero dst n = Some d \<and> length d = length dst \<and> (\<forall>i < n. \<not> tb d i)"
proof (cases "n \<le> 32")
  case True
  have "dst \<noteq> []" using assms by auto
  with True show ?thesis by (simp add: bitmap_zero_def wr_def tb_def)
next
  case False
  from write_words_spec [of "BITS_TO_LONGS n" "\<lambda>_. Some 0" "\<lambda>_. 0" dst 0] longs_fit [OF assms(1)]
  obtain d where "write_words (\<lambda>_. Some 0) 0 (BITS_TO_LONGS n) dst = Some d" "length d = length dst"
    "\<forall>j < length dst. d ! j = (if j < BITS_TO_LONGS n then 0 else dst ! j)" by auto
  moreover have "d ! (i div 32) = 0" if "i < n" for i
    using calculation(3) longs_index [OF that] less_le_trans [OF longs_index [OF that] longs_fit [OF assms(1)]]
    by simp
  ultimately show ?thesis using False by (intro exI [of _ d]) (simp add: bitmap_zero_def tb_def)
qed

lemma fold_set_bits:
  assumes "\<And>x. x \<in> set xs \<Longrightarrow> g x < 32 * length d"
    and f: "\<And>x d. x \<in> set xs \<Longrightarrow> f x d = set_bit_op (g x) d"
  shows "\<exists>d'. fold_opt f xs d = Some d' \<and> length d' = length d \<and> (\<forall>i. tb d' i \<longleftrightarrow> tb d i \<or> i \<in> g ` set xs)"
  using assms
proof (induction xs arbitrary: d)
  case (Cons x xs)
  from set_bit_op_eq [of "g x" d] Cons.prems(1) obtain d1 where
    d1: "set_bit_op (g x) d = Some d1" "length d1 = length d" "\<forall>i. tb d1 i \<longleftrightarrow> i = g x \<or> tb d i" by auto
  from Cons.IH [of d1] Cons.prems d1(2) obtain d' where
    "fold_opt f xs d1 = Some d'" "length d' = length d" "\<forall>i. tb d' i \<longleftrightarrow> tb d1 i \<or> i \<in> g ` set xs" by auto
  with d1 Cons.prems(2) show ?case by auto
qed simp

text \<open>The map a pair of bitmaps defines.\<close>

definition remap_pos :: "nat set \<Rightarrow> nat set \<Rightarrow> nat \<Rightarrow> nat" where
  "remap_pos old new b =
     (if b \<in> old \<and> new \<noteq> {} then nth_bit new (ord_bit old b mod card new) else b)"

lemma nth_bit_in: "finite S \<Longrightarrow> m < card S \<Longrightarrow> nth_bit S m \<in> S"
  unfolding nth_bit_def by (metis nth_mem set_sorted_list_of_set sorted_list_of_set.length_sorted_key_list_of_set)

lemma remap_pos_less: "b < n \<Longrightarrow> remap_pos S (bits_of new n) b < n"
proof -
  assume b: "b < n"
  have "nth_bit (bits_of new n) (m mod card (bits_of new n)) \<in> bits_of new n" if "bits_of new n \<noteq> {}" for m
    using that by (intro nth_bit_in) (simp_all add: card_gt_0_iff)
  with b show ?thesis unfolding remap_pos_def by (auto simp: bits_of_def split: if_splits)
qed

lemma map_bit_eq:
  assumes "n \<le> 32 * length old" "n \<le> 32 * length new"
  shows "map_bit old new n (card (bits_of new n)) b =
    Some (Inr (remap_pos (bits_of old n) (bits_of new n) b))"
proof (cases "b \<in> bits_of old n \<and> bits_of new n \<noteq> {}")
  case True
  then have w: "0 < card (bits_of new n)" by (simp add: card_gt_0_iff)
  define m where "m = ord_bit (bits_of old n) b mod card (bits_of new n)"
  have "int (ord_bit (bits_of old n) b) mod int (card (bits_of new n)) = int m"
    by (simp add: m_def zmod_int)
  moreover have "m < card (bits_of new n)" using w by (simp add: m_def)
  note ord_to_pos_eq [OF assms(2) this]
  ultimately show ?thesis
    using True w pos_to_ord_eq [OF assms(1), of b] by (simp add: map_bit_def remap_pos_def m_def del: bits_of_iff)
next
  case False
  then have "b \<notin> bits_of old n \<or> card (bits_of new n) = 0" by auto
  then show ?thesis
    using pos_to_ord_eq [OF assms(1), of b] False by (auto simp: map_bit_def remap_pos_def simp del: bits_of_iff)
qed

text \<open>A loop over the set bits of \<open>src\<close> that sets a bit of a cleared \<open>dst\<close> for each.\<close>

lemma each_bit_image:
  assumes src: "n \<le> 32 * length src" and dst: "n \<le> 32 * length dst" "0 < n"
    and g: "\<And>b. b \<in> bits_of src n \<Longrightarrow> g b < n"
    and f: "\<And>b d. b \<in> bits_of src n \<Longrightarrow> f b d = set_bit_op (g b) d"
  shows "\<exists>d0 i d. bitmap_zero dst n = Some d0 \<and> find_first_bit src n = Some i \<and>
    each_bit f src n i d0 = Some d \<and> length d = length dst \<and> bits_of d n = g ` bits_of src n"
proof -
  from bitmap_zero_eq [OF dst] obtain d0 where d0: "bitmap_zero dst n = Some d0" "length d0 = length dst"
    "\<forall>i < n. \<not> tb d0 i" by blast
  from first_bit [OF src] obtain i where i: "find_first_bit src n = Some i" "next_in (tb src) n 0 i" .
  have set: "set (bits_from src n 0) = bits_of src n" by (auto simp: bits_from_set)
  have "g b < 32 * length d0" if "b \<in> set (bits_from src n 0)" for b
    using g that dst(1) d0(2) unfolding set by (metis less_le_trans)
  moreover have "f b d = set_bit_op (g b) d" if "b \<in> set (bits_from src n 0)" for b d
    using f that unfolding set by blast
  ultimately obtain d where d: "fold_opt f (bits_from src n 0) d0 = Some d" "length d = length d0"
    "\<forall>i. tb d i \<longleftrightarrow> tb d0 i \<or> i \<in> g ` bits_of src n"
    using fold_set_bits [of "bits_from src n 0" g d0 f] unfolding set by blast
  have "bits_of d n = g ` bits_of src n"
  proof (intro equalityI subsetI)
    fix x assume "x \<in> g ` bits_of src n"
    moreover then have "x < n" using g by blast
    ultimately show "x \<in> bits_of d n" using d(3) by simp
  qed (use d(3) d0(3) in auto)
  moreover have "each_bit f src n i d0 = Some d" using each_bit_eq [OF src i(2), of f d0] d(1) by simp
  ultimately show ?thesis using d0 i(1) d(2) by metis
qed

text \<open>
  C37: For bitmaps of at least one bit, with \<open>dst\<close> another array than \<open>src\<close>, \<open>bitmap_remap\<close> sends every set bit of the source through the map the comment in the
  code describes: the \<open>n\<close>-th set bit of \<open>old\<close> goes to the \<open>(n mod w)\<close>-th set bit of \<open>new\<close>,
  where \<open>w\<close> is the weight of \<open>new\<close>, and all other bits stay; \<open>bitmap_bitremap\<close> computes
  the same map for one bit. The \<open>BUG_ON\<close> in \<open>bitmap_pos_to_ord\<close> is never reached.
\<close>

theorem bitmap_remap_spec:
  assumes n: "0 < n" and len: "n \<le> 32 * length dst" "n \<le> 32 * length src" "n \<le> 32 * length old" "n \<le> 32 * length new"
  shows "(\<exists>d. bitmap_remap False dst src old new n = Some d \<and> length d = length dst \<and>
      bits_of d n = remap_pos (bits_of old n) (bits_of new n) ` bits_of src n) \<and>
    bitmap_bitremap b old new n = Some (Inr (remap_pos (bits_of old n) (bits_of new n) b))"
proof (rule conjI)
  note w = bitmap_weight_eq [OF n len(4)]
  let ?f = "\<lambda>oldbit dst. do { r \<leftarrow> map_bit old new n (card (bits_of new n)) oldbit;
                                       case r of Inl _ \<Rightarrow> None | Inr p \<Rightarrow> set_bit_op p dst }"
  let ?g = "remap_pos (bits_of old n) (bits_of new n)"
  have "?f b d = set_bit_op (?g b) d" for b d
    using map_bit_eq [OF len(3,4)] by simp
  moreover have "?g b < n" if "b \<in> bits_of src n" for b using that remap_pos_less by simp
  ultimately obtain d0 i d where "bitmap_zero dst n = Some d0" "find_first_bit src n = Some i"
    "each_bit ?f src n i d0 = Some d" "length d = length dst" "bits_of d n = ?g ` bits_of src n"
    using each_bit_image [OF len(2,1) n, of ?g ?f] by blast
  then show "\<exists>d. bitmap_remap False dst src old new n = Some d \<and> length d = length dst \<and>
      bits_of d n = ?g ` bits_of src n"
    by (simp add: bitmap_remap_def w)
  show "bitmap_bitremap b old new n = Some (Inr (?g b))"
    using w map_bit_eq [OF len(3,4)] by (simp add: bitmap_bitremap_def)
qed

theorem bitmap_remap_spec_witness:
  "\<exists>d. bitmap_remap False [0] [0xa2] [0xf0] [0xf000] 16 = Some d \<and>
     bits_of d 16 = remap_pos (bits_of [0xf0] 16) (bits_of [0xf000] 16) ` bits_of [0xa2] 16"
proof -
  have "(0 :: nat) < 16" "(16 :: nat) \<le> 32 * length [0 :: ulong]" "(16 :: nat) \<le> 32 * length [0xa2 :: ulong]"
    "(16 :: nat) \<le> 32 * length [0xf0 :: ulong]" "(16 :: nat) \<le> 32 * length [0xf000 :: ulong]" by simp_all
  from bitmap_remap_spec [OF this] show ?thesis by blast
qed

text \<open>The loop of \<open>bitmap_onto\<close>: the running ordinal counts the bits already visited.\<close>

definition onto_body :: "ulong list \<Rightarrow> nat \<Rightarrow> ulong list \<times> nat \<Rightarrow> (ulong list \<times> nat) option" where
  "onto_body orig n dm = (case dm of (dst, m) \<Rightarrow> do {
     b \<leftarrow> test_bit m orig;
     dst \<leftarrow> (if b then set_bit_op n dst else Some dst);
     Some (dst, m + 1) })"

lemma onto_fold:
  assumes "length xs + m \<le> 32 * length orig" "\<forall>x \<in> set xs. x < 32 * length d"
  shows "\<exists>d'. fold_opt (onto_body orig) xs (d, m) = Some (d', m + length xs) \<and> length d' = length d \<and>
    (\<forall>i. tb d' i \<longleftrightarrow> tb d i \<or> (\<exists>k < length xs. i = xs ! k \<and> tb orig (m + k)))"
  using assms
proof (induction xs arbitrary: d m)
  case (Cons x xs)
  have t: "test_bit m orig = Some (tb orig m)" using Cons.prems(1) by (intro test_bit_eq) simp
  obtain d1 where d1: "(if tb orig m then set_bit_op x d else Some d) = Some d1" "length d1 = length d"
    "\<forall>i. tb d1 i \<longleftrightarrow> (tb orig m \<and> i = x) \<or> tb d i"
  proof (cases "tb orig m")
    case True
    then show thesis using that set_bit_op_eq [of x d] Cons.prems(2) by auto
  next
    case False
    then show thesis using that [of d] by simp
  qed
  have body: "onto_body orig x (d, m) = Some (d1, m + 1)"
    unfolding onto_body_def prod.case t by (simp add: d1(1))
  from Cons.IH [of "m + 1" d1] Cons.prems d1(2) obtain d' where
    d': "fold_opt (onto_body orig) xs (d1, m + 1) = Some (d', m + 1 + length xs)" "length d' = length d1"
    "\<forall>i. tb d' i \<longleftrightarrow> tb d1 i \<or> (\<exists>k < length xs. i = xs ! k \<and> tb orig (m + 1 + k))" by auto
  have "(\<exists>k < length (x # xs). i = (x # xs) ! k \<and> tb orig (m + k)) \<longleftrightarrow>
      (i = x \<and> tb orig m) \<or> (\<exists>k < length xs. i = xs ! k \<and> tb orig (m + 1 + k))" for i
    by (simp add: Ex_less_Suc2)
  with body d' d1 show ?case by auto
qed simp

lemma sorted_rank:
  assumes "sorted xs" "distinct xs" "k < length xs"
  shows "card {j \<in> set xs. j < xs ! k} = k"
proof -
  have "{j \<in> set xs. j < xs ! k} = (!) xs ` {..<k}"
  proof (intro equalityI subsetI)
    fix j assume "j \<in> {j \<in> set xs. j < xs ! k}"
    then obtain l where l: "l < length xs" "j = xs ! l" "xs ! l < xs ! k" by (auto simp: in_set_conv_nth)
    with assms(1,3) have "l < k" by (meson not_le sorted_nth_mono)
    with l show "j \<in> (!) xs ` {..<k}" by auto
  next
    fix j assume "j \<in> (!) xs ` {..<k}"
    then obtain l where l: "l < k" "j = xs ! l" by auto
    with assms have "xs ! l \<le> xs ! k" "xs ! l \<noteq> xs ! k"
      by (auto simp: sorted_nth_mono nth_eq_iff_index_eq)
    with l assms(3) show "j \<in> {j \<in> set xs. j < xs ! k}" by auto
  qed
  moreover have "inj_on ((!) xs) {..<k}" using assms(2,3) by (auto simp: inj_on_def nth_eq_iff_index_eq)
  ultimately show ?thesis by (simp add: card_image)
qed

lemma bitmap_onto_eq:
  "bitmap_onto False dst orig relmap n =
     do { d \<leftarrow> bitmap_zero dst n; i \<leftarrow> find_first_bit relmap n;
          (d, m) \<leftarrow> each_bit (onto_body orig) relmap n i (d, 0); Some d }"
  unfolding bitmap_onto_def onto_body_def by (simp add: case_prod_unfold)

lemma bitmap_onto_spec:
  assumes n: "0 < n" and len: "n \<le> 32 * length dst" "n \<le> 32 * length orig" "n \<le> 32 * length relmap"
  shows "\<exists>d. bitmap_onto False dst orig relmap n = Some d \<and> length d = length dst \<and>
      bits_of d n = {b \<in> bits_of relmap n. ord_bit (bits_of relmap n) b \<in> bits_of orig n}"
proof -
  let ?xs = "bits_from relmap n 0"
  have set: "set ?xs = bits_of relmap n" by (auto simp: bits_from_set)
  have "length ?xs \<le> n" unfolding bits_from_def by (rule order.trans [OF length_filter_le]) simp
  then have xl: "length ?xs \<le> 32 * length orig" using len(2) by simp
  from bitmap_zero_eq [OF len(1) n] obtain d0 where d0: "bitmap_zero dst n = Some d0" "length d0 = length dst"
    "\<forall>i < n. \<not> tb d0 i" by blast
  from first_bit [OF len(3)] obtain i where i: "find_first_bit relmap n = Some i" "next_in (tb relmap) n 0 i" .
  have "\<forall>x \<in> set ?xs. x < 32 * length d0" unfolding set d0(2) using len(1) by auto
  with onto_fold [of ?xs 0 orig d0] xl obtain d where
    d: "fold_opt (onto_body orig) ?xs (d0, 0) = Some (d, length ?xs)" "length d = length d0"
    "\<forall>i. tb d i \<longleftrightarrow> tb d0 i \<or> (\<exists>k < length ?xs. i = ?xs ! k \<and> tb orig k)" by auto
  have rank: "ord_bit (bits_of relmap n) (?xs ! k) = k" if "k < length ?xs" for k
    using sorted_rank [OF bits_from_sorted that] by (simp add: ord_bit_def set del: bits_of_iff)
  have "bits_of d n = {b \<in> bits_of relmap n. ord_bit (bits_of relmap n) b \<in> bits_of orig n}"
  proof (intro equalityI subsetI)
    fix b assume "b \<in> bits_of d n"
    then obtain k where k: "k < length ?xs" "b = ?xs ! k" "tb orig k" using d(3) d0(3) by auto
    then have "b \<in> bits_of relmap n" using set nth_mem by blast
    moreover have "k < n" using k(1) \<open>length ?xs \<le> n\<close> by simp
    ultimately show "b \<in> {b \<in> bits_of relmap n. ord_bit (bits_of relmap n) b \<in> bits_of orig n}"
      using k rank [OF k(1)] by simp
  next
    fix b assume b: "b \<in> {b \<in> bits_of relmap n. ord_bit (bits_of relmap n) b \<in> bits_of orig n}"
    then have "b \<in> set ?xs" unfolding set by blast
    then obtain k where k: "k < length ?xs" "b = ?xs ! k" by (auto simp: in_set_conv_nth)
    with b rank [OF k(1)] have "tb orig k" by simp
    with k b d(3) show "b \<in> bits_of d n" by auto
  qed
  moreover have "each_bit (onto_body orig) relmap n i (d0, 0) = Some (d, length ?xs)"
    using each_bit_eq [OF len(3) i(2), of "onto_body orig" "(d0, 0)"] d(1) by simp
  ultimately show ?thesis using d0 i(1) d(2) by (simp add: bitmap_onto_eq)
qed

text \<open>
  \<open>bitmap_fold\<close> sets bit \<open>b mod sz\<close> for every set bit \<open>b\<close>, and \<open>bitmap_onto\<close> sets
  exactly those bits of the relative map whose ordinal in it is set in the original: the
  loop with the running ordinal is equivalent to the specification in the comment.
\<close>

theorem bitmap_onto_fold_spec:
  assumes n: "0 < n" and len: "n \<le> 32 * length dst" "n \<le> 32 * length orig" "n \<le> 32 * length relmap"
    and sz: "0 < sz"
  shows "(\<exists>d. bitmap_fold False dst orig sz n = Some d \<and> length d = length dst \<and>
      bits_of d n = (\<lambda>b. b mod sz) ` bits_of orig n) \<and>
    (\<exists>d. bitmap_onto False dst orig relmap n = Some d \<and> length d = length dst \<and>
      bits_of d n = {b \<in> bits_of relmap n. ord_bit (bits_of relmap n) b \<in> bits_of orig n})"
proof
  have "b mod sz < n" if "b \<in> bits_of orig n" for b
    using that by (auto intro: le_less_trans [OF mod_less_eq_dividend])
  then obtain d0 i d where
    "bitmap_zero dst n = Some d0" "find_first_bit orig n = Some i"
    "each_bit (\<lambda>b d. if sz = 0 then None else set_bit_op (b mod sz) d) orig n i d0 = Some d"
    "length d = length dst" "bits_of d n = (\<lambda>b. b mod sz) ` bits_of orig n"
    using each_bit_image [OF len(2,1) n, of "\<lambda>b. b mod sz"
      "\<lambda>b d. if sz = 0 then None else set_bit_op (b mod sz) d"] sz by auto
  then show "\<exists>d. bitmap_fold False dst orig sz n = Some d \<and> length d = length dst \<and>
      bits_of d n = (\<lambda>b. b mod sz) ` bits_of orig n" by (simp add: bitmap_fold_def)
  show "\<exists>d. bitmap_onto False dst orig relmap n = Some d \<and> length d = length dst \<and>
      bits_of d n = {b \<in> bits_of relmap n. ord_bit (bits_of relmap n) b \<in> bits_of orig n}"
    by (rule bitmap_onto_spec [OF n len])
qed

theorem bitmap_onto_fold_spec_witness:
  "(\<exists>d. bitmap_fold False [0] [0x2a] 4 8 = Some d \<and> bits_of d 8 = (\<lambda>b. b mod 4) ` bits_of [0x2a] 8) \<and>
   (\<exists>d. bitmap_onto False [0] [0x2a] [0xf8] 8 = Some d \<and>
      bits_of d 8 = {b \<in> bits_of [0xf8] 8. ord_bit (bits_of [0xf8] 8) b \<in> bits_of [0x2a] 8})"
proof -
  have "(0 :: nat) < 8" "(8 :: nat) \<le> 32 * length [0 :: ulong]" "(8 :: nat) \<le> 32 * length [0x2a :: ulong]"
    "(8 :: nat) \<le> 32 * length [0xf8 :: ulong]" "(0 :: nat) < 4" by simp_all
  from bitmap_onto_fold_spec [OF this] show ?thesis by blast
qed

end
