(* ===== verification/BitmapRegion.thy ===== *)
theory BitmapRegion imports BitmapMap begin

text \<open>
  Aligned regions of a bitmap: \<open>__reg_op\<close> and the functions \<open>bitmap_find_free_region\<close>,
  \<open>bitmap_release_region\<close> and \<open>bitmap_allocate_region\<close> of \<open>lib/bitmap.c\<close> built on it. The
  abstract side is the set of bit numbers of a region.
\<close>

section \<open>Definitions\<close>

datatype reg_op = REG_OP_ISFREE | REG_OP_ALLOC | REG_OP_RELEASE

definition reg_mask :: "nat \<Rightarrow> nat \<Rightarrow> ulong" where
  "reg_mask nbitsinlong offset =
     (let msk = push_bit (nbitsinlong - 1) 1; msk = msk + (msk - 1) in push_bit offset msk)"

fun scan_free :: "ulong list \<Rightarrow> ulong \<Rightarrow> nat list \<Rightarrow> bool option" where
  "scan_free bm msk [] = Some True"
| "scan_free bm msk (k # ks) =
     do { w \<leftarrow> rd bm k; if w AND msk \<noteq> 0 then Some False else scan_free bm msk ks }"

text \<open>The return value of \<open>__reg_op\<close> and the bitmap after it.\<close>

definition reg_op_fn :: "ulong list \<Rightarrow> nat \<Rightarrow> nat \<Rightarrow> reg_op \<Rightarrow> (bool \<times> ulong list) option" where
  "reg_op_fn bm pos order reg_op =
     (let nbits_reg = push_bit order 1;
          index = pos div BITS_PER_LONG;
          offset = pos - index * BITS_PER_LONG;
          nlongs_reg = BITS_TO_LONGS nbits_reg;
          nbitsinlong = min nbits_reg BITS_PER_LONG;
          msk = reg_mask nbitsinlong offset;
          longs = [index..<index + nlongs_reg] in
      case reg_op of
        REG_OP_ISFREE \<Rightarrow> do { ret \<leftarrow> scan_free bm msk longs; Some (ret, bm) }
      | REG_OP_ALLOC \<Rightarrow>
          do { bm \<leftarrow> fold_opt (\<lambda>k bm. do { w \<leftarrow> rd bm k; wr bm k (w OR msk) }) longs bm; Some (False, bm) }
      | REG_OP_RELEASE \<Rightarrow>
          do { bm \<leftarrow> fold_opt (\<lambda>k bm. do { w \<leftarrow> rd bm k; wr bm k (w AND NOT msk) }) longs bm;
               Some (False, bm) })"

text \<open>The search loop, with the position at which it leaves.\<close>

function find_region_loop :: "ulong list \<Rightarrow> nat \<Rightarrow> nat \<Rightarrow> nat \<Rightarrow> nat option" where
  "find_region_loop bm bits order pos =
     (if pos < bits
      then do { (free, _) \<leftarrow> reg_op_fn bm pos order REG_OP_ISFREE;
                if free then Some pos else find_region_loop bm bits order (pos + push_bit order 1) }
      else Some pos)"
  by pat_completeness auto
termination
  by (relation "measure (\<lambda>(bm, bits, order, pos). bits - pos)") (auto simp: push_bit_eq_mult diff_less_mono2)

declare find_region_loop.simps [simp del]

definition bitmap_find_free_region :: "ulong list \<Rightarrow> nat \<Rightarrow> nat \<Rightarrow> (nat result \<times> ulong list) option" where
  "bitmap_find_free_region bm bits order =
     do { pos \<leftarrow> find_region_loop bm bits order 0;
          if pos = bits then Some (Inl (Err ENOMEM), bm)
          else do { (_, bm) \<leftarrow> reg_op_fn bm pos order REG_OP_ALLOC; Some (Inr pos, bm) } }"

definition bitmap_release_region :: "ulong list \<Rightarrow> nat \<Rightarrow> nat \<Rightarrow> ulong list option" where
  "bitmap_release_region bm pos order =
     do { (_, bm) \<leftarrow> reg_op_fn bm pos order REG_OP_RELEASE; Some bm }"

definition bitmap_allocate_region :: "ulong list \<Rightarrow> nat \<Rightarrow> nat \<Rightarrow> (unit result \<times> ulong list) option" where
  "bitmap_allocate_region bm pos order =
     do { (free, bm) \<leftarrow> reg_op_fn bm pos order REG_OP_ISFREE;
          if \<not> free then Some (Inl (Err EBUSY), bm)
          else do { (_, bm) \<leftarrow> reg_op_fn bm pos order REG_OP_ALLOC; Some (Inr (), bm) } }"

section \<open>The words and the msk of a region\<close>

definition region :: "nat \<Rightarrow> nat \<Rightarrow> nat set" where
  "region pos order = {pos..<pos + 2 ^ order}"

text \<open>A region lies in the array, at a multiple of its size.\<close>

definition region_ok :: "ulong list \<Rightarrow> nat \<Rightarrow> nat \<Rightarrow> bool" where
  "region_ok bm pos order \<longleftrightarrow> 2 ^ order dvd pos \<and> pos + 2 ^ order \<le> 32 * length bm"

lemma bit_reg_mask:
  assumes "0 < nb" "nb \<le> 32" "j < 32"
  shows "bit (reg_mask nb off) j \<longleftrightarrow> off \<le> j \<and> j - off < nb"
proof -
  from assms(1) obtain m where m: "nb = Suc m" by (cases nb) auto
  have "push_bit m (1 :: ulong) + (push_bit m 1 - 1) = 2 ^ Suc m - 1" by simp
  then have "reg_mask nb off = push_bit off (mask nb)"
    by (simp add: reg_mask_def m mask_eq_exp_minus_1)
  then show ?thesis using assms by (simp add: bit_push_bit_iff bit_mask_iff conj_commute) linarith
qed

lemma align_in_word:
  assumes "2 ^ k dvd (pos :: nat)" "k \<le> 5"
  shows "pos mod 32 + 2 ^ k \<le> 32"
proof -
  have "(2 :: nat) ^ k dvd 2 ^ 5" using assms(2) by (rule le_imp_power_dvd)
  then have d: "(2 :: nat) ^ k dvd 32" by simp
  with assms(1) have "2 ^ k dvd pos mod 32" by (simp add: dvd_mod)
  with d have "2 ^ k dvd 32 - pos mod 32" by simp
  moreover have "0 < 32 - pos mod 32" by simp
  ultimately have "2 ^ k \<le> 32 - pos mod 32" by (rule dvd_imp_le)
  then show ?thesis by simp
qed

lemma region_words:
  assumes "region_ok bm pos order"
  defines "ks \<equiv> [pos div 32..<pos div 32 + BITS_TO_LONGS (2 ^ order)]"
    and "msk \<equiv> reg_mask (min (2 ^ order) 32) (pos - pos div 32 * 32)"
  shows "\<forall>k \<in> set ks. k < length bm"
    and "j < 32 \<Longrightarrow> k * 32 + j \<in> region pos order \<longleftrightarrow> k \<in> set ks \<and> bit msk j"
proof -
  have al: "2 ^ order dvd pos" and fit: "pos + 2 ^ order \<le> 32 * length bm"
    using assms(1) by (auto simp: region_ok_def)
  have off: "pos - pos div 32 * 32 = pos mod 32" by (simp add: modulo_nat_def)
  have pos: "pos = pos div 32 * 32 + pos mod 32" by simp
  show "\<forall>k \<in> set ks. k < length bm"
  proof (cases "order \<le> 5")
    case True
    have "(2 :: nat) ^ order \<le> 2 ^ 5" using True by (rule power_increasing) simp
    then have "BITS_TO_LONGS (2 ^ order) = 1" by (intro longs_small) auto
    moreover have "(0 :: nat) < 2 ^ order" by simp
    then have "pos < length bm * 32" using fit by linarith
    then have "pos div 32 < length bm" by (rule less_mult_imp_div_less)
    ultimately show ?thesis by (auto simp: ks_def)
  next
    case False
    then have d: "(32 :: nat) dvd 2 ^ order" using le_imp_power_dvd [of 5 order "2 :: nat"] by simp
    then obtain q :: nat where q: "2 ^ order = 32 * q" by blast
    obtain p where p: "pos = 32 * p" using d al dvd_trans by blast
    have "BITS_TO_LONGS (2 ^ order) = q" using longs_full [of "2 ^ order"] q by simp
    with fit show ?thesis by (auto simp: ks_def q p)
  qed
  show "k * 32 + j \<in> region pos order \<longleftrightarrow> k \<in> set ks \<and> bit msk j" if j: "j < 32"
  proof (cases "order \<le> 5")
    case True
    have le: "(2 :: nat) ^ order \<le> 2 ^ 5" using True by (rule power_increasing) simp
    then have one: "BITS_TO_LONGS (2 ^ order) = 1" by (intro longs_small) auto
    have m: "bit msk j \<longleftrightarrow> pos mod 32 \<le> j \<and> j - pos mod 32 < 2 ^ order"
      using bit_reg_mask [of "2 ^ order" j "pos mod 32"] le j by (simp add: msk_def off min_def)
    show ?thesis
    proof (cases "k = pos div 32")
      case True
      have "A + r = pos \<Longrightarrow> A + j \<in> region pos order \<longleftrightarrow> r \<le> j \<and> j - r < 2 ^ order" for A r
        by (auto simp: region_def)
      from this [OF pos [symmetric]] show ?thesis using m one True by (simp add: ks_def)
    next
      case False
      have "pos mod 32 + 2 ^ order \<le> 32" using al \<open>order \<le> 5\<close> by (rule align_in_word)
      moreover have "pos = A + r \<Longrightarrow> r + n \<le> 32 \<Longrightarrow> pos + n \<le> A + 32" for A r n by simp
      ultimately have "pos + 2 ^ order \<le> pos div 32 * 32 + 32" using pos by blast
      then have "pos + 2 ^ order \<le> (pos div 32 + 1) * 32" by simp
      moreover have "k < pos div 32 \<or> pos div 32 < k" using False by linarith
      then have "(k + 1) * 32 \<le> pos div 32 * 32 \<or> (pos div 32 + 1) * 32 \<le> k * 32"
        by (auto intro: mult_le_mono1 simp del: mult_Suc add_mult_distrib)
      ultimately have "k * 32 + j \<notin> region pos order" using pos j by (auto simp: region_def)
      then show ?thesis using False one by (simp add: ks_def)
    qed
  next
    case False
    then have d: "(32 :: nat) dvd 2 ^ order" using le_imp_power_dvd [of 5 order "2 :: nat"] by simp
    then obtain q :: nat where q: "2 ^ order = 32 * q" by blast
    obtain p where p: "pos = 32 * p" using d al dvd_trans by blast
    have "(32 :: nat) \<le> 2 ^ order" using d by (rule dvd_imp_le) simp
    then have "bit msk j" using bit_reg_mask [of 32 j 0] j by (simp add: msk_def p min_def)
    moreover have "BITS_TO_LONGS (2 ^ order) = q" using longs_full [of "2 ^ order"] q by simp
    ultimately show ?thesis using j by (auto simp: ks_def region_def q p)
  qed
qed

section \<open>The three operations\<close>

lemma scan_free_eq:
  "\<forall>k \<in> set ks. k < length bm \<Longrightarrow> scan_free bm m ks = Some (\<forall>k \<in> set ks. bm ! k AND m = 0)"
  by (induction ks) (auto simp: rd_def)

lemma fold_words:
  assumes "\<forall>k \<in> set ks. k < length bm" "distinct ks"
  shows "\<exists>bm'. fold_opt (\<lambda>k bm. do { w \<leftarrow> rd bm k; wr bm k (f w) }) ks bm = Some bm' \<and>
    length bm' = length bm \<and>
    (\<forall>k. bm' ! k = (if k \<in> set ks then f (bm ! k) else bm ! k))"
  using assms
proof (induction ks arbitrary: bm)
  case (Cons k ks)
  let ?b = "bm[k := f (bm ! k)]"
  from Cons.IH [of ?b] Cons.prems obtain bm' where
    "fold_opt (\<lambda>k bm. do { w \<leftarrow> rd bm k; wr bm k (f w) }) ks ?b = Some bm'" "length bm' = length bm"
    "\<forall>l. bm' ! l = (if l \<in> set ks then f (?b ! l) else ?b ! l)" by auto
  with Cons.prems show ?case by (auto simp: rd_def wr_def nth_list_update)
qed simp

lemma word_and_eq_0: "(w :: ulong) AND m = 0 \<longleftrightarrow> (\<forall>j < 32. \<not> (bit w j \<and> bit m j))"
  by (auto simp: bit_eq_iff bit_and_iff dest: bit_imp_le_length)

lemma tb_split: "tb bm i \<longleftrightarrow> bit (bm ! (i div 32)) (i mod 32)"
  by (simp add: tb_def)

lemma reg_isfree:
  assumes ok: "region_ok bm pos order"
  shows "reg_op_fn bm pos order REG_OP_ISFREE = Some (\<forall>i \<in> region pos order. \<not> tb bm i, bm)"
proof -
  note words = region_words [OF ok]
  have "(\<forall>k \<in> set [pos div 32..<pos div 32 + BITS_TO_LONGS (2 ^ order)].
      bm ! k AND reg_mask (min (2 ^ order) 32) (pos - pos div 32 * 32) = 0) \<longleftrightarrow>
    (\<forall>i \<in> region pos order. \<not> tb bm i)" (is "?l \<longleftrightarrow> ?r")
  proof
    assume ?l
    show ?r
    proof
      fix i assume "i \<in> region pos order"
      then have "i div 32 * 32 + i mod 32 \<in> region pos order" by simp
      with words(2) [of "i mod 32" "i div 32"] \<open>?l\<close> show "\<not> tb bm i"
        unfolding word_and_eq_0 tb_split by auto
    qed
  next
    assume ?r
    then have "\<not> tb bm (k * 32 + j)" if "k * 32 + j \<in> region pos order" for k j using that by blast
    with words(2) show ?l unfolding word_and_eq_0 by (metis tb_word_add)
  qed
  with words(1) show ?thesis
    by (simp add: reg_op_fn_def scan_free_eq del: set_upt)
qed

lemma reg_write:
  assumes ok: "region_ok bm pos order"
    and f: "\<And>w j. j < 32 \<Longrightarrow> bit (f w) j \<longleftrightarrow>
      (if bit (reg_mask (min (2 ^ order) 32) (pos - pos div 32 * 32)) j then b else bit w j)"
  shows "\<exists>bm'. fold_opt (\<lambda>k bm. do { w \<leftarrow> rd bm k; wr bm k (f w) })
      [pos div 32..<pos div 32 + BITS_TO_LONGS (2 ^ order)] bm = Some bm' \<and> length bm' = length bm \<and>
    (\<forall>i. tb bm' i \<longleftrightarrow> (if i \<in> region pos order then b else tb bm i))"
proof -
  note words = region_words [OF ok]
  from fold_words [OF words(1) distinct_upt, of f] obtain bm' where
    bm': "fold_opt (\<lambda>k bm. do { w \<leftarrow> rd bm k; wr bm k (f w) })
      [pos div 32..<pos div 32 + BITS_TO_LONGS (2 ^ order)] bm = Some bm'" "length bm' = length bm"
    "\<forall>k. bm' ! k = (if k \<in> set [pos div 32..<pos div 32 + BITS_TO_LONGS (2 ^ order)] then f (bm ! k) else bm ! k)"
    by blast
  have "tb bm' i \<longleftrightarrow> (if i \<in> region pos order then b else tb bm i)" for i
    using words(2) [of "i mod 32" "i div 32"] bm'(3) f [of "i mod 32" "bm ! (i div 32)"]
    by (simp add: tb_split del: set_upt)
  with bm' show ?thesis by blast
qed

lemma reg_alloc:
  assumes ok: "region_ok bm pos order"
  shows "\<exists>bm'. reg_op_fn bm pos order REG_OP_ALLOC = Some (False, bm') \<and> length bm' = length bm \<and>
    (\<forall>i. tb bm' i \<longleftrightarrow> i \<in> region pos order \<or> tb bm i)"
proof -
  let ?f = "\<lambda>w. w OR reg_mask (min (2 ^ order) 32) (pos - pos div 32 * 32)"
  have "bit (?f w) j \<longleftrightarrow>
      (if bit (reg_mask (min (2 ^ order) 32) (pos - pos div 32 * 32)) j then True else bit w j)" if "j < 32" for w j
    using that by (auto simp: bit_or_iff)
  from reg_write [OF ok, of ?f True, OF this] obtain bm' where
    "fold_opt (\<lambda>k bm. do { w \<leftarrow> rd bm k; wr bm k (?f w) })
      [pos div 32..<pos div 32 + BITS_TO_LONGS (2 ^ order)] bm = Some bm'" "length bm' = length bm"
    "\<forall>i. tb bm' i \<longleftrightarrow> (if i \<in> region pos order then True else tb bm i)"
    by blast
  then show ?thesis by (simp add: reg_op_fn_def Let_def)
qed

lemma reg_release:
  assumes ok: "region_ok bm pos order"
  shows "\<exists>bm'. reg_op_fn bm pos order REG_OP_RELEASE = Some (False, bm') \<and> length bm' = length bm \<and>
    (\<forall>i. tb bm' i \<longleftrightarrow> i \<notin> region pos order \<and> tb bm i)"
proof -
  let ?f = "\<lambda>w. w AND NOT (reg_mask (min (2 ^ order) 32) (pos - pos div 32 * 32))"
  have "bit (?f w) j \<longleftrightarrow>
      (if bit (reg_mask (min (2 ^ order) 32) (pos - pos div 32 * 32)) j then False else bit w j)" if "j < 32" for w j
    using that by (auto simp: bit_and_iff bit_not_iff)
  from reg_write [OF ok, of ?f False, OF this] obtain bm' where
    "fold_opt (\<lambda>k bm. do { w \<leftarrow> rd bm k; wr bm k (?f w) })
      [pos div 32..<pos div 32 + BITS_TO_LONGS (2 ^ order)] bm = Some bm'" "length bm' = length bm"
    "\<forall>i. tb bm' i \<longleftrightarrow> (if i \<in> region pos order then False else tb bm i)"
    by blast
  then show ?thesis by (simp add: reg_op_fn_def Let_def)
qed

lemma tb_ext: "length a = length b \<Longrightarrow> \<forall>i. tb a i \<longleftrightarrow> tb b i \<Longrightarrow> a = b"
proof (rule nth_equalityI)
  fix k assume "\<forall>i. tb a i \<longleftrightarrow> tb b i"
  then have "bit (a ! k) j \<longleftrightarrow> bit (b ! k) j" if "j < 32" for j
    using that tb_word_add by metis
  then show "a ! k = b ! k" by (intro bit_word_eqI) simp
qed

section \<open>Allocation and release\<close>

lemma allocate_region_eq:
  assumes ok: "region_ok bm pos order"
  shows "if \<forall>i \<in> region pos order. \<not> tb bm i
    then \<exists>bm'. bitmap_allocate_region bm pos order = Some (Inr (), bm') \<and> length bm' = length bm \<and>
      (\<forall>i. tb bm' i \<longleftrightarrow> i \<in> region pos order \<or> tb bm i)
    else bitmap_allocate_region bm pos order = Some (Inl (Err EBUSY), bm)"
  using reg_alloc [OF ok] by (auto simp: bitmap_allocate_region_def reg_isfree [OF ok])

text \<open>
  Allocating a free aligned region and releasing it again restores every word of the
  bitmap; between the two all its bits are set and no other bit has changed. Allocating a
  region with a bit in use fails with \<open>EBUSY\<close> and changes nothing.
\<close>

theorem bitmap_region_roundtrip:
  assumes ok: "region_ok bm pos order"
  shows "if \<forall>i \<in> region pos order. \<not> tb bm i
    then \<exists>bm'. bitmap_allocate_region bm pos order = Some (Inr (), bm') \<and>
      (\<forall>i. tb bm' i \<longleftrightarrow> i \<in> region pos order \<or> tb bm i) \<and>
      bitmap_allocate_region bm' pos order = Some (Inl (Err EBUSY), bm') \<and>
      bitmap_release_region bm' pos order = Some bm
    else bitmap_allocate_region bm pos order = Some (Inl (Err EBUSY), bm)"
proof (cases "\<forall>i \<in> region pos order. \<not> tb bm i")
  case True
  with allocate_region_eq [OF ok] obtain bm' where
    a: "bitmap_allocate_region bm pos order = Some (Inr (), bm')" "length bm' = length bm"
      "\<forall>i. tb bm' i \<longleftrightarrow> i \<in> region pos order \<or> tb bm i" by auto
  have ok': "region_ok bm' pos order" using ok a(2) by (simp add: region_ok_def)
  have "pos \<in> region pos order" by (simp add: region_def)
  then have "\<not> (\<forall>i \<in> region pos order. \<not> tb bm' i)" using a(3) by blast
  with allocate_region_eq [OF ok']
  have busy: "bitmap_allocate_region bm' pos order = Some (Inl (Err EBUSY), bm')" by simp
  from reg_release [OF ok'] obtain bm'' where
    r: "reg_op_fn bm' pos order REG_OP_RELEASE = Some (False, bm'')" "length bm'' = length bm'"
      "\<forall>i. tb bm'' i \<longleftrightarrow> i \<notin> region pos order \<and> tb bm' i" by blast
  have "bm'' = bm" using r(2,3) a(2,3) True by (intro tb_ext) auto
  with r(1) have "bitmap_release_region bm' pos order = Some bm" by (simp add: bitmap_release_region_def)
  with a busy True show ?thesis by simp
next
  case False
  with allocate_region_eq [OF ok] show ?thesis by (simp only: if_False)
qed

theorem bitmap_region_roundtrip_witness:
  "\<exists>bm'. bitmap_allocate_region [0xff, 0] 32 5 = Some (Inr (), bm') \<and>
     bitmap_release_region bm' 32 5 = Some [0xff, 0]"
proof -
  have ok: "region_ok [0xff, 0] 32 5" by (simp add: region_ok_def)
  have "\<forall>i \<in> region 32 5. \<not> tb [0xff, 0] i"
  proof
    fix i :: nat assume "i \<in> region 32 5"
    then have "i div 32 = 1" by (intro div_nat_eqI) (auto simp: region_def)
    then show "\<not> tb [0xff, 0] i" by (simp add: tb_def)
  qed
  with bitmap_region_roundtrip [OF ok] show ?thesis by auto
qed

section \<open>The search for a free region\<close>

lemma find_region_loop_step:
  assumes "2 ^ order dvd pos" "pos < bits" "region_ok bm pos order"
  shows "find_region_loop bm bits order pos =
    (if \<forall>i \<in> region pos order. \<not> tb bm i then Some pos else find_region_loop bm bits order (pos + 2 ^ order))"
  using assms by (subst find_region_loop.simps) (simp add: reg_isfree)

lemma find_region_loop_end: "bits \<le> pos \<Longrightarrow> find_region_loop bm bits order pos = Some pos"
  by (subst find_region_loop.simps) simp

text \<open>The result of the loop: the first free aligned position, or the first one not below \<open>bits\<close>.\<close>

lemma find_region_loop_spec:
  assumes fit: "\<forall>q. 2 ^ order dvd q \<longrightarrow> q < bits \<longrightarrow> q + 2 ^ order \<le> 32 * length bm"
  shows "2 ^ order dvd pos \<Longrightarrow> \<exists>p \<ge> pos. find_region_loop bm bits order pos = Some p \<and> 2 ^ order dvd p \<and>
    (p < bits \<longrightarrow> (\<forall>i \<in> region p order. \<not> tb bm i)) \<and>
    (\<forall>q \<ge> pos. 2 ^ order dvd q \<longrightarrow> q < p \<longrightarrow> q < bits \<and> (\<exists>i \<in> region q order. tb bm i))"
proof (induction "bits - pos" arbitrary: pos rule: less_induct)
  case less
  show ?case
  proof (cases "pos < bits")
    case True
    with less.prems fit have ok: "region_ok bm pos order" by (simp add: region_ok_def)
    note step = find_region_loop_step [OF less.prems True ok]
    show ?thesis
    proof (cases "\<forall>i \<in> region pos order. \<not> tb bm i")
      case free: True
      then show ?thesis using step less.prems by auto
    next
      case busy: False
      have "bits - (pos + 2 ^ order) < bits - pos" using True by (simp add: diff_less_mono2)
      from less.hyps [OF this] less.prems obtain p where p: "pos + 2 ^ order \<le> p"
        "find_region_loop bm bits order (pos + 2 ^ order) = Some p" "2 ^ order dvd p"
        "p < bits \<longrightarrow> (\<forall>i \<in> region p order. \<not> tb bm i)"
        "\<forall>q \<ge> pos + 2 ^ order. 2 ^ order dvd q \<longrightarrow> q < p \<longrightarrow> q < bits \<and> (\<exists>i \<in> region q order. tb bm i)"
        by auto
      have "q < bits \<and> (\<exists>i \<in> region q order. tb bm i)" if "pos \<le> q" "2 ^ order dvd q" "q < p" for q
      proof (cases "q = pos")
        case True
        then show ?thesis using busy \<open>pos < bits\<close> by blast
      next
        case False
        have "2 ^ order dvd q - pos" using that(2) less.prems by simp
        then have "2 ^ order \<le> q - pos" using False that(1) by (intro dvd_imp_le) auto
        with p(5) that show ?thesis by simp
      qed
      moreover have "find_region_loop bm bits order pos = Some p" using step busy p(2) by simp
      moreover have "pos \<le> p" using p(1) by simp
      ultimately show ?thesis using p(3,4) by blast
    qed
  next
    case False
    then show ?thesis using less.prems find_region_loop_end [of bits pos] by auto
  qed
qed

lemma dvd_fits:
  assumes "(m :: nat) dvd q" "m dvd n" "q < n" "0 < m"
  shows "q + m \<le> n"
proof -
  have "m dvd n - q" using assms by simp
  then have "m \<le> n - q" using assms by (intro dvd_imp_le) auto
  then show ?thesis using assms by simp
qed

text \<open>
  C36: When the size of the bitmap is a multiple of the region size, \<open>bitmap_find_free_region\<close>
  returns the first aligned position whose bits are all clear and sets exactly these bits,
  or returns \<open>ENOMEM\<close> and leaves the bitmap alone when every aligned region has a bit in
  use. It never reads outside the array.
\<close>

theorem find_free_region_spec:
  assumes mult: "2 ^ order dvd bits" and fit: "bits \<le> 32 * length bm"
  shows "(\<exists>p bm'. bitmap_find_free_region bm bits order = Some (Inr p, bm') \<and>
      2 ^ order dvd p \<and> p + 2 ^ order \<le> bits \<and> (\<forall>i \<in> region p order. \<not> tb bm i) \<and>
      (\<forall>q < p. 2 ^ order dvd q \<longrightarrow> (\<exists>i \<in> region q order. tb bm i)) \<and>
      length bm' = length bm \<and> (\<forall>i. tb bm' i \<longleftrightarrow> i \<in> region p order \<or> tb bm i)) \<or>
    (bitmap_find_free_region bm bits order = Some (Inl (Err ENOMEM), bm) \<and>
      (\<forall>q < bits. 2 ^ order dvd q \<longrightarrow> (\<exists>i \<in> region q order. tb bm i)))"
proof -
  have fit': "\<forall>q. 2 ^ order dvd q \<longrightarrow> q < bits \<longrightarrow> q + 2 ^ order \<le> 32 * length bm"
    using dvd_fits [OF _ mult] fit by (meson order.trans zero_less_numeral zero_less_power)
  from find_region_loop_spec [OF fit', of 0] obtain p where
    p: "find_region_loop bm bits order 0 = Some p" "2 ^ order dvd p"
      "p < bits \<longrightarrow> (\<forall>i \<in> region p order. \<not> tb bm i)"
      "\<forall>q. 2 ^ order dvd q \<longrightarrow> q < p \<longrightarrow> q < bits \<and> (\<exists>i \<in> region q order. tb bm i)" by auto
  show ?thesis
  proof (cases "p < bits")
    case True
    note fits = dvd_fits [OF p(2) mult True]
    have "region_ok bm p order" using p(2) fits fit by (simp add: region_ok_def)
    from reg_alloc [OF this] obtain bm' where
      bm': "reg_op_fn bm p order REG_OP_ALLOC = Some (False, bm')" "length bm' = length bm"
        "\<forall>i. tb bm' i \<longleftrightarrow> i \<in> region p order \<or> tb bm i" by blast
    have "bitmap_find_free_region bm bits order = Some (Inr p, bm')"
      using True p(1) bm'(1) by (simp add: bitmap_find_free_region_def)
    moreover have "p + 2 ^ order \<le> bits" using fits by simp
    ultimately show ?thesis using p(2-4) True bm'(2,3) by blast
  next
    case False
    have "p = bits"
    proof (rule ccontr)
      assume "p \<noteq> bits"
      with False have "bits < p" by simp
      with p(4) mult have "bits < bits" by blast
      then show False by simp
    qed
    then have "bitmap_find_free_region bm bits order = Some (Inl (Err ENOMEM), bm)"
      using p(1) by (simp add: bitmap_find_free_region_def)
    then show ?thesis using p(4) \<open>p = bits\<close> by blast
  qed
qed

theorem find_free_region_spec_witness:
  "bitmap_find_free_region [0x0f0f00ff] 32 3 = Some (Inl (Err ENOMEM), [0x0f0f00ff]) \<or>
   (\<exists>p bm'. bitmap_find_free_region [0x0f0f00ff] 32 3 = Some (Inr p, bm') \<and> 2 ^ 3 dvd p \<and> p + 2 ^ 3 \<le> 32)"
proof -
  have "2 ^ 3 dvd (32 :: nat)" "(32 :: nat) \<le> 32 * length [0x0f0f00ff :: ulong]" by simp_all
  from find_free_region_spec [OF this] show ?thesis by blast
qed

text \<open>
  When the size is not a multiple of the region size the code cannot report failure:
  the loop leaves behind \<open>bits\<close>, the test \<open>pos == bits\<close> does not see it, and a full bitmap
  makes \<open>bitmap_find_free_region\<close> return a position behind the bitmap and set the bits
  there, whatever they held.
\<close>

theorem find_free_region_overrun:
  assumes odd: "\<not> 2 ^ order dvd bits"
    and busy: "\<forall>q < bits. 2 ^ order dvd q \<longrightarrow> (\<exists>i \<in> region q order. tb bm i)"
    and fit: "bits + 2 * 2 ^ order \<le> 32 * length bm"
  shows "(\<nexists>bm'. bitmap_find_free_region bm bits order = Some (Inl (Err ENOMEM), bm')) \<and>
    (\<exists>p bm'. bitmap_find_free_region bm bits order = Some (Inr p, bm') \<and> bits < p \<and>
      (\<forall>i \<in> region p order. tb bm' i))"
proof -
  have fit': "\<forall>q. 2 ^ order dvd q \<longrightarrow> q < bits \<longrightarrow> q + 2 ^ order \<le> 32 * length bm"
    using fit by auto
  from find_region_loop_spec [OF fit', of 0] obtain p where
    p: "find_region_loop bm bits order 0 = Some p" "2 ^ order dvd p"
      "p < bits \<longrightarrow> (\<forall>i \<in> region p order. \<not> tb bm i)"
      "\<forall>q. 2 ^ order dvd q \<longrightarrow> q < p \<longrightarrow> q < bits \<and> (\<exists>i \<in> region q order. tb bm i)" by auto
  have "p \<noteq> bits" using odd p(2) by blast
  moreover have "\<not> p < bits" using p(2,3) busy by blast
  ultimately have gt: "bits < p" by simp
  have "p < bits + 2 ^ order"
  proof (rule ccontr)
    assume "\<not> p < bits + 2 ^ order"
    then have "2 ^ order \<le> p" by simp
    then have "2 ^ order dvd p - 2 ^ order" using p(2) by simp
    moreover have "p - 2 ^ order < p" using gt by simp
    ultimately have "p - 2 ^ order < bits" using p(4) by blast
    then show False using \<open>\<not> p < bits + 2 ^ order\<close> by simp
  qed
  with p(2) fit have "region_ok bm p order" by (simp add: region_ok_def)
  from reg_alloc [OF this] obtain bm' where
    "reg_op_fn bm p order REG_OP_ALLOC = Some (False, bm')" "\<forall>i. tb bm' i \<longleftrightarrow> i \<in> region p order \<or> tb bm i" by blast
  then show ?thesis using gt p(1) by (auto simp: bitmap_find_free_region_def)
qed

theorem find_free_region_overrun_witness:
  "\<exists>p bm'. bitmap_find_free_region [0xfffffff] 12 3 = Some (Inr p, bm') \<and> 12 < p \<and> (\<forall>i \<in> region p 3. tb bm' i)"
proof -
  have "\<not> 2 ^ 3 dvd (12 :: nat)" by simp
  moreover have "\<forall>q < 12. 2 ^ 3 dvd q \<longrightarrow> (\<exists>i \<in> region q 3. tb [0xfffffff] i)"
  proof (intro allI impI bexI)
    fix q :: nat assume "q < 12"
    then have "q \<in> set [0..<12]" by simp
    then show "tb [0xfffffff] q" by (auto simp: tb_def upt_rec bit_iff_odd)
    show "q \<in> region q 3" by (simp add: region_def)
  qed
  moreover have "(12 :: nat) + 2 * 2 ^ 3 \<le> 32 * length [0xfffffff :: ulong]" by simp
  ultimately show ?thesis using find_free_region_overrun by blast
qed

end
