(* ===== verification/Kfifo.thy ===== *)
theory Kfifo imports Bits begin

text \<open>
  The byte FIFO of \<open>kernel/kfifo.c\<close> and \<open>include/linux/kfifo.h\<close>: a ring of a power-of-two
  number of bytes whose two \<open>unsigned int\<close> indices run freely and wrap at 32 bits. The
  theory refines it to a queue of bytes, and proves the comment of the source that one
  reader and one writer may run concurrently without a lock.
\<close>

section \<open>The state and its operations\<close>

text \<open>\<open>struct kfifo\<close>; the lock pointer carries no data of its own.\<close>

record kfifo =
  kf_buffer :: "u8 list"
  kf_size :: u32
  kf_in :: u32
  kf_out :: u32

text \<open>
  \<open>kmalloc\<close> of the control structure may fail: \<open>mem\<close> says whether it succeeds.
\<close>

definition kfifo_init :: "u8 list \<Rightarrow> u32 \<Rightarrow> bool \<Rightarrow> kfifo result" where
  "kfifo_init buffer sz mem =
     (if \<not> is_power_of_2 sz then Inl Bug
      else if \<not> mem then Inl (Err ENOMEM)
      else Inr \<lparr>kf_buffer = buffer, kf_size = sz, kf_in = 0, kf_out = 0\<rparr>)"

text \<open>
  \<open>kmalloc\<close> of the buffer is the function \<open>kmalloc\<close>: the uninitialised bytes it returns,
  or \<open>None\<close>.
\<close>

definition kfifo_alloc :: "(u32 \<Rightarrow> u8 list option) \<Rightarrow> u32 \<Rightarrow> bool \<Rightarrow> kfifo result" where
  "kfifo_alloc kmalloc sz mem =
     (if sz AND (sz - 1) \<noteq> 0 \<and> 0x80000000 < sz then Inl Bug
      else
        let sz = (if sz AND (sz - 1) \<noteq> 0 then roundup_pow_of_two sz else sz)
        in case kmalloc sz of
             None \<Rightarrow> Inl (Err ENOMEM)
           | Some buffer \<Rightarrow> kfifo_init buffer sz mem)"

text \<open>
  \<open>__kfifo_put\<close>: the two copies and the new index. A copy that leaves the ring or the
  caller's buffer is \<open>None\<close>.
\<close>

definition kfifo_put_nolock :: "kfifo \<Rightarrow> u8 list \<Rightarrow> u32 \<Rightarrow> (u32 \<times> kfifo) option" where
  "kfifo_put_nolock fifo buffer len =
     (let len = min len (kf_size fifo - kf_in fifo + kf_out fifo);
          off = kf_in fifo AND (kf_size fifo - 1);
          l = min len (kf_size fifo - off)
      in do { b1 \<leftarrow> blit (kf_buffer fifo) (unat off) buffer 0 (unat l);
              b2 \<leftarrow> blit b1 0 buffer (unat l) (unat (len - l));
              Some (len, fifo\<lparr>kf_buffer := b2, kf_in := kf_in fifo + len\<rparr>) })"

definition kfifo_get_nolock :: "kfifo \<Rightarrow> u8 list \<Rightarrow> u32 \<Rightarrow> (u32 \<times> u8 list \<times> kfifo) option" where
  "kfifo_get_nolock fifo buffer len =
     (let len = min len (kf_in fifo - kf_out fifo);
          off = kf_out fifo AND (kf_size fifo - 1);
          l = min len (kf_size fifo - off)
      in do { b1 \<leftarrow> blit buffer 0 (kf_buffer fifo) (unat off) (unat l);
              b2 \<leftarrow> blit b1 (unat l) (kf_buffer fifo) 0 (unat (len - l));
              Some (len, b2, fifo\<lparr>kf_out := kf_out fifo + len\<rparr>) })"

definition kfifo_reset_nolock :: "kfifo \<Rightarrow> kfifo" where
  "kfifo_reset_nolock fifo = fifo\<lparr>kf_in := 0, kf_out := 0\<rparr>"

definition kfifo_len_nolock :: "kfifo \<Rightarrow> u32" where
  "kfifo_len_nolock fifo = kf_in fifo - kf_out fifo"

text \<open>
  The locking wrappers run one operation with the lock held. \<open>kfifo_get\<close> also resets the
  indices of a FIFO it has emptied.
\<close>

definition kfifo_put :: "kfifo \<Rightarrow> u8 list \<Rightarrow> u32 \<Rightarrow> (u32 \<times> kfifo) option" where
  "kfifo_put fifo buffer len = kfifo_put_nolock fifo buffer len"

definition kfifo_get :: "kfifo \<Rightarrow> u8 list \<Rightarrow> u32 \<Rightarrow> (u32 \<times> u8 list \<times> kfifo) option" where
  "kfifo_get fifo buffer len =
     do { r \<leftarrow> kfifo_get_nolock fifo buffer len;
          case r of (ret, buffer, fifo) \<Rightarrow>
            Some (ret, buffer,
                  if kf_in fifo = kf_out fifo then fifo\<lparr>kf_in := 0, kf_out := 0\<rparr> else fifo) }"

section \<open>The queue it implements\<close>

definition kfifo_wf :: "kfifo \<Rightarrow> bool" where
  "kfifo_wf f \<longleftrightarrow> (\<exists>k<32. kf_size f = 2 ^ k) \<and> length (kf_buffer f) = unat (kf_size f) \<and>
     unat (kf_in f - kf_out f) \<le> unat (kf_size f)"

text \<open>The bytes in the FIFO, oldest first.\<close>

definition kfifo_bytes :: "kfifo \<Rightarrow> u8 list" where
  "kfifo_bytes f =
     map (\<lambda>i. kf_buffer f ! (unat (kf_out f + of_nat i) mod unat (kf_size f)))
       [0..<unat (kf_in f - kf_out f)]"

lemma length_kfifo_bytes: "length (kfifo_bytes f) = unat (kf_in f - kf_out f)"
  by (simp add: kfifo_bytes_def)

text \<open>Index arithmetic: wrapping at 32 bits and then at the size is wrapping at the size.\<close>

lemma mod_pow2_word: "k \<le> 32 \<Longrightarrow> unat (x + of_nat i :: u32) mod 2 ^ k = (unat x + i) mod 2 ^ k"
proof -
  assume k: "k \<le> 32"
  have "unat (x + of_nat i :: u32) = (unat x + i) mod 2 ^ 32"
    by (simp add: unat_word_ariths unat_of_nat mod_add_right_eq)
  moreover have "(2::nat) ^ k dvd 2 ^ 32" using k by (rule le_imp_power_dvd)
  ultimately show ?thesis by (simp only: mod_mod_cancel)
qed

lemma mask_off: "kf_size f = 2 ^ k \<Longrightarrow> unat (x AND (kf_size f - 1)) = unat x mod 2 ^ k"
  by (simp only: unat_and_pow2_minus_1)

text \<open>The ring of \<open>2 ^ k\<close> cells as the code addresses it.\<close>

lemma room_unat:
  assumes "kfifo_wf f"
  shows "unat (kf_size f - kf_in f + kf_out f) = unat (kf_size f) - unat (kf_in f - kf_out f)"
proof -
  have "kf_size f - kf_in f + kf_out f = kf_size f - (kf_in f - kf_out f)" by simp
  moreover have "kf_in f - kf_out f \<le> kf_size f"
    using assms by (simp only: kfifo_wf_def word_le_nat_alt)
  ultimately show ?thesis by (simp only: unat_sub)
qed

lemma ring_diff:
  fixes p i u s :: nat
  assumes "u \<le> s"
  shows "((p + i) mod s + s - (p + u) mod s) mod s = (i + s - u) mod s"
proof (cases "s = 0")
  case False
  have le: "(p + u) mod s \<le> (p + i) mod s + s" "u \<le> i + s"
    using False assms by (simp_all add: trans_le_add2)
  have split: "(a mod m + m - b mod m) mod m = (a - b) mod m" for a b m :: int
  proof -
    have "a mod m + m - b mod m = (a - b) + m * (1 - a div m + b div m)"
      by (simp add: algebra_simps flip: minus_div_mult_eq_mod)
    then show ?thesis by (simp only: mod_mult_self2)
  qed
  have "int (((p + i) mod s + s - (p + u) mod s) mod s) =
      (int (p + i) mod int s + int s - int (p + u) mod int s) mod int s"
    using le(1) by (simp add: of_nat_diff zmod_int)
  also have "\<dots> = (int i - int u) mod int s" unfolding split by simp
  also have "\<dots> = (int i + int s - int u) mod int s"
    by (metis add_diff_eq diff_add_eq mod_add_self2)
  also have "\<dots> = int ((i + s - u) mod s)"
    using le(2) by (simp add: of_nat_diff zmod_int)
  finally show ?thesis by (simp only: of_nat_eq_iff)
qed (use assms in simp)

lemma unat_min: "unat (min a b) = min (unat a) (unat b)"
  by (simp add: min_def word_le_nat_alt)

text \<open>
  The two copies of a transfer of \<open>n\<close> bytes at ring position \<open>o\<close>: the byte \<open>j\<close> of the
  transfer is in cell \<open>(o + j) mod s\<close>.
\<close>

lemma two_copies_in:
  assumes "off < s" and "n \<le> s" and "length buf = s" and "n \<le> length src" and "l = min n (s - off)"
  shows "\<exists>b1 b2. blit buf off src 0 l = Some b1 \<and> blit b1 0 src l (n - l) = Some b2 \<and> length b2 = s \<and>
    (\<forall>i < s. b2 ! i = (if (i + s - off) mod s < n then src ! ((i + s - off) mod s) else buf ! i))"
proof -
  have fit: "off + l \<le> length buf" "0 + l \<le> length src" "0 + (n - l) \<le> length buf" "l + (n - l) \<le> length src"
    using assms by auto
  obtain b1 where b1: "blit buf off src 0 l = Some b1" using blit_defined [OF fit(1,2)] by blast
  then have l1: "length b1 = length buf" by (rule blit_Some_length)
  obtain b2 where b2: "blit b1 0 src l (n - l) = Some b2"
    using blit_defined [of 0 "n - l" b1 l src] fit l1 by auto
  then have l2: "length b2 = s" using blit_Some_length l1 assms(3) by metis
  have "b2 ! i = (if (i + s - off) mod s < n then src ! ((i + s - off) mod s) else buf ! i)"
    if i: "i < s" for i
  proof (cases "off \<le> i")
    case True
    then have e: "(i + s - off) mod s = i - off" using i by (simp add: mod_if)
    have "b2 ! i = b1 ! i" using blit_nth [OF b2, of i] True i l1 assms(1-3,5) by auto
    also have "\<dots> = (if i - off < n then src ! (i - off) else buf ! i)"
      using blit_nth [OF b1, of i] True i assms(1-3,5) by auto
    finally show ?thesis by (simp add: e)
  next
    case False
    then have e: "(i + s - off) mod s = i + s - off" using assms(1) by simp
    have "b2 ! i = (if i < n - l then src ! (l + i) else b1 ! i)"
      using blit_nth [OF b2, of i] i l1 assms(3) by simp
    moreover have "b1 ! i = buf ! i" using blit_nth [OF b1, of i] False i assms(3) by simp
    moreover have "i < n - l \<longleftrightarrow> i + s - off < n" using assms(1,2,5) False by auto
    moreover have "i < n - l \<Longrightarrow> l + i = i + s - off" using assms(1,2,5) False by auto
    ultimately show ?thesis by (auto simp: e)
  qed
  with b1 b2 l2 show ?thesis by blast
qed

lemma two_copies_out:
  assumes "off < s" and "n \<le> s" and "length ring = s" and "n \<le> length dst" and "l = min n (s - off)"
  shows "\<exists>b1. blit dst 0 ring off l = Some b1 \<and>
    blit b1 l ring 0 (n - l) = Some (map (\<lambda>j. ring ! ((off + j) mod s)) [0..<n] @ drop n dst)"
proof -
  have fit: "0 + l \<le> length dst" "off + l \<le> length ring" "l + (n - l) \<le> length dst" "0 + (n - l) \<le> length ring"
    using assms by auto
  obtain b1 where b1: "blit dst 0 ring off l = Some b1" using blit_defined [OF fit(1,2)] by blast
  then have l1: "length b1 = length dst" by (rule blit_Some_length)
  obtain b2 where b2: "blit b1 l ring 0 (n - l) = Some b2"
    using blit_defined [of l "n - l" b1 0 ring] fit l1 by auto
  have l2: "length b2 = length dst" using blit_Some_length [OF b2] l1 by simp
  have "b2 = map (\<lambda>j. ring ! ((off + j) mod s)) [0..<n] @ drop n dst" (is "_ = ?r")
  proof (rule nth_equalityI)
    show "length b2 = length ?r" using l2 assms(4) by simp
    fix j assume "j < length b2"
    then have j: "j < length dst" using l2 by simp
    have n1: "b1 ! j = (if j < l then ring ! (off + j) else dst ! j)"
      using blit_nth [OF b1 j] by simp
    have n2: "b2 ! j = (if l \<le> j \<and> j < n then ring ! (j - l) else b1 ! j)"
      using blit_nth [OF b2, of j] j l1 assms(5) by auto
    have "j < l \<Longrightarrow> off + j < s" using assms(1,5) by auto
    then have m1: "j < l \<Longrightarrow> (off + j) mod s = off + j" by simp
    have m2: "l \<le> j \<Longrightarrow> j < n \<Longrightarrow> (off + j) mod s = j - l"
      using assms(1,2,5) by (auto simp: mod_if)
    show "b2 ! j = ?r ! j"
      using n1 n2 m1 m2 assms(4,5) j by (auto simp: nth_append)
  qed
  with b1 b2 show ?thesis by blast
qed


text \<open>A put appends as many of the caller's bytes as there is room for.\<close>

lemma kfifo_put_refines:
  assumes wf: "kfifo_wf f" and len: "unat len \<le> length buffer"
  defines "n \<equiv> min (unat len) (unat (kf_size f) - length (kfifo_bytes f))"
  shows "\<exists>f'. kfifo_put_nolock f buffer len = Some (of_nat n, f') \<and> kfifo_wf f' \<and>
    kfifo_bytes f' = kfifo_bytes f @ take n buffer \<and> kf_size f' = kf_size f \<and> kf_out f' = kf_out f"
proof -
  from wf obtain k where k: "k < 32" "kf_size f = 2 ^ k" by (auto simp: kfifo_wf_def)
  define s where "s = unat (kf_size f)"
  have s: "s = 2 ^ k" "0 < s" using k by (auto simp: s_def unat_pow2)
  define used where "used = unat (kf_in f - kf_out f)"
  have used: "used \<le> s" "length (kf_buffer f) = s"
    using wf by (auto simp: kfifo_wf_def s_def used_def)
  define w where "w = min len (kf_size f - kf_in f + kf_out f)"
  have uw: "unat w = n"
    using room_unat [OF wf] by (simp add: w_def n_def unat_min length_kfifo_bytes)
  then have w: "of_nat n = w" by (simp flip: uw)
  have n: "n \<le> s - used" "n \<le> unat len"
    by (auto simp: n_def s_def used_def length_kfifo_bytes)
  define off where "off = unat (kf_in f) mod s"
  have off: "unat (kf_in f AND (kf_size f - 1)) = off" "off < s"
    using mask_off [OF k(2)] s by (simp_all add: off_def)
  have l: "unat (min w (kf_size f - (kf_in f AND (kf_size f - 1)))) = min n (s - off)"
    using off by (simp add: unat_min uw s_def unat_sub_if')
  have wl: "unat (w - min w (kf_size f - (kf_in f AND (kf_size f - 1)))) = n - min n (s - off)"
    using l uw by (simp add: unat_sub_if')
  have "n \<le> s" "n \<le> length buffer" using n len by auto
  from two_copies_in [OF off(2) this(1) used(2) this(2) refl]
  obtain b1 b2 where b: "blit (kf_buffer f) off buffer 0 (min n (s - off)) = Some b1"
    "blit b1 0 buffer (min n (s - off)) (n - min n (s - off)) = Some b2" "length b2 = s"
    "\<forall>i < s. b2 ! i = (if (i + s - off) mod s < n then buffer ! ((i + s - off) mod s) else kf_buffer f ! i)"
    by blast
  define f' where "f' = f\<lparr>kf_buffer := b2, kf_in := kf_in f + w\<rparr>"
  have put: "kfifo_put_nolock f buffer len = Some (of_nat n, f')"
    unfolding kfifo_put_nolock_def Let_def w_def [symmetric]
    by (simp add: off l wl b f'_def) (simp add: w)
  have d: "unat (kf_in f' - kf_out f') = used + n"
  proof -
    have "kf_in f' - kf_out f' = (kf_in f - kf_out f) + w" by (simp add: f'_def)
    moreover have "used + n < 2 ^ 32" using n(1) used(1) unat_bound [of "kf_size f"] unfolding s_def by simp
    ultimately show ?thesis by (simp add: unat_word_ariths uw used_def)
  qed
  have wf': "kfifo_wf f'"
    using wf d n used b(3) by (simp add: kfifo_wf_def f'_def s_def)
  have in_out: "kf_in f = kf_out f + of_nat used" by (simp add: used_def)
  have cell: "unat (kf_out f + of_nat i) mod s = (unat (kf_out f) + i) mod s" for i
    using mod_pow2_word [of k "kf_out f" i] k s by simp
  have off': "off = (unat (kf_out f) + used) mod s"
    unfolding off_def in_out cell ..
  have bytes: "kfifo_bytes f' = kfifo_bytes f @ take n buffer"
  proof (rule nth_equalityI)
    show "length (kfifo_bytes f') = length (kfifo_bytes f @ take n buffer)"
      using d n len by (simp add: length_kfifo_bytes used_def)
    fix i assume "i < length (kfifo_bytes f')"
    then have i: "i < used + n" using d by (simp add: length_kfifo_bytes)
    define c where "c = (unat (kf_out f) + i) mod s"
    have c: "c < s" using s by (simp add: c_def)
    have "kfifo_bytes f' ! i = b2 ! c"
      using i d by (simp add: kfifo_bytes_def c_def f'_def flip: s_def cell)
    also have "\<dots> = (if (i + s - used) mod s < n then buffer ! ((i + s - used) mod s) else kf_buffer f ! c)"
      using b(4) c ring_diff [OF used(1), of "unat (kf_out f)" i] by (simp add: off' c_def)
    also have "\<dots> = (kfifo_bytes f @ take n buffer) ! i"
    proof (cases "i < used")
      case True
      then have "(i + s - used) mod s = i + s - used" using used(1) by simp
      moreover have "\<not> i + s - used < n" using n(1) used(1) by linarith
      ultimately show ?thesis using True
        by (simp add: nth_append length_kfifo_bytes kfifo_bytes_def c_def flip: used_def s_def cell)
    next
      case False
      then have "(i + s - used) mod s = (i - used) mod s" by (simp add: mod_add_self2 flip: add_diff_assoc2)
      also have "\<dots> = i - used" using False i n(1) used(1) by simp
      finally have "(i + s - used) mod s = i - used" .
      moreover have "i - used < n" using False i by simp
      ultimately show ?thesis
        using False by (simp add: nth_append length_kfifo_bytes flip: used_def)
    qed
    finally show "kfifo_bytes f' ! i = (kfifo_bytes f @ take n buffer) ! i" .
  qed
  show ?thesis using put wf' bytes by (auto simp: f'_def)
qed


text \<open>A get removes the oldest bytes and delivers them, in order, at the caller's buffer.\<close>

lemma kfifo_get_refines:
  assumes wf: "kfifo_wf f" and len: "unat len \<le> length buffer"
  defines "n \<equiv> min (unat len) (length (kfifo_bytes f))"
  shows "\<exists>f'. kfifo_get_nolock f buffer len =
      Some (of_nat n, take n (kfifo_bytes f) @ drop n buffer, f') \<and>
    kfifo_wf f' \<and> kfifo_bytes f' = drop n (kfifo_bytes f) \<and> kf_size f' = kf_size f"
proof -
  from wf obtain k where k: "k < 32" "kf_size f = 2 ^ k" by (auto simp: kfifo_wf_def)
  define s where "s = unat (kf_size f)"
  have s: "s = 2 ^ k" "0 < s" using k by (auto simp: s_def unat_pow2)
  define used where "used = unat (kf_in f - kf_out f)"
  have used: "used \<le> s" "length (kf_buffer f) = s"
    using wf by (auto simp: kfifo_wf_def s_def used_def)
  define w where "w = min len (kf_in f - kf_out f)"
  have uw: "unat w = n" by (simp add: w_def n_def unat_min length_kfifo_bytes)
  then have w: "of_nat n = w" by (simp flip: uw)
  have n: "n \<le> used" "n \<le> unat len" by (auto simp: n_def used_def length_kfifo_bytes)
  define off where "off = unat (kf_out f) mod s"
  have off: "unat (kf_out f AND (kf_size f - 1)) = off" "off < s"
    using mask_off [OF k(2)] s by (simp_all add: off_def)
  have l: "unat (min w (kf_size f - (kf_out f AND (kf_size f - 1)))) = min n (s - off)"
    using off by (simp add: unat_min uw s_def unat_sub_if')
  have wl: "unat (w - min w (kf_size f - (kf_out f AND (kf_size f - 1)))) = n - min n (s - off)"
    using l uw by (simp add: unat_sub_if')
  have "n \<le> s" "n \<le> length buffer" using n len used by auto
  from two_copies_out [OF off(2) this(1) used(2) this(2) refl]
  obtain b1 where b: "blit buffer 0 (kf_buffer f) off (min n (s - off)) = Some b1"
    "blit b1 (min n (s - off)) (kf_buffer f) 0 (n - min n (s - off)) =
       Some (map (\<lambda>j. kf_buffer f ! ((off + j) mod s)) [0..<n] @ drop n buffer)"
    by blast
  have cell: "unat (kf_out f + of_nat i) mod s = (unat (kf_out f) + i) mod s" for i
    using mod_pow2_word [of k "kf_out f" i] k s by simp
  have off': "(off + i) mod s = (unat (kf_out f) + i) mod s" for i
    by (simp add: off_def mod_add_left_eq)
  have out: "map (\<lambda>j. kf_buffer f ! ((off + j) mod s)) [0..<n] = take n (kfifo_bytes f)"
    using n(1) by (simp add: kfifo_bytes_def take_map off' min_def flip: used_def s_def cell)
  define f' where "f' = f\<lparr>kf_out := kf_out f + w\<rparr>"
  have get: "kfifo_get_nolock f buffer len =
      Some (of_nat n, take n (kfifo_bytes f) @ drop n buffer, f')"
    unfolding kfifo_get_nolock_def Let_def w_def [symmetric]
    by (simp add: off l wl b out f'_def) (simp add: w)
  have d: "unat (kf_in f' - kf_out f') = used - n"
  proof -
    have "kf_in f' - kf_out f' = (kf_in f - kf_out f) - w" by (simp add: f'_def)
    moreover have "w \<le> kf_in f - kf_out f" by (simp add: w_def)
    ultimately show ?thesis by (simp only: unat_sub uw used_def)
  qed
  have "kfifo_bytes f' = drop n (kfifo_bytes f)"
  proof (rule nth_equalityI)
    show "length (kfifo_bytes f') = length (drop n (kfifo_bytes f))"
      using d by (simp add: length_kfifo_bytes used_def)
    fix i assume "i < length (kfifo_bytes f')"
    then have i: "i < used - n" using d by (simp add: length_kfifo_bytes)
    then have ni: "n + i < used" by simp
    have e: "kf_out f + w + of_nat i = kf_out f + of_nat (n + i)" by (simp add: w)
    show "kfifo_bytes f' ! i = drop n (kfifo_bytes f) ! i"
      using i d ni by (simp add: kfifo_bytes_def f'_def e flip: used_def s_def)
  qed
  moreover have "kfifo_wf f'" using wf d by (auto simp: kfifo_wf_def f'_def used_def)
  ultimately show ?thesis using get by (auto simp: f'_def)
qed


section \<open>One reader and one writer, without a lock\<close>

text \<open>
  The source says that with one concurrent reader and one concurrent writer no lock is
  needed. The two sides are split here into the memory accesses whose order the barriers
  fix: a put samples \<open>out\<close>, copies byte after byte, and only then publishes \<open>in\<close>; a get
  samples \<open>in\<close>, copies byte after byte, and only then publishes \<open>out\<close>. Any interleaving of
  the two is a run. \<open>sp_sent\<close> and \<open>sp_rcvd\<close> record the bytes whose transfer each side
  has completed.
\<close>

datatype writer = WIdle | WCopy "u8 list" nat

datatype reader = RIdle | RCopy nat "u8 list"

record spsc =
  sp_fifo :: kfifo
  sp_writer :: writer
  sp_reader :: reader
  sp_sent :: "u8 list"
  sp_rcvd :: "u8 list"

inductive spsc_step :: "spsc \<Rightarrow> spsc \<Rightarrow> bool" where
  put_start: "sp_writer c = WIdle \<Longrightarrow> unat len \<le> length data \<Longrightarrow> f = sp_fifo c \<Longrightarrow>
     n = min len (kf_size f - kf_in f + kf_out f) \<Longrightarrow>
     spsc_step c (c\<lparr>sp_writer := WCopy (take (unat n) data) 0\<rparr>)"
| put_byte: "sp_writer c = WCopy d j \<Longrightarrow> j < length d \<Longrightarrow> f = sp_fifo c \<Longrightarrow>
     cell = unat ((kf_in f + of_nat j) AND (kf_size f - 1)) \<Longrightarrow>
     spsc_step c (c\<lparr>sp_fifo := f\<lparr>kf_buffer := (kf_buffer f)[cell := d ! j]\<rparr>,
                    sp_writer := WCopy d (Suc j)\<rparr>)"
| put_done: "sp_writer c = WCopy d (length d) \<Longrightarrow> f = sp_fifo c \<Longrightarrow>
     spsc_step c (c\<lparr>sp_fifo := f\<lparr>kf_in := kf_in f + of_nat (length d)\<rparr>,
                    sp_writer := WIdle, sp_sent := sp_sent c @ d\<rparr>)"
| get_start: "sp_reader c = RIdle \<Longrightarrow> f = sp_fifo c \<Longrightarrow> n = min len (kf_in f - kf_out f) \<Longrightarrow>
     spsc_step c (c\<lparr>sp_reader := RCopy (unat n) []\<rparr>)"
| get_byte: "sp_reader c = RCopy n acc \<Longrightarrow> length acc < n \<Longrightarrow> f = sp_fifo c \<Longrightarrow>
     cell = unat ((kf_out f + of_nat (length acc)) AND (kf_size f - 1)) \<Longrightarrow>
     spsc_step c (c\<lparr>sp_reader := RCopy n (acc @ [kf_buffer f ! cell])\<rparr>)"
| get_done: "sp_reader c = RCopy n acc \<Longrightarrow> length acc = n \<Longrightarrow> f = sp_fifo c \<Longrightarrow>
     spsc_step c (c\<lparr>sp_fifo := f\<lparr>kf_out := kf_out f + of_nat n\<rparr>,
                    sp_reader := RIdle, sp_rcvd := sp_rcvd c @ acc\<rparr>)"

definition spsc_start :: "kfifo \<Rightarrow> spsc" where
  "spsc_start f = \<lparr>sp_fifo = f, sp_writer = WIdle, sp_reader = RIdle, sp_sent = [], sp_rcvd = []\<rparr>"

inductive spsc_reachable :: "kfifo \<Rightarrow> spsc \<Rightarrow> bool" for f0 where
  spsc_init: "spsc_reachable f0 (spsc_start f0)"
| spsc_next: "spsc_reachable f0 c \<Longrightarrow> spsc_step c c' \<Longrightarrow> spsc_reachable f0 c'"

text \<open>
  The invariant: the indices count the bytes sent and received, the cells between them
  hold the bytes sent and not yet received, and each side's pending copy is confined to
  its own part of the ring.
\<close>

fun writer_inv :: "nat \<Rightarrow> u8 list \<Rightarrow> nat \<Rightarrow> nat \<Rightarrow> writer \<Rightarrow> bool" where
  "writer_inv s buf S R WIdle = True"
| "writer_inv s buf S R (WCopy d j) =
     (j \<le> length d \<and> S + length d \<le> R + s \<and> (\<forall>i<j. buf ! ((S + i) mod s) = d ! i))"

fun reader_inv :: "u8 list \<Rightarrow> nat \<Rightarrow> reader \<Rightarrow> bool" where
  "reader_inv sent R RIdle = True"
| "reader_inv sent R (RCopy n acc) =
     (length acc \<le> n \<and> R + n \<le> length sent \<and> take (length acc) (drop R sent) = acc)"

definition ring_inv :: "nat \<Rightarrow> kfifo \<Rightarrow> u8 list \<Rightarrow> u8 list \<Rightarrow> bool" where
  "ring_inv k f sent rcvd \<longleftrightarrow>
     k < 32 \<and> kf_size f = 2 ^ k \<and> length (kf_buffer f) = 2 ^ k \<and>
     kf_in f = of_nat (length sent) \<and> kf_out f = of_nat (length rcvd) \<and>
     length rcvd \<le> length sent \<and> length sent \<le> length rcvd + 2 ^ k \<and>
     take (length rcvd) sent = rcvd \<and>
     (\<forall>p. length rcvd \<le> p \<and> p < length sent \<longrightarrow> kf_buffer f ! (p mod 2 ^ k) = sent ! p)"

definition spsc_inv :: "nat \<Rightarrow> spsc \<Rightarrow> bool" where
  "spsc_inv k c \<longleftrightarrow>
     ring_inv k (sp_fifo c) (sp_sent c) (sp_rcvd c) \<and>
     writer_inv (2 ^ k) (kf_buffer (sp_fifo c)) (length (sp_sent c)) (length (sp_rcvd c)) (sp_writer c) \<and>
     reader_inv (sp_sent c) (length (sp_rcvd c)) (sp_reader c)"

lemma unat_of_nat_mod_pow2: "k \<le> 32 \<Longrightarrow> unat (of_nat a :: u32) mod 2 ^ k = a mod 2 ^ k"
  using mod_pow2_word [of k 0 a] by simp

lemma ring_cell:
  assumes "kf_size f = 2 ^ k" and "k < 32"
  shows "unat ((of_nat a + of_nat j) AND (kf_size f - 1)) = (a + j) mod 2 ^ k"
  unfolding mask_off [OF assms(1)] using assms(2) unat_of_nat_mod_pow2 [of k "a + j"] by simp

lemma ring_used:
  assumes "ring_inv k f sent rcvd"
  shows "unat (kf_in f - kf_out f) = length sent - length rcvd"
    and "unat (kf_size f - kf_in f + kf_out f) = 2 ^ k - (length sent - length rcvd)"
proof -
  from assms have i: "k < 32" "kf_size f = 2 ^ k" "kf_in f = of_nat (length sent)"
    "kf_out f = of_nat (length rcvd)" "length rcvd \<le> length sent"
    "length sent \<le> length rcvd + 2 ^ k" "length (kf_buffer f) = 2 ^ k"
    by (auto simp: ring_inv_def)
  have "(2::nat) ^ k < 2 ^ 32" using i(1) by (intro power_strict_increasing) auto
  then have small: "length sent - length rcvd < 2 ^ 32" using i(6) by linarith
  have "kf_in f - kf_out f = of_nat (length sent - length rcvd)" using i by simp
  with small show u: "unat (kf_in f - kf_out f) = length sent - length rcvd"
    by (simp add: unat_of_nat)
  have us: "unat (kf_size f) = 2 ^ k" using i by (simp add: unat_pow2)
  have "kfifo_wf f" using i u us unfolding kfifo_wf_def by auto
  from room_unat [OF this] u us show
    "unat (kf_size f - kf_in f + kf_out f) = 2 ^ k - (length sent - length rcvd)" by simp
qed

lemma mod_neq_within: "(a::nat) < b \<Longrightarrow> b < a + m \<Longrightarrow> a mod m \<noteq> b mod m"
proof
  assume a: "a < b" "b < a + m" and "a mod m = b mod m"
  then have "m dvd b - a" by (metis mod_eq_dvd_iff_nat less_imp_le)
  with a show False by (auto dest: dvd_imp_le)
qed

lemma inv_put_start:
  assumes h: "sp_writer c = WIdle" "unat len \<le> length data" "f = sp_fifo c" "n = min len (kf_size f - kf_in f + kf_out f)"
    and inv: "spsc_inv k c"
  shows "spsc_inv k (c\<lparr>sp_writer := WCopy (take (unat n) data) 0\<rparr>)"
proof -
  from h inv have r: "ring_inv k f (sp_sent c) (sp_rcvd c)" by (simp add: spsc_inv_def)
  have "unat n \<le> 2 ^ k - (length (sp_sent c) - length (sp_rcvd c))"
    using ring_used(2) [OF r] h(4) by (simp add: unat_min)
  moreover have "length (sp_sent c) \<le> length (sp_rcvd c) + 2 ^ k" "length (sp_rcvd c) \<le> length (sp_sent c)"
    using r by (auto simp: ring_inv_def)
  ultimately show ?thesis
    using h inv by (auto simp: spsc_inv_def)
qed

lemma inv_put_byte:
  assumes h: "sp_writer c = WCopy d j" "j < length d" "f = sp_fifo c" "cell = unat ((kf_in f + of_nat j) AND (kf_size f - 1))"
    and inv: "spsc_inv k c"
  shows "spsc_inv k (c\<lparr>sp_fifo := f\<lparr>kf_buffer := (kf_buffer f)[cell := d ! j]\<rparr>,
      sp_writer := WCopy d (Suc j)\<rparr>)"
proof -
  define S R where "S = length (sp_sent c)" and "R = length (sp_rcvd c)"
  from h inv have r: "ring_inv k f (sp_sent c) (sp_rcvd c)"
    and w: "S + length d \<le> R + 2 ^ k" "\<forall>i<j. kf_buffer f ! ((S + i) mod 2 ^ k) = d ! i"
    by (auto simp: spsc_inv_def S_def R_def)
  from r have f: "k < 32" "kf_size f = 2 ^ k" "length (kf_buffer f) = 2 ^ k" "kf_in f = of_nat S"
    "R \<le> S" by (auto simp: ring_inv_def S_def R_def)
  have cell: "cell = (S + j) mod 2 ^ k"
    using h(4) ring_cell [OF f(2,1)] f(4) by simp
  have c: "cell < length (kf_buffer f)" by (simp add: cell f(3))
  have old: "p mod 2 ^ k \<noteq> cell" if "R \<le> p" "p < S + j" for p
    using that w(1) h(2) unfolding cell by (intro mod_neq_within) auto
  have "\<forall>i<Suc j. (kf_buffer f)[cell := d ! j] ! ((S + i) mod 2 ^ k) = d ! i"
  proof (intro allI impI)
    fix i assume "i < Suc j"
    then consider "i < j" | "i = j" by linarith
    then show "(kf_buffer f)[cell := d ! j] ! ((S + i) mod 2 ^ k) = d ! i"
    proof cases
      case 1
      with old [of "S + i"] f(5) w(2) show ?thesis by (simp add: nth_list_update)
    qed (use c cell in simp)
  qed
  moreover have "ring_inv k (f\<lparr>kf_buffer := (kf_buffer f)[cell := d ! j]\<rparr>) (sp_sent c) (sp_rcvd c)"
    using r old [THEN not_sym] by (auto simp: ring_inv_def S_def R_def)
  ultimately show ?thesis
    using h inv w(1) by (auto simp: spsc_inv_def S_def R_def)
qed

lemma inv_put_done:
  assumes h: "sp_writer c = WCopy d (length d)" "f = sp_fifo c"
    and inv: "spsc_inv k c"
  shows "spsc_inv k (c\<lparr>sp_fifo := f\<lparr>kf_in := kf_in f + of_nat (length d)\<rparr>,
      sp_writer := WIdle, sp_sent := sp_sent c @ d\<rparr>)"
proof -
  define S R where "S = length (sp_sent c)" and "R = length (sp_rcvd c)"
  from h inv have r: "ring_inv k f (sp_sent c) (sp_rcvd c)"
    and w: "S + length d \<le> R + 2 ^ k" "\<forall>i<length d. kf_buffer f ! ((S + i) mod 2 ^ k) = d ! i"
    and rd: "reader_inv (sp_sent c) R (sp_reader c)"
    by (auto simp: spsc_inv_def S_def R_def)
  have "kf_buffer f ! (p mod 2 ^ k) = (sp_sent c @ d) ! p" if "R \<le> p" "p < S + length d" for p
  proof (cases "p < S")
    case True
    with that r show ?thesis by (auto simp: ring_inv_def S_def R_def nth_append)
  next
    case False
    then have "p = S + (p - S)" "p - S < length d" using that by auto
    with w(2) have "kf_buffer f ! (p mod 2 ^ k) = d ! (p - S)" by metis
    with False show ?thesis by (simp add: S_def nth_append)
  qed
  with r w(1) have "ring_inv k (f\<lparr>kf_in := kf_in f + of_nat (length d)\<rparr>) (sp_sent c @ d) (sp_rcvd c)"
    by (auto simp: ring_inv_def S_def R_def)
  moreover have "reader_inv (sp_sent c @ d) R (sp_reader c)"
    using rd by (cases "sp_reader c") auto
  ultimately show ?thesis using h inv by (simp add: spsc_inv_def R_def)
qed

lemma inv_get_start:
  assumes h: "sp_reader c = RIdle" "f = sp_fifo c" "n = min len (kf_in f - kf_out f)"
    and inv: "spsc_inv k c"
  shows "spsc_inv k (c\<lparr>sp_reader := RCopy (unat n) []\<rparr>)"
proof -
  from h inv have r: "ring_inv k f (sp_sent c) (sp_rcvd c)" by (simp add: spsc_inv_def)
  have "unat n \<le> length (sp_sent c) - length (sp_rcvd c)"
    using ring_used(1) [OF r] h(3) by (simp add: unat_min)
  moreover have "length (sp_rcvd c) \<le> length (sp_sent c)" using r by (simp add: ring_inv_def)
  ultimately show ?thesis using h inv by (auto simp: spsc_inv_def)
qed

lemma inv_get_byte:
  assumes h: "sp_reader c = RCopy n acc" "length acc < n" "f = sp_fifo c" "cell = unat ((kf_out f + of_nat (length acc)) AND (kf_size f - 1))"
    and inv: "spsc_inv k c"
  shows "spsc_inv k (c\<lparr>sp_reader := RCopy n (acc @ [kf_buffer f ! cell])\<rparr>)"
proof -
  define R where "R = length (sp_rcvd c)"
  from h inv have r: "ring_inv k f (sp_sent c) (sp_rcvd c)"
    and rd: "R + n \<le> length (sp_sent c)" "take (length acc) (drop R (sp_sent c)) = acc"
    by (auto simp: spsc_inv_def R_def)
  from r have f: "k < 32" "kf_size f = 2 ^ k" "kf_out f = of_nat R"
    by (auto simp: ring_inv_def R_def)
  have "cell = (R + length acc) mod 2 ^ k"
    using h(4) ring_cell [OF f(2,1)] f(3) by simp
  with r rd(1) h(2) have "kf_buffer f ! cell = sp_sent c ! (R + length acc)"
    by (auto simp: ring_inv_def R_def)
  with rd h(2) have "take (Suc (length acc)) (drop R (sp_sent c)) = acc @ [kf_buffer f ! cell]"
    by (simp add: take_Suc_conv_app_nth)
  with h inv rd r show ?thesis by (simp add: spsc_inv_def R_def)
qed

lemma inv_get_done:
  assumes h: "sp_reader c = RCopy n acc" "length acc = n" "f = sp_fifo c"
    and inv: "spsc_inv k c"
  shows "spsc_inv k (c\<lparr>sp_fifo := f\<lparr>kf_out := kf_out f + of_nat n\<rparr>,
      sp_reader := RIdle, sp_rcvd := sp_rcvd c @ acc\<rparr>)"
proof -
  define S R where "S = length (sp_sent c)" and "R = length (sp_rcvd c)"
  from h inv have r: "ring_inv k f (sp_sent c) (sp_rcvd c)"
    and rd: "R + n \<le> S" "take n (drop R (sp_sent c)) = acc" "length acc = n"
    and w: "writer_inv (2 ^ k) (kf_buffer f) S R (sp_writer c)"
    by (auto simp: spsc_inv_def S_def R_def)
  have "sp_rcvd c @ acc = take (R + n) (sp_sent c)"
    using r rd(2) unfolding ring_inv_def R_def by (metis take_add)
  with r rd have "ring_inv k (f\<lparr>kf_out := kf_out f + of_nat n\<rparr>) (sp_sent c) (sp_rcvd c @ acc)"
    by (auto simp: ring_inv_def S_def R_def)
  moreover have "writer_inv (2 ^ k) (kf_buffer f) S (R + n) (sp_writer c)"
    using w by (cases "sp_writer c") auto
  ultimately show ?thesis using h inv by (simp add: spsc_inv_def S_def R_def)
qed

lemma spsc_step_inv: "spsc_step c c' \<Longrightarrow> spsc_inv k c \<Longrightarrow> spsc_inv k c'"
proof (induction rule: spsc_step.induct)
  case (put_start c len data f n)
  then show ?case by (intro inv_put_start)
next
  case (put_byte c d j f cell)
  then show ?case by (intro inv_put_byte)
next
  case (put_done c d f)
  then show ?case by (intro inv_put_done)
next
  case (get_start c f n len)
  then show ?case by (intro inv_get_start)
next
  case (get_byte c n acc f cell)
  then show ?case by (intro inv_get_byte)
next
  case (get_done c n acc f)
  then show ?case by (intro inv_get_done)
qed

lemma spsc_start_inv:
  assumes "k < 32" and "kfifo_init (replicate (2 ^ k) 0) (2 ^ k) True = Inr f"
  shows "spsc_inv k (spsc_start f)"
  using assms by (auto simp: spsc_inv_def spsc_start_def ring_inv_def kfifo_init_def split: if_splits)

lemma spsc_reachable_inv:
  "spsc_reachable f c \<Longrightarrow> spsc_inv k (spsc_start f) \<Longrightarrow> spsc_inv k c"
  by (induction rule: spsc_reachable.induct) (auto intro: spsc_step_inv)

section \<open>The contract of a byte queue\<close>

text \<open>
  The queue the FIFO's users rely on: a put appends what fits, a get delivers the oldest
  bytes. The laws are stated through the bytes held; \<open>room\<close> is the free space.
\<close>

locale byte_queue =
  fixes put :: "'q \<Rightarrow> 'b list \<Rightarrow> ('l \<times> 'q) option"
    and get :: "'q \<Rightarrow> 'b list \<Rightarrow> ('l \<times> 'b list \<times> 'q) option"
    and held :: "'q \<Rightarrow> 'b list"
    and capacity :: "'q \<Rightarrow> nat"
    and wf :: "'q \<Rightarrow> bool"
    and fits :: "'b list \<Rightarrow> bool"
  assumes put_law: "wf q \<Longrightarrow> fits xs \<Longrightarrow> \<exists>l q'. put q xs = Some (l, q') \<and> wf q' \<and>
      held q' = held q @ take (capacity q - length (held q)) xs \<and> capacity q' = capacity q"
    and get_law: "wf q \<Longrightarrow> fits buf \<Longrightarrow> \<exists>l buf' q'. get q buf = Some (l, buf', q') \<and> wf q' \<and>
      buf' = take (length buf) (held q) @ drop (length (held q)) buf \<and>
      held q' = drop (length buf) (held q) \<and> capacity q' = capacity q"
begin

text \<open>What was put into an empty queue with room for it comes out unchanged.\<close>

lemma put_get_roundtrip:
  assumes "wf q" and "held q = []" and "fits xs" and "fits buf"
    and "length xs \<le> capacity q" and "length buf = length xs"
  shows "\<exists>l q' l' q''. put q xs = Some (l, q') \<and> get q' buf = Some (l', xs, q'') \<and> held q'' = []"
proof -
  from put_law [OF assms(1,3)] obtain l q' where p: "put q xs = Some (l, q')" "wf q'"
    "held q' = xs" using assms(2,5) by auto
  from get_law [OF p(2) assms(4)] p(3) assms(6) obtain l' q'' where
    "get q' buf = Some (l', xs, q'')" "held q'' = []" by auto
  with p show ?thesis by blast
qed

text \<open>Two puts that fit are one put of the concatenation.\<close>

lemma put_put:
  assumes "wf q" and "fits xs" and "fits ys" and "length (held q) + length xs + length ys \<le> capacity q"
  shows "\<exists>l q' l' q''. put q xs = Some (l, q') \<and> put q' ys = Some (l', q'') \<and>
    held q'' = held q @ xs @ ys"
proof -
  from put_law [OF assms(1,2)] obtain l q' where p: "put q xs = Some (l, q')" "wf q'"
    "held q' = held q @ xs" "capacity q' = capacity q" using assms(4) by auto
  from put_law [OF p(2) assms(3)] p(3,4) assms(4) show ?thesis
    using p(1) by fastforce
qed

end

definition kfifo_put_all :: "kfifo \<Rightarrow> u8 list \<Rightarrow> (u32 \<times> kfifo) option" where
  "kfifo_put_all f xs = kfifo_put f xs (of_nat (length xs))"

definition kfifo_get_all :: "kfifo \<Rightarrow> u8 list \<Rightarrow> (u32 \<times> u8 list \<times> kfifo) option" where
  "kfifo_get_all f buf = kfifo_get f buf (of_nat (length buf))"

lemma kfifo_get_locked:
  assumes "kfifo_get_nolock f buffer len = Some (r, buf', f')" and "kfifo_wf f'"
  shows "\<exists>f''. kfifo_get f buffer len = Some (r, buf', f'') \<and> kfifo_wf f'' \<and>
    kfifo_bytes f'' = kfifo_bytes f' \<and> kf_size f'' = kf_size f'"
  using assms by (auto simp: kfifo_get_def kfifo_wf_def kfifo_bytes_def)

interpretation kq: byte_queue kfifo_put_all kfifo_get_all kfifo_bytes "\<lambda>f. unat (kf_size f)" kfifo_wf
  "\<lambda>xs. length xs < 2 ^ 32"
proof
  fix q and xs :: "u8 list"
  assume wf: "kfifo_wf q" and xs: "length xs < 2 ^ 32"
  then have u: "unat (of_nat (length xs) :: u32) = length xs" by (simp add: unat_of_nat)
  from kfifo_put_refines [OF wf, of "of_nat (length xs)" xs] u
  show "\<exists>l q'. kfifo_put_all q xs = Some (l, q') \<and> kfifo_wf q' \<and>
      kfifo_bytes q' = kfifo_bytes q @ take (unat (kf_size q) - length (kfifo_bytes q)) xs \<and>
      unat (kf_size q') = unat (kf_size q)"
    by (auto simp: kfifo_put_all_def kfifo_put_def min_def)
next
  fix q and buf :: "u8 list"
  assume wf: "kfifo_wf q" and buf: "length buf < 2 ^ 32"
  then have u: "unat (of_nat (length buf) :: u32) = length buf" by (simp add: unat_of_nat)
  define n where "n = min (length buf) (length (kfifo_bytes q))"
  from kfifo_get_refines [OF wf, of "of_nat (length buf)" buf] u
  obtain q' where g: "kfifo_get_nolock q buf (of_nat (length buf)) =
      Some (of_nat n, take n (kfifo_bytes q) @ drop n buf, q')"
    "kfifo_wf q'" "kfifo_bytes q' = drop n (kfifo_bytes q)" "kf_size q' = kf_size q"
    by (auto simp: n_def)
  from kfifo_get_locked [OF g(1,2)] g(3,4)
  show "\<exists>l buf' q'. kfifo_get_all q buf = Some (l, buf', q') \<and> kfifo_wf q' \<and>
      buf' = take (length buf) (kfifo_bytes q) @ drop (length (kfifo_bytes q)) buf \<and>
      kfifo_bytes q' = drop (length buf) (kfifo_bytes q) \<and> unat (kf_size q') = unat (kf_size q)"
    by (auto simp: kfifo_get_all_def n_def min_def)
qed

lemma kfifo_alloc_pow2:
  assumes "sz AND (sz - 1) = 0"
  shows "kfifo_alloc kmalloc sz mem =
    (case kmalloc sz of None \<Rightarrow> Inl (Err ENOMEM) | Some b \<Rightarrow> kfifo_init b sz mem)"
  using assms by (simp add: kfifo_alloc_def)

lemma kfifo_init_wf:
  assumes "kfifo_init buf sz mem = Inr f" and "length buf = unat sz"
  shows "kfifo_wf f" and "kfifo_bytes f = []" and "kf_size f = sz"
  using assms by (auto simp: kfifo_init_def kfifo_wf_def kfifo_bytes_def is_power_of_2_iff
      split: if_splits)

lemma pow2_bracket_least:
  assumes "k = 0 \<or> 2 ^ (k - 1) < (n::nat)" and "n \<le> 2 ^ j"
  shows "k \<le> j"
proof (rule ccontr)
  assume j: "\<not> k \<le> j"
  then have "(2::nat) ^ j \<le> 2 ^ (k - 1)" by (intro power_increasing) auto
  moreover have "2 ^ (k - 1) < n" using assms(1) j by auto
  ultimately show False using assms(2) by linarith
qed

lemma kfifo_alloc_in_range:
  assumes mem: "\<And>n. \<exists>b. kmalloc n = Some b \<and> length b = unat n" and sz: "1 \<le> unat sz \<and> unat sz \<le> 2 ^ 31"
  shows "\<exists>f k. kfifo_alloc kmalloc sz True = Inr f \<and> kfifo_wf f \<and> kfifo_bytes f = [] \<and>
      unat (kf_size f) = 2 ^ k \<and> unat sz \<le> 2 ^ k \<and> (\<forall>j. unat sz \<le> 2 ^ j \<longrightarrow> k \<le> j)"
proof -
  from sz have nz: "sz \<noteq> 0" by auto
  obtain k where k: "k < 32" "unat sz \<le> 2 ^ k" "k = 0 \<or> 2 ^ (k - 1) < unat sz"
    and alloc: "kfifo_alloc kmalloc sz True = (case kmalloc (2 ^ k) of
        None \<Rightarrow> Inl (Err ENOMEM) | Some b \<Rightarrow> kfifo_init b (2 ^ k) True)"
  proof (cases "sz AND (sz - 1) = 0")
    case True
    with nz have "is_power_of_2 sz" by (simp add: is_power_of_2_def)
    then obtain k where k: "k < 32" "sz = 2 ^ k" by (auto simp: is_power_of_2_iff)
    then have "unat sz = 2 ^ k" by (simp add: unat_pow2)
    with k show thesis
      using kfifo_alloc_pow2 [OF True, of kmalloc True] by (intro that [of k]) (cases k, auto)
  next
    case False
    obtain k where k: "k < 32" "roundup_pow_of_two sz = 2 ^ k" "unat sz \<le> 2 ^ k" "k = 0 \<or> 2 ^ (k - 1) < unat sz"
      using roundup_pow_of_two_spec [of sz] sz by blast
    have "kfifo_alloc kmalloc sz True = (case kmalloc (2 ^ k) of
        None \<Rightarrow> Inl (Err ENOMEM) | Some b \<Rightarrow> kfifo_init b (2 ^ k) True)"
      using False sz k(2) by (simp add: kfifo_alloc_def Let_def word_less_nat_alt)
    with k show thesis by (intro that [of k])
  qed
  obtain b where b: "kmalloc (2 ^ k) = Some b" "length b = unat (2 ^ k :: u32)" using mem by blast
  have init: "kfifo_init b (2 ^ k) True = Inr \<lparr>kf_buffer = b, kf_size = 2 ^ k, kf_in = 0, kf_out = 0\<rparr>"
    using k(1) by (auto simp: kfifo_init_def is_power_of_2_iff)
  have least: "\<forall>j. unat sz \<le> 2 ^ j \<longrightarrow> k \<le> j"
    using k(3) pow2_bracket_least by blast
  show ?thesis
    using alloc b init kfifo_init_wf [OF init b(2)] k least
    by (intro exI [of _ "\<lparr>kf_buffer = b, kf_size = 2 ^ k, kf_in = 0, kf_out = 0\<rparr>"] exI [of _ k])
      (simp add: unat_pow2)
qed

lemma kfifo_alloc_out_of_range:
  assumes mem: "\<And>n. \<exists>b. kmalloc n = Some b \<and> length b = unat n" and sz: "sz = 0 \<or> 2 ^ 31 < unat sz"
  shows "kfifo_alloc kmalloc sz True = Inl Bug"
proof -
  obtain b where b: "kmalloc sz = Some b" using mem by blast
  have "\<not> is_power_of_2 sz"
  proof
    assume "is_power_of_2 sz"
    then obtain k where k: "k < 32" "sz = 2 ^ k" by (auto simp: is_power_of_2_iff)
    then have "unat sz = 2 ^ k" by (simp add: unat_pow2)
    moreover have "(2::nat) ^ k \<le> 2 ^ 31" using k(1) by (intro power_increasing) auto
    ultimately show False using sz by auto
  qed
  then show ?thesis
    using sz b by (auto simp: kfifo_alloc_def kfifo_init_def is_power_of_2_def word_less_nat_alt)
qed

section \<open>Properties\<close>

text \<open>
  C22: the lock-free claim of \<open>kernel/kfifo.c\<close>, for a ring of a power of two of bytes. In every interleaving of one writer's put
  and one reader's get, the bytes the reader has taken are the first bytes the writer has
  put, none lost, duplicated, reordered or torn, and the ring never holds more than its
  size.
\<close>

theorem spsc_fifo_order:
  assumes "k < 32" and "kfifo_init (replicate (2 ^ k) 0) (2 ^ k) True = Inr f"
    and "spsc_reachable f c"
  shows "sp_rcvd c = take (length (sp_rcvd c)) (sp_sent c) \<and>
    length (sp_rcvd c) \<le> length (sp_sent c) \<and> length (sp_sent c) \<le> length (sp_rcvd c) + 2 ^ k"
  using spsc_reachable_inv [OF assms(3) spsc_start_inv [OF assms(1,2)]]
  by (simp add: spsc_inv_def ring_inv_def)

theorem spsc_fifo_order_witness:
  "\<exists>f c. kfifo_init (replicate (2 ^ 1) 0) (2 ^ 1) True = Inr f \<and> spsc_reachable f c \<and>
     sp_sent c = [7] \<and> sp_rcvd c = [7] \<and> sp_rcvd c = take (length (sp_rcvd c)) (sp_sent c)"
proof -
  let ?b = "\<lparr>kf_buffer = [0, 0], kf_size = 2, kf_in = 0, kf_out = 0\<rparr>"
  let ?st = "\<lambda>buf i ou w r s t. \<lparr>sp_fifo = \<lparr>kf_buffer = buf, kf_size = 2, kf_in = i, kf_out = ou\<rparr>,
      sp_writer = w, sp_reader = r, sp_sent = s, sp_rcvd = t\<rparr>"
  have init: "kfifo_init (replicate (2 ^ 1) 0) (2 ^ 1) True = Inr ?b"
    by (simp add: kfifo_init_def is_power_of_2_def numeral_2_eq_2)
  have "spsc_reachable ?b (?st [0, 0] 0 0 WIdle RIdle [] [])"
    using spsc_init [of ?b] by (simp add: spsc_start_def)
  then have "spsc_reachable ?b (?st [0, 0] 0 0 (WCopy [7] 0) RIdle [] [])"
    by (rule spsc_next) (use put_start [of "?st [0, 0] 0 0 WIdle RIdle [] []" 1 "[7]" ?b 1] in simp)
  then have "spsc_reachable ?b (?st [7, 0] 0 0 (WCopy [7] 1) RIdle [] [])"
    by (rule spsc_next) (use put_byte [of "?st [0, 0] 0 0 (WCopy [7] 0) RIdle [] []" "[7]" 0 ?b 0] in simp)
  then have "spsc_reachable ?b (?st [7, 0] 1 0 WIdle RIdle [7] [])"
    by (rule spsc_next) (use put_done [of "?st [7, 0] 0 0 (WCopy [7] 1) RIdle [] []" "[7]"] in simp)
  then have "spsc_reachable ?b (?st [7, 0] 1 0 WIdle (RCopy 1 []) [7] [])"
    by (rule spsc_next) (use get_start [of "?st [7, 0] 1 0 WIdle RIdle [7] []" _ 1 1] in simp)
  then have "spsc_reachable ?b (?st [7, 0] 1 0 WIdle (RCopy 1 [7]) [7] [])"
    by (rule spsc_next) (use get_byte [of "?st [7, 0] 1 0 WIdle (RCopy 1 []) [7] []" 1 "[]" _ 0] in simp)
  then have r: "spsc_reachable ?b (?st [7, 0] 1 1 WIdle RIdle [7] [7])"
    by (rule spsc_next) (use get_done [of "?st [7, 0] 1 0 WIdle (RCopy 1 [7]) [7] []" 1 "[7]"] in simp)
  from spsc_fifo_order [OF _ init r] have
    "sp_rcvd (?st [7, 0] 1 1 WIdle RIdle [7] [7]) = take 1 [7]" by simp
  with init r show ?thesis by (intro exI conjI) auto
qed

text \<open>
  C33: \<open>__kfifo_put\<close> and \<open>__kfifo_get\<close> refine a queue of bytes. On a well-formed FIFO
  with any index values, wrapped or not, a put appends the first \<open>min len room\<close> bytes of
  the caller's buffer and returns that number; a get writes the oldest \<open>min len used\<close>
  bytes to the front of the caller's buffer and removes them. Neither copy leaves the ring
  or the caller's buffer.
\<close>

theorem kfifo_refines_queue:
  assumes "kfifo_wf f" and "unat len \<le> length buffer"
  shows "(\<exists>f'. kfifo_put_nolock f buffer len =
        Some (of_nat (min (unat len) (unat (kf_size f) - length (kfifo_bytes f))), f') \<and>
      kfifo_wf f' \<and>
      kfifo_bytes f' = kfifo_bytes f @ take (min (unat len) (unat (kf_size f) - length (kfifo_bytes f))) buffer) \<and>
    (\<exists>f'. kfifo_get_nolock f buffer len =
        Some (of_nat (min (unat len) (length (kfifo_bytes f))),
              take (unat len) (kfifo_bytes f) @ drop (min (unat len) (length (kfifo_bytes f))) buffer, f') \<and>
      kfifo_wf f' \<and> kfifo_bytes f' = drop (unat len) (kfifo_bytes f))"
  using kfifo_put_refines [OF assms] kfifo_get_refines [OF assms] by (auto simp: min_def)

theorem kfifo_refines_queue_witness:
  "\<exists>f f' n. kf_in f = 1 \<and> kf_out f = 0xffffffff \<and> kfifo_put_nolock f [5, 6, 7] 3 = Some (n, f') \<and>
     n = 2 \<and> kfifo_bytes f = [1, 2] \<and> kfifo_bytes f' = [1, 2, 5, 6]"
proof -
  let ?f = "\<lparr>kf_buffer = [2, 0, 0, 1], kf_size = 4, kf_in = 1, kf_out = 0xffffffff\<rparr>"
  have wf: "kfifo_wf ?f" by (auto simp: kfifo_wf_def intro!: exI [of _ 2])
  have b: "kfifo_bytes ?f = [1, 2]" by (simp add: kfifo_bytes_def upt_rec)
  from kfifo_refines_queue [OF wf, of 3 "[5, 6, 7]"] b
  obtain f' where "kfifo_put_nolock ?f [5, 6, 7] 3 = Some (2, f')" "kfifo_bytes f' = [1, 2, 5, 6]"
    by auto
  with b show ?thesis by (intro exI [of _ ?f] exI) auto
qed

text \<open>
  \<open>kfifo_alloc\<close>. When memory is available it returns an empty FIFO whose size is the
  least power of two that is at least the requested size, for every request from 1 to
  \<open>2 ^ 31\<close>; a request of 0 or above \<open>2 ^ 31\<close> hits a \<open>BUG_ON\<close>.
\<close>

theorem kfifo_alloc_size:
  assumes "\<And>n. \<exists>b. kmalloc n = Some b \<and> length b = unat n"
  shows "(1 \<le> unat sz \<and> unat sz \<le> 2 ^ 31 \<longrightarrow>
      (\<exists>f k. kfifo_alloc kmalloc sz True = Inr f \<and> kfifo_wf f \<and> kfifo_bytes f = [] \<and>
         unat (kf_size f) = 2 ^ k \<and> unat sz \<le> 2 ^ k \<and> (\<forall>j. unat sz \<le> 2 ^ j \<longrightarrow> k \<le> j))) \<and>
    (sz = 0 \<or> 2 ^ 31 < unat sz \<longrightarrow> kfifo_alloc kmalloc sz True = Inl Bug)"
  using kfifo_alloc_in_range [OF assms] kfifo_alloc_out_of_range [OF assms] by blast

theorem kfifo_alloc_size_witness:
  "\<exists>f k. kfifo_alloc (\<lambda>n. Some (replicate (unat n) 0)) 5 True = Inr f \<and> unat (kf_size f) = 2 ^ k \<and>
     5 \<le> (2::nat) ^ k \<and> (\<forall>j. 5 \<le> (2::nat) ^ j \<longrightarrow> k \<le> j)"
  using kfifo_alloc_size [of "\<lambda>n. Some (replicate (unat n) 0)" 5] by auto

end
