(* ===== verification/Skb.thy ===== *)
theory Skb imports Prelude begin

text \<open>
  Socket buffers as \<open>net/core/filter.c\<close> reads them: a linear part, page fragments and a
  list of further buffers, with \<open>skb_copy_bits\<close> of \<open>net/core/skbuff.c\<close> and
  \<open>skb_header_pointer\<close> of \<open>include/linux/skbuff.h\<close>. The theory shows that reading
  through any of the layouts is reading a slice of one byte sequence.
\<close>

section \<open>The buffer\<close>

text \<open>
  \<open>sk_mem\<close> is the memory block from \<open>skb->head\<close> on: headroom, linear data, tailroom and
  the \<open>skb_shared_info\<close> behind it. \<open>sk_data\<close> is the offset of \<open>skb->data\<close> in it. A page
  fragment is the list of its \<open>size\<close> bytes; \<open>sk_frag_list\<close> is the chain of further
  buffers.
\<close>

datatype skb =
  Skb (sk_mem: "u8 list") (sk_data: nat) (sk_len: nat) (sk_data_len: nat)
      (sk_frags: "u8 list list") (sk_frag_list: "skb list")

definition skb_headlen :: "skb \<Rightarrow> nat" where
  "skb_headlen s = sk_len s - sk_data_len s"

definition skb_is_nonlinear :: "skb \<Rightarrow> bool" where
  "skb_is_nonlinear s \<longleftrightarrow> sk_data_len s \<noteq> 0"

text \<open>\<open>skb_tail_pointer\<close>, as an offset from \<open>skb->head\<close>.\<close>

definition skb_tail_pointer :: "skb \<Rightarrow> nat" where
  "skb_tail_pointer s = sk_data s + skb_headlen s"

text \<open>A read of \<open>n\<close> bytes at \<open>off\<close> of a memory block; leaving the block is a fault.\<close>

definition mem_read :: "u8 list \<Rightarrow> nat \<Rightarrow> nat \<Rightarrow> u8 list result" where
  "mem_read m off n = (if off + n \<le> length m then Inr (take n (drop off m)) else Inl Fault)"

section \<open>skb_copy_bits\<close>

text \<open>
  The loops carry the local variables \<open>start\<close>, \<open>offset\<close>, \<open>len\<close> and the bytes written to
  \<open>to\<close> so far. \<open>Inl\<close> of the inner sum is the early \<open>return 0\<close>.
\<close>

type_synonym copy_state = "int \<times> int \<times> int \<times> u8 list"

fun copy_frags :: "u8 list list \<Rightarrow> copy_state \<Rightarrow> (u8 list + copy_state) result" where
  "copy_frags [] st = Inr (Inr st)"
| "copy_frags (f # fs) (start, offset, len, to) =
     (let end = start + int (length f); copy = end - offset in
      if 0 < copy then
        let copy = (if len < copy then len else copy) in
        case mem_read f (nat (offset - start)) (nat copy) of
          Inl e \<Rightarrow> Inl e
        | Inr bs \<Rightarrow>
            if len - copy = 0 then Inr (Inl (to @ bs))
            else copy_frags fs (end, offset + copy, len - copy, to @ bs)
      else copy_frags fs (end, offset, len, to))"

fun skb_copy_bits :: "skb \<Rightarrow> int \<Rightarrow> int \<Rightarrow> u8 list result"
  and copy_frag_list :: "skb list \<Rightarrow> copy_state \<Rightarrow> (u8 list + copy_state) result" where
  "skb_copy_bits (Skb mem data slen data_len frags frag_list) offset len =
     (let start = int (slen - data_len) in
      if int slen - len < offset then Inl (Err EFAULT)
      else
        let header =
          (let copy = start - offset in
           if 0 < copy then
             let copy = (if len < copy then len else copy) in
             case mem_read mem (nat (int data + offset)) (nat copy) of
               Inl e \<Rightarrow> Inl e
             | Inr bs \<Rightarrow>
                 if len - copy = 0 then Inr (Inl bs)
                 else Inr (Inr (start, offset + copy, len - copy, bs))
           else Inr (Inr (start, offset, len, [])))
        in case header of
             Inl e \<Rightarrow> Inl e
           | Inr (Inl bs) \<Rightarrow> Inr bs
           | Inr (Inr st) \<Rightarrow>
               (case copy_frags frags st of
                  Inl e \<Rightarrow> Inl e
                | Inr (Inl bs) \<Rightarrow> Inr bs
                | Inr (Inr st) \<Rightarrow>
                    (case copy_frag_list frag_list st of
                       Inl e \<Rightarrow> Inl e
                     | Inr (Inl bs) \<Rightarrow> Inr bs
                     | Inr (Inr (start, offset, len, to)) \<Rightarrow>
                         if len = 0 then Inr to else Inl (Err EFAULT))))"
| "copy_frag_list [] st = Inr (Inr st)"
| "copy_frag_list (s # ss) (start, offset, len, to) =
     (let end = start + int (sk_len s); copy = end - offset in
      if 0 < copy then
        let copy = (if len < copy then len else copy) in
        case skb_copy_bits s (offset - start) copy of
          Inl (Err _) \<Rightarrow> Inl (Err EFAULT)
        | Inl e \<Rightarrow> Inl e
        | Inr bs \<Rightarrow>
            if len - copy = 0 then Inr (Inl (to @ bs))
            else copy_frag_list ss (end, offset + copy, len - copy, to @ bs)
      else copy_frag_list ss (end, offset, len, to))"

text \<open>
  \<open>skb_header_pointer\<close>: the bytes the returned pointer points to, \<open>None\<close> for \<open>NULL\<close>.
\<close>

definition skb_header_pointer :: "skb \<Rightarrow> int \<Rightarrow> int \<Rightarrow> u8 list option result" where
  "skb_header_pointer s offset len =
     (let hlen = int (skb_headlen s) in
      if len \<le> hlen - offset then
        (case mem_read (sk_mem s) (nat (int (sk_data s) + offset)) (nat len) of
           Inl e \<Rightarrow> Inl e | Inr bs \<Rightarrow> Inr (Some bs))
      else
        case skb_copy_bits s offset len of
          Inl (Err _) \<Rightarrow> Inr None
        | Inl e \<Rightarrow> Inl e
        | Inr bs \<Rightarrow> Inr (Some bs))"

section \<open>The byte sequence of a buffer\<close>

fun skb_linear :: "skb \<Rightarrow> u8 list" where
  "skb_linear (Skb mem data slen data_len frags frag_list) = take (slen - data_len) (drop data mem)"

fun skb_bytes :: "skb \<Rightarrow> u8 list" where
  "skb_bytes (Skb mem data slen data_len frags frag_list) =
     take (slen - data_len) (drop data mem) @ concat frags @ concat (map skb_bytes frag_list)"

text \<open>
  The lengths agree: the linear part is inside its block, \<open>data_len\<close> is what the
  fragments hold, \<open>len\<close> the whole. Nothing is assumed of the memory behind \<open>tail\<close>.
\<close>

fun skb_wf :: "skb \<Rightarrow> bool" where
  "skb_wf (Skb mem data slen data_len frags frag_list) =
     (data_len \<le> slen \<and> slen < 2 ^ 31 \<and> data + (slen - data_len) \<le> length mem \<and>
      data_len = length (concat frags @ concat (map skb_bytes frag_list)) \<and>
      (\<forall>s \<in> set frag_list. skb_wf s))"

lemma skb_wf_len: "skb_wf s \<Longrightarrow> length (skb_bytes s) = sk_len s"
  by (cases s) auto

lemma skb_wf_headlen: "skb_wf s \<Longrightarrow> length (skb_linear s) = skb_headlen s"
  by (cases s) (auto simp: skb_headlen_def)

lemma skb_linear_prefix: "skb_wf s \<Longrightarrow> take (skb_headlen s) (skb_bytes s) = skb_linear s"
  by (cases s) (auto simp: skb_headlen_def)

text \<open>
  A copy loop over chunks of one byte sequence. \<open>all\<close> is the whole sequence, \<open>rest\<close> what
  the chunks not yet visited hold.
\<close>

definition copying :: "u8 list \<Rightarrow> int \<Rightarrow> int \<Rightarrow> u8 list \<Rightarrow> copy_state \<Rightarrow> bool" where
  "copying all off n rest st \<longleftrightarrow>
     (case st of (start, offset, len, to) \<Rightarrow>
        0 \<le> start \<and> start \<le> offset \<and> 0 < len \<and> offset + len = off + n \<and> 0 \<le> off \<and>
        off \<le> offset \<and> to = take (nat (offset - off)) (drop (nat off) all) \<and>
        rest = drop (nat start) all \<and> off + n \<le> int (length all))"

definition copied :: "u8 list \<Rightarrow> int \<Rightarrow> int \<Rightarrow> u8 list" where
  "copied all off n = take (nat n) (drop (nat off) all)"

text \<open>One chunk: what is copied out of it, and the state after it.\<close>

lemma copying_chunk:
  assumes "copying all off n (chunk @ rest) (start, offset, len, to)"
    and "0 < start + int (length chunk) - offset"
  defines "copy \<equiv> (if len < start + int (length chunk) - offset then len
                   else start + int (length chunk) - offset)"
  shows "mem_read chunk (nat (offset - start)) (nat copy) =
      Inr (take (nat copy) (drop (nat (offset - start)) chunk))"
    and "len - copy = 0 \<Longrightarrow> to @ take (nat copy) (drop (nat (offset - start)) chunk) = copied all off n"
    and "len - copy \<noteq> 0 \<Longrightarrow> copying all off n rest
      (start + int (length chunk), offset + copy, len - copy,
       to @ take (nat copy) (drop (nat (offset - start)) chunk))"
proof -
  from assms(1) have a: "0 \<le> start" "start \<le> offset" "0 < len" "offset + len = off + n" "0 \<le> off"
    "off \<le> offset" "to = take (nat (offset - off)) (drop (nat off) all)"
    "chunk @ rest = drop (nat start) all" "off + n \<le> int (length all)"
    by (auto simp: copying_def)
  have copy: "0 < copy" "copy \<le> len" "copy \<le> start + int (length chunk) - offset"
    using a(3) assms(2) by (auto simp: copy_def)
  show "mem_read chunk (nat (offset - start)) (nat copy) =
      Inr (take (nat copy) (drop (nat (offset - start)) chunk))"
    using copy(1,3) a(2) by (simp add: mem_read_def)
  have "take (nat copy) (drop (nat (offset - start)) chunk) =
      take (nat copy) (drop (nat (offset - start)) (chunk @ rest))"
    using copy(1,3) a(2) by (simp add: take_drop)
  also have "\<dots> = take (nat copy) (drop (nat offset) all)"
    unfolding a(8) using a(1,2) by (simp add: nat_diff_distrib)
  finally have bs: "take (nat copy) (drop (nat (offset - start)) chunk) =
      take (nat copy) (drop (nat offset) all)" .
  have "nat offset = nat (offset - off) + nat off" using a(5,6) by (simp flip: nat_add_distrib)
  then have "drop (nat offset) all = drop (nat (offset - off)) (drop (nat off) all)" by simp
  with bs a(7) have to: "to @ take (nat copy) (drop (nat (offset - start)) chunk) =
      take (nat (offset - off) + nat copy) (drop (nat off) all)"
    by (simp add: take_add)
  show "len - copy = 0 \<Longrightarrow>
      to @ take (nat copy) (drop (nat (offset - start)) chunk) = copied all off n"
  proof -
    assume "len - copy = 0"
    then have "nat n = nat (offset - off) + nat copy"
      using a(3,4,6) copy(1) by (simp flip: nat_add_distrib)
    with to show ?thesis by (simp add: copied_def)
  qed
  assume ne: "len - copy \<noteq> 0"
  have "nat (offset + copy - off) = nat (offset - off) + nat copy"
    using a(6) copy(1) by (simp flip: nat_add_distrib)
  moreover have "rest = drop (nat (start + int (length chunk))) all"
    using a(1,8) by (metis append_eq_conv_conj drop_drop nat_add_distrib nat_int of_nat_0_le_iff add.commute)
  moreover have "copy = start + int (length chunk) - offset" using ne copy(2) by (auto simp: copy_def)
  ultimately show "copying all off n rest
      (start + int (length chunk), offset + copy, len - copy,
       to @ take (nat copy) (drop (nat (offset - start)) chunk))"
    using a copy ne to by (auto simp: copying_def)
qed

lemma copying_skip:
  assumes "copying all off n (chunk @ rest) (start, offset, len, to)"
    and "\<not> 0 < start + int (length chunk) - offset"
  shows "copying all off n rest (start + int (length chunk), offset, len, to)"
proof -
  from assms(1) have "chunk @ rest = drop (nat start) all" "0 \<le> start" by (auto simp: copying_def)
  then have "rest = drop (nat (start + int (length chunk))) all"
    by (metis append_eq_conv_conj drop_drop nat_add_distrib nat_int of_nat_0_le_iff add.commute)
  with assms show ?thesis by (auto simp: copying_def)
qed

text \<open>What a loop over chunks returns: all the bytes, or a state with nothing lost.\<close>

definition loop_ok :: "u8 list \<Rightarrow> int \<Rightarrow> int \<Rightarrow> u8 list \<Rightarrow> (u8 list + copy_state) result \<Rightarrow> bool" where
  "loop_ok all off n rest r \<longleftrightarrow>
     r = Inr (Inl (copied all off n)) \<or> (\<exists>st. r = Inr (Inr st) \<and> copying all off n rest st)"

lemma copy_frags_ok:
  "copying all off n (concat fs @ rest) st \<Longrightarrow> loop_ok all off n rest (copy_frags fs st)"
proof (induction fs st rule: copy_frags.induct)
  case (1 st)
  then show ?case by (simp add: loop_ok_def)
next
  case (2 f fs start offset len to)
  then have c: "copying all off n (f @ (concat fs @ rest)) (start, offset, len, to)" by simp
  show ?case
  proof (cases "0 < start + int (length f) - offset")
    case True
    note ch = copying_chunk [OF c True]
    show ?thesis
    proof (cases "len - (if len < start + int (length f) - offset then len
        else start + int (length f) - offset) = 0")
      case z: True
      with ch True show ?thesis by (simp add: loop_ok_def Let_def)
    next
      case nz: False
      from "2.IH"(1) [OF refl refl True refl ch(1) nz ch(3) [OF nz]] ch(1) True nz
      show ?thesis by (simp add: Let_def)
    qed
  next
    case False
    from "2.IH"(2) [OF refl refl False copying_skip [OF c False]] False
    show ?thesis by (simp add: Let_def)
  qed
qed


lemma copying_exhausted: "\<not> copying all off n [] st"
  by (auto simp: copying_def)

lemma skb_copy_bits_short:
  "int (sk_len s) < off + n \<Longrightarrow> skb_copy_bits s off n = Inl (Err EFAULT)"
  by (cases s) auto

lemma copy_header_ok:
  assumes wf: "skb_wf (Skb mem data slen dlen frags fl)" and n: "0 \<le> off" "0 < n" "off + n \<le> int slen"
  defines "start \<equiv> int (slen - dlen)"
  defines "copy \<equiv> (if n < start - off then n else start - off)"
  shows "0 < start - off \<Longrightarrow> mem_read mem (nat (int data + off)) (nat copy) =
      Inr (take (nat copy) (drop (nat off) (skb_bytes (Skb mem data slen dlen frags fl))))"
    and "0 < start - off \<Longrightarrow> n - copy = 0 \<Longrightarrow> n = copy"
    and "0 < start - off \<Longrightarrow> n - copy \<noteq> 0 \<Longrightarrow>
      copying (skb_bytes (Skb mem data slen dlen frags fl)) off n (concat frags @ concat (map skb_bytes fl))
        (start, off + copy, n - copy,
         take (nat copy) (drop (nat off) (skb_bytes (Skb mem data slen dlen frags fl))))"
    and "\<not> 0 < start - off \<Longrightarrow>
      copying (skb_bytes (Skb mem data slen dlen frags fl)) off n (concat frags @ concat (map skb_bytes fl))
        (start, off, n, [])"
proof -
  let ?all = "skb_bytes (Skb mem data slen dlen frags fl)"
  have len: "length ?all = slen" using skb_wf_len [OF wf] by (simp del: skb_bytes.simps)
  define lin where "lin = take (slen - dlen) (drop data mem)"
  have lin: "int (length lin) = start" "?all = lin @ concat frags @ concat (map skb_bytes fl)"
    using wf by (auto simp: lin_def start_def)
  have tail: "drop (nat start) ?all = concat frags @ concat (map skb_bytes fl)"
    unfolding lin(2) using lin(1) by auto
  show "mem_read mem (nat (int data + off)) (nat copy) = Inr (take (nat copy) (drop (nat off) ?all))"
    if pos: "0 < start - off"
  proof -
    have c: "copy \<le> start - off" "0 < copy" using pos n(2) by (auto simp: copy_def)
    have u: "nat off + nat copy \<le> length lin" using c n(1) lin(1) by linarith
    have "length lin \<le> slen - dlen" by (simp add: lin_def)
    with u have u3: "nat off + nat copy \<le> slen - dlen" by linarith
    then have u2: "min (nat copy) (slen - dlen - nat off) = nat copy" by linarith
    have "take (nat copy) (drop (nat off) ?all) = take (nat copy) (drop (nat off) lin)"
      unfolding lin(2) using u by simp
    also have "\<dots> = take (nat copy) (drop (data + nat off) mem)"
      using u2 by (simp add: lin_def drop_take add.commute)
    finally have e: "take (nat copy) (drop (nat off) ?all) = take (nat copy) (drop (data + nat off) mem)" .
    have "data + (slen - dlen) \<le> length mem" using wf unfolding skb_wf.simps by blast
    with u3 have "data + nat off + nat copy \<le> length mem" by linarith
    then show ?thesis unfolding e using n(1) by (simp add: mem_read_def nat_add_distrib)
  qed
  show "n = copy" if "0 < start - off" "n - copy = 0" using that by simp
  show "copying ?all off n (concat frags @ concat (map skb_bytes fl))
      (start, off + copy, n - copy, take (nat copy) (drop (nat off) ?all))"
    if "0 < start - off" "n - copy \<noteq> 0"
    using that n len tail
    by (auto simp: copying_def copy_def start_def simp del: skb_bytes.simps split: if_splits)
  show "copying ?all off n (concat frags @ concat (map skb_bytes fl)) (start, off, n, [])"
    if "\<not> 0 < start - off"
    using that n len tail by (auto simp: copying_def start_def simp del: skb_bytes.simps)
qed

lemma copy_frag_list_ok:
  assumes "\<forall>s \<in> set ss. skb_wf s \<and> (\<forall>i m. 0 \<le> i \<longrightarrow> 0 < m \<longrightarrow> i + m \<le> int (sk_len s) \<longrightarrow>
      skb_copy_bits s i m = Inr (copied (skb_bytes s) i m))"
    and "copying all off n (concat (map skb_bytes ss) @ rest) st"
  shows "loop_ok all off n rest (copy_frag_list ss st)"
  using assms
proof (induction ss arbitrary: st)
  case Nil
  then show ?case by (simp add: loop_ok_def)
next
  case (Cons s ss)
  obtain start offset len to where st: "st = (start, offset, len, to)" by (cases st)
  from Cons.prems(1) have s: "length (skb_bytes s) = sk_len s" by (simp add: skb_wf_len)
  from Cons.prems(2) st have c: "copying all off n (skb_bytes s @ (concat (map skb_bytes ss) @ rest))
      (start, offset, len, to)" by simp
  then have pos: "0 < len" "start \<le> offset" by (auto simp: copying_def)
  show ?case
  proof (cases "0 < start + int (sk_len s) - offset")
    case True
    define copy where "copy = (if len < start + int (sk_len s) - offset then len
        else start + int (sk_len s) - offset)"
    note ch = copying_chunk [OF c, unfolded s, OF True, folded copy_def]
    have "skb_copy_bits s (offset - start) copy = Inr (copied (skb_bytes s) (offset - start) copy)"
      using Cons.prems(1) pos True by (auto simp: copy_def)
    then have cb: "skb_copy_bits s (offset - start) copy =
        Inr (take (nat copy) (drop (nat (offset - start)) (skb_bytes s)))"
      by (simp add: copied_def)
    have step: "copy_frag_list (s # ss) st =
       (if len - copy = 0 then Inr (Inl (to @ take (nat copy) (drop (nat (offset - start)) (skb_bytes s))))
        else copy_frag_list ss (start + int (sk_len s), offset + copy, len - copy,
               to @ take (nat copy) (drop (nat (offset - start)) (skb_bytes s))))"
      using True cb by (simp add: st Let_def flip: copy_def)
    show ?thesis
    proof (cases "len - copy = 0")
      case True
      with step ch(2) show ?thesis by (simp add: loop_ok_def)
    next
      case False
      with step Cons.IH [OF _ ch(3)] Cons.prems(1) show ?thesis by simp
    qed
  next
    case False
    from copying_skip [OF c, unfolded s, OF False]
    have "loop_ok all off n rest (copy_frag_list ss (start + int (sk_len s), offset, len, to))"
      using Cons.prems(1) by (intro Cons.IH) auto
    with False show ?thesis by (simp add: st Let_def)
  qed
qed

text \<open>
  On a well-formed buffer, whatever its layout, \<open>skb_copy_bits\<close> copies the slice of the
  byte sequence, or reports \<open>-EFAULT\<close> exactly when the slice is not inside it.
\<close>

lemma skb_copy_bits_ok:
  "skb_wf s \<Longrightarrow> 0 \<le> off \<Longrightarrow> 0 < n \<Longrightarrow> off + n \<le> int (sk_len s) \<Longrightarrow>
   skb_copy_bits s off n = Inr (copied (skb_bytes s) off n)"
proof (induction s arbitrary: off n)
  case (Skb mem data slen dlen frags fl)
  let ?s = "Skb mem data slen dlen frags fl"
  define start where "start = int (slen - dlen)"
  define copy where "copy = (if n < start - off then n else start - off)"
  have len: "off + n \<le> int slen" using Skb.prems(4) by simp
  have elems: "\<forall>s \<in> set fl. skb_wf s \<and> (\<forall>i m. 0 \<le> i \<longrightarrow> 0 < m \<longrightarrow> i + m \<le> int (sk_len s) \<longrightarrow>
      skb_copy_bits s i m = Inr (copied (skb_bytes s) i m))"
    using Skb.IH Skb.prems(1) by simp
  define all where "all = skb_bytes ?s"
  define T where "T = (\<lambda>st. case copy_frags frags st of
      Inl e \<Rightarrow> Inl e
    | Inr (Inl bs) \<Rightarrow> Inr bs
    | Inr (Inr st) \<Rightarrow>
        (case copy_frag_list fl st of
           Inl e \<Rightarrow> Inl e
         | Inr (Inl bs) \<Rightarrow> Inr bs
         | Inr (Inr (start, offset, len, to)) \<Rightarrow> if len = 0 then Inr to else Inl (Err EFAULT)))"
  have T: "T st = Inr (copied all off n)"
    if "copying all off n (concat frags @ concat (map skb_bytes fl)) st" for st
    using copy_frags_ok [OF that] copy_frag_list_ok [OF elems, of all off n "[]"]
    by (fastforce simp: loop_ok_def copying_exhausted T_def)
  have step: "skb_copy_bits ?s off n =
     (if 0 < start - off then
        (case mem_read mem (nat (int data + off)) (nat copy) of
           Inl e \<Rightarrow> Inl e
         | Inr bs \<Rightarrow> if n - copy = 0 then Inr bs else T (start, off + copy, n - copy, bs))
      else T (start, off, n, []))"
    using len unfolding skb_copy_bits.simps Let_def start_def [symmetric] T_def
    unfolding copy_def [symmetric] by (simp split: sum.split)
  note H = copy_header_ok [OF Skb.prems(1,2,3) len, folded start_def, folded copy_def all_def]
  consider "0 < start - off" "n - copy = 0" | "0 < start - off" "n - copy \<noteq> 0" | "\<not> 0 < start - off"
    by blast
  then show ?case
  proof cases
    case 1
    then have "copied all off n = take (nat copy) (drop (nat off) all)" by (simp add: copied_def)
    with 1 step H(1) show ?thesis
      by (simp add: all_def del: skb_copy_bits.simps skb_bytes.simps)
  next
    case 2
    with step H(1) T [OF H(3)] show ?thesis
      by (simp add: all_def del: skb_copy_bits.simps skb_bytes.simps)
  next
    case 3
    with step T [OF H(4)] show ?thesis
      by (simp add: all_def del: skb_copy_bits.simps skb_bytes.simps)
  qed
qed

text \<open>
  \<open>skb_header_pointer\<close> gives the same slice whether it points into the linear part or
  copies; outside the buffer it is \<open>NULL\<close>, and it never leaves the buffer's memory.
\<close>

lemma mem_read_linear:
  assumes "skb_wf s" and "0 \<le> k" and "0 < n" and "k + n \<le> int (skb_headlen s)"
  shows "mem_read (sk_mem s) (nat (int (sk_data s) + k)) (nat n) = Inr (copied (skb_bytes s) k n)"
proof -
  obtain mem data slen dlen frags fl where s: "s = Skb mem data slen dlen frags fl" by (cases s)
  have h: "k + n \<le> int (slen - dlen)" using assms(4) by (simp add: s skb_headlen_def)
  then have c: "(if n < int (slen - dlen) - k then n else int (slen - dlen) - k) = n"
    and le: "k + n \<le> int slen" and pos: "0 < int (slen - dlen) - k" using assms(3) by auto
  from copy_header_ok(1) [OF assms(1)[unfolded s] assms(2,3) le pos] show ?thesis
    unfolding c by (simp add: s copied_def del: skb_bytes.simps)
qed

lemma skb_header_pointer_ok:
  assumes wf: "skb_wf s" and k: "0 \<le> k" "0 < n"
  shows "skb_header_pointer s k n =
    Inr (if k + n \<le> int (sk_len s) then Some (copied (skb_bytes s) k n) else None)"
proof (cases "n \<le> int (skb_headlen s) - k")
  case True
  moreover have "skb_headlen s \<le> sk_len s" by (simp add: skb_headlen_def)
  ultimately show ?thesis
    using mem_read_linear [OF wf k] by (simp add: skb_header_pointer_def)
next
  case False
  then show ?thesis
    using skb_copy_bits_ok [OF wf k] skb_copy_bits_short [of s k n]
    by (auto simp: skb_header_pointer_def not_le)
qed

end
