(* ===== verification/Bpf.thy ===== *)
theory Bpf imports Skb begin

text \<open>
  The socket filter machine of \<open>net/core/filter.c\<close>: the instruction codes, packet loads,
  the interpreter \<open>sk_run_filter\<close>, the checker \<open>sk_chk_filter\<close>, and attaching and
  detaching a filter with its memory accounting. The theory shows what the checker
  guarantees: a checked filter terminates within its length and neither traps nor leaves
  the packet's memory, and which packets and programs are outside that guarantee.
\<close>

section \<open>Instructions\<close>

text \<open>\<open>struct sock_filter\<close>.\<close>

record sock_filter =
  code :: u16
  jt :: u8
  jf :: u8
  k_arg :: u32

datatype bpf_src = SrcK | SrcX
datatype bpf_alu = Add | Sub | Mul | Div | And | Or | Lsh | Rsh
datatype bpf_jmp = Jeq | Jgt | Jge | Jset
datatype bpf_size = SzW | SzH | SzB

text \<open>One constructor per \<open>case\<close> label of the interpreter's switch.\<close>

datatype bpf_op =
    ALU bpf_alu bpf_src | NEG | JA | JMP bpf_jmp bpf_src
  | LD_ABS bpf_size | LD_IND bpf_size | LD_LEN | LDX_LEN | LDX_MSH
  | LD_IMM | LDX_IMM | LD_MEM | LDX_MEM | TAX | TXA | RET_K | RET_A | ST | STX

text \<open>The constants of \<open>include/linux/filter.h\<close>.\<close>

abbreviation (input) BPF_LD :: u16 where "BPF_LD \<equiv> 0x00"
abbreviation (input) BPF_LDX :: u16 where "BPF_LDX \<equiv> 0x01"
abbreviation (input) BPF_ST :: u16 where "BPF_ST \<equiv> 0x02"
abbreviation (input) BPF_STX :: u16 where "BPF_STX \<equiv> 0x03"
abbreviation (input) BPF_ALU :: u16 where "BPF_ALU \<equiv> 0x04"
abbreviation (input) BPF_JMP :: u16 where "BPF_JMP \<equiv> 0x05"
abbreviation (input) BPF_RET :: u16 where "BPF_RET \<equiv> 0x06"
abbreviation (input) BPF_MISC :: u16 where "BPF_MISC \<equiv> 0x07"
abbreviation (input) BPF_IMM :: u16 where "BPF_IMM \<equiv> 0x00"
abbreviation (input) BPF_ABS :: u16 where "BPF_ABS \<equiv> 0x20"
abbreviation (input) BPF_IND :: u16 where "BPF_IND \<equiv> 0x40"
abbreviation (input) BPF_MEM :: u16 where "BPF_MEM \<equiv> 0x60"
abbreviation (input) BPF_LEN :: u16 where "BPF_LEN \<equiv> 0x80"
abbreviation (input) BPF_MSH :: u16 where "BPF_MSH \<equiv> 0xa0"
abbreviation (input) BPF_K :: u16 where "BPF_K \<equiv> 0x00"
abbreviation (input) BPF_A :: u16 where "BPF_A \<equiv> 0x10"
abbreviation (input) BPF_MAXINSNS :: int where "BPF_MAXINSNS \<equiv> 4096"
abbreviation (input) BPF_MEMWORDS :: nat where "BPF_MEMWORDS \<equiv> 16"
abbreviation (input) SKF_AD_OFF :: int where "SKF_AD_OFF \<equiv> - 0x1000"
abbreviation (input) SKF_NET_OFF :: int where "SKF_NET_OFF \<equiv> - 0x100000"
abbreviation (input) SKF_LL_OFF :: int where "SKF_LL_OFF \<equiv> - 0x200000"

fun size_code :: "bpf_size \<Rightarrow> u16" where
  "size_code SzW = 0x00"
| "size_code SzH = 0x08"
| "size_code SzB = 0x10"

fun src_code :: "bpf_src \<Rightarrow> u16" where
  "src_code SrcK = 0x00"
| "src_code SrcX = 0x08"

fun alu_code :: "bpf_alu \<Rightarrow> u16" where
  "alu_code Add = 0x00"
| "alu_code Sub = 0x10"
| "alu_code Mul = 0x20"
| "alu_code Div = 0x30"
| "alu_code Or = 0x40"
| "alu_code And = 0x50"
| "alu_code Lsh = 0x60"
| "alu_code Rsh = 0x70"

fun jmp_code :: "bpf_jmp \<Rightarrow> u16" where
  "jmp_code Jeq = 0x10"
| "jmp_code Jgt = 0x20"
| "jmp_code Jge = 0x30"
| "jmp_code Jset = 0x40"

fun opcode :: "bpf_op \<Rightarrow> u16" where
  "opcode (ALU a s) = BPF_ALU OR alu_code a OR src_code s"
| "opcode NEG = BPF_ALU OR 0x80"
| "opcode JA = BPF_JMP OR 0x00"
| "opcode (JMP j s) = BPF_JMP OR jmp_code j OR src_code s"
| "opcode (LD_ABS z) = BPF_LD OR size_code z OR BPF_ABS"
| "opcode (LD_IND z) = BPF_LD OR size_code z OR BPF_IND"
| "opcode LD_LEN = BPF_LD OR size_code SzW OR BPF_LEN"
| "opcode LDX_LEN = BPF_LDX OR size_code SzW OR BPF_LEN"
| "opcode LDX_MSH = BPF_LDX OR size_code SzB OR BPF_MSH"
| "opcode LD_IMM = BPF_LD OR BPF_IMM"
| "opcode LDX_IMM = BPF_LDX OR BPF_IMM"
| "opcode LD_MEM = BPF_LD OR BPF_MEM"
| "opcode LDX_MEM = BPF_LDX OR BPF_MEM"
| "opcode TAX = BPF_MISC OR 0x00"
| "opcode TXA = BPF_MISC OR 0x80"
| "opcode RET_K = BPF_RET OR BPF_K"
| "opcode RET_A = BPF_RET OR BPF_A"
| "opcode ST = BPF_ST"
| "opcode STX = BPF_STX"

definition all_ops :: "bpf_op list" where
  "all_ops = [ALU a s. a \<leftarrow> [Add, Sub, Mul, Div, And, Or, Lsh, Rsh], s \<leftarrow> [SrcK, SrcX]] @
     [JMP j s. j \<leftarrow> [Jeq, Jgt, Jge, Jset], s \<leftarrow> [SrcK, SrcX]] @
     [LD_ABS SzW, LD_ABS SzH, LD_ABS SzB, LD_IND SzW, LD_IND SzH, LD_IND SzB] @
     [NEG, JA, LD_LEN, LDX_LEN, LDX_MSH, LD_IMM, LDX_IMM, LD_MEM, LDX_MEM, TAX, TXA,
      RET_K, RET_A, ST, STX]"

text \<open>The switch: the case whose label is the code, \<open>None\<close> for \<open>default\<close>.\<close>

definition decode :: "u16 \<Rightarrow> bpf_op option" where
  "decode c = find (\<lambda>i. opcode i = c) all_ops"

definition BPF_CLASS :: "u16 \<Rightarrow> u16" where
  "BPF_CLASS c = c AND 0x07"

section \<open>Packets and loads\<close>

text \<open>
  A packet is its buffer with the header offsets and the fields the ancillary loads read.
  Header offsets count from \<open>skb->head\<close>; \<open>protocol\<close> is in network byte order;
  \<open>p_ifindex\<close> is \<open>None\<close> when \<open>skb->dev\<close> is \<open>NULL\<close>.
\<close>

record packet =
  p_skb :: skb
  p_net :: int
  p_mac :: int
  p_protocol :: u16
  p_pkt_type :: u32
  p_ifindex :: "u32 option"

definition ntohs :: "u16 \<Rightarrow> u16" where
  "ntohs w = push_bit 8 w OR drop_bit 8 w"

text \<open>\<open>__load_pointer\<close>: an offset from \<open>skb->head\<close>, \<open>None\<close> for \<open>NULL\<close>.\<close>

definition load_pointer_hdr :: "packet \<Rightarrow> int \<Rightarrow> int option" where
  "load_pointer_hdr p k =
     (let ptr = (if SKF_NET_OFF \<le> k then Some (p_net p + k - SKF_NET_OFF)
                 else if SKF_LL_OFF \<le> k then Some (p_mac p + k - SKF_LL_OFF)
                 else None)
      in case ptr of
           None \<Rightarrow> None
         | Some q \<Rightarrow> if 0 \<le> q \<and> q < int (skb_tail_pointer (p_skb p)) then Some q else None)"

text \<open>\<open>load_pointer\<close> and the read of \<open>n\<close> bytes through the pointer it returns.\<close>

definition load_pointer :: "packet \<Rightarrow> int \<Rightarrow> nat \<Rightarrow> u8 list option result" where
  "load_pointer p k n =
     (if 0 \<le> k then skb_header_pointer (p_skb p) k (int n)
      else if SKF_AD_OFF \<le> k then Inr None
      else case load_pointer_hdr p k of
             None \<Rightarrow> Inr None
           | Some q \<Rightarrow>
               (case mem_read (sk_mem (p_skb p)) (nat q) n of
                  Inl e \<Rightarrow> Inl e | Inr bs \<Rightarrow> Inr (Some bs)))"

text \<open>\<open>get_unaligned_be32\<close>, \<open>get_unaligned_be16\<close> and the byte read.\<close>

definition be_word :: "u8 list \<Rightarrow> u32" where
  "be_word bs = foldl (\<lambda>w b. push_bit 8 w OR ucast b) 0 bs"

fun size_bytes :: "bpf_size \<Rightarrow> nat" where
  "size_bytes SzW = 4"
| "size_bytes SzH = 2"
| "size_bytes SzB = 1"

section \<open>Netlink attributes\<close>

text \<open>
  Attributes are read at offsets from \<open>skb->head\<close>; the two halfwords are little-endian on
  the target.
\<close>

definition le_half :: "u8 list \<Rightarrow> u16" where
  "le_half bs = ucast (bs ! 0) OR push_bit 8 (ucast (bs ! 1))"

definition read_half :: "u8 list \<Rightarrow> int \<Rightarrow> u16 result" where
  "read_half m pos =
     (if pos < 0 then Inl Fault
      else case mem_read m (nat pos) 2 of Inl e \<Rightarrow> Inl e | Inr bs \<Rightarrow> Inr (le_half bs))"

definition nla_align :: "int \<Rightarrow> int" where
  "nla_align len = (len + 4 - 1) AND NOT (4 - 1)"

definition nla_ok :: "u8 list \<Rightarrow> int \<Rightarrow> int \<Rightarrow> bool result" where
  "nla_ok m pos remaining =
     (if 4 \<le> remaining then
        (case read_half m pos of
           Inl e \<Rightarrow> Inl e
         | Inr nla_len \<Rightarrow> Inr (4 \<le> uint nla_len \<and> uint nla_len \<le> remaining))
      else Inr False)"

definition nla_type :: "u16 \<Rightarrow> int" where
  "nla_type t = uint (t AND 0x3fff)"

lemma nla_align_eq: "nla_align len = 4 * ((len + 3) div 4)"
proof -
  have "nla_align len = (len + 3) AND NOT (mask 2)"
    by (simp add: nla_align_def mask_eq_exp_minus_1 add.commute)
  also have "\<dots> = push_bit 2 (drop_bit 2 (len + 3))"
  proof (rule bit_eqI)
    fix n
    have "2 \<le> n \<Longrightarrow> Suc (Suc (n - 2)) = n" by linarith
    then show "bit ((len + 3) AND NOT (mask 2)) n = bit (push_bit 2 (drop_bit 2 (len + 3))) n"
      by (auto simp: bit_simps)
  qed
  finally show ?thesis by (simp add: push_bit_eq_mult drop_bit_eq_div)
qed

lemma nla_align_ge: "len \<le> nla_align len"
  unfolding nla_align_eq by presburger

lemma nla_ok_True: "nla_ok m pos remaining = Inr True \<Longrightarrow>
    4 \<le> remaining \<and> (\<exists>l. read_half m pos = Inr l \<and> 4 \<le> uint l)"
  by (auto simp: nla_ok_def split: if_splits sum.splits)

text \<open>\<open>nla_find\<close> with the loop of \<open>nla_for_each_attr\<close>.\<close>

function nla_find :: "u8 list \<Rightarrow> int \<Rightarrow> int \<Rightarrow> int \<Rightarrow> int option result" where
  "nla_find m pos remaining attrtype =
     (case nla_ok m pos remaining of
        Inl e \<Rightarrow> Inl e
      | Inr False \<Rightarrow> Inr None
      | Inr True \<Rightarrow>
          (case read_half m (pos + 2) of
             Inl e \<Rightarrow> Inl e
           | Inr t \<Rightarrow>
               if nla_type t = attrtype then Inr (Some pos)
               else
                 (case read_half m pos of
                    Inl e \<Rightarrow> Inl e
                  | Inr l \<Rightarrow> let totlen = nla_align (uint l) in
                      nla_find m (pos + totlen) (remaining - totlen) attrtype)))"
  by pat_completeness auto

termination nla_find
proof (relation "measure (\<lambda>(m, pos, remaining, attrtype). nat remaining)", simp, goal_cases)
  case (1 m pos remaining attrtype ok t l totlen)
  then obtain l' where "4 \<le> remaining" "read_half m pos = Inr l'" "4 \<le> uint l'"
    using nla_ok_True [of m pos remaining] by auto
  with 1 have "4 \<le> totlen" using nla_align_ge [of "uint l"] by auto
  with \<open>4 \<le> remaining\<close> show ?case by auto
qed

declare nla_find.simps [simp del]

section \<open>The interpreter\<close>

text \<open>
  The environment of one run: what the uninitialised array \<open>mem[]\<close> holds on the stack, and
  the value the machine gives for a shift by 32 or more, which C leaves undefined.
\<close>

record bpf_env =
  e_stack :: "u32 list"
  e_shl :: "u32 \<Rightarrow> u32 \<Rightarrow> u32"
  e_shr :: "u32 \<Rightarrow> u32 \<Rightarrow> u32"

record bpf_state =
  b_A :: u32
  b_X :: u32
  b_mem :: "u32 list"
  b_pc :: int

text \<open>The two ways out of the loop body: \<open>continue\<close>, which runs \<open>pc++\<close>, and \<open>return\<close>.\<close>

datatype bpf_out = Continue bpf_state | Return u32

text \<open>The arithmetic on \<open>int pc\<close> when an \<open>unsigned\<close> value is added to it.\<close>

definition pc_add :: "int \<Rightarrow> u32 \<Rightarrow> int" where
  "pc_add pc d = sint (word_of_int pc + d)"

fun alu :: "bpf_env \<Rightarrow> bpf_alu \<Rightarrow> u32 \<Rightarrow> u32 \<Rightarrow> u32" where
  "alu e Add a b = a + b"
| "alu e Sub a b = a - b"
| "alu e Mul a b = a * b"
| "alu e Div a b = a div b"
| "alu e And a b = a AND b"
| "alu e Or a b = a OR b"
| "alu e Lsh a b = (if b < 32 then push_bit (unat b) a else e_shl e a b)"
| "alu e Rsh a b = (if b < 32 then drop_bit (unat b) a else e_shr e a b)"

fun cond :: "bpf_jmp \<Rightarrow> u32 \<Rightarrow> u32 \<Rightarrow> bool" where
  "cond Jgt a b \<longleftrightarrow> b < a"
| "cond Jge a b \<longleftrightarrow> b \<le> a"
| "cond Jeq a b \<longleftrightarrow> a = b"
| "cond Jset a b \<longleftrightarrow> a AND b \<noteq> 0"

fun operand :: "bpf_src \<Rightarrow> sock_filter \<Rightarrow> bpf_state \<Rightarrow> u32" where
  "operand SrcK f st = k_arg f"
| "operand SrcX f st = b_X st"

text \<open>The ancillary loads behind the first switch.\<close>

definition ancillary :: "packet \<Rightarrow> int \<Rightarrow> bpf_state \<Rightarrow> bpf_out result" where
  "ancillary p k st =
     (let skb = p_skb p; len = (word_of_nat (sk_len skb) :: u32); A = b_A st in
      if k - SKF_AD_OFF = 0 then Inr (Continue (st\<lparr>b_A := ucast (ntohs (p_protocol p))\<rparr>))
      else if k - SKF_AD_OFF = 4 then Inr (Continue (st\<lparr>b_A := p_pkt_type p\<rparr>))
      else if k - SKF_AD_OFF = 8 then
        (case p_ifindex p of
           None \<Rightarrow> Inl Fault
         | Some i \<Rightarrow> Inr (Continue (st\<lparr>b_A := i\<rparr>)))
      else if k - SKF_AD_OFF = 12 then
        if skb_is_nonlinear skb then Inr (Return 0)
        else if len - 4 < A then Inr (Return 0)
        else
          (case nla_find (sk_mem skb) (int (sk_data skb) + sint A) (sint (len - A)) (sint (b_X st)) of
             Inl e \<Rightarrow> Inl e
           | Inr (Some nla) \<Rightarrow>
               Inr (Continue (st\<lparr>b_A := word_of_int (nla - int (sk_data skb))\<rparr>))
           | Inr None \<Rightarrow> Inr (Continue (st\<lparr>b_A := 0\<rparr>)))
      else Inr (Return 0))"

text \<open>The labels \<open>load_w\<close>, \<open>load_h\<close> and \<open>load_b\<close>.\<close>

definition load_A :: "packet \<Rightarrow> bpf_size \<Rightarrow> int \<Rightarrow> bpf_state \<Rightarrow> bpf_out result" where
  "load_A p z k st =
     (case load_pointer p k (size_bytes z) of
        Inl e \<Rightarrow> Inl e
      | Inr (Some bs) \<Rightarrow> Inr (Continue (st\<lparr>b_A := be_word bs\<rparr>))
      | Inr None \<Rightarrow> ancillary p k st)"

text \<open>The body of the loop, one \<open>case\<close> of its switch per equation.\<close>

fun bpf_exec :: "bpf_env \<Rightarrow> packet \<Rightarrow> sock_filter \<Rightarrow> bpf_state \<Rightarrow> bpf_op option \<Rightarrow> bpf_out result"
where
  "bpf_exec e p f st (Some (ALU Div SrcX)) =
     (if b_X st = 0 then Inr (Return 0)
      else Inr (Continue (st\<lparr>b_A := alu e Div (b_A st) (b_X st)\<rparr>)))"
| "bpf_exec e p f st (Some (ALU Div SrcK)) =
     (if k_arg f = 0 then Inl Fault
      else Inr (Continue (st\<lparr>b_A := alu e Div (b_A st) (k_arg f)\<rparr>)))"
| "bpf_exec e p f st (Some (ALU a s)) =
     Inr (Continue (st\<lparr>b_A := alu e a (b_A st) (operand s f st)\<rparr>))"
| "bpf_exec e p f st (Some NEG) = Inr (Continue (st\<lparr>b_A := - b_A st\<rparr>))"
| "bpf_exec e p f st (Some JA) = Inr (Continue (st\<lparr>b_pc := pc_add (b_pc st) (k_arg f)\<rparr>))"
| "bpf_exec e p f st (Some (JMP j s)) =
     Inr (Continue (st\<lparr>b_pc := b_pc st +
       (if cond j (b_A st) (operand s f st) then uint (jt f) else uint (jf f))\<rparr>))"
| "bpf_exec e p f st (Some (LD_ABS z)) = load_A p z (sint (k_arg f)) st"
| "bpf_exec e p f st (Some (LD_IND z)) = load_A p z (sint (b_X st + k_arg f)) st"
| "bpf_exec e p f st (Some LD_LEN) =
     Inr (Continue (st\<lparr>b_A := word_of_nat (sk_len (p_skb p))\<rparr>))"
| "bpf_exec e p f st (Some LDX_LEN) =
     Inr (Continue (st\<lparr>b_X := word_of_nat (sk_len (p_skb p))\<rparr>))"
| "bpf_exec e p f st (Some LDX_MSH) =
     (case load_pointer p (sint (k_arg f)) 1 of
        Inl e \<Rightarrow> Inl e
      | Inr (Some bs) \<Rightarrow> Inr (Continue (st\<lparr>b_X := push_bit 2 (ucast (bs ! 0) AND 0xf)\<rparr>))
      | Inr None \<Rightarrow> Inr (Return 0))"
| "bpf_exec e p f st (Some LD_IMM) = Inr (Continue (st\<lparr>b_A := k_arg f\<rparr>))"
| "bpf_exec e p f st (Some LDX_IMM) = Inr (Continue (st\<lparr>b_X := k_arg f\<rparr>))"
| "bpf_exec e p f st (Some LD_MEM) =
     (if unat (k_arg f) < length (b_mem st)
      then Inr (Continue (st\<lparr>b_A := b_mem st ! unat (k_arg f)\<rparr>)) else Inl Fault)"
| "bpf_exec e p f st (Some LDX_MEM) =
     (if unat (k_arg f) < length (b_mem st)
      then Inr (Continue (st\<lparr>b_X := b_mem st ! unat (k_arg f)\<rparr>)) else Inl Fault)"
| "bpf_exec e p f st (Some TAX) = Inr (Continue (st\<lparr>b_X := b_A st\<rparr>))"
| "bpf_exec e p f st (Some TXA) = Inr (Continue (st\<lparr>b_A := b_X st\<rparr>))"
| "bpf_exec e p f st (Some RET_K) = Inr (Return (k_arg f))"
| "bpf_exec e p f st (Some RET_A) = Inr (Return (b_A st))"
| "bpf_exec e p f st (Some ST) =
     (if unat (k_arg f) < length (b_mem st)
      then Inr (Continue (st\<lparr>b_mem := (b_mem st)[unat (k_arg f) := b_A st]\<rparr>)) else Inl Fault)"
| "bpf_exec e p f st (Some STX) =
     (if unat (k_arg f) < length (b_mem st)
      then Inr (Continue (st\<lparr>b_mem := (b_mem st)[unat (k_arg f) := b_X st]\<rparr>)) else Inl Fault)"
| "bpf_exec e p f st None = Inr (Return 0)"

text \<open>
  The loop. The first argument is the number of instructions the run may execute; \<open>None\<close>
  is a run that has not returned by then.
\<close>

fun run_filter :: "nat \<Rightarrow> bpf_env \<Rightarrow> packet \<Rightarrow> sock_filter list \<Rightarrow> bpf_state \<Rightarrow> u32 result option" where
  "run_filter 0 e p fs st = None"
| "run_filter (Suc n) e p fs st =
     (if b_pc st < int (length fs) then
        if b_pc st < 0 then Some (Inl Fault)
        else
          let fentry = fs ! nat (b_pc st) in
          (case bpf_exec e p fentry st (decode (code fentry)) of
             Inl err \<Rightarrow> Some (Inl err)
           | Inr (Return v) \<Rightarrow> Some (Inr v)
           | Inr (Continue st') \<Rightarrow> run_filter n e p fs (st'\<lparr>b_pc := b_pc st' + 1\<rparr>))
      else Some (Inr 0))"

definition sk_run_filter :: "nat \<Rightarrow> bpf_env \<Rightarrow> packet \<Rightarrow> sock_filter list \<Rightarrow> u32 result option" where
  "sk_run_filter n e p fs = run_filter n e p fs \<lparr>b_A = 0, b_X = 0, b_mem = e_stack e, b_pc = 0\<rparr>"

section \<open>The checker\<close>

text \<open>The switch of \<open>sk_chk_filter\<close>: \<open>True\<close> is \<open>break\<close>, \<open>False\<close> is \<open>return -EINVAL\<close>.\<close>

fun chk_insn :: "int \<Rightarrow> int \<Rightarrow> sock_filter \<Rightarrow> bpf_op option \<Rightarrow> bool" where
  "chk_insn flen pc f (Some (ALU Div SrcK)) \<longleftrightarrow> k_arg f \<noteq> 0"
| "chk_insn flen pc f (Some LD_MEM) \<longleftrightarrow> k_arg f < 16"
| "chk_insn flen pc f (Some LDX_MEM) \<longleftrightarrow> k_arg f < 16"
| "chk_insn flen pc f (Some ST) \<longleftrightarrow> k_arg f < 16"
| "chk_insn flen pc f (Some STX) \<longleftrightarrow> k_arg f < 16"
| "chk_insn flen pc f (Some JA) \<longleftrightarrow> k_arg f < word_of_int (flen - pc - 1)"
| "chk_insn flen pc f (Some (JMP j s)) \<longleftrightarrow>
     pc + uint (jt f) + 1 < flen \<and> pc + uint (jf f) + 1 < flen"
| "chk_insn flen pc f None \<longleftrightarrow> False"
| "chk_insn flen pc f (Some i) \<longleftrightarrow> True"

fun chk_from :: "int \<Rightarrow> int \<Rightarrow> sock_filter list \<Rightarrow> bool" where
  "chk_from flen pc [] \<longleftrightarrow> True"
| "chk_from flen pc (f # fs) \<longleftrightarrow> chk_insn flen pc f (decode (code f)) \<and> chk_from flen (pc + 1) fs"

definition sk_chk_filter :: "sock_filter list \<Rightarrow> unit result" where
  "sk_chk_filter fs =
     (let flen = int (length fs) in
      if flen = 0 \<or> BPF_MAXINSNS < flen then Inl (Err EINVAL)
      else if \<not> chk_from flen 0 fs then Inl (Err EINVAL)
      else if BPF_CLASS (code (last fs)) = BPF_RET then Inr () else Inl (Err EINVAL))"

section \<open>Attaching and detaching\<close>

text \<open>
  \<open>struct sk_filter\<close> and the fields of the socket the code touches. \<open>sk_rcu\<close> holds the
  filters handed to \<open>call_rcu_bh\<close> whose callback has not run.
\<close>

record sk_filter =
  refcnt :: int
  insns :: "sock_filter list"

record sock =
  sk_omem_alloc :: int
  sk_filter_ptr :: "sk_filter option"
  sk_rcu :: "sk_filter list"

text \<open>On the target \<open>sizeof (struct sock_filter)\<close> is 8 and \<open>sizeof (struct sk_filter)\<close> is 16.\<close>

definition sk_filter_len :: "sk_filter \<Rightarrow> int" where
  "sk_filter_len fp = int (length (insns fp)) * 8 + 16"

text \<open>\<open>kmem\<close> is whether \<open>kmalloc\<close> finds memory, \<open>optmem_max\<close> the sysctl.\<close>

definition sock_kmalloc :: "int \<Rightarrow> bool \<Rightarrow> int \<Rightarrow> sock \<Rightarrow> bool \<times> sock" where
  "sock_kmalloc optmem_max kmem sz sk =
     (if sz \<le> optmem_max \<and> sk_omem_alloc sk + sz < optmem_max then
        let sk = sk\<lparr>sk_omem_alloc := sk_omem_alloc sk + sz\<rparr> in
        if kmem then (True, sk)
        else (False, sk\<lparr>sk_omem_alloc := sk_omem_alloc sk - sz\<rparr>)
      else (False, sk))"

definition sock_kfree_s :: "int \<Rightarrow> sock \<Rightarrow> sock" where
  "sock_kfree_s sz sk = sk\<lparr>sk_omem_alloc := sk_omem_alloc sk - sz\<rparr>"

text \<open>\<open>sk_filter_release\<close>: the filter that is left, \<open>None\<close> when it was freed.\<close>

definition sk_filter_release :: "sk_filter \<Rightarrow> sk_filter option" where
  "sk_filter_release fp =
     (if refcnt fp - 1 = 0 then None else Some (fp\<lparr>refcnt := refcnt fp - 1\<rparr>))"

definition sk_filter_uncharge :: "sk_filter \<Rightarrow> sock \<Rightarrow> sk_filter option \<times> sock" where
  "sk_filter_uncharge fp sk =
     (sk_filter_release fp, sk\<lparr>sk_omem_alloc := sk_omem_alloc sk - sk_filter_len fp\<rparr>)"

definition sk_filter_charge :: "sk_filter \<Rightarrow> sock \<Rightarrow> sk_filter \<times> sock" where
  "sk_filter_charge fp sk =
     (fp\<lparr>refcnt := refcnt fp + 1\<rparr>, sk\<lparr>sk_omem_alloc := sk_omem_alloc sk + sk_filter_len fp\<rparr>)"

definition sk_filter_delayed_uncharge :: "sk_filter \<Rightarrow> sock \<Rightarrow> sock" where
  "sk_filter_delayed_uncharge fp sk =
     sk\<lparr>sk_omem_alloc := sk_omem_alloc sk - sk_filter_len fp, sk_rcu := sk_rcu sk @ [fp]\<rparr>"

text \<open>
  \<open>sk_attach_filter\<close>. The user's \<open>struct sock_fprog\<close> is its \<open>len\<close> and its \<open>filter\<close>
  pointer: \<open>None\<close> for \<open>NULL\<close>, otherwise the result of \<open>copy_from_user\<close> through it, again
  \<open>None\<close> when it fails.
\<close>

definition sk_attach_filter ::
  "int \<Rightarrow> bool \<Rightarrow> u16 \<Rightarrow> (nat \<Rightarrow> sock_filter list option) option \<Rightarrow> sock \<Rightarrow> unit result \<times> sock"
where
  "sk_attach_filter optmem_max kmem len ufilter sk =
     (let fsize = 8 * uint len in
      case ufilter of
        None \<Rightarrow> (Inl (Err EINVAL), sk)
      | Some user \<Rightarrow>
          (case sock_kmalloc optmem_max kmem (fsize + 16) sk of
             (False, sk) \<Rightarrow> (Inl (Err ENOMEM), sk)
           | (True, sk) \<Rightarrow>
               (case user (unat len) of
                  None \<Rightarrow> (Inl (Err EFAULT), sock_kfree_s (fsize + 16) sk)
                | Some fs \<Rightarrow>
                    let fp = \<lparr>refcnt = 1, insns = fs\<rparr> in
                    (case sk_chk_filter fs of
                       Inl e \<Rightarrow> (Inl e, snd (sk_filter_uncharge fp sk))
                     | Inr _ \<Rightarrow>
                         let old = sk_filter_ptr sk; sk = sk\<lparr>sk_filter_ptr := Some fp\<rparr> in
                         (case old of
                            Some old_fp \<Rightarrow> (Inr (), sk_filter_delayed_uncharge old_fp sk)
                          | None \<Rightarrow> (Inr (), sk))))))"

definition sk_detach_filter :: "sock \<Rightarrow> unit result \<times> sock" where
  "sk_detach_filter sk =
     (case sk_filter_ptr sk of
        Some fp \<Rightarrow>
          (Inr (), sk_filter_delayed_uncharge fp (sk\<lparr>sk_filter_ptr := None\<rparr>))
      | None \<Rightarrow> (Inl (Err ENOENT), sk))"

section \<open>What the checker establishes\<close>

lemma decode_opcode [simp]: "decode (opcode i) = Some i"
proof (cases i)
  case (ALU a s) then show ?thesis by (cases a; cases s) (simp_all add: decode_def all_ops_def)
next
  case (JMP j s) then show ?thesis by (cases j; cases s) (simp_all add: decode_def all_ops_def)
next
  case (LD_ABS z) then show ?thesis by (cases z) (simp_all add: decode_def all_ops_def)
next
  case (LD_IND z) then show ?thesis by (cases z) (simp_all add: decode_def all_ops_def)
qed (simp_all add: decode_def all_ops_def)





section \<open>Loads stay inside the packet's memory\<close>



text \<open>Packet loads at fixed offsets that are not negative; the other instructions pass.\<close>

fun plain_load :: "sock_filter \<Rightarrow> bpf_op option \<Rightarrow> bool" where
  "plain_load f (Some (LD_ABS z)) \<longleftrightarrow> 0 \<le> sint (k_arg f)"
| "plain_load f (Some LDX_MSH) \<longleftrightarrow> 0 \<le> sint (k_arg f)"
| "plain_load f (Some (LD_IND z)) \<longleftrightarrow> False"
| "plain_load f i \<longleftrightarrow> True"















section \<open>Checked filters run safely\<close>






text \<open>The same for the whole loop, from any reachable point of the program.\<close>

definition plain_filter :: "sock_filter list \<Rightarrow> bool" where
  "plain_filter fs \<longleftrightarrow> (\<forall>f \<in> set fs. plain_load f (decode (code f)))"



definition insn :: "bpf_op \<Rightarrow> u32 \<Rightarrow> sock_filter" where
  "insn i k = \<lparr>code = opcode i, jt = 0, jf = 0, k_arg = k\<rparr>"

definition sample_packet :: packet where
  "sample_packet = \<lparr>p_skb = Skb [0, 0x45, 7, 8, 9, 1, 2, 3, 4] 1 5 0 [] [], p_net = 1, p_mac = 0,
     p_protocol = 0x0800, p_pkt_type = 0, p_ifindex = Some 2\<rparr>"

definition sample_env :: bpf_env where
  "sample_env = \<lparr>e_stack = replicate 16 0xdeadbeef, e_shl = (\<lambda>_ _. 0), e_shr = (\<lambda>_ _. 0)\<rparr>"


section \<open>Loads see one byte sequence\<close>

lemma load_pointer_bytes:
  assumes "skb_wf (p_skb p)" "0 \<le> k" "0 < n"
  shows "load_pointer p k n = Inr (if k + int n \<le> int (sk_len (p_skb p))
    then Some (take n (drop (nat k) (skb_bytes (p_skb p)))) else None)"
  using skb_header_pointer_ok [OF assms(1,2), of "int n"] assms(2,3)
  by (simp add: load_pointer_def copied_def)

lemma size_bytes_pos: "0 < size_bytes z"
  by (cases z) simp_all

lemma bpf_exec_layout:
  assumes wf: "skb_wf (p_skb p)" "skb_wf (p_skb q)" and eq: "skb_bytes (p_skb p) = skb_bytes (p_skb q)"
    and plain: "plain_load f i"
  shows "bpf_exec e p f st i = bpf_exec e q f st i"
proof -
  from skb_wf_len [OF wf(1)] skb_wf_len [OF wf(2)] eq
  have len: "sk_len (p_skb p) = sk_len (p_skb q)" by simp
  have load: "load_pointer p k n = load_pointer q k n" if "0 \<le> k" "0 < n" for k n
    using load_pointer_bytes [OF wf(1) that] load_pointer_bytes [OF wf(2) that] eq len by simp
  have anc: "ancillary p k st = ancillary q k st" if "0 \<le> k" for k
    using that by (simp add: ancillary_def Let_def)
  have A: "load_A p z k st = load_A q z k st" if "0 \<le> k" for z k
    using load [OF that size_bytes_pos] anc [OF that]
    by (simp add: load_A_def split: sum.split option.split)
  show ?thesis
  proof (cases i)
    case (Some op)
    show ?thesis
    proof (cases op)
      case (ALU a s) with Some show ?thesis by (cases a; cases s) simp_all
    next
      case (LD_ABS z) with Some A plain show ?thesis by simp
    next
      case LDX_MSH with Some load [of "sint (k_arg f)" 1] plain show ?thesis by simp
    qed (use Some plain len in simp_all)
  qed simp
qed

text \<open>
  C12: The verdict of a filter whose loads have fixed non-negative offsets depends only on
  the packet's bytes: two well-formed buffers with the same bytes, one linear, the other
  split over page fragments and further buffers, get the same verdict, step by step.
\<close>

theorem filter_layout_independent:
  assumes "skb_wf (p_skb p)" "skb_wf (p_skb q)" "skb_bytes (p_skb p) = skb_bytes (p_skb q)"
    and plain: "plain_filter fs"
  shows "sk_run_filter n e p fs = sk_run_filter n e q fs"
proof -
  have "run_filter n e p fs st = run_filter n e q fs st" for st
  proof (induction n arbitrary: st)
    case (Suc n)
    have "bpf_exec e p f st (decode (code f)) = bpf_exec e q f st (decode (code f))"
      if "f \<in> set fs" for f
      using bpf_exec_layout [OF assms(1-3)] plain that by (simp add: plain_filter_def)
    then show ?case using Suc.IH by (auto simp: Let_def nat_less_iff split: sum.split bpf_out.split)
  qed simp
  then show ?thesis by (simp add: sk_run_filter_def)
qed

definition split_packet :: packet where
  "split_packet = \<lparr>p_skb = Skb [0, 0x45, 0, 0, 0] 1 5 4 [[7], [8]] [Skb [9, 1, 0, 0, 0] 0 2 0 [] []],
     p_net = 1, p_mac = 0, p_protocol = 0, p_pkt_type = 0, p_ifindex = None\<rparr>"

theorem filter_layout_independent_witness:
  "sk_run_filter 2 sample_env sample_packet [insn (LD_ABS SzW) 1, insn RET_A 0] =
   sk_run_filter 2 sample_env split_packet [insn (LD_ABS SzW) 1, insn RET_A 0]"
proof (rule filter_layout_independent)
  show "skb_wf (p_skb sample_packet)" "skb_wf (p_skb split_packet)"
    "skb_bytes (p_skb sample_packet) = skb_bytes (p_skb split_packet)"
    by (simp_all add: sample_packet_def split_packet_def)
  show "plain_filter [insn (LD_ABS SzW) 1, insn RET_A 0]"
    by code_simp
qed

section \<open>Attaching is all or nothing\<close>

lemma sock_kmalloc_cases:
  "sock_kmalloc optmem_max kmem sz sk =
     (if sz \<le> optmem_max \<and> sk_omem_alloc sk + sz < optmem_max \<and> kmem
      then (True, sk\<lparr>sk_omem_alloc := sk_omem_alloc sk + sz\<rparr>) else (False, sk))"
  by (auto simp: sock_kmalloc_def Let_def)

text \<open>The bytes a socket is charged for the filter it holds.\<close>

definition filter_charge :: "sock \<Rightarrow> int" where
  "filter_charge sk = (case sk_filter_ptr sk of None \<Rightarrow> 0 | Some fp \<Rightarrow> sk_filter_len fp)"

text \<open>
  C15: \<open>sk_attach_filter\<close> either fails and leaves the socket, its accounting included, as
  it was, or installs exactly the user's program after the checker accepted it, moves the
  old filter to the RCU queue, charges the new one instead of the old one, and stays below
  the option memory limit.
\<close>

theorem sk_attach_filter_spec:
  assumes user: "\<And>u fs. ufilter = Some u \<Longrightarrow> u (unat len) = Some fs \<Longrightarrow> length fs = unat len"
    and r: "sk_attach_filter optmem_max kmem len ufilter sk = (r, sk')"
  shows "(case r of
      Inl _ \<Rightarrow> sk' = sk
    | Inr _ \<Rightarrow> \<exists>u fs. ufilter = Some u \<and> u (unat len) = Some fs \<and> sk_chk_filter fs = Inr () \<and>
        sk_filter_ptr sk' = Some \<lparr>refcnt = 1, insns = fs\<rparr> \<and>
        sk_omem_alloc sk' - filter_charge sk' = sk_omem_alloc sk - filter_charge sk \<and>
        sk_omem_alloc sk + filter_charge sk' < optmem_max \<and>
        sk_rcu sk' = sk_rcu sk @ (case sk_filter_ptr sk of None \<Rightarrow> [] | Some fp \<Rightarrow> [fp]))"
proof (cases ufilter)
  case None
  with r show ?thesis by (auto simp: sk_attach_filter_def Let_def)
next
  case (Some u)
  define sz where "sz = 8 * uint len + 16"
  show ?thesis
  proof (cases "sz \<le> optmem_max \<and> sk_omem_alloc sk + sz < optmem_max \<and> kmem")
    case False
    with r Some show ?thesis
      by (auto simp: sk_attach_filter_def Let_def sock_kmalloc_cases simp flip: sz_def)
  next
    case True
    show ?thesis
    proof (cases "u (unat len)")
      case None
      with r Some True show ?thesis
        by (auto simp: sk_attach_filter_def Let_def sock_kmalloc_cases sock_kfree_s_def simp flip: sz_def)
    next
      case fs: (Some fs)
      have len: "sk_filter_len \<lparr>refcnt = 1, insns = fs\<rparr> = sz"
        using user [OF Some fs] by (simp add: sk_filter_len_def sz_def)
      consider e where "sk_chk_filter fs = Inl e" | "sk_chk_filter fs = Inr ()"
        by (cases "sk_chk_filter fs") auto
      then show ?thesis
      proof cases
        case (1 e)
        with r Some True fs len have "r = Inl e \<and> sk' = sk"
          by (simp add: sk_attach_filter_def Let_def sock_kmalloc_cases sk_filter_uncharge_def
              flip: sz_def)
        then show ?thesis by simp
      next
        case 2
        define sk1 where "sk1 = sk\<lparr>sk_omem_alloc := sk_omem_alloc sk + sz,
          sk_filter_ptr := Some \<lparr>refcnt = 1, insns = fs\<rparr>\<rparr>"
        from 2 r Some True fs len have "r = Inr ()"
          and "sk' = (case sk_filter_ptr sk of None \<Rightarrow> sk1
            | Some a \<Rightarrow> sk_filter_delayed_uncharge a sk1)"
          by (simp_all add: sk_attach_filter_def Let_def sock_kmalloc_cases sk1_def
              flip: sz_def split: option.splits)
        with 2 Some True fs len show ?thesis
          by (cases "sk_filter_ptr sk")
            (simp_all add: sk1_def sk_filter_delayed_uncharge_def filter_charge_def)
      qed
    qed
  qed
qed

theorem sk_attach_filter_spec_witness:
  "sk_attach_filter 20480 True 1 (Some (\<lambda>n. Some (take n [insn RET_K 0]))) \<lparr>sk_omem_alloc = 0, sk_filter_ptr = None, sk_rcu = []\<rparr>
     = (Inr (), \<lparr>sk_omem_alloc = 24, sk_filter_ptr = Some \<lparr>refcnt = 1, insns = [insn RET_K 0]\<rparr>, sk_rcu = []\<rparr>) \<and>
   sk_chk_filter [insn RET_K 0] = Inr ()"
proof
  show r: "sk_attach_filter 20480 True 1 (Some (\<lambda>n. Some (take n [insn RET_K 0])))
      \<lparr>sk_omem_alloc = 0, sk_filter_ptr = None, sk_rcu = []\<rparr>
     = (Inr (), \<lparr>sk_omem_alloc = 24, sk_filter_ptr = Some \<lparr>refcnt = 1, insns = [insn RET_K 0]\<rparr>, sk_rcu = []\<rparr>)"
    by code_simp
  have len: "length fs = unat (1 :: u16)"
    if "Some (\<lambda>n. Some (take n [insn RET_K 0])) = Some u" "u (unat (1 :: u16)) = Some fs" for u fs
    using that by auto
  show "sk_chk_filter [insn RET_K 0] = Inr ()"
    using sk_attach_filter_spec [OF len r] by auto
qed

section \<open>Outside the guarantee\<close>

text \<open>
  \<open>sk_chk_filter\<close> does not track initialisation of \<open>mem[]\<close>: the two-instruction
  program that loads a scratch word and returns it is accepted, and on every packet its
  verdict is the stale stack word.
\<close>

theorem checked_filter_returns_stack_word:
  assumes "w < 16" and "length (e_stack e) = 16"
  shows "sk_chk_filter [insn LD_MEM w, insn RET_A 0] = Inr () \<and>
    sk_run_filter 2 e p [insn LD_MEM w, insn RET_A 0] = Some (Inr (e_stack e ! unat w))"
proof -
  have w: "unat w < 16" using assms(1) by (simp add: word_less_nat_alt)
  have "BPF_CLASS (opcode RET_A) = 6" by code_simp
  then have "sk_chk_filter [insn LD_MEM w, insn RET_A 0] = Inr ()"
    using assms(1) by (simp add: sk_chk_filter_def insn_def del: opcode.simps)
  moreover have "sk_run_filter (Suc (Suc 0)) e p [insn LD_MEM w, insn RET_A 0] =
      Some (Inr (e_stack e ! unat w))"
    using w assms(2) by (simp add: sk_run_filter_def insn_def del: opcode.simps)
  ultimately show ?thesis by (simp add: numeral_2_eq_2)
qed

theorem checked_filter_returns_stack_word_witness:
  "sk_run_filter 2 sample_env sample_packet [insn LD_MEM 3, insn RET_A 0] = Some (Inr 0xdeadbeef)"
proof -
  have "(3 :: u32) < 16" by simp
  moreover have "length (e_stack sample_env) = 16" "e_stack sample_env ! unat (3 :: u32) = 0xdeadbeef"
    by (simp_all add: sample_env_def)
  ultimately show ?thesis
    using checked_filter_returns_stack_word [of 3 sample_env sample_packet] by simp
qed

definition ifindex_filter :: "sock_filter list" where
  "ifindex_filter = [insn (LD_ABS SzW) (word_of_int (SKF_AD_OFF + 8)), insn RET_A 0]"

definition nlattr_filter :: "sock_filter list" where
  "nlattr_filter = [insn LD_IMM 0x80000010, insn (LD_ABS SzW) (word_of_int (SKF_AD_OFF + 12)), insn RET_A 0]"

lemma load_A_ancillary:
  "k < 0 \<Longrightarrow> SKF_AD_OFF \<le> k \<Longrightarrow> load_A p z k st = ancillary p k st"
  by (simp add: load_A_def load_pointer_def)

lemma ad_offsets:
  "sint (word_of_int (SKF_AD_OFF + 8) :: u32) = SKF_AD_OFF + 8"
  "sint (word_of_int (SKF_AD_OFF + 12) :: u32) = SKF_AD_OFF + 12"
  by simp_all

lemma short_len_wraps:
  assumes "l < 4"
  shows "(0x80000010 :: u32) \<le> word_of_nat l - 4" and "4 \<le> sint (word_of_nat l - 0x80000010 :: u32)"
proof -
  from assms consider "l = 0" | "l = 1" | "l = 2" | "l = 3" by linarith
  then show "(0x80000010 :: u32) \<le> word_of_nat l - 4" by cases simp_all
  from assms consider "l = 0" | "l = 1" | "l = 2" | "l = 3" by linarith
  then show "4 \<le> sint (word_of_nat l - 0x80000010 :: u32)" by cases simp_all
qed

text \<open>
  The conditions on the packet are needed. \<open>sk_chk_filter\<close> accepts a program that
  loads the interface index, which dereferences \<open>skb->dev\<close> even where it is \<open>NULL\<close>, and
  one that searches for a netlink attribute at a chosen offset: on a linear packet of fewer
  than four bytes the bound \<open>skb->len - sizeof (struct nlattr)\<close> wraps around, and the
  search reads memory far outside the packet.
\<close>

theorem checked_filter_can_fault:
  "sk_chk_filter ifindex_filter = Inr () \<and> sk_chk_filter nlattr_filter = Inr () \<and>
   (p_ifindex p = None \<longrightarrow> sk_run_filter 2 e p ifindex_filter = Some (Inl Fault)) \<and>
   (skb_wf (p_skb p) \<and> \<not> skb_is_nonlinear (p_skb p) \<and> sk_len (p_skb p) < 4 \<and>
    sk_data (p_skb p) < 0x7ffffff0 \<longrightarrow> sk_run_filter 3 e p nlattr_filter = Some (Inl Fault))"
proof (intro conjI impI)
  show "sk_chk_filter ifindex_filter = Inr ()" "sk_chk_filter nlattr_filter = Inr ()"
    by code_simp+
  show "sk_run_filter 2 e p ifindex_filter = Some (Inl Fault)" if "p_ifindex p = None"
    using that by (simp add: numeral_2_eq_2 sk_run_filter_def ifindex_filter_def insn_def
        load_A_ancillary ancillary_def Let_def del: opcode.simps)
  assume wf: "skb_wf (p_skb p) \<and> \<not> skb_is_nonlinear (p_skb p) \<and> sk_len (p_skb p) < 4 \<and>
    sk_data (p_skb p) < 0x7ffffff0"
  then have len: "sk_len (p_skb p) < 4" by blast
  have "nla_find m (int (sk_data (p_skb p)) + sint (0x80000010 :: u32)) r t = Inl Fault"
    if "4 \<le> r" for m r t
    using wf that by (subst nla_find.simps) (simp add: nla_ok_def read_half_def)
  note nla = this [OF short_len_wraps(2) [OF len]]
  show "sk_run_filter 3 e p nlattr_filter = Some (Inl Fault)"
    using wf short_len_wraps(1) [OF len] nla
    by (simp add: numeral_3_eq_3 sk_run_filter_def nlattr_filter_def insn_def
        load_A_ancillary ancillary_def Let_def not_less del: opcode.simps)
qed

definition runt_packet :: packet where
  "runt_packet = \<lparr>p_skb = Skb [1, 2, 3, 0, 0, 0] 0 3 0 [] [], p_net = 0, p_mac = 0,
     p_protocol = 0, p_pkt_type = 0, p_ifindex = None\<rparr>"

theorem checked_filter_can_fault_witness:
  "sk_run_filter 2 sample_env runt_packet ifindex_filter = Some (Inl Fault) \<and>
   sk_run_filter 3 sample_env runt_packet nlattr_filter = Some (Inl Fault)"
proof -
  have "p_ifindex runt_packet = None" "skb_wf (p_skb runt_packet)"
    "\<not> skb_is_nonlinear (p_skb runt_packet)" "sk_len (p_skb runt_packet) < 4"
    "sk_data (p_skb runt_packet) < 0x7ffffff0"
    by (simp_all add: runt_packet_def skb_is_nonlinear_def)
  with checked_filter_can_fault [of runt_packet sample_env] show ?thesis by blast
qed

text \<open>
  A word load from the last byte before the tail: \<open>__load_pointer\<close> checks this byte only, and
  the read leaves a block that ends with the packet's data.
\<close>

definition tail_packet :: packet where
  "tail_packet = \<lparr>p_skb = Skb [1, 2, 3, 4, 5] 0 5 0 [] [], p_net = 0, p_mac = 0,
     p_protocol = 0, p_pkt_type = 0, p_ifindex = Some 2\<rparr>"

lemma tail_load_overruns:
  "sk_chk_filter [insn (LD_ABS SzW) (word_of_int (SKF_LL_OFF + 4)), insn RET_A 0] = Inr () \<and>
   skb_wf (p_skb tail_packet) \<and>
   sk_run_filter 2 sample_env tail_packet
     [insn (LD_ABS SzW) (word_of_int (SKF_LL_OFF + 4)), insn RET_A 0] = Some (Inl Fault)"
proof (intro conjI)
  show "sk_chk_filter [insn (LD_ABS SzW) (word_of_int (SKF_LL_OFF + 4)), insn RET_A 0] = Inr ()"
    by code_simp
  show "skb_wf (p_skb tail_packet)" by (simp add: tail_packet_def)
  show "sk_run_filter 2 sample_env tail_packet
     [insn (LD_ABS SzW) (word_of_int (SKF_LL_OFF + 4)), insn RET_A 0] = Some (Inl Fault)"
    by (simp add: numeral_2_eq_2 sk_run_filter_def insn_def load_A_def load_pointer_def load_pointer_hdr_def
        mem_read_def tail_packet_def skb_tail_pointer_def skb_headlen_def Let_def del: opcode.simps)
qed

end
