(* ===== verification/Resource.thy ===== *)
theory Resource imports Prelude begin

text \<open>
  The resource tree of \<open>kernel/resource.c\<close>: requesting, releasing, allocating, inserting and
  adjusting address ranges. The theory shows that every operation keeps the tree a tree of
  nested, sorted, disjoint ranges, that allocation is sound and finds a slot where one
  exists, and that releasing a region undoes requesting it.
\<close>

section \<open>The tree\<close>

text \<open>
  \<open>struct resource\<close>. The chain of \<open>sibling\<close> pointers from \<open>child\<close> on is the list
  \<open>child\<close>; the \<open>parent\<close> pointer is the position in the tree. \<open>resource_size_t\<close> is 32
  bits wide on the target. A pointer to a resource below a given one is the path of child
  positions to it.
\<close>

datatype resource =
  Resource (name: string) (r_start: u32) (r_end: u32) (r_flags: u32) (child: "resource list")

abbreviation (input) IORESOURCE_BUSY :: u32 where "IORESOURCE_BUSY \<equiv> 0x80000000"

type_synonym path = "nat list"

definition set_child :: "resource list \<Rightarrow> resource \<Rightarrow> resource" where
  "set_child cs r = Resource (name r) (r_start r) (r_end r) (r_flags r) cs"

definition set_range :: "u32 \<Rightarrow> u32 \<Rightarrow> resource \<Rightarrow> resource" where
  "set_range s e r = Resource (name r) s e (r_flags r) (child r)"

lemma set_child_sel [simp]:
  "name (set_child cs r) = name r" "r_start (set_child cs r) = r_start r"
  "r_end (set_child cs r) = r_end r" "r_flags (set_child cs r) = r_flags r"
  "child (set_child cs r) = cs" "set_child cs (set_child ds r) = set_child cs r"
  "set_child (child r) r = r"
  by (simp_all add: set_child_def)

lemma set_range_sel [simp]:
  "name (set_range s e r) = name r" "r_start (set_range s e r) = s"
  "r_end (set_range s e r) = e" "r_flags (set_range s e r) = r_flags r"
  "child (set_range s e r) = child r"
  by (simp_all add: set_range_def)

definition busy :: "resource \<Rightarrow> bool" where
  "busy r \<longleftrightarrow> r_flags r AND IORESOURCE_BUSY \<noteq> 0"

fun resource_at :: "resource \<Rightarrow> path \<Rightarrow> resource" where
  "resource_at r [] = r"
| "resource_at r (i # p) = resource_at (child r ! i) p"

section \<open>Requesting and releasing\<close>

text \<open>
  The loop of \<open>__request_resource\<close> over the siblings. \<open>Inl\<close> is the position of the conflict,
  \<open>Inr\<close> the position of \<open>new\<close> and the new chain.
\<close>

fun link_sibling :: "resource \<Rightarrow> resource list \<Rightarrow> nat + nat \<times> resource list" where
  "link_sibling new [] = Inr (0, [new])"
| "link_sibling new (tmp # ts) =
     (if r_end new < r_start tmp then Inr (0, new # tmp # ts)
      else if r_end tmp < r_start new then
        (case link_sibling new ts of Inl i \<Rightarrow> Inl (Suc i) | Inr (i, ts') \<Rightarrow> Inr (Suc i, tmp # ts'))
      else Inl 0)"

text \<open>
  \<open>__request_resource\<close>: the conflict, a path from \<open>root\<close>, or the position of \<open>new\<close> and the
  tree it is linked into.
\<close>

definition request_resource_nolock :: "resource \<Rightarrow> resource \<Rightarrow> path + nat \<times> resource" where
  "request_resource_nolock root new =
     (if r_end new < r_start new then Inl []
      else if r_start new < r_start root then Inl []
      else if r_end root < r_end new then Inl []
      else case link_sibling new (child root) of
             Inl i \<Rightarrow> Inl [i]
           | Inr (i, cs) \<Rightarrow> Inr (i, set_child cs root))"

definition request_resource :: "resource \<Rightarrow> resource \<Rightarrow> resource result" where
  "request_resource root new =
     (case request_resource_nolock root new of Inl _ \<Rightarrow> Inl (Err EBUSY) | Inr (_, root') \<Rightarrow> Inr root')"

text \<open>
  \<open>__release_resource\<close> of the child at position \<open>i\<close> of \<open>parent\<close>; the loop finds it by
  its address.
\<close>

fun unlink_sibling :: "nat \<Rightarrow> resource list \<Rightarrow> resource list option" where
  "unlink_sibling i [] = None"
| "unlink_sibling 0 (tmp # ts) = Some ts"
| "unlink_sibling (Suc i) (tmp # ts) =
     (case unlink_sibling i ts of None \<Rightarrow> None | Some ts' \<Rightarrow> Some (tmp # ts'))"

definition release_resource :: "resource \<Rightarrow> nat \<Rightarrow> resource result" where
  "release_resource parent i =
     (case unlink_sibling i (child parent) of
        None \<Rightarrow> Inl (Err EINVAL)
      | Some cs \<Rightarrow> Inr (set_child cs parent))"

section \<open>Allocating\<close>

text \<open>\<open>ALIGN\<close> of \<open>include/linux/kernel.h\<close>.\<close>

definition ALIGN :: "u32 \<Rightarrow> u32 \<Rightarrow> u32" where
  "ALIGN x a = (x + (a - 1)) AND NOT (a - 1)"

text \<open>
  \<open>find_resource\<close>. The loop carries \<open>new->start\<close>; \<open>alignf\<close> may change the candidate range
  \<open>(start, end)\<close>, and is the identity where the caller passes \<open>NULL\<close>.
\<close>

type_synonym alignf = "u32 \<times> u32 \<Rightarrow> u32 \<Rightarrow> u32 \<Rightarrow> u32 \<times> u32"

fun find_slot ::
  "u32 \<Rightarrow> resource list \<Rightarrow> u32 \<Rightarrow> u32 \<Rightarrow> u32 \<Rightarrow> u32 \<Rightarrow> u32 \<Rightarrow> alignf \<Rightarrow> (u32 \<times> u32) option" where
  "find_slot root_end this start sz min_start max_end align alignf =
     (let end = (case this of [] \<Rightarrow> root_end | t # _ \<Rightarrow> r_start t - 1);
          start = (if start < min_start then min_start else start);
          end = (if max_end < end then max_end else end);
          start = ALIGN start align;
          (start, end) = alignf (start, end) sz align
      in if start < end \<and> sz - 1 \<le> end - start then Some (start, start + sz - 1)
         else case this of
                [] \<Rightarrow> None
              | t # ts \<Rightarrow> find_slot root_end ts (r_end t + 1) sz min_start max_end align alignf)"

declare find_slot.simps [simp del]

definition find_resource ::
  "resource \<Rightarrow> u32 \<Rightarrow> u32 \<Rightarrow> u32 \<Rightarrow> u32 \<Rightarrow> alignf \<Rightarrow> (u32 \<times> u32) option" where
  "find_resource root sz min_start max_end align alignf =
     (case child root of
        t # ts \<Rightarrow>
          if r_start t = 0
          then find_slot (r_end root) ts (r_end t + 1) sz min_start max_end align alignf
          else find_slot (r_end root) (t # ts) (r_start root) sz min_start max_end align alignf
      | [] \<Rightarrow> find_slot (r_end root) [] (r_start root) sz min_start max_end align alignf)"

definition allocate_resource ::
  "resource \<Rightarrow> resource \<Rightarrow> u32 \<Rightarrow> u32 \<Rightarrow> u32 \<Rightarrow> u32 \<Rightarrow> alignf \<Rightarrow> (resource \<times> resource) result" where
  "allocate_resource root new sz min_start max_end align alignf =
     (case find_resource root sz min_start max_end align alignf of
        None \<Rightarrow> Inl (Err EBUSY)
      | Some (s, e) \<Rightarrow>
          let new = set_range s e new in
          (case request_resource_nolock root new of
             Inl _ \<Rightarrow> Inl (Err EBUSY)
           | Inr (_, root') \<Rightarrow> Inr (root', new)))"

section \<open>Inserting over existing resources\<close>

text \<open>
  The second loop of \<open>__insert_resource\<close>, over the siblings from the first conflict on:
  the number of them that \<open>new\<close> swallows, or the position of one it cannot.
\<close>

fun swallow :: "resource \<Rightarrow> resource list \<Rightarrow> nat + nat" where
  "swallow new [] = Inr 0"
| "swallow new (n # ns) =
     (if r_start n < r_start new \<or> r_end new < r_end n then Inl 0
      else case ns of
             [] \<Rightarrow> Inr 1
           | s # _ \<Rightarrow>
               if r_end new < r_start s then Inr 1
               else case swallow new ns of Inl i \<Rightarrow> Inl (Suc i) | Inr k \<Rightarrow> Inr (Suc k))"

lemma request_conflict_child:
  "request_resource_nolock root new = Inl (i # p) \<Longrightarrow> p = [] \<and> i < length (child root)"
proof -
  have "link_sibling new cs = Inl j \<Longrightarrow> j < length cs" for cs j
    by (induction cs arbitrary: j) (auto split: if_splits sum.splits)
  then show "request_resource_nolock root new = Inl (i # p) \<Longrightarrow> ?thesis"
    by (auto simp: request_resource_nolock_def split: if_splits sum.splits)
qed

lemma size_child: "i < length (child r) \<Longrightarrow> size (child r ! i) < size r"
  by (cases r) (auto simp: less_Suc_eq_le dest!: nth_mem intro: order.trans [OF size_list_estimation'])

text \<open>\<open>__insert_resource\<close>; the outer loop descends from \<open>parent\<close> to the first conflict.\<close>

function insert_resource_nolock :: "resource \<Rightarrow> resource \<Rightarrow> path + resource" where
  "insert_resource_nolock parent new =
     (case request_resource_nolock parent new of
        Inr (_, parent') \<Rightarrow> Inr parent'
      | Inl [] \<Rightarrow> Inl []
      | Inl (i # _) \<Rightarrow>
          let first = child parent ! i in
          if (r_start new < r_start first \<or> r_end first < r_end new) \<or>
             (r_start first = r_start new \<and> r_end first = r_end new) then
            (case swallow new (drop i (child parent)) of
               Inl j \<Rightarrow> Inl [i + j]
             | Inr k \<Rightarrow>
                 Inr (set_child (take i (child parent) @
                        [set_child (take k (drop i (child parent))) new] @
                        drop (i + k) (child parent)) parent))
          else
            (case insert_resource_nolock first new of
               Inl p \<Rightarrow> Inl (i # p)
             | Inr first' \<Rightarrow> Inr (set_child ((child parent)[i := first']) parent)))"
  by pat_completeness auto

termination insert_resource_nolock
  by (relation "measure (\<lambda>(parent, new). size parent)")
    (auto dest!: request_conflict_child intro: size_child)

declare insert_resource_nolock.simps [simp del]

definition insert_resource :: "resource \<Rightarrow> resource \<Rightarrow> resource result" where
  "insert_resource parent new =
     (case insert_resource_nolock parent new of Inl _ \<Rightarrow> Inl (Err EBUSY) | Inr r \<Rightarrow> Inr r)"

text \<open>
  \<open>insert_resource_expand_to_fit\<close> for a resource that is not linked yet. \<open>None\<close> is a loop
  that does not end; the tree is unchanged where the loop stops at a conflict with \<open>root\<close>.
\<close>

partial_function (option) insert_resource_expand_to_fit ::
  "resource \<Rightarrow> resource \<Rightarrow> (resource \<times> resource) option" where
  "insert_resource_expand_to_fit root new =
     (case insert_resource_nolock root new of
        Inr root' \<Rightarrow> Some (root', new)
      | Inl [] \<Rightarrow> Some (root, new)
      | Inl (i # p) \<Rightarrow>
          let conflict = resource_at root (i # p) in
          insert_resource_expand_to_fit root
            (set_range
              (if r_start conflict < r_start new then r_start conflict else r_start new)
              (if r_end new < r_end conflict then r_end conflict else r_end new) new))"

section \<open>Adjusting and regions\<close>

text \<open>\<open>adjust_resource\<close> of the child at position \<open>i\<close> of \<open>parent\<close>.\<close>

definition adjust_resource :: "resource \<Rightarrow> nat \<Rightarrow> u32 \<Rightarrow> u32 \<Rightarrow> resource result" where
  "adjust_resource parent i start sz =
     (let res = child parent ! i; end = start + sz - 1 in
      if start < r_start parent \<or> r_end parent < end then Inl (Err EBUSY)
      else if \<exists>tmp \<in> set (child res). r_start tmp < start \<or> end < r_end tmp then Inl (Err EBUSY)
      else if i + 1 < length (child parent) \<and> r_start (child parent ! (i + 1)) \<le> end
        then Inl (Err EBUSY)
      else if i \<noteq> 0 \<and> start \<le> r_end (child parent ! (i - 1)) then Inl (Err EBUSY)
      else Inr (set_child ((child parent)[i := set_range start end res]) parent))"

definition resource_size :: "resource \<Rightarrow> u32" where
  "resource_size r = r_end r - r_start r + 1"

abbreviation (input) IORESOURCE_SIZEALIGN :: u32 where "IORESOURCE_SIZEALIGN \<equiv> 0x00020000"
abbreviation (input) IORESOURCE_STARTALIGN :: u32 where "IORESOURCE_STARTALIGN \<equiv> 0x00040000"

definition resource_alignment :: "resource \<Rightarrow> u32" where
  "resource_alignment r =
     (let f = r_flags r AND (IORESOURCE_SIZEALIGN OR IORESOURCE_STARTALIGN) in
      if f = IORESOURCE_SIZEALIGN then resource_size r
      else if f = IORESOURCE_STARTALIGN then r_start r
      else 0)"

text \<open>
  The loop of \<open>__request_region\<close>: descend while the conflict is not busy. The result is the
  path of the new resource and the tree.
\<close>

function region_loop :: "resource \<Rightarrow> resource \<Rightarrow> (path \<times> resource) option" where
  "region_loop parent res =
     (case request_resource_nolock parent res of
        Inr (i, parent') \<Rightarrow> Some ([i], parent')
      | Inl [] \<Rightarrow> None
      | Inl (i # _) \<Rightarrow>
          let conflict = child parent ! i in
          if \<not> busy conflict then
            (case region_loop conflict res of
               None \<Rightarrow> None
             | Some (p, c) \<Rightarrow> Some (i # p, set_child ((child parent)[i := c]) parent))
          else None)"
  by pat_completeness auto

termination region_loop
  by (relation "measure (\<lambda>(parent, new). size parent)")
    (auto dest!: request_conflict_child intro: size_child)

declare region_loop.simps [simp del]

text \<open>\<open>kmem\<close> is whether \<open>kzalloc\<close> finds memory.\<close>

definition request_region :: "bool \<Rightarrow> resource \<Rightarrow> u32 \<Rightarrow> u32 \<Rightarrow> string \<Rightarrow> (path \<times> resource) option" where
  "request_region kmem parent start n nm =
     (if kmem then region_loop parent (Resource nm start (start + n - 1) IORESOURCE_BUSY [])
      else None)"

text \<open>The loop of \<open>__release_region\<close>; \<open>None\<close> is the warning about a nonexistent resource.\<close>

fun release_loop :: "resource list \<Rightarrow> u32 \<Rightarrow> u32 \<Rightarrow> resource list option" where
  "release_loop [] start end = None"
| "release_loop (Resource nm s e f cs # rs) start end =
     (if s \<le> start \<and> end \<le> e then
        if f AND IORESOURCE_BUSY = 0 then
          (case release_loop cs start end of
             None \<Rightarrow> None | Some cs' \<Rightarrow> Some (Resource nm s e f cs' # rs))
        else if s \<noteq> start \<or> e \<noteq> end then None
        else Some rs
      else
        (case release_loop rs start end of
           None \<Rightarrow> None | Some rs' \<Rightarrow> Some (Resource nm s e f cs # rs')))"

definition release_region :: "resource \<Rightarrow> u32 \<Rightarrow> u32 \<Rightarrow> resource option" where
  "release_region parent start n =
     (case release_loop (child parent) start (start + n - 1) of
        None \<Rightarrow> None | Some cs \<Rightarrow> Some (set_child cs parent))"

text \<open>\<open>release_resource\<close> of the resource at a path below \<open>r\<close>.\<close>

fun release_at :: "resource \<Rightarrow> path \<Rightarrow> resource result" where
  "release_at r [] = Inl Fault"
| "release_at r [i] = release_resource r i"
| "release_at r (i # p) =
     (case release_at (child r ! i) p of
        Inl e \<Rightarrow> Inl e
      | Inr c \<Rightarrow> Inr (set_child ((child r)[i := c]) r))"

text \<open>\<open>__check_region\<close>, with the tree it leaves: a request and the release of its result.\<close>

definition check_region :: "bool \<Rightarrow> resource \<Rightarrow> u32 \<Rightarrow> u32 \<Rightarrow> unit result \<times> resource" where
  "check_region kmem parent start n =
     (case request_region kmem parent start n ''check-region'' of
        None \<Rightarrow> (Inl (Err EBUSY), parent)
      | Some (p, parent') \<Rightarrow>
          (Inr (), case release_at parent' p of Inl _ \<Rightarrow> parent' | Inr q \<Rightarrow> q))"

section \<open>Well-formed trees\<close>

text \<open>Siblings are sorted and disjoint, children lie inside their parent.\<close>

fun rwf :: "resource \<Rightarrow> bool" where
  "rwf (Resource nm s e f cs) \<longleftrightarrow>
     s \<le> e \<and> sorted_wrt (\<lambda>a b. r_end a < r_start b) cs \<and>
     (\<forall>c \<in> set cs. s \<le> r_start c \<and> r_end c \<le> e \<and> rwf c)"

declare rwf.simps [simp del]

definition siblings_ok :: "u32 \<Rightarrow> u32 \<Rightarrow> resource list \<Rightarrow> bool" where
  "siblings_ok s e cs \<longleftrightarrow> sorted_wrt (\<lambda>a b. r_end a < r_start b) cs \<and>
     (\<forall>c \<in> set cs. s \<le> r_start c \<and> r_end c \<le> e \<and> rwf c)"

lemma rwf_iff: "rwf r \<longleftrightarrow> r_start r \<le> r_end r \<and> siblings_ok (r_start r) (r_end r) (child r)"
  by (cases r) (simp add: rwf.simps siblings_ok_def)

lemma rwf_range: "rwf r \<Longrightarrow> r_start r \<le> r_end r"
  by (simp add: rwf_iff)

lemma rwf_child: "rwf r \<Longrightarrow> c \<in> set (child r) \<Longrightarrow> rwf c \<and> r_start r \<le> r_start c \<and> r_end c \<le> r_end r"
  unfolding rwf_iff [of r] siblings_ok_def by blast

lemma siblings_ok_append:
  "siblings_ok s e (xs @ ys) \<longleftrightarrow> siblings_ok s e xs \<and> siblings_ok s e ys \<and>
     (\<forall>x \<in> set xs. \<forall>y \<in> set ys. r_end x < r_start y)"
  by (auto simp: siblings_ok_def sorted_wrt_append)

lemma siblings_ok_Cons:
  "siblings_ok s e (x # xs) \<longleftrightarrow> s \<le> r_start x \<and> r_end x \<le> e \<and> rwf x \<and> siblings_ok s e xs \<and>
     (\<forall>y \<in> set xs. r_end x < r_start y)"
  by (auto simp: siblings_ok_def)

lemma siblings_ok_Nil [simp]: "siblings_ok s e []"
  by (simp add: siblings_ok_def)

lemmas siblings_simps = siblings_ok_append siblings_ok_Cons

text \<open>Replacing a child by one with a range inside the old one keeps the siblings in order.\<close>

lemma siblings_ok_update:
  assumes "siblings_ok s e cs" "i < length cs" "rwf c'" "r_start (cs ! i) \<le> r_start c'" "r_end c' \<le> r_end (cs ! i)"
  shows "siblings_ok s e (cs[i := c'])"
proof -
  have cs: "siblings_ok s e (take i cs @ cs ! i # drop (Suc i) cs)"
    using assms(1) by (simp only: id_take_nth_drop [OF assms(2), symmetric])
  note split = this [unfolded siblings_simps]
  from split have parts: "siblings_ok s e (take i cs)" "siblings_ok s e (drop (Suc i) cs)"
    and range: "s \<le> r_start (cs ! i)" "r_end (cs ! i) \<le> e"
    and sep: "\<forall>x \<in> set (take i cs). \<forall>y \<in> set (drop (Suc i) cs). r_end x < r_start y"
    and left: "\<And>x. x \<in> set (take i cs) \<Longrightarrow> r_end x < r_start (cs ! i)"
    and right: "\<And>y. y \<in> set (drop (Suc i) cs) \<Longrightarrow> r_end (cs ! i) < r_start y"
    by simp_all
  have "\<forall>x \<in> set (take i cs). r_end x < r_start c'" "\<forall>y \<in> set (drop (Suc i) cs). r_end c' < r_start y"
    using less_le_trans [OF left assms(4)] le_less_trans [OF assms(5) right] by blast+
  moreover have "s \<le> r_start c'" "r_end c' \<le> e"
    using order.trans [OF range(1) assms(4)] order.trans [OF assms(5) range(2)] .
  ultimately have "siblings_ok s e (take i cs @ c' # drop (Suc i) cs)"
    unfolding siblings_simps using parts sep assms(3) by simp
  then show ?thesis by (simp only: upd_conv_take_nth_drop [OF assms(2)])
qed

lemma siblings_ok_split:
  assumes "siblings_ok s e ts"
  shows "siblings_ok s e (take i ts)" "siblings_ok s e (drop i ts)"
    "x \<in> set (take i ts) \<Longrightarrow> y \<in> set (drop i ts) \<Longrightarrow> r_end x < r_start y"
proof -
  have "siblings_ok s e (take i ts @ drop i ts)" using assms by simp
  note this [unfolded siblings_ok_append]
  then show "siblings_ok s e (take i ts)" "siblings_ok s e (drop i ts)"
    "x \<in> set (take i ts) \<Longrightarrow> y \<in> set (drop i ts) \<Longrightarrow> r_end x < r_start y" by blast+
qed

section \<open>Requests\<close>

lemma link_sibling_Inr:
  "link_sibling new ts = Inr (i, ts') \<Longrightarrow> i \<le> length ts \<and> ts' = take i ts @ new # drop i ts \<and>
     (\<forall>t \<in> set (take i ts). r_end t < r_start new) \<and> (i < length ts \<longrightarrow> r_end new < r_start (ts ! i))"
  by (induction ts arbitrary: i ts') (auto split: if_splits sum.splits)

lemma link_sibling_Inl:
  "link_sibling new ts = Inl i \<Longrightarrow> i < length ts \<and> (\<forall>t \<in> set (take i ts). r_end t < r_start new) \<and>
     r_start (ts ! i) \<le> r_end new \<and> r_start new \<le> r_end (ts ! i)"
  by (induction ts arbitrary: i) (auto split: if_splits sum.splits)

lemma siblings_ok_drop:
  assumes "siblings_ok s e ts" "r_end new < r_start (ts ! i)" "i < length ts" "t \<in> set (drop i ts)"
  shows "r_end new < r_start t"
proof -
  from assms(3) have d: "drop i ts = ts ! i # drop (Suc i) ts" by (simp add: Cons_nth_drop_Suc)
  from siblings_ok_split(2) [OF assms(1), of i] have "siblings_ok s e (ts ! i # drop (Suc i) ts)"
    unfolding d .
  then have "rwf (ts ! i)" "t = ts ! i \<or> r_end (ts ! i) < r_start t"
    using assms(4) by (auto simp: siblings_simps d)
  with assms(2) rwf_range [of "ts ! i"] show ?thesis by (auto intro: less_trans less_le_trans)
qed

lemma siblings_ok_insert:
  assumes "siblings_ok s e ts" "rwf new" "s \<le> r_start new" "r_end new \<le> e"
    and "\<forall>t \<in> set (take i ts). r_end t < r_start new"
    and "i < length ts \<longrightarrow> r_end new < r_start (ts ! i)" "i \<le> length ts"
  shows "siblings_ok s e (take i ts @ new # drop i ts)"
proof -
  have "\<forall>t \<in> set (drop i ts). r_end new < r_start t"
    using siblings_ok_drop [OF assms(1)] assms(6,7) by (cases "i < length ts") auto
  with siblings_ok_split [OF assms(1)] assms(2-5) show ?thesis
    by (simp add: siblings_ok_append siblings_ok_Cons)
qed

lemma request_resource_nolock_Inr:
  assumes "request_resource_nolock root new = Inr (i, root')"
  shows "r_start new \<le> r_end new \<and> r_start root \<le> r_start new \<and> r_end new \<le> r_end root \<and>
    i \<le> length (child root) \<and>
    root' = set_child (take i (child root) @ new # drop i (child root)) root \<and>
    (\<forall>t \<in> set (take i (child root)). r_end t < r_start new) \<and>
    (i < length (child root) \<longrightarrow> r_end new < r_start (child root ! i))"
  using assms link_sibling_Inr [of new "child root"]
  by (auto simp: request_resource_nolock_def not_less split: if_splits sum.splits)

lemma request_resource_nolock_wf:
  assumes "request_resource_nolock root new = Inr (i, root')" "rwf root" "rwf new"
  shows "rwf root'"
  using request_resource_nolock_Inr [OF assms(1)] assms(2,3)
  by (simp add: rwf_iff [of root] rwf_iff [of "set_child cs root" for cs] siblings_ok_insert)

definition overlaps :: "resource \<Rightarrow> resource \<Rightarrow> bool" where
  "overlaps a b \<longleftrightarrow> r_start a \<le> r_end b \<and> r_start b \<le> r_end a"

lemma request_resource_nolock_Inl:
  assumes "request_resource_nolock root new = Inl p"
  shows "p = [] \<and> \<not> (r_start new \<le> r_end new \<and> r_start root \<le> r_start new \<and> r_end new \<le> r_end root) \<or>
    (\<exists>i < length (child root). p = [i] \<and> overlaps (child root ! i) new \<and>
       (\<forall>t \<in> set (take i (child root)). r_end t < r_start new) \<and>
       r_start new \<le> r_end new \<and> r_start root \<le> r_start new \<and> r_end new \<le> r_end root)"
  using assms link_sibling_Inl [of new "child root"]
  by (auto simp: request_resource_nolock_def overlaps_def not_less not_le split: if_splits sum.splits)

section \<open>Allocation\<close>

lemma ALIGN_aligned: "2 ^ k dvd unat (ALIGN x (2 ^ k))"
  by (simp add: ALIGN_def unat_and_not_mask)

lemma ALIGN_le:
  assumes "k < 32" "2 ^ k dvd t" "unat x \<le> t" "t < 2 ^ 32"
  shows "unat x \<le> unat (ALIGN x (2 ^ k))" and "unat (ALIGN x (2 ^ k)) \<le> t"
proof -
  have "t + 2 ^ k \<le> 2 ^ 32"
  proof -
    have "(2 ^ k :: nat) dvd 2 ^ 32" using assms(1) using pow2_dvd_32 [OF assms(1)] by simp
    with assms(2) have "2 ^ k dvd (2 ^ 32 - t)" by (simp add: dvd_diff_nat)
    with assms(4) show ?thesis by (metis dvd_imp_le zero_less_diff le_diff_conv2 less_imp_le add.commute)
  qed
  then have "unat x + (2 ^ k - 1) < 2 ^ 32" using assms(3) by (simp add: less_eq_Suc_le)
  moreover have "unat (2 ^ k - 1 :: u32) = 2 ^ k - 1"
    using unat_pow2 [of k, where 'a = 32] assms(1) by (subst unat_minus_one) auto
  ultimately have A: "unat (ALIGN x (2 ^ k)) = (unat x + (2 ^ k - 1)) div 2 ^ k * 2 ^ k"
    by (simp add: ALIGN_def unat_and_not_mask unat_word_ariths)
  let ?q = "(unat x + (2 ^ k - 1)) div 2 ^ k"
  have "unat x + (2 ^ k - 1) < (?q + 1) * 2 ^ k"
    using dividend_less_div_times [of "2 ^ k" "unat x + (2 ^ k - 1)"] by (simp add: algebra_simps)
  then show "unat x \<le> unat (ALIGN x (2 ^ k))" unfolding A by simp
  from assms(2) obtain m where m: "t = 2 ^ k * m" by blast
  have "?q \<le> (t + (2 ^ k - 1)) div 2 ^ k" using assms(3) by (intro div_le_mono) simp
  also have "\<dots> = m" 
  proof (rule div_nat_eqI)
    have "0 < (2 ^ k :: nat)" by simp
    then show "t + (2 ^ k - 1) < 2 ^ k * Suc m" unfolding m mult_Suc_right by linarith
  qed (simp only: m le_add1)
  finally show "unat (ALIGN x (2 ^ k)) \<le> t" unfolding A m by (simp add: mult.commute)
qed

lemma slot_end:
  assumes "(st :: u32) < end" "sz - 1 \<le> end - st"
  shows "unat (st + sz - 1) = unat st + unat (sz - 1)" and "unat st + unat (sz - 1) \<le> unat end"
proof -
  from assms have "unat (sz - 1) \<le> unat end - unat st"
    by (simp add: word_le_nat_alt word_less_nat_alt unat_sub)
  with assms(1) show le: "unat st + unat (sz - 1) \<le> unat end" by (simp add: word_less_nat_alt)
  have "unat (st + (sz - 1)) = unat st + unat (sz - 1)"
    using le unat_bound32 [of "end"] by (subst unat_word_ariths) simp
  then show "unat (st + sz - 1) = unat st + unat (sz - 1)" by (simp add: algebra_simps)
qed

lemma slot_fits:
  assumes "2 \<le> n" "0 < unat sz" "unat sz \<le> n" "unat (st :: u32) \<le> tgt" "tgt + n - 1 \<le> unat end"
  shows "st < end \<and> sz - 1 \<le> end - st"
proof -
  have "unat (sz - 1) = unat sz - 1" using assms(2) by (intro unat_minus_one) auto
  moreover have lt: "unat st < unat end" using assms by linarith
  then have "unat (end - st) = unat end - unat st" by (simp add: unat_sub word_le_nat_alt)
  ultimately show ?thesis using assms lt by (simp add: word_less_nat_alt word_le_nat_alt)
qed

definition no_alignf :: alignf where
  "no_alignf r sz align = r"

definition gap_end :: "u32 \<Rightarrow> resource list \<Rightarrow> u32" where
  "gap_end root_end ts = (case ts of [] \<Rightarrow> root_end | t # _ \<Rightarrow> r_start t - 1)"

lemma find_slot_step:
  "find_slot root_end ts start sz mn mx a no_alignf =
     (let st = ALIGN (max start mn) a; end = min (gap_end root_end ts) mx in
      if st < end \<and> sz - 1 \<le> end - st then Some (st, st + sz - 1)
      else case ts of [] \<Rightarrow> None
           | t # ts' \<Rightarrow> find_slot root_end ts' (r_end t + 1) sz mn mx a no_alignf)"
proof -
  have "(if start < mn then mn else start) = max start mn"
    "(if mx < gap_end root_end ts then mx else gap_end root_end ts) = min (gap_end root_end ts) mx"
    by (auto simp: max_def min_def not_less)
  then show ?thesis
    unfolding gap_end_def by (subst find_slot.simps) (simp add: Let_def no_alignf_def)
qed

definition gap_ok :: "u32 \<Rightarrow> resource list \<Rightarrow> u32 \<Rightarrow> u32 \<Rightarrow> u32 \<Rightarrow> bool" where
  "gap_ok root_end ts st sz mx \<longleftrightarrow>
     st < min (gap_end root_end ts) mx \<and> sz - 1 \<le> min (gap_end root_end ts) mx - st"

lemma find_slot_hit:
  "gap_ok root_end ts (ALIGN (max start mn) a) sz mx \<Longrightarrow>
   find_slot root_end ts start sz mn mx a no_alignf =
     Some (ALIGN (max start mn) a, ALIGN (max start mn) a + sz - 1)"
  unfolding gap_ok_def Let_def by (subst find_slot_step) (simp only: Let_def if_True simp_thms)

lemma find_slot_skip:
  "\<not> gap_ok root_end (t # ts) (ALIGN (max start mn) a) sz mx \<Longrightarrow>
   find_slot root_end (t # ts) start sz mn mx a no_alignf =
     find_slot root_end ts (r_end t + 1) sz mn mx a no_alignf"
  unfolding gap_ok_def by (subst find_slot_step) (simp only: Let_def if_False list.case)

lemma find_slot_miss:
  "\<not> gap_ok root_end [] (ALIGN (max start mn) a) sz mx \<Longrightarrow>
   find_slot root_end [] start sz mn mx a no_alignf = None"
  unfolding gap_ok_def by (subst find_slot_step) (simp only: Let_def if_False list.case)

text \<open>Rounding up wraps around in the last aligned block of the address space, and gives 0.\<close>

lemma ALIGN_ge:
  assumes "k < 32" "unat x + 2 ^ k \<le> 2 ^ 32"
  shows "x \<le> ALIGN x (2 ^ k)"
proof -
  let ?t = "(unat x + 2 ^ k - 1) div 2 ^ k * 2 ^ k"
  have "?t \<le> unat x + 2 ^ k - 1" by simp
  moreover have "0 < (2 ^ k :: nat)" by simp
  ultimately have "?t < 2 ^ 32" using assms(2) by linarith
  moreover have "unat x \<le> ?t"
    using dividend_less_div_times [of "2 ^ k" "unat x + 2 ^ k - 1"] by simp
  ultimately show ?thesis
    using ALIGN_le(1) [OF assms(1), of ?t x] by (simp add: word_le_nat_alt)
qed

lemma ALIGN_wraps:
  assumes "k < 32" "2 ^ 32 < unat x + 2 ^ k"
  shows "ALIGN x (2 ^ k) = 0"
proof -
  have p: "unat (2 ^ k :: u32) = 2 ^ k" using assms(1) by (intro unat_pow2) simp
  have less: "(2 ^ k :: nat) < 2 ^ 32" using assms(1) by (intro power_strict_increasing) simp_all
  have "unat ((2 ^ k :: u32) - 1) = 2 ^ k - 1"
    using p by (subst unat_minus_one) (auto simp: unat_eq_0 [symmetric] simp del: unat_eq_0)
  then have "unat (x + (2 ^ k - 1)) = unat x + (2 ^ k - 1) - 2 ^ 32"
    using assms(2) unat_bound32 [of x] less by (simp add: unat_word_ariths mod_if)
  moreover have "0 < (2 ^ k :: nat)" "unat x < 2 ^ 32" using unat_bound32 [of x] by simp_all
  ultimately have "unat (x + (2 ^ k - 1)) < 2 ^ k" by linarith
  then have "unat (ALIGN x (2 ^ k)) = 0"
    using unat_and_not_mask [of "x + (2 ^ k - 1)" k] by (simp add: ALIGN_def)
  then show ?thesis by (simp add: unat_eq_0)
qed

text \<open>No start that the search rounds up lies in the last aligned block.\<close>

definition no_wrap :: "nat \<Rightarrow> resource \<Rightarrow> u32 \<Rightarrow> bool" where
  "no_wrap k root mn \<longleftrightarrow> unat mn + 2 ^ k \<le> 2 ^ 32 \<and> unat (r_start root) + 2 ^ k \<le> 2 ^ 32 \<and>
     (\<forall>t \<in> set (child root). unat (r_end t + 1) + 2 ^ k \<le> 2 ^ 32)"

lemma gap_sound:
  assumes "gap_ok root_end ts st sz mx"
  shows "unat (st + sz - 1) = unat st + unat (sz - 1)" "st + sz - 1 \<le> mx"
    "st + sz - 1 \<le> gap_end root_end ts" "st \<le> st + sz - 1"
proof -
  note e = slot_end [OF conjunct1 [OF assms [unfolded gap_ok_def]] conjunct2 [OF assms [unfolded gap_ok_def]]]
  show "unat (st + sz - 1) = unat st + unat (sz - 1)" by (rule e(1))
  then show "st \<le> st + sz - 1" by (simp add: word_le_nat_alt)
  have "st + sz - 1 \<le> min (gap_end root_end ts) mx" using e by (simp add: word_le_nat_alt)
  then show "st + sz - 1 \<le> mx" "st + sz - 1 \<le> gap_end root_end ts" by simp_all
qed

text \<open>
  What the search finds, for any alignment function: a start of a gap, rounded up and given to
  the function, with room for the size before the end the function leaves.
\<close>

definition slot_from :: "u32 set \<Rightarrow> u32 \<Rightarrow> u32 \<Rightarrow> u32 \<Rightarrow> u32 \<Rightarrow> alignf \<Rightarrow> u32 \<times> u32 \<Rightarrow> bool" where
  "slot_from starts sz mn mx a af se \<longleftrightarrow> (\<exists>x \<in> starts. \<exists>end end'. end \<le> mx \<and>
     af (ALIGN (max x mn) a, end) sz a = (fst se, end') \<and> fst se < end' \<and>
     sz - 1 \<le> end' - fst se \<and> snd se = fst se + sz - 1)"

lemma slot_from_mono: "slot_from A sz mn mx a af se \<Longrightarrow> A \<subseteq> B \<Longrightarrow> slot_from B sz mn mx a af se"
  unfolding slot_from_def by blast

lemma find_slot_from:
  "find_slot root_end ts start sz mn mx a af = Some se \<Longrightarrow>
    slot_from (insert start ((\<lambda>t. r_end t + 1) ` set ts)) sz mn mx a af se"
proof (induction ts arbitrary: start)
  case (Cons t ts)
  have m: "(if start < mn then mn else start) = max start mn" by (auto simp: max_def)
  let ?lim = "if mx < r_start t - 1 then mx else r_start t - 1"
  obtain s' e' where af: "af (ALIGN (max start mn) a, ?lim) sz a = (s', e')" by fastforce
  have f: "find_slot root_end (t # ts) start sz mn mx a af =
      (if s' < e' \<and> sz - 1 \<le> e' - s' then Some (s', s' + sz - 1)
       else find_slot root_end ts (r_end t + 1) sz mn mx a af)"
    by (subst find_slot.simps) (simp only: Let_def list.case m af prod.case)
  show ?case
  proof (cases "s' < e' \<and> sz - 1 \<le> e' - s'")
    case True
    then have "se = (s', s' + sz - 1)" using Cons.prems f by simp
    moreover have "?lim \<le> mx" by (simp add: not_less)
    ultimately show ?thesis using True af unfolding slot_from_def by fastforce
  next
    case False
    with Cons.prems f have "find_slot root_end ts (r_end t + 1) sz mn mx a af = Some se" by simp
    from Cons.IH [OF this] show ?thesis by (rule slot_from_mono) auto
  qed
next
  case Nil
  have m: "(if start < mn then mn else start) = max start mn" by (auto simp: max_def)
  let ?lim = "if mx < root_end then mx else root_end"
  obtain s' e' where af: "af (ALIGN (max start mn) a, ?lim) sz a = (s', e')" by fastforce
  have f: "find_slot root_end [] start sz mn mx a af =
      (if s' < e' \<and> sz - 1 \<le> e' - s' then Some (s', s' + sz - 1) else None)"
    by (subst find_slot.simps) (simp only: Let_def list.case m af prod.case)
  then have "s' < e' \<and> sz - 1 \<le> e' - s'" "se = (s', s' + sz - 1)"
    using Nil by (auto split: if_splits)
  moreover have "?lim \<le> mx" by (simp add: not_less)
  ultimately show ?case using af unfolding slot_from_def by fastforce
qed

lemma find_resource_from:
  assumes "find_resource root sz mn mx a af = Some se"
  shows "slot_from (insert (r_start root) ((\<lambda>t. r_end t + 1) ` set (child root))) sz mn mx a af se"
proof (cases "child root")
  case Nil
  with assms find_slot_from [of "r_end root" "[]"] show ?thesis by (simp add: find_resource_def)
next
  case (Cons t ts)
  show ?thesis
  proof (cases "r_start t = 0")
    case True
    with assms Cons have "find_slot (r_end root) ts (r_end t + 1) sz mn mx a af = Some se"
      by (simp add: find_resource_def)
    from find_slot_from [OF this] show ?thesis by (rule slot_from_mono) (auto simp: Cons)
  next
    case False
    with assms Cons have "find_slot (r_end root) (t # ts) (r_start root) sz mn mx a af = Some se"
      by (simp add: find_resource_def)
    from find_slot_from [OF this] show ?thesis unfolding Cons .
  qed
qed

lemma slot_size: "slot_from A sz mn mx a af (s, e) \<Longrightarrow> unat e = unat s + unat (sz - 1)"
  unfolding slot_from_def using slot_end(1) by fastforce

text \<open>Without an alignment function: aligned, below the maximum, above the minimum or at 0.\<close>

lemma slot_plain:
  assumes k: "k < 32" and f: "slot_from (insert (r_start root) ((\<lambda>t. r_end t + 1) ` set (child root)))
    sz mn mx (2 ^ k) no_alignf (s, e)"
  shows "2 ^ k dvd unat s \<and> e \<le> mx \<and> (mn \<le> s \<or> s = 0 \<and> \<not> no_wrap k root mn)"
proof -
  from f obtain x "end" where x: "x \<in> insert (r_start root) ((\<lambda>t. r_end t + 1) ` set (child root))"
    and e: "end \<le> mx" "s = ALIGN (max x mn) (2 ^ k)" "s < end" "sz - 1 \<le> end - s" "e = s + sz - 1"
    by (auto simp: slot_from_def no_alignf_def)
  have "e \<le> end" using slot_end [OF e(3,4)] e(5) by (simp add: word_le_nat_alt)
  then have "e \<le> mx" using e(1) by simp
  moreover have "2 ^ k dvd unat s" using e(2) k by (simp add: ALIGN_aligned)
  moreover have "mn \<le> s \<or> s = 0 \<and> \<not> no_wrap k root mn"
  proof (cases "unat (max x mn) + 2 ^ k \<le> 2 ^ 32")
    case True
    from ALIGN_ge [OF k this] e(2) have "max x mn \<le> s" by simp
    then show ?thesis by simp
  next
    case False
    then have "s = 0" using ALIGN_wraps [OF k] e(2) by simp
    moreover have "\<not> no_wrap k root mn" using False x by (auto simp: no_wrap_def max_def split: if_splits)
    ultimately show ?thesis by blast
  qed
  ultimately show ?thesis by blast
qed

text \<open>Completeness: a slot at \<open>tgt\<close> makes the search succeed at or before it, in a real gap.\<close>

definition free_at :: "resource list \<Rightarrow> u32 \<Rightarrow> u32 \<Rightarrow> bool" where
  "free_at ts s e \<longleftrightarrow> (\<exists>i \<le> length ts. (\<forall>t \<in> set (take i ts). r_end t < s) \<and>
     (i < length ts \<longrightarrow> e < r_start (ts ! i)))"

lemma free_at_Cons: "r_end t < s \<Longrightarrow> free_at ts s e \<Longrightarrow> free_at (t # ts) s e"
  unfolding free_at_def by (elim exE) (rule_tac x = "Suc i" in exI, auto)

lemma free_at_0: "ts = [] \<or> e < r_start (hd ts) \<Longrightarrow> free_at ts s e"
  unfolding free_at_def by (rule exI [of _ 0]) (cases ts, auto)

lemma link_sibling_free: "free_at ts (r_start new) (r_end new) \<Longrightarrow> \<exists>i ts'. link_sibling new ts = Inr (i, ts')"
proof (induction ts)
  case (Cons t ts)
  from Cons.prems obtain i where i: "i \<le> length (t # ts)"
    "\<forall>t \<in> set (take i (t # ts)). r_end t < r_start new"
    "i < length (t # ts) \<longrightarrow> r_end new < r_start ((t # ts) ! i)" by (auto simp: free_at_def)
  show ?case
  proof (cases i)
    case (Suc j)
    with i have "free_at ts (r_start new) (r_end new)" by (auto simp: free_at_def)
    with Cons.IH i Suc show ?thesis by auto
  qed (use i in simp)
qed simp

lemma find_slot_complete:
  assumes k: "k < 32" "2 ^ k dvd tgt" and sz: "2 \<le> n" "0 < unat sz" "unat sz \<le> n" and mn: "unat mn \<le> tgt"
    and mx: "tgt + n - 1 \<le> unat mx" "tgt + n - 1 \<le> unat root_end"
  shows "siblings_ok lo root_end ts \<Longrightarrow> \<forall>t \<in> set ts. r_start t \<noteq> 0 \<Longrightarrow> unat start \<le> tgt \<Longrightarrow>
    \<forall>t \<in> set ts. unat (r_end t) < tgt \<or> tgt + n - 1 < unat (r_start t) \<Longrightarrow>
    \<forall>t \<in> set ts. start \<le> r_start t \<Longrightarrow>
    \<exists>s e. find_slot root_end ts start sz mn mx (2 ^ k) no_alignf = Some (s, e) \<and>
      unat s \<le> tgt \<and> start \<le> s \<and> s \<le> e \<and> e \<le> root_end \<and> free_at ts s e"
proof (induction ts arbitrary: start)
  case (Cons t ts)
  let ?st = "ALIGN (max start mn) (2 ^ k)"
  have lt: "tgt < 2 ^ 32" using mx(1) sz unat_bound32 [of mx] by simp
  have "unat (max start mn) \<le> tgt" using Cons.prems(3) mn by (simp add: max_def)
  note st = ALIGN_le [OF k this lt]
  from st(1) have start: "start \<le> ?st" by (simp add: word_le_nat_alt max_def split: if_splits)
  from Cons.prems(2) have nz: "r_start t \<noteq> 0" by simp
  then have g: "unat (gap_end root_end (t # ts)) = unat (r_start t) - 1" "0 < unat (r_start t)"
    by (simp_all add: gap_end_def unat_minus_one unat_gt_0)
  from Cons.prems(1) have t: "rwf t" "r_end t \<le> root_end" "\<forall>y \<in> set ts. r_end t < r_start y"
    by (simp_all add: siblings_ok_Cons)
  show ?case
  proof (cases "gap_ok root_end (t # ts) ?st sz mx")
    case True
    note fit = gap_sound [OF True]
    from fit(3) g have less: "?st + sz - 1 < r_start t" by (simp add: word_le_nat_alt word_less_nat_alt)
    moreover have "r_start t \<le> root_end" using rwf_range [OF t(1)] t(2) by (rule order.trans)
    ultimately have "?st + sz - 1 \<le> root_end" by simp
    moreover have "free_at (t # ts) ?st (?st + sz - 1)" using less by (intro free_at_0) simp
    ultimately show ?thesis using find_slot_hit [OF True] st(2) start fit(4) by blast
  next
    case False
    have before: "unat (r_end t) < tgt"
    proof (rule ccontr)
      assume "\<not> ?thesis"
      with Cons.prems(4) have "tgt + n - 1 < unat (r_start t)" by simp
      with g have "tgt + n - 1 \<le> unat (gap_end root_end (t # ts))" by linarith
      with mx(1) have "tgt + n - 1 \<le> unat (min (gap_end root_end (t # ts)) mx)"
        by (simp add: min_def)
      from slot_fits [OF sz st(2) this] False show False by (simp add: gap_ok_def)
    qed
    then have next_start: "unat (r_end t + 1) = unat (r_end t) + 1"
      using lt by (simp add: unat_word_ariths)
    have "\<forall>y \<in> set ts. r_end t + 1 \<le> r_start y"
      using t(3) next_start by (simp add: word_le_nat_alt word_less_nat_alt Suc_le_eq)
    moreover have "unat (r_end t + 1) \<le> tgt" using before next_start by simp
    ultimately obtain s e where
      se: "find_slot root_end ts (r_end t + 1) sz mn mx (2 ^ k) no_alignf = Some (s, e)"
      "unat s \<le> tgt" "r_end t + 1 \<le> s" "s \<le> e" "e \<le> root_end" "free_at ts s e"
      using Cons.IH [of "r_end t + 1"] Cons.prems(1,2,4) by (auto simp: siblings_ok_Cons)
    have s: "r_end t < s" using se(3) next_start by (simp add: word_le_nat_alt word_less_nat_alt)
    have "start \<le> r_start t" using Cons.prems(5) by simp
    with rwf_range [OF t(1)] s have "start \<le> s" by simp
    with se s show ?thesis by (auto simp: find_slot_skip [OF False] intro: free_at_Cons)
  qed
next
  case Nil
  let ?st = "ALIGN (max start mn) (2 ^ k)"
  have lt: "tgt < 2 ^ 32" using mx(1) sz unat_bound32 [of mx] by simp
  have "unat (max start mn) \<le> tgt" using Nil.prems(3) mn by (simp add: max_def)
  note st = ALIGN_le [OF k this lt]
  from st(1) have start: "start \<le> ?st" by (simp add: word_le_nat_alt max_def split: if_splits)
  have "tgt + n - 1 \<le> unat (min (gap_end root_end []) mx)"
    using mx by (simp add: min_def gap_end_def)
  from slot_fits [OF sz st(2) this] have ok: "gap_ok root_end [] ?st sz mx" by (simp add: gap_ok_def)
  with gap_sound [OF ok] st(2) start find_slot_hit [OF ok] show ?case
    by (auto simp: gap_end_def intro: free_at_0)
qed

text \<open>A resource that does not overlap any child.\<close>

definition free_range :: "resource \<Rightarrow> nat \<Rightarrow> nat \<Rightarrow> bool" where
  "free_range root s e \<longleftrightarrow> unat (r_start root) \<le> s \<and> s \<le> e \<and> e \<le> unat (r_end root) \<and>
     (\<forall>t \<in> set (child root). unat (r_end t) < s \<or> e < unat (r_start t))"

lemma request_free:
  assumes "r_start root \<le> s" "s \<le> e" "e \<le> r_end root" "free_at (child root) s e"
  shows "\<exists>i root'. request_resource_nolock root (set_range s e new) = Inr (i, root')"
  using link_sibling_free [of "child root" "set_range s e new"] assms
  by (auto simp: request_resource_nolock_def)

lemma find_resource_complete:
  assumes wf: "rwf root" and k: "k < 32" "2 ^ k dvd tgt" and sz: "2 \<le> n" "0 < unat sz" "unat sz \<le> n"
    and mn: "unat mn \<le> tgt" and mx: "tgt + n - 1 \<le> unat mx"
    and free: "free_range root tgt (tgt + n - 1)"
  shows "\<exists>s e. find_resource root sz mn mx (2 ^ k) no_alignf = Some (s, e) \<and> unat s \<le> tgt \<and>
    r_start root \<le> s \<and> s \<le> e \<and> e \<le> r_end root \<and> free_at (child root) s e"
proof -
  from wf have sib: "siblings_ok (r_start root) (r_end root) (child root)" by (simp add: rwf_iff [of root])
  from free have lo: "unat (r_start root) \<le> tgt" and hi: "tgt + n - 1 \<le> unat (r_end root)"
    and ch: "\<forall>t \<in> set (child root). unat (r_end t) < tgt \<or> tgt + n - 1 < unat (r_start t)"
    by (auto simp: free_range_def)
  note complete = find_slot_complete [OF k sz mn mx hi]
  show ?thesis
  proof (cases "child root")
    case Nil
    with complete [of "r_start root" "[]" "r_start root"] lo show ?thesis
      by (auto simp: find_resource_def)
  next
    case (Cons t ts)
    from sib Cons have t: "rwf t" "r_start root \<le> r_start t" "siblings_ok (r_start root) (r_end root) ts"
      "\<forall>y \<in> set ts. r_end t < r_start y" by (simp_all add: siblings_ok_Cons)
    then have nz: "\<forall>y \<in> set ts. r_start y \<noteq> 0" by auto
    show ?thesis
    proof (cases "r_start t = 0")
      case True
      then have "r_start root = 0" using t(2) by simp
      moreover have tgt: "unat (r_end t) < tgt" using ch Cons True by auto
      then have "unat (r_end t + 1) = unat (r_end t) + 1"
        using mx sz unat_bound32 [of mx] by (simp add: unat_word_ariths)
      ultimately show ?thesis
        using complete [OF t(3) nz, of "r_end t + 1"] ch Cons True t(4) tgt
        by (fastforce simp: find_resource_def word_le_nat_alt word_less_nat_alt intro: free_at_Cons)
    next
      case False
      have "\<forall>y \<in> set (t # ts). r_start root \<le> r_start y" using sib Cons by (simp add: siblings_ok_def)
      then show ?thesis
        using complete [of "r_start root" "t # ts" "r_start root"] sib ch Cons nz lo False
        by (simp add: find_resource_def)
    qed
  qed
qed

lemma request_Inr_free:
  assumes wf: "rwf root" and r: "request_resource_nolock root new = Inr (i, root')"
  shows "free_range root (unat (r_start new)) (unat (r_end new))"
    and "set (child root') = insert new (set (child root))"
proof -
  let ?cs = "child root"
  note R = request_resource_nolock_Inr [OF r]
  from wf have sib: "siblings_ok (r_start root) (r_end root) ?cs" by (simp add: rwf_iff [of root])
  have "r_end t < r_start new \<or> r_end new < r_start t" if "t \<in> set ?cs" for t
  proof -
    from that have "t \<in> set (take i ?cs) \<or> t \<in> set (drop i ?cs)"
      by (metis Un_iff append_take_drop_id set_append)
    moreover have "r_end new < r_start t" if "t \<in> set (drop i ?cs)"
      using siblings_ok_drop [OF sib _ _ that] R that by (cases "i < length ?cs") auto
    ultimately show ?thesis using R by blast
  qed
  with R show "free_range root (unat (r_start new)) (unat (r_end new))"
    by (auto simp: free_range_def word_le_nat_alt word_less_nat_alt)
  have "child root' = take i ?cs @ new # drop i ?cs" using R by simp
  then have "set (child root') = insert new (set (take i ?cs) \<union> set (drop i ?cs))" by simp
  also have "set (take i ?cs) \<union> set (drop i ?cs) = set ?cs"
    by (metis append_take_drop_id set_append)
  finally show "set (child root') = insert new (set ?cs)" .
qed

lemma allocate_resource_Inr:
  assumes "allocate_resource root new sz mn mx al af = Inr (root', new')"
  obtains s e i where "find_resource root sz mn mx al af = Some (s, e)"
    "request_resource_nolock root new' = Inr (i, root')" "new' = set_range s e new"
  using assms by (auto simp: allocate_resource_def Let_def split: option.splits sum.splits)

text \<open>
  C24: What \<open>allocate_resource\<close> hands out on a well-formed tree, whatever alignment function it
  is given, is a free range inside the parent of exactly the requested size, linked so that
  the tree stays well-formed. Without an alignment function it is also aligned, ends within
  the caller's maximum, and starts at or above the caller's minimum, but for one case: where
  the minimum or the end of a child lies in the last aligned block of the address space,
  rounding up wraps around, and the range may start at 0.
\<close>

theorem allocate_resource_sound:
  assumes wf: "rwf root" "child new = []" and k: "k < 32"
    and a: "allocate_resource root new sz mn mx (2 ^ k) af = Inr (root', new')"
  shows "rwf root' \<and> set (child root') = insert new' (set (child root)) \<and>
    free_range root (unat (r_start new')) (unat (r_end new')) \<and>
    unat (r_end new') = unat (r_start new') + unat (sz - 1) \<and>
    (af = no_alignf \<longrightarrow> 2 ^ k dvd unat (r_start new') \<and> r_end new' \<le> mx \<and>
      (mn \<le> r_start new' \<or> r_start new' = 0 \<and> \<not> no_wrap k root mn))"
  using a
proof (rule allocate_resource_Inr)
  fix s e i
  assume f: "find_resource root sz mn mx (2 ^ k) af = Some (s, e)"
    and r: "request_resource_nolock root new' = Inr (i, root')" and new': "new' = set_range s e new"
  from request_resource_nolock_Inr [OF r] have "s \<le> e" by (simp add: new')
  then have "rwf new'" using wf(2) by (simp add: new' rwf_iff [of "set_range s e new"])
  from request_resource_nolock_wf [OF r wf(1) this] have "rwf root'" .
  moreover note request_Inr_free [OF wf(1) r] slot_size [OF find_resource_from [OF f]]
  moreover have "2 ^ k dvd unat s \<and> e \<le> mx \<and> (mn \<le> s \<or> s = 0 \<and> \<not> no_wrap k root mn)" if "af = no_alignf"
    using find_resource_from [OF f] unfolding that by (rule slot_plain [OF k])
  ultimately show ?thesis unfolding new' set_range_sel by (intro conjI impI) simp_all
qed

text \<open>
  C25: Without an alignment function, \<open>allocate_resource\<close> succeeds whenever the parent has a
  free, aligned range of the requested size within the caller's limits, and what it hands
  out starts at or before that range: allocation is first fit. For a request of one byte the
  free range has to have two: the code refuses a gap of a single byte.
\<close>

theorem allocate_resource_complete:
  assumes "rwf root" "k < 32" "2 ^ k dvd tgt" "0 < unat sz" "n = max 2 (unat sz)" "unat mn \<le> tgt"
    and "tgt + n - 1 \<le> unat mx" "free_range root tgt (tgt + n - 1)"
  shows "\<exists>root' new'. allocate_resource root new sz mn mx (2 ^ k) no_alignf = Inr (root', new') \<and>
    unat (r_start new') \<le> tgt"
proof -
  have n: "2 \<le> n" "unat sz \<le> n" using assms(5) by simp_all
  from find_resource_complete [OF assms(1-3) n(1) assms(4) n(2) assms(6-8)] obtain s e where
    f: "find_resource root sz mn mx (2 ^ k) no_alignf = Some (s, e)" "unat s \<le> tgt"
      "r_start root \<le> s" "s \<le> e" "e \<le> r_end root" "free_at (child root) s e" by blast
  from request_free [OF f(3-6), of new] obtain i root' where
    "request_resource_nolock root (set_range s e new) = Inr (i, root')" by blast
  with f(1,2) show ?thesis by (simp add: allocate_resource_def)
qed

definition pci_bus :: resource where
  "pci_bus = Resource ''bus'' 0x1000 0x8fff 0x200
     [Resource ''a'' 0x1000 0x17ff 0x80000200 [], Resource ''b'' 0x4000 0x4fff 0x200 []]"

definition fresh :: resource where
  "fresh = Resource ''new'' 0 0 0x200 []"

lemma pci_bus_wf: "rwf pci_bus"
  by (simp add: pci_bus_def rwf.simps)

theorem allocate_resource_sound_witness:
  "allocate_resource pci_bus fresh 0x1000 0 0xffffffff (2 ^ 12) no_alignf =
     Inr (set_child [child pci_bus ! 0, set_range 0x2000 0x2fff fresh, child pci_bus ! 1] pci_bus,
          set_range 0x2000 0x2fff fresh) \<and>
   rwf (set_child [child pci_bus ! 0, set_range 0x2000 0x2fff fresh, child pci_bus ! 1] pci_bus)"
proof -
  have a: "allocate_resource pci_bus fresh 0x1000 0 0xffffffff (2 ^ 12) no_alignf =
     Inr (set_child [child pci_bus ! 0, set_range 0x2000 0x2fff fresh, child pci_bus ! 1] pci_bus,
          set_range 0x2000 0x2fff fresh)" by code_simp
  have "child fresh = []" by (simp add: fresh_def)
  from allocate_resource_sound [OF pci_bus_wf this _ a] a show ?thesis by simp
qed

theorem allocate_resource_complete_witness:
  "\<exists>root' new'. allocate_resource pci_bus fresh 0x1000 0 0xffffffff (2 ^ 12) no_alignf = Inr (root', new') \<and>
    unat (r_start new') \<le> 0x6000"
proof -
  have "(2 ^ 12 :: nat) dvd 0x6000" by simp
  moreover have "free_range pci_bus 0x6000 (0x6000 + 0x1000 - 1)"
    by (simp add: free_range_def pci_bus_def)
  moreover have "(12 :: nat) < 32" "0 < unat (0x1000 :: u32)" "0x1000 = max 2 (unat (0x1000 :: u32))"
    "unat (0 :: u32) \<le> 0x6000" "0x6000 + 0x1000 - 1 \<le> unat (0xffffffff :: u32)" by simp_all
  ultimately show ?thesis by (intro allocate_resource_complete [OF pci_bus_wf])
qed

text \<open>
  A one-byte request is refused although the byte 2 is free: the test of the gap is
  \<open>new->start < new->end\<close>.
\<close>

lemma allocate_one_byte_refused:
  "rwf (Resource ''io'' 0 3 0 [Resource ''a'' 0 1 0 [], Resource ''b'' 3 3 0 []]) \<and>
   free_range (Resource ''io'' 0 3 0 [Resource ''a'' 0 1 0 [], Resource ''b'' 3 3 0 []]) 2 2 \<and>
   allocate_resource (Resource ''io'' 0 3 0 [Resource ''a'' 0 1 0 [], Resource ''b'' 3 3 0 []])
     fresh 1 0 0xffffffff 1 no_alignf = Inl (Err EBUSY)"
  by (simp add: rwf.simps free_range_def allocate_resource_def find_resource_def find_slot_step
      ALIGN_def gap_end_def Let_def)

text \<open>
  The case where rounding wraps around does occur: rounding a minimum in
  the top page of the address space up to a page boundary gives 0, and
  \<open>allocate_resource\<close> hands out a range far below the caller's minimum.
\<close>

theorem allocate_resource_below_minimum:
  assumes "mn \<noteq> 0" "0xfffff000 < mn"
  shows "allocate_resource (Resource nm 0 0xffffffff fl []) fresh 0x800 mn 0xffffffff 0x1000 no_alignf =
    Inr (Resource nm 0 0xffffffff fl [set_range 0 0x7ff fresh], set_range 0 0x7ff fresh)"
proof -
  have "ALIGN mn 0x1000 = 0"
  proof (rule word_unat_eq_iff [THEN iffD2])
    have b: "0xfffff001 \<le> unat mn" using assms(2) by (simp add: word_less_nat_alt)
    have "unat (mn + 0xfff) = unat mn + 0xfff - 2 ^ 32"
      using b unat_bound32 [of mn] by (simp add: unat_word_ariths mod_if)
    moreover have "unat mn + 0xfff - 2 ^ 32 < 0x1000" using unat_bound32 [of mn] by simp
    ultimately have "unat (mn + 0xfff) div 2 ^ 12 = 0" by simp
    then show "unat (ALIGN mn 0x1000) = unat (0 :: u32)"
      using unat_and_not_mask [of "mn + 0xfff" 12] by (simp add: ALIGN_def)
  qed
  then have st: "ALIGN (max 0 mn) 0x1000 = 0" by simp
  then have "find_slot 0xffffffff [] 0 0x800 mn 0xffffffff 0x1000 no_alignf = Some (0, 0x7ff)"
    using find_slot_hit [of "0xffffffff" "[]" 0 mn "0x1000" "0x800" "0xffffffff"]
    by (simp add: gap_ok_def gap_end_def)
  then show ?thesis
    by (simp add: allocate_resource_def find_resource_def request_resource_nolock_def fresh_def
        set_range_def set_child_def Let_def)
qed

theorem allocate_resource_below_minimum_witness:
  "allocate_resource (Resource ''mem'' 0 0xffffffff 0 []) fresh 0x800 0xfffff800 0xffffffff 0x1000 no_alignf =
    Inr (Resource ''mem'' 0 0xffffffff 0 [set_range 0 0x7ff fresh], set_range 0 0x7ff fresh)"
  by (rule allocate_resource_below_minimum) simp_all

section \<open>Regions\<close>

lemma region_loop_request:
  "request_resource_nolock parent res = Inr (i, parent') \<Longrightarrow> region_loop parent res = Some ([i], parent')"
  by (subst region_loop.simps) simp

lemma region_loop_conflict:
  "request_resource_nolock parent res = Inl (i # p) \<Longrightarrow> region_loop parent res =
     (if busy (child parent ! i) then None
      else case region_loop (child parent ! i) res of
             None \<Rightarrow> None
           | Some (p, c) \<Rightarrow> Some (i # p, set_child ((child parent)[i := c]) parent))"
  by (subst region_loop.simps) simp

lemma region_loop_outside:
  "request_resource_nolock parent res = Inl [] \<Longrightarrow> region_loop parent res = None"
  by (subst region_loop.simps) simp

text \<open>How \<open>region_loop\<close> succeeds: it links into the parent, or descends into one child.\<close>

lemma region_loop_cases [consumes 1, case_names link descend]:
  assumes "region_loop parent res = Some (p, parent')"
  obtains i where "request_resource_nolock parent res = Inr (i, parent')" "p = [i]"
  | i q c where "request_resource_nolock parent res = Inl [i]" "i < length (child parent)"
      "\<not> busy (child parent ! i)" "region_loop (child parent ! i) res = Some (q, c)" "p = i # q"
      "parent' = set_child ((child parent)[i := c]) parent"
proof (cases "request_resource_nolock parent res")
  case (Inr ip)
  with assms that(1) show ?thesis by (cases ip) (auto simp: region_loop_request)
next
  case (Inl l)
  show ?thesis
  proof (cases l)
    case Nil
    with Inl assms show ?thesis by (simp add: region_loop_outside)
  next
    case (Cons i l')
    with Inl have "l' = [] \<and> i < length (child parent)" using request_conflict_child by blast
    with Inl Cons assms that(2) show ?thesis
      by (auto simp: region_loop_conflict split: if_splits option.splits)
  qed
qed

lemma region_loop_same_node:
  assumes "region_loop parent res = Some (p, parent')"
  shows "parent' = set_child (child parent') parent"
  using assms
  by (cases rule: region_loop_cases) (auto dest: request_resource_nolock_Inr)

lemma region_loop_inside:
  assumes "region_loop parent res = Some (p, parent')"
  shows "r_start parent \<le> r_start res" "r_end res \<le> r_end parent" "r_start res \<le> r_end res"
  using assms
  by (cases rule: region_loop_cases; auto dest!: request_resource_nolock_Inr request_resource_nolock_Inl)+

lemma region_loop_wf:
  "region_loop parent res = Some (p, parent') \<Longrightarrow> rwf parent \<Longrightarrow> rwf res \<Longrightarrow> rwf parent'"
proof (induction parent res arbitrary: p parent' rule: region_loop.induct)
  case (1 parent res)
  from "1.prems"(1) show ?case
  proof (cases rule: region_loop_cases)
    case (link i)
    with "1.prems" show ?thesis by (blast intro: request_resource_nolock_wf)
  next
    case (descend i q c)
    let ?c = "child parent ! i"
    have "rwf ?c" using rwf_child "1.prems"(2) descend(2) by simp
    with "1.IH" descend(1,3,4) "1.prems"(3) have "rwf c" by blast
    moreover have "r_start c = r_start ?c" "r_end c = r_end ?c"
      using region_loop_same_node [OF descend(4)] by (metis set_child_sel(2), metis set_child_sel(3))
    ultimately have "siblings_ok (r_start parent) (r_end parent) ((child parent)[i := c])"
      using "1.prems"(2) descend(2) by (intro siblings_ok_update) (simp_all add: rwf_iff [of parent])
    with descend(6) "1.prems"(2) show ?thesis
      by (simp add: rwf_iff [of parent] rwf_iff [of "set_child cs parent" for cs])
  qed
qed

text \<open>Releasing walks past what lies before the region.\<close>

lemma release_loop_Cons:
  "release_loop (r # rs) s e =
     (if r_start r \<le> s \<and> e \<le> r_end r then
        if \<not> busy r then map_option (\<lambda>cs. set_child cs r # rs) (release_loop (child r) s e)
        else if r_start r \<noteq> s \<or> r_end r \<noteq> e then None else Some rs
      else map_option ((#) r) (release_loop rs s e))"
  by (cases r) (auto simp: busy_def set_child_def split: option.split)

lemma release_loop_skip:
  "\<forall>t \<in> set xs. r_end t < s \<Longrightarrow> s \<le> e \<Longrightarrow> release_loop (xs @ ys) s e = map_option ((@) xs) (release_loop ys s e)"
proof (induction xs)
  case Nil
  then show ?case by (cases "release_loop ys s e") simp_all
next
  case (Cons x xs)
  then have "\<not> e \<le> r_end x" by auto
  with Cons show ?case by (cases "release_loop ys s e") (simp_all add: release_loop_Cons)
qed

lemma unlink_sibling_at: "i \<le> length cs \<Longrightarrow> unlink_sibling i (take i cs @ x # drop i cs) = Some cs"
  by (induction i cs rule: unlink_sibling.induct) auto

lemma region_loop_release:
  "region_loop parent res = Some (p, parent') \<Longrightarrow> busy res \<Longrightarrow>
   release_loop (child parent') (r_start res) (r_end res) = Some (child parent) \<and>
   release_at parent' p = Inr parent \<and> p \<noteq> []"
proof (induction parent res arbitrary: p parent' rule: region_loop.induct)
  case (1 parent res)
  let ?cs = "child parent"
  note inside = region_loop_inside [OF "1.prems"(1)]
  from "1.prems"(1) show ?case
  proof (cases rule: region_loop_cases)
    case (link i)
    note R = request_resource_nolock_Inr [OF link(1)]
    then have "child parent' = take i ?cs @ res # drop i ?cs" by simp
    moreover have "release_loop (res # drop i ?cs) (r_start res) (r_end res) = Some (drop i ?cs)"
      using "1.prems"(2) by (simp add: release_loop_Cons)
    ultimately show ?thesis
      using R link(2) inside(3) by (simp add: release_loop_skip release_resource_def unlink_sibling_at)
  next
    case (descend i q c)
    let ?c = "?cs ! i"
    from "1.IH" descend(1,3,4) "1.prems"(2) have IH:
      "release_loop (child c) (r_start res) (r_end res) = Some (child ?c)"
      "release_at c q = Inr ?c" "q \<noteq> []" by blast+
    from region_loop_same_node [OF descend(4)] have c: "r_start c = r_start ?c" "r_end c = r_end ?c"
      "r_flags c = r_flags ?c" "set_child (child ?c) c = ?c"
      by (metis set_child_sel(2), metis set_child_sel(3), metis set_child_sel(4), metis set_child_sel(6,7))
    have before: "\<forall>t \<in> set (take i ?cs). r_end t < r_start res"
      using request_resource_nolock_Inl [OF descend(1)] by auto
    have "release_loop (c # drop (Suc i) ?cs) (r_start res) (r_end res) = Some (?c # drop (Suc i) ?cs)"
      using region_loop_inside [OF descend(4)] descend(3) c IH(1) by (simp add: release_loop_Cons busy_def)
    then have "release_loop (?cs[i := c]) (r_start res) (r_end res) = Some ?cs"
      using before inside(3) descend(2)
      by (simp add: upd_conv_take_nth_drop release_loop_skip id_take_nth_drop [symmetric])
    moreover have "release_at (set_child (?cs[i := c]) parent) (i # q) = Inr parent"
      using IH(2,3) descend(2) by (cases q) auto
    ultimately show ?thesis using descend(5,6) by simp
  qed
qed

text \<open>
  C26: Releasing a region undoes requesting it: after a successful \<open>__request_region\<close>,
  however deep it was linked, \<open>__release_region\<close> of the same range gives back exactly the
  old tree; \<open>__check_region\<close> leaves the tree as it was and succeeds just when the request
  would.
\<close>

theorem region_roundtrip:
  assumes "request_region kmem parent start n nm = Some (p, parent')"
  shows "release_region parent' start n = Some parent \<and> release_at parent' p = Inr parent \<and>
    snd (check_region kmem parent start n) = parent"
proof -
  from assms have kmem: kmem and loop:
    "region_loop parent (Resource nm start (start + n - 1) IORESOURCE_BUSY []) = Some (p, parent')"
    by (auto simp: request_region_def split: if_splits)
  note rel = region_loop_release [OF loop]
  have node: "set_child (child parent) parent' = parent"
    using region_loop_same_node [OF loop] by (metis set_child_sel(6,7))
  have check: "snd (check_region kmem parent start n) = parent"
  proof (cases "request_region kmem parent start n ''check-region''")
    case None
    then show ?thesis by (simp add: check_region_def)
  next
    case (Some pp)
    obtain p2 q where pp: "pp = (p2, q)" by (cases pp)
    with Some kmem have "region_loop parent (Resource ''check-region'' start (start + n - 1)
        IORESOURCE_BUSY []) = Some (p2, q)" by (simp add: request_region_def)
    from region_loop_release [OF this] have "release_at q p2 = Inr parent" by (simp add: busy_def)
    with Some pp show ?thesis by (simp add: check_region_def)
  qed
  show ?thesis using rel node check by (simp add: release_region_def busy_def)
qed

theorem region_roundtrip_witness:
  "\<exists>p bus'. request_region True pci_bus 0x4100 0x10 ''uart'' = Some (p, bus') \<and> p = [1, 0] \<and>
     release_region bus' 0x4100 0x10 = Some pci_bus"
proof -
  obtain bus' where r: "request_region True pci_bus 0x4100 0x10 ''uart'' = Some ([1, 0], bus')"
    by (simp add: request_region_def pci_bus_def region_loop.simps request_resource_nolock_def busy_def
        set_child_def)
  from region_roundtrip [OF r] r show ?thesis by blast
qed

section \<open>Insertion\<close>

text \<open>All the resources of a tree below its root, as ranges with their flags.\<close>

definition label :: "resource \<Rightarrow> u32 \<times> u32 \<times> u32" where
  "label r = (r_start r, r_end r, r_flags r)"

fun below :: "resource \<Rightarrow> (u32 \<times> u32 \<times> u32) multiset" where
  "below (Resource nm s e f cs) = mset (map label cs) + sum_list (map below cs)"

definition below_all :: "resource list \<Rightarrow> (u32 \<times> u32 \<times> u32) multiset" where
  "below_all cs = mset (map label cs) + sum_list (map below cs)"

lemma below_child: "below r = below_all (child r)"
  by (cases r) (simp add: below_all_def)

lemma below_all_simps [simp]:
  "below_all [] = {#}" "below_all (c # cs) = {#label c#} + below c + below_all cs"
  "below_all (xs @ ys) = below_all xs + below_all ys"
  by (simp_all add: below_all_def algebra_simps)

lemma below_all_update:
  assumes "i < length cs" "label c = label (cs ! i)"
  shows "below_all (cs[i := c]) + below (cs ! i) = below_all cs + below c"
proof -
  have "below_all cs = below_all (take i cs @ cs ! i # drop (Suc i) cs)"
    using assms(1) by (simp flip: id_take_nth_drop)
  with assms show ?thesis by (simp add: upd_conv_take_nth_drop algebra_simps)
qed

lemma below_all_split: "below_all (take i cs) + below_all (drop i cs) = below_all cs"
  by (metis append_take_drop_id below_all_simps(3))

lemma swallow_Cons:
  "swallow new (n # ns) =
     (if r_start n < r_start new \<or> r_end new < r_end n then Inl 0
      else if ns = [] \<or> r_end new < r_start (hd ns) then Inr 1
      else case swallow new ns of Inl i \<Rightarrow> Inl (Suc i) | Inr k \<Rightarrow> Inr (Suc k))"
  by (cases ns) simp_all

lemma swallow_Inr:
  "swallow new ns = Inr k \<Longrightarrow> k \<le> length ns \<and> (ns \<noteq> [] \<longrightarrow> k \<noteq> 0) \<and>
     (\<forall>t \<in> set (take k ns). r_start new \<le> r_start t \<and> r_end t \<le> r_end new) \<and>
     (k < length ns \<longrightarrow> r_end new < r_start (ns ! k))"
proof (induction ns arbitrary: k)
  case (Cons n ns)
  from Cons.prems have n: "r_start new \<le> r_start n" "r_end n \<le> r_end new"
    by (auto simp: swallow_Cons not_less split: if_splits)
  show ?case
  proof (cases "ns = [] \<or> r_end new < r_start (hd ns)")
    case True
    with Cons.prems n have "k = 1" unfolding swallow_Cons by (auto split: if_splits)
    with True n show ?thesis by (cases ns) auto
  next
    case False
    with Cons.prems n obtain k' where "swallow new ns = Inr k'" "k = Suc k'"
      unfolding swallow_Cons by (auto split: if_splits sum.splits)
    with Cons.IH n show ?thesis by auto
  qed
qed simp

lemma swallow_Inl:
  "swallow new ns = Inl j \<Longrightarrow> j < length ns \<and>
     (r_start (ns ! j) < r_start new \<or> r_end new < r_end (ns ! j))"
proof (induction ns arbitrary: j)
  case (Cons n ns)
  show ?case
  proof (cases "r_start n < r_start new \<or> r_end new < r_end n")
    case True
    with Cons.prems show ?thesis unfolding swallow_Cons by auto
  next
    case False
    with Cons.prems obtain j' where "swallow new ns = Inl j'" "j = Suc j'"
      unfolding swallow_Cons by (auto split: if_splits sum.splits)
    with Cons.IH show ?thesis by auto
  qed
qed simp

definition encloses :: "resource \<Rightarrow> resource \<Rightarrow> bool" where
  "encloses first new \<longleftrightarrow> r_start first \<le> r_start new \<and> r_end new \<le> r_end first \<and>
     \<not> (r_start first = r_start new \<and> r_end first = r_end new)"

lemma insert_request:
  "request_resource_nolock parent new = Inr (i, parent') \<Longrightarrow> insert_resource_nolock parent new = Inr parent'"
  by (subst insert_resource_nolock.simps) simp

lemma insert_outside:
  "request_resource_nolock parent new = Inl [] \<Longrightarrow> insert_resource_nolock parent new = Inl []"
  by (subst insert_resource_nolock.simps) simp

lemma insert_descend:
  "request_resource_nolock parent new = Inl (i # p) \<Longrightarrow> encloses (child parent ! i) new \<Longrightarrow>
   insert_resource_nolock parent new =
     (case insert_resource_nolock (child parent ! i) new of
        Inl p \<Rightarrow> Inl (i # p)
      | Inr first' \<Rightarrow> Inr (set_child ((child parent)[i := first']) parent))"
  by (subst insert_resource_nolock.simps) (auto simp: encloses_def Let_def split: sum.split)

lemma insert_swallow:
  "request_resource_nolock parent new = Inl (i # p) \<Longrightarrow> \<not> encloses (child parent ! i) new \<Longrightarrow>
   insert_resource_nolock parent new =
     (case swallow new (drop i (child parent)) of
        Inl j \<Rightarrow> Inl [i + j]
      | Inr k \<Rightarrow> Inr (set_child (take i (child parent) @
          [set_child (take k (drop i (child parent))) new] @ drop (i + k) (child parent)) parent))"
  by (subst insert_resource_nolock.simps) (auto simp: encloses_def Let_def not_le split: sum.split)

lemma insert_cases [case_names request outside descend swallow]:
  obtains i parent' where "request_resource_nolock parent new = Inr (i, parent')"
    "insert_resource_nolock parent new = Inr parent'"
  | "request_resource_nolock parent new = Inl []" "insert_resource_nolock parent new = Inl []"
  | i where "request_resource_nolock parent new = Inl [i]" "i < length (child parent)"
      "encloses (child parent ! i) new"
      "insert_resource_nolock parent new =
         (case insert_resource_nolock (child parent ! i) new of
            Inl p \<Rightarrow> Inl (i # p)
          | Inr first' \<Rightarrow> Inr (set_child ((child parent)[i := first']) parent))"
  | i where "request_resource_nolock parent new = Inl [i]" "i < length (child parent)"
      "\<not> encloses (child parent ! i) new"
      "insert_resource_nolock parent new =
         (case swallow new (drop i (child parent)) of
            Inl j \<Rightarrow> Inl [i + j]
          | Inr k \<Rightarrow> Inr (set_child (take i (child parent) @
              [set_child (take k (drop i (child parent))) new] @ drop (i + k) (child parent)) parent))"
proof (cases "request_resource_nolock parent new")
  case (Inr ip)
  with that(1) insert_request show ?thesis by (cases ip) auto
next
  case (Inl l)
  show ?thesis
  proof (cases l)
    case Nil
    with Inl that(2) insert_outside show ?thesis by simp
  next
    case (Cons i l')
    with Inl have "l' = [] \<and> i < length (child parent)" using request_conflict_child by blast
    with Inl Cons that(3,4) insert_descend insert_swallow show ?thesis
      by (cases "encloses (child parent ! i) new") auto
  qed
qed

text \<open>The siblings after \<open>new\<close> has swallowed some of them.\<close>

lemma siblings_ok_swallow:
  assumes sib: "siblings_ok s e cs" and i: "i < length cs" "\<forall>t \<in> set (take i cs). r_end t < r_start new"
    and k: "swallow new (drop i cs) = Inr k" and new: "r_start new \<le> r_end new" "s \<le> r_start new" "r_end new \<le> e"
  shows "siblings_ok s e (take i cs @ [set_child (take k (drop i cs)) new] @ drop (i + k) cs)"
    and "rwf (set_child (take k (drop i cs)) new)"
proof -
  note K = swallow_Inr [OF k]
  have mid: "siblings_ok s e (take k (drop i cs))"
    using siblings_ok_split(1) [OF siblings_ok_split(2) [OF sib]] .
  then have "siblings_ok (r_start new) (r_end new) (take k (drop i cs))"
    using K by (simp add: siblings_ok_def)
  then show wf: "rwf (set_child (take k (drop i cs)) new)"
    using new(1) by (simp add: rwf_iff [of "set_child (take k (drop i cs)) new"])
  have right: "\<forall>t \<in> set (drop (i + k) cs). r_end new < r_start t"
  proof (cases "i + k < length cs")
    case True
    with K have "r_end new < r_start (cs ! (i + k))" by simp
    with siblings_ok_drop [OF sib _ True] show ?thesis by blast
  qed simp
  have "siblings_ok s e (take i cs)" "siblings_ok s e (drop (i + k) cs)"
    using siblings_ok_split [OF sib] by blast+
  moreover have "\<forall>x \<in> set (take i cs). \<forall>y \<in> set (drop (i + k) cs). r_end x < r_start y"
    using siblings_ok_split(3) [OF sib, of _ i] set_drop_subset_set_drop [of i "i + k" cs] by auto
  ultimately show "siblings_ok s e (take i cs @ [set_child (take k (drop i cs)) new] @ drop (i + k) cs)"
    using wf new right i(2) by (simp add: siblings_simps)
qed

lemma sum_below: "below_all (take k xs) + below_all (drop k xs) = below_all xs"
  by (rule below_all_split)

lemma request_below:
  assumes "request_resource_nolock parent new = Inr (i, parent')"
  shows "below parent' = below parent + {#label new#} + below new"
proof -
  have "child parent' = take i (child parent) @ new # drop i (child parent)"
    using request_resource_nolock_Inr [OF assms] by simp
  then show ?thesis by (simp add: below_child sum_below [of i "child parent", symmetric])
qed

lemma insert_same_node:
  "insert_resource_nolock parent new = Inr parent' \<Longrightarrow> parent' = set_child (child parent') parent"
proof (cases parent new rule: insert_cases)
  case (request i parent'')
  then show "insert_resource_nolock parent new = Inr parent' \<Longrightarrow> ?thesis"
    by (auto dest: request_resource_nolock_Inr)
qed (auto split: sum.splits)

text \<open>A successful insertion keeps the tree well-formed and loses no resource.\<close>

lemma insert_resource_nolock_ok:
  "insert_resource_nolock parent new = Inr parent' \<Longrightarrow> rwf parent \<Longrightarrow> rwf new \<Longrightarrow>
   rwf parent' \<and> (child new = [] \<longrightarrow> below parent' = below parent + {#label new#})"
proof (induction parent new arbitrary: parent' rule: insert_resource_nolock.induct)
  case (1 parent new)
  let ?cs = "child parent"
  have sib: "siblings_ok (r_start parent) (r_end parent) ?cs"
    using "1.prems"(2) by (simp add: rwf_iff [of parent])
  have wfI: "rwf (set_child cs parent)" if "siblings_ok (r_start parent) (r_end parent) cs" for cs
    using that rwf_range [OF "1.prems"(2)] by (simp add: rwf_iff [of "set_child cs parent"])
  show ?case
  proof (cases parent new rule: insert_cases)
    case (request i parent'')
    with "1.prems" request_resource_nolock_wf request_below [OF request(1)] show ?thesis
      by (auto simp: below_child)
  next
    case outside
    with "1.prems" show ?thesis by simp
  next
    case (descend i)
    let ?first = "?cs ! i"
    from descend(4) "1.prems"(1) obtain first' where
      first': "insert_resource_nolock ?first new = Inr first'"
      and p': "parent' = set_child (?cs[i := first']) parent" by (auto split: sum.splits)
    have "rwf ?first" using rwf_child [OF "1.prems"(2)] descend(2) by simp
    moreover have "\<not> ((r_start new < r_start ?first \<or> r_end ?first < r_end new) \<or>
        r_start ?first = r_start new \<and> r_end ?first = r_end new)"
      using descend(3) by (auto simp: encloses_def)
    ultimately have IH: "rwf first'" "child new = [] \<longrightarrow> below first' = below ?first + {#label new#}"
      using "1.IH" [OF descend(1) refl refl _ first' _ "1.prems"(3)] by blast+
    from insert_same_node [OF first'] have same: "r_start first' = r_start ?first"
      "r_end first' = r_end ?first" "label first' = label ?first"
      by (metis set_child_sel(2), metis set_child_sel(3), metis label_def set_child_sel(2,3,4))
    have "rwf parent'"
      unfolding p' using same IH(1) by (intro wfI siblings_ok_update [OF sib descend(2)]) simp_all
    moreover have "below parent' = below parent + {#label new#}" if "child new = []"
      using below_all_update [OF descend(2) same(3)] IH(2) that
      by (simp add: p' below_child union_assoc [symmetric] add_mset_add_single [symmetric] del: union_mset_add_mset_right)
    ultimately show ?thesis by blast
  next
    case (swallow i)
    from swallow(4) "1.prems"(1) obtain k where k: "Resource.swallow new (drop i ?cs) = Inr k"
      and p': "parent' = set_child (take i ?cs @ [set_child (take k (drop i ?cs)) new] @ drop (i + k) ?cs) parent"
      by (auto split: sum.splits)
    note C = request_resource_nolock_Inl [OF swallow(1)]
    then have range: "r_start new \<le> r_end new" "r_start parent \<le> r_start new" "r_end new \<le> r_end parent"
      and before: "\<forall>t \<in> set (take i ?cs). r_end t < r_start new" by auto
    have "rwf parent'"
      unfolding p' by (rule wfI, rule siblings_ok_swallow(1) [OF sib swallow(2) before k range])
    moreover have "below parent' = below parent + {#label new#}" if "child new = []"
    proof -
      have "below_all ?cs = below_all (take i ?cs) + (below_all (take k (drop i ?cs)) + below_all (drop (i + k) ?cs))"
        using below_all_split [of i ?cs] below_all_split [of k "drop i ?cs"]
        by (simp add: add.commute [of i])
      then show ?thesis by (simp add: p' below_child label_def)
    qed
    ultimately show ?thesis by blast
  qed
qed

text \<open>A failed insertion names the root, or a resource that overlaps \<open>new\<close> partially.\<close>

lemma insert_resource_nolock_conflict:
  "insert_resource_nolock parent new = Inl q \<Longrightarrow> rwf parent \<Longrightarrow>
   (q = [] \<longleftrightarrow> \<not> (r_start new \<le> r_end new \<and> r_start parent \<le> r_start new \<and> r_end new \<le> r_end parent)) \<and>
   (q \<noteq> [] \<longrightarrow> (let c = resource_at parent q in
      (r_start c < r_start new \<or> r_end new < r_end c) \<and>
      r_start parent \<le> r_start c \<and> r_end c \<le> r_end parent))"
proof (induction parent new arbitrary: q rule: insert_resource_nolock.induct)
  case (1 parent new)
  let ?cs = "child parent"
  show ?case
  proof (cases parent new rule: insert_cases)
    case (request i parent'')
    with "1.prems" show ?thesis by simp
  next
    case outside
    with "1.prems" request_resource_nolock_Inl [OF outside(1)] show ?thesis by auto
  next
    case (descend i)
    let ?first = "?cs ! i"
    from descend(4) "1.prems"(1) obtain q' where
      q': "insert_resource_nolock ?first new = Inl q'" and q: "q = i # q'" by (auto split: sum.splits)
    have first: "rwf ?first" "r_start parent \<le> r_start ?first" "r_end ?first \<le> r_end parent"
      using rwf_child [OF "1.prems"(2)] descend(2) by simp_all
    have enc: "\<not> ((r_start new < r_start ?first \<or> r_end ?first < r_end new) \<or>
        r_start ?first = r_start new \<and> r_end ?first = r_end new)"
      using descend(3) by (auto simp: encloses_def)
    note IH = "1.IH" [OF descend(1) refl refl enc q' first(1)]
    have range: "r_start new \<le> r_end new \<and> r_start parent \<le> r_start new \<and> r_end new \<le> r_end parent"
      using request_resource_nolock_Inl [OF descend(1)] by auto
    with IH enc have "q' \<noteq> []" by auto
    with IH range q first show ?thesis by (auto simp: Let_def intro: order.trans)
  next
    case (swallow i)
    from swallow(4) "1.prems"(1) obtain j where j: "Resource.swallow new (drop i ?cs) = Inl j"
      and q: "q = [i + j]" by (auto split: sum.splits)
    have range: "r_start new \<le> r_end new \<and> r_start parent \<le> r_start new \<and> r_end new \<le> r_end parent"
      using request_resource_nolock_Inl [OF swallow(1)] by auto
    from swallow_Inl [OF j] swallow(2) have len: "i + j < length ?cs"
      and ov: "r_start (?cs ! (i + j)) < r_start new \<or> r_end new < r_end (?cs ! (i + j))" by auto
    have "r_start parent \<le> r_start (?cs ! (i + j))" "r_end (?cs ! (i + j)) \<le> r_end parent"
      using rwf_child [OF "1.prems"(2)] len by simp_all
    with range q ov show ?thesis by (simp add: Let_def)
  qed
qed

lemma expand_to_fit_total:
  assumes "rwf root" "r_start new \<le> r_end new" "child new = []"
  shows "\<exists>root' new'. insert_resource_expand_to_fit root new = Some (root', new') \<and>
    (if r_start root \<le> r_start new \<and> r_end new \<le> r_end root
     then insert_resource_nolock root new' = Inr root' \<and> rwf root' \<and>
       below root' = below root + {#label new'#} \<and>
       r_start new' \<le> r_start new \<and> r_end new \<le> r_end new'
     else root' = root \<and> new' = new)"
  using assms(2,3)
proof (induction "2 ^ 32 - (unat (r_end new) - unat (r_start new))" arbitrary: new rule: less_induct)
  case less
  let ?P = "\<lambda>new root' new'. if r_start root \<le> r_start new \<and> r_end new \<le> r_end root
     then insert_resource_nolock root new' = Inr root' \<and> rwf root' \<and>
       below root' = below root + {#label new'#} \<and>
       r_start new' \<le> r_start new \<and> r_end new \<le> r_end new'
     else root' = root \<and> new' = new"
  have wf_new: "rwf new" using less.prems by (simp add: rwf_iff [of new])
  show ?case
  proof (cases "insert_resource_nolock root new")
    case (Inr root')
    then have "r_start root \<le> r_start new \<and> r_end new \<le> r_end root"
      by (cases root new rule: insert_cases)
        (auto dest: request_resource_nolock_Inr request_resource_nolock_Inl)
    with Inr insert_resource_nolock_ok [OF Inr assms(1) wf_new] less.prems(2) show ?thesis
      by (simp add: insert_resource_expand_to_fit.simps)
  next
    case (Inl q)
    note C = insert_resource_nolock_conflict [OF Inl assms(1)]
    show ?thesis
    proof (cases q)
      case Nil
      with C less.prems(1) have "\<not> (r_start root \<le> r_start new \<and> r_end new \<le> r_end root)" by auto
      with Inl Nil show ?thesis by (simp add: insert_resource_expand_to_fit.simps)
    next
      case (Cons i q')
      define c where "c = resource_at root q"
      define new2 where "new2 = set_range (min (r_start c) (r_start new)) (max (r_end c) (r_end new)) new"
      have "(if r_start c < r_start new then r_start c else r_start new) = min (r_start c) (r_start new)"
        "(if r_end new < r_end c then r_end c else r_end new) = max (r_end c) (r_end new)"
        by (auto simp: min_def max_def not_less)
      then have step: "insert_resource_expand_to_fit root new = insert_resource_expand_to_fit root new2"
        using Inl Cons by (subst insert_resource_expand_to_fit.simps) (simp add: c_def new2_def Let_def)
      from C Cons have c: "r_start c < r_start new \<or> r_end new < r_end c"
        "r_start root \<le> r_start c" "r_end c \<le> r_end root" "r_start root \<le> r_start new" "r_end new \<le> r_end root"
        by (auto simp: c_def Let_def)
      have grow: "r_start new2 \<le> r_start new" "r_end new \<le> r_end new2"
        "r_start new2 < r_start new \<or> r_end new < r_end new2"
        using c(1) by (auto simp: new2_def min_def max_def)
      have inside: "r_start root \<le> r_start new2" "r_end new2 \<le> r_end root"
        using c by (simp_all add: new2_def)
      have order: "r_start new2 \<le> r_end new2" using grow(1,2) less.prems(1) by (meson order.trans)
      have "unat (r_end new) - unat (r_start new) < unat (r_end new2) - unat (r_start new2)"
        using grow less.prems(1) by (auto simp: word_le_nat_alt word_less_nat_alt)
      moreover have "unat (r_end new2) - unat (r_start new2) < 2 ^ 32"
        using unat_bound [of "r_end new2"] by simp
      ultimately have "2 ^ 32 - (unat (r_end new2) - unat (r_start new2)) <
          2 ^ 32 - (unat (r_end new) - unat (r_start new))" by linarith
      from less.hyps [OF this order] less.prems(2) obtain root' new' where
        "insert_resource_expand_to_fit root new2 = Some (root', new')" "?P new2 root' new'"
        by (auto simp: new2_def)
      with step inside c(4,5) grow(1,2) show ?thesis by (auto intro: order.trans)
    qed
  qed
qed

text \<open>
  C27: \<open>insert_resource_expand_to_fit\<close> terminates on every well-formed tree, for a resource
  without children whose end is not below its start. If the new range
  lies inside the root, it ends with the resource inserted, its range grown to cover every
  resource it met partially, the tree well-formed and no resource lost; otherwise the tree
  and the new resource are unchanged.
\<close>

theorem insert_expand_total:
  assumes "rwf root" "r_start new \<le> r_end new" "child new = []"
  shows "\<exists>root' new'. insert_resource_expand_to_fit root new = Some (root', new') \<and>
    (if r_start root \<le> r_start new \<and> r_end new \<le> r_end root
     then insert_resource_nolock root new' = Inr root' \<and> rwf root' \<and>
       below root' = below root + {#label new'#} \<and>
       r_start new' \<le> r_start new \<and> r_end new \<le> r_end new'
     else root' = root \<and> new' = new)"
  using assms by (rule expand_to_fit_total)

theorem insert_expand_total_witness:
  "\<exists>root' new'. insert_resource_expand_to_fit pci_bus (set_range 0x1400 0x43ff fresh) = Some (root', new') \<and>
     insert_resource_nolock pci_bus new' = Inr root' \<and> rwf root' \<and> r_start new' \<le> 0x1400"
proof -
  have "r_start pci_bus \<le> 0x1400 \<and> (0x43ff :: u32) \<le> r_end pci_bus" by (simp add: pci_bus_def)
  then show ?thesis
    using insert_expand_total [OF pci_bus_wf, of "set_range 0x1400 0x43ff fresh"]
    by (auto simp: fresh_def)
qed

section \<open>The tree stays a tree\<close>

lemma set_range_wf:
  assumes "rwf r" "s \<le> e" "\<forall>t \<in> set (child r). s \<le> r_start t \<and> r_end t \<le> e"
  shows "rwf (set_range s e r)"
  using assms rwf_child [OF assms(1)]
  by (simp add: rwf_iff [of "set_range s e r"] rwf_iff [of r] siblings_ok_def)

text \<open>Moving the limits of one sibling between its neighbours.\<close>

lemma siblings_ok_adjust:
  assumes sib: "siblings_ok s e cs" and i: "i < length cs" and c: "rwf c" "s \<le> r_start c" "r_end c \<le> e"
    and prev: "i \<noteq> 0 \<longrightarrow> r_end (cs ! (i - 1)) < r_start c"
    and succ: "i + 1 < length cs \<longrightarrow> r_end c < r_start (cs ! (i + 1))"
  shows "siblings_ok s e (cs[i := c])"
proof -
  have "r_end x < r_start c" if "x \<in> set (take i cs)" for x
  proof (cases "i = 0")
    case False
    from that obtain j where j: "j < i" "x = cs ! j" by (auto simp: in_set_conv_nth)
    have "r_end x < r_start (cs ! (i - 1))" if "j < i - 1"
      using sib i that unfolding j(2) by (simp add: siblings_ok_def sorted_wrt_iff_nth_less)
    moreover have "j = i - 1 \<or> j < i - 1" using j(1) by linarith
    moreover have "r_start (cs ! (i - 1)) \<le> r_end (cs ! (i - 1))"
      using sib i by (intro rwf_range) (simp add: siblings_ok_def)
    ultimately show ?thesis using prev False j by auto
  qed (use that in simp)
  moreover have "r_end c < r_start y" if "y \<in> set (drop (Suc i) cs)" for y
  proof (cases "Suc i < length cs")
    case True
    with succ siblings_ok_drop [OF sib _ True that, of c] show ?thesis by simp
  qed (use that in simp)
  moreover have "siblings_ok s e (take i cs)" "siblings_ok s e (drop (Suc i) cs)"
    using siblings_ok_split [OF sib] by blast+
  moreover have "\<forall>x \<in> set (take i cs). \<forall>y \<in> set (drop (Suc i) cs). r_end x < r_start y"
    using siblings_ok_split(3) [OF sib, of _ i] set_drop_subset_set_drop [of i "Suc i" cs] by auto
  ultimately have "siblings_ok s e (take i cs @ c # drop (Suc i) cs)"
    using c by (simp add: siblings_simps)
  then show ?thesis by (simp only: upd_conv_take_nth_drop [OF i])
qed

lemma adjust_resource_wf:
  assumes a: "adjust_resource parent i start sz = Inr parent'" and wf: "rwf parent"
    and i: "i < length (child parent)" and nowrap: "start \<le> start + sz - 1"
  shows "rwf parent'"
proof -
  let ?res = "child parent ! i" and ?e = "start + sz - 1"
  from a have p': "parent' = set_child ((child parent)[i := set_range start ?e ?res]) parent"
    and b: "r_start parent \<le> start" "?e \<le> r_end parent"
      "\<forall>t \<in> set (child ?res). start \<le> r_start t \<and> r_end t \<le> ?e"
      "i + 1 < length (child parent) \<longrightarrow> ?e < r_start (child parent ! (i + 1))"
      "i \<noteq> 0 \<longrightarrow> r_end (child parent ! (i - 1)) < start"
    by (auto simp: adjust_resource_def Let_def not_less not_le split: if_splits)
  have "rwf ?res" using rwf_child [OF wf] i by simp
  then have "rwf (set_range start ?e ?res)" using nowrap b(3) by (rule set_range_wf)
  with siblings_ok_adjust [OF _ i this, of "r_start parent" "r_end parent"] b wf show ?thesis
    by (simp add: p' rwf_iff [of parent] rwf_iff [of "set_child cs parent" for cs])
qed

lemma unlink_sibling_set: "unlink_sibling i cs = Some cs' \<Longrightarrow> cs' = take i cs @ drop (Suc i) cs"
  by (induction i cs arbitrary: cs' rule: unlink_sibling.induct) (auto split: option.splits)

lemma siblings_ok_remove:
  assumes "siblings_ok s e cs"
  shows "siblings_ok s e (take i cs @ drop (Suc i) cs)"
proof -
  have "\<forall>x \<in> set (take i cs). \<forall>y \<in> set (drop (Suc i) cs). r_end x < r_start y"
    using siblings_ok_split(3) [OF assms, of _ i] set_drop_subset_set_drop [of i "Suc i" cs] by auto
  with siblings_ok_split [OF assms] show ?thesis by (simp add: siblings_ok_append)
qed

lemma release_resource_wf:
  assumes "release_resource r i = Inr r'" "rwf r"
  shows "rwf r'"
  using assms unlink_sibling_set [of i "child r"] siblings_ok_remove
  by (auto simp: release_resource_def rwf_iff [of r] rwf_iff [of "set_child cs r" for cs] split: option.splits)

lemma release_loop_wf:
  "release_loop cs start end = Some cs' \<Longrightarrow> siblings_ok s e cs \<Longrightarrow>
   siblings_ok s e cs' \<and> (\<forall>c' \<in> set cs'. \<exists>c \<in> set cs. r_start c' = r_start c)"
proof (induction cs start "end" arbitrary: cs' s e rule: release_loop.induct)
  case (2 nm rs re f ds cs start "end")
  let ?r = "Resource nm rs re f ds"
  from "2.prems"(2) have r: "s \<le> rs" "re \<le> e" "rwf ?r" "siblings_ok s e cs" "\<forall>y \<in> set cs. re < r_start y"
    by (simp_all add: siblings_ok_Cons)
  consider (down) ds' where "rs \<le> start \<and> end \<le> re" "f AND IORESOURCE_BUSY = 0"
      "release_loop ds start end = Some ds'" "cs' = Resource nm rs re f ds' # cs"
    | (gone) "cs' = cs"
    | (skip) cs2 where "\<not> (rs \<le> start \<and> end \<le> re)" "release_loop cs start end = Some cs2" "cs' = ?r # cs2"
    using "2.prems"(1) by (auto split: if_splits option.splits)
  then show ?case
  proof cases
    case down
    have "siblings_ok rs re ds'"
      using "2.IH"(1) [OF down(1-3)] r(3) by (simp add: rwf_iff [of ?r])
    then have "rwf (Resource nm rs re f ds')"
      using rwf_range [OF r(3)] by (simp add: rwf_iff [of "Resource nm rs re f ds'"])
    with r down(4) show ?thesis by (auto simp: siblings_ok_Cons)
  next
    case gone
    with r show ?thesis by auto
  next
    case skip
    note IH = "2.IH"(2) [OF skip(1,2) r(4)]
    then have "\<forall>y \<in> set cs2. re < r_start y" using r(5) by fastforce
    with IH r skip(3) show ?thesis by (auto simp: siblings_ok_Cons)
  qed
qed simp

lemma release_region_wf:
  assumes "release_region r start n = Some r'" "rwf r"
  shows "rwf r'"
  using assms release_loop_wf
  by (auto simp: release_region_def rwf_iff [of r] rwf_iff [of "set_child cs r" for cs] split: option.splits)

text \<open>
  The operations with their arguments, at the root or at any resource below it; a step is an
  operation that succeeds. Where one returns an error the tree is unchanged.
\<close>

datatype tree_op =
    Request resource
  | Release nat
  | Allocate resource u32 u32 u32 u32 alignf
  | Insert resource
  | Expand resource
  | Adjust nat u32 u32
  | Request_Region bool u32 u32 string
  | Release_Region u32 u32
  | Below nat tree_op

inductive tree_step :: "tree_op \<Rightarrow> resource \<Rightarrow> resource \<Rightarrow> bool" where
  request: "request_resource r new = Inr r' \<Longrightarrow> tree_step (Request new) r r'"
| release: "release_resource r i = Inr r' \<Longrightarrow> tree_step (Release i) r r'"
| allocate: "allocate_resource r new sz mn mx al af = Inr (r', new') \<Longrightarrow>
    tree_step (Allocate new sz mn mx al af) r r'"
| insert: "insert_resource r new = Inr r' \<Longrightarrow> tree_step (Insert new) r r'"
| expand: "insert_resource_expand_to_fit r new = Some (r', new') \<Longrightarrow> tree_step (Expand new) r r'"
| adjust: "i < length (child r) \<Longrightarrow> adjust_resource r i start sz = Inr r' \<Longrightarrow>
    tree_step (Adjust i start sz) r r'"
| request_region: "request_region kmem r start n nm = Some (p, r') \<Longrightarrow>
    tree_step (Request_Region kmem start n nm) r r'"
| release_region: "release_region r start n = Some r' \<Longrightarrow> tree_step (Release_Region start n) r r'"
| below: "i < length (child r) \<Longrightarrow> tree_step op (child r ! i) c \<Longrightarrow>
    tree_step (Below i op) r (set_child ((child r)[i := c]) r)"

text \<open>
  What the callers owe: a resource to be linked is a well-formed tree (one that is allocated or
  expanded has no children), and \<open>adjust_resource\<close> gets a size with which the end does not
  wrap around below the start.
\<close>

fun well_used :: "tree_op \<Rightarrow> bool" where
  "well_used (Request new) \<longleftrightarrow> rwf new"
| "well_used (Allocate new sz mn mx al af) \<longleftrightarrow> child new = []"
| "well_used (Insert new) \<longleftrightarrow> rwf new"
| "well_used (Expand new) \<longleftrightarrow> child new = [] \<and> r_start new \<le> r_end new"
| "well_used (Adjust i start sz) \<longleftrightarrow> start \<le> start + sz - 1"
| "well_used (Below i op) \<longleftrightarrow> well_used op"
| "well_used _ \<longleftrightarrow> True"

inductive tree_run :: "tree_op list \<Rightarrow> resource \<Rightarrow> resource \<Rightarrow> bool" where
  stop: "tree_run [] r r"
| step: "tree_step op r r' \<Longrightarrow> tree_run ops r' r'' \<Longrightarrow> tree_run (op # ops) r r''"

lemma tree_step_range: "tree_step op r r' \<Longrightarrow> well_used op \<Longrightarrow> rwf r \<Longrightarrow> r_start r' = r_start r \<and> r_end r' = r_end r"
proof (induction rule: tree_step.induct)
  case (request r new r')
  then show ?case
    by (auto simp: request_resource_def dest!: request_resource_nolock_Inr split: sum.splits)
next
  case (release r i r')
  then show ?case by (auto simp: release_resource_def split: option.splits)
next
  case (allocate r new sz mn mx al af r' new')
  from allocate(1) show ?case
    by (rule allocate_resource_Inr) (auto dest!: request_resource_nolock_Inr)
next
  case (insert r new r')
  then show ?case
    by (auto simp: insert_resource_def split: sum.splits) (metis insert_same_node set_child_sel(2,3))+
next
  case (expand r new r' new')
  from expand(2) have new: "r_start new \<le> r_end new" "child new = []" by simp_all
  from expand_to_fit_total [OF expand(3) new] expand(1) have
    "insert_resource_nolock r new' = Inr r' \<or> r' = r" by (auto split: if_splits)
  then show ?case by (metis insert_same_node set_child_sel(2,3))
next
  case (adjust i r start sz r')
  then show ?case by (auto simp: adjust_resource_def Let_def split: if_splits)
next
  case (request_region kmem r start n nm p r')
  then show ?case
    by (auto simp: request_region_def split: if_splits) (metis region_loop_same_node set_child_sel(2,3))+
next
  case (release_region r start n r')
  then show ?case by (auto simp: release_region_def split: option.splits)
qed simp

lemma tree_step_wf: "tree_step op r r' \<Longrightarrow> well_used op \<Longrightarrow> rwf r \<Longrightarrow> rwf r'"
proof (induction rule: tree_step.induct)
  case (request r new r')
  then show ?case
    by (auto simp: request_resource_def intro: request_resource_nolock_wf split: sum.splits)
next
  case (release r i r')
  then show ?case by (blast intro: release_resource_wf)
next
  case (allocate r new sz mn mx al af r' new')
  from allocate(1) show ?case
  proof (rule allocate_resource_Inr)
    fix s e i
    assume r: "request_resource_nolock r new' = Inr (i, r')" and n: "new' = set_range s e new"
    have "rwf new'"
      using request_resource_nolock_Inr [OF r] allocate(2) by (simp add: n rwf_iff [of "set_range s e new"])
    with r allocate(3) show "rwf r'" by (blast intro: request_resource_nolock_wf)
  qed
next
  case (insert r new r')
  then show ?case
    by (auto simp: insert_resource_def dest: insert_resource_nolock_ok split: sum.splits)
next
  case (expand r new r' new')
  from expand(2) have new: "r_start new \<le> r_end new" "child new = []" by simp_all
  from expand_to_fit_total [OF expand(3) new] expand(1,3) show ?case by (auto split: if_splits)
next
  case (adjust i r start sz r')
  then show ?case by (auto intro: adjust_resource_wf)
next
  case (request_region kmem r start n nm p r')
  then have loop: "region_loop r (Resource nm start (start + n - 1) IORESOURCE_BUSY []) = Some (p, r')"
    by (auto simp: request_region_def split: if_splits)
  have "rwf (Resource nm start (start + n - 1) IORESOURCE_BUSY [])"
    using region_loop_inside(3) [OF loop] by (simp add: rwf.simps)
  with loop request_region(3) show ?case by (rule region_loop_wf)
next
  case (release_region r start n r')
  then show ?case by (blast intro: release_region_wf)
next
  case (below i r op c)
  have "rwf (child r ! i)" using rwf_child [OF below(5)] below(1) by simp
  with below(2-4) tree_step_range [OF below(2)] have c: "rwf c" "r_start c = r_start (child r ! i)" "r_end c = r_end (child r ! i)"
    by simp_all
  have "siblings_ok (r_start r) (r_end r) (child r)" using below(5) by (simp add: rwf_iff [of r])
  with siblings_ok_update [OF this below(1) c(1)] c below(5) show ?case
    by (simp add: rwf_iff [of r] rwf_iff [of "set_child cs r" for cs])
qed

interpretation resource_tree: step_invariant "\<lambda>r r'. \<exists>op. well_used op \<and> tree_step op r r'" rwf
  by unfold_locales (blast intro: tree_step_wf)

lemma tree_run_steps:
  "tree_run ops r r' \<Longrightarrow> \<forall>op \<in> set ops. well_used op \<Longrightarrow>
    (\<lambda>r r'. \<exists>op. well_used op \<and> tree_step op r r')\<^sup>*\<^sup>* r r'"
proof (induction rule: tree_run.induct)
  case (step op r r' ops r'')
  then have "\<exists>op. well_used op \<and> tree_step op r r'" by auto
  with step show ?case by (auto intro: converse_rtranclp_into_rtranclp)
qed simp

text \<open>
  C23: Any sequence of requests, releases, allocations, insertions, adjustments and region
  calls, at the root or at any resource below it, leads from a well-formed tree to a
  well-formed tree: ranges stay nested, siblings sorted and disjoint. The callers owe
  well-formed resources to link and, to \<open>adjust_resource\<close>, sizes with which the end does not
  wrap around; the code checks neither.
\<close>

theorem resource_tree_invariant:
  assumes "tree_run ops root root'" and "\<forall>op \<in> set ops. well_used op" and "rwf root"
  shows "rwf root'"
  using tree_run_steps [OF assms(1,2)] assms(3) by (rule resource_tree.run_keeps)

theorem resource_tree_invariant_witness:
  "\<exists>bus'. tree_run [Request_Region True 0x4100 0x10 ''uart'', Adjust 0 0x1000 0x900] pci_bus bus' \<and>
     rwf bus' \<and> bus' \<noteq> pci_bus"
proof -
  define bus where "bus = set_child [child pci_bus ! 0,
    set_child [Resource ''uart'' 0x4100 0x410f IORESOURCE_BUSY []] (child pci_bus ! 1)] pci_bus"
  define bus' where "bus' = set_child [set_range 0x1000 0x18ff (child bus ! 0), child bus ! 1] bus"
  have "\<exists>p. request_region True pci_bus 0x4100 0x10 ''uart'' = Some (p, bus)"
    by (simp add: bus_def request_region_def pci_bus_def region_loop.simps request_resource_nolock_def busy_def
        set_child_def)
  moreover have "adjust_resource bus 0 0x1000 0x900 = Inr bus'" "0 < length (child bus)"
    by (simp_all add: bus'_def bus_def adjust_resource_def pci_bus_def set_child_def set_range_def Let_def)
  ultimately have run: "tree_run [Request_Region True 0x4100 0x10 ''uart'', Adjust 0 0x1000 0x900] pci_bus bus'"
    by (auto intro!: tree_run.intros tree_step.intros)
  moreover have "bus' \<noteq> pci_bus" by (simp add: bus'_def bus_def pci_bus_def set_child_def set_range_def)
  ultimately show ?thesis using resource_tree_invariant [OF run _ pci_bus_wf] by auto
qed

text \<open>
  The condition on \<open>adjust_resource\<close> is needed: it does not check that \<open>start + size - 1\<close>
  stays above \<open>start\<close>, and accepts a size that wraps around, leaving a resource whose end is
  below its start.
\<close>

theorem adjust_resource_wraps:
  assumes "child parent = [r]" "child r = []" "r_start parent \<le> start" "start \<le> r_end parent"
    and wrap: "start + sz - 1 < start"
  shows "\<exists>parent'. adjust_resource parent 0 start sz = Inr parent' \<and> \<not> rwf parent'"
proof -
  let ?e = "start + sz - 1"
  have "\<not> r_end parent < ?e" using wrap assms(4) by simp
  then have a: "adjust_resource parent 0 start sz = Inr (set_child [set_range start ?e r] parent)"
    using assms(1-3) by (simp add: adjust_resource_def Let_def)
  have "\<not> rwf (set_range start ?e r)"
    using wrap rwf_range [of "set_range start ?e r"] by auto
  then have "\<not> rwf (set_child [set_range start ?e r] parent)"
    using rwf_child [of "set_child [set_range start ?e r] parent"] by auto
  with a show ?thesis by blast
qed

theorem adjust_resource_wraps_witness:
  "\<exists>parent'. adjust_resource (Resource ''mem'' 0 0xffffffff 0 [fresh]) 0 0xffff0000 0x20000 = Inr parent' \<and>
     \<not> rwf parent'"
  by (rule adjust_resource_wraps [of _ fresh]) (simp_all add: fresh_def)

end
