(* ===== verification/Rwsem.thy ===== *)
theory Rwsem imports Prelude begin

text \<open>
  The reader/writer semaphore of \<open>lib/rwsem-spinlock.c\<close>. Every operation runs under the
  spinlock \<open>wait_lock\<close>, so it is one function on the state of the semaphore. A wake-up
  clears \<open>waiter->task\<close>; the functions return the tasks whose waiters it cleared. The step
  relation below puts the operations together with the tasks that call them.
\<close>

section \<open>State and operations\<close>

datatype rw_mode = READ | WRITE

type_synonym task = nat

text \<open>\<open>flags\<close> is \<open>RWSEM_WAITING_FOR_READ\<close> or \<open>RWSEM_WAITING_FOR_WRITE\<close>.\<close>

record rwsem_waiter =
  w_task :: task
  w_flags :: rw_mode

record rw_semaphore =
  activity :: int
  rw_wait_list :: "rwsem_waiter list"

definition init_rwsem :: rw_semaphore where
  "init_rwsem = \<lparr>activity = 0, rw_wait_list = []\<rparr>"

text \<open>The loop that grants read locks to the front of the queue.\<close>

fun wake_readers :: "rwsem_waiter list \<Rightarrow> task list \<times> rwsem_waiter list" where
  "wake_readers [] = ([], [])"
| "wake_readers (w # ws) =
     (if w_flags w = READ then (let (ts, rest) = wake_readers ws in (w_task w # ts, rest))
      else ([], w # ws))"

text \<open>\<open>None\<close> is the access to a waiter that is not there, on an empty list.\<close>

definition rwsem_do_wake :: "rw_semaphore \<Rightarrow> bool \<Rightarrow> (rw_semaphore \<times> task list) option" where
  "rwsem_do_wake sem wakewrite =
     (case rw_wait_list sem of
        [] \<Rightarrow> None
      | w # ws \<Rightarrow>
          if w_flags w = WRITE
          then if \<not> wakewrite then Some (sem, [])
               else Some (sem\<lparr>activity := - 1, rw_wait_list := ws\<rparr>, [w_task w])
          else (let (ts, rest) = wake_readers (w # ws) in
                Some (sem\<lparr>activity := activity sem + int (length ts), rw_wait_list := rest\<rparr>, ts)))"

definition rwsem_wake_one_writer :: "rw_semaphore \<Rightarrow> (rw_semaphore \<times> task list) option" where
  "rwsem_wake_one_writer sem =
     (case rw_wait_list sem of
        [] \<Rightarrow> None
      | w # ws \<Rightarrow> Some (sem\<lparr>activity := - 1, rw_wait_list := ws\<rparr>, [w_task w]))"

text \<open>
  The part of \<open>__down_read\<close> and \<open>__down_write_nested\<close> under the spinlock: whether the lock
  is granted at once. If not, the task sleeps until its \<open>waiter.task\<close> is cleared.
\<close>

definition down_read :: "task \<Rightarrow> rw_semaphore \<Rightarrow> bool \<times> rw_semaphore" where
  "down_read cur sem =
     (if 0 \<le> activity sem \<and> rw_wait_list sem = [] then (True, sem\<lparr>activity := activity sem + 1\<rparr>)
      else (False, sem\<lparr>rw_wait_list := rw_wait_list sem @ [\<lparr>w_task = cur, w_flags = READ\<rparr>]\<rparr>))"

definition down_read_trylock :: "rw_semaphore \<Rightarrow> bool \<times> rw_semaphore" where
  "down_read_trylock sem =
     (if 0 \<le> activity sem \<and> rw_wait_list sem = [] then (True, sem\<lparr>activity := activity sem + 1\<rparr>)
      else (False, sem))"

definition down_write :: "task \<Rightarrow> rw_semaphore \<Rightarrow> bool \<times> rw_semaphore" where
  "down_write cur sem =
     (if activity sem = 0 \<and> rw_wait_list sem = [] then (True, sem\<lparr>activity := - 1\<rparr>)
      else (False, sem\<lparr>rw_wait_list := rw_wait_list sem @ [\<lparr>w_task = cur, w_flags = WRITE\<rparr>]\<rparr>))"

definition down_write_trylock :: "rw_semaphore \<Rightarrow> bool \<times> rw_semaphore" where
  "down_write_trylock sem =
     (if activity sem = 0 \<and> rw_wait_list sem = [] then (True, sem\<lparr>activity := - 1\<rparr>)
      else (False, sem))"

definition up_read :: "rw_semaphore \<Rightarrow> (rw_semaphore \<times> task list) option" where
  "up_read sem =
     (let sem = sem\<lparr>activity := activity sem - 1\<rparr> in
      if activity sem = 0 \<and> rw_wait_list sem \<noteq> [] then rwsem_wake_one_writer sem
      else Some (sem, []))"

definition up_write :: "rw_semaphore \<Rightarrow> (rw_semaphore \<times> task list) option" where
  "up_write sem =
     (let sem = sem\<lparr>activity := 0\<rparr> in
      if rw_wait_list sem \<noteq> [] then rwsem_do_wake sem True else Some (sem, []))"

definition downgrade_write :: "rw_semaphore \<Rightarrow> (rw_semaphore \<times> task list) option" where
  "downgrade_write sem =
     (let sem = sem\<lparr>activity := 1\<rparr> in
      if rw_wait_list sem \<noteq> [] then rwsem_do_wake sem False else Some (sem, []))"

section \<open>Tasks and the semaphore\<close>

text \<open>
  Where a task is: outside, asleep in the loop of a down function, released from it (its
  \<open>waiter.task\<close> is cleared) but not yet running, or back from the down function. The mode
  is that of the down function the task called, which is what the caller relies on.
\<close>

datatype rw_pc = Outside | Waiting rw_mode | Granted rw_mode | Holding rw_mode

fun clear_task :: "rw_pc \<Rightarrow> rw_pc" where
  "clear_task (Waiting m) = Granted m"
| "clear_task p = p"

definition wake :: "task list \<Rightarrow> (task \<Rightarrow> rw_pc) \<Rightarrow> task \<Rightarrow> rw_pc" where
  "wake ts pc = (\<lambda>t. if t \<in> set ts then clear_task (pc t) else pc t)"

type_synonym rw_sys = "rw_semaphore \<times> (task \<Rightarrow> rw_pc)"

inductive rw_step :: "rw_sys \<Rightarrow> rw_sys \<Rightarrow> bool" where
  down_read: "pc t = Outside \<Longrightarrow> down_read t sem = (ok, sem') \<Longrightarrow>
     rw_step (sem, pc) (sem', pc(t := if ok then Holding READ else Waiting READ))"
| down_write: "pc t = Outside \<Longrightarrow> down_write t sem = (ok, sem') \<Longrightarrow>
     rw_step (sem, pc) (sem', pc(t := if ok then Holding WRITE else Waiting WRITE))"
| read_trylock: "pc t = Outside \<Longrightarrow> down_read_trylock sem = (ok, sem') \<Longrightarrow>
     rw_step (sem, pc) (sem', if ok then pc(t := Holding READ) else pc)"
| write_trylock: "pc t = Outside \<Longrightarrow> down_write_trylock sem = (ok, sem') \<Longrightarrow>
     rw_step (sem, pc) (sem', if ok then pc(t := Holding WRITE) else pc)"
| running: "pc t = Granted m \<Longrightarrow> rw_step (sem, pc) (sem, pc(t := Holding m))"
| up_read: "pc t = Holding READ \<Longrightarrow> up_read sem = Some (sem', ts) \<Longrightarrow>
     rw_step (sem, pc) (sem', wake ts (pc(t := Outside)))"
| up_write: "pc t = Holding WRITE \<Longrightarrow> up_write sem = Some (sem', ts) \<Longrightarrow>
     rw_step (sem, pc) (sem', wake ts (pc(t := Outside)))"
| downgrade: "pc t = Holding WRITE \<Longrightarrow> downgrade_write sem = Some (sem', ts) \<Longrightarrow>
     rw_step (sem, pc) (sem', wake ts (pc(t := Holding READ)))"

inductive_cases rw_stepE: "rw_step s s'"

definition rw_start :: rw_sys where
  "rw_start = (init_rwsem, \<lambda>_. Outside)"

section \<open>The invariant\<close>

definition owners :: "rw_mode \<Rightarrow> (task \<Rightarrow> rw_pc) \<Rightarrow> task set" where
  "owners m pc = {t. pc t = Granted m \<or> pc t = Holding m}"

text \<open>
  \<open>activity\<close> counts the owners; the queue holds exactly the sleeping tasks, once each, with
  the mode they sleep for; nobody sleeps on an idle semaphore; and while readers own it
  the first sleeper is a writer.
\<close>

definition activity_ok :: "int \<Rightarrow> (task \<Rightarrow> rw_pc) \<Rightarrow> bool" where
  "activity_ok a pc \<longleftrightarrow>
     finite (owners READ pc) \<and>
     (if a < 0 then a = - 1 \<and> owners READ pc = {} \<and> (\<exists>t. owners WRITE pc = {t})
      else owners WRITE pc = {} \<and> int (card (owners READ pc)) = a)"

definition queue_ok :: "rwsem_waiter list \<Rightarrow> (task \<Rightarrow> rw_pc) \<Rightarrow> bool" where
  "queue_ok ws pc \<longleftrightarrow> distinct (map w_task ws) \<and>
     (\<forall>t m. pc t = Waiting m \<longleftrightarrow> \<lparr>w_task = t, w_flags = m\<rparr> \<in> set ws)"

definition front_ok :: "int \<Rightarrow> rwsem_waiter list \<Rightarrow> bool" where
  "front_ok a ws \<longleftrightarrow> (0 \<le> a \<longrightarrow> ws \<noteq> [] \<longrightarrow> 0 < a \<and> w_flags (hd ws) = WRITE)"

definition rw_inv :: "rw_sys \<Rightarrow> bool" where
  "rw_inv s \<longleftrightarrow> (case s of (sem, pc) \<Rightarrow>
     activity_ok (activity sem) pc \<and> queue_ok (rw_wait_list sem) pc \<and>
     front_ok (activity sem) (rw_wait_list sem))"

lemma waiter_eta [simp]: "\<lparr>w_task = w_task w, w_flags = w_flags w\<rparr> = w"
  by (cases w) simp

lemma sem_upd [simp]: "sem\<lparr>activity := a, rw_wait_list := l\<rparr> = \<lparr>activity = a, rw_wait_list = l\<rparr>"
  for sem :: rw_semaphore
  by (cases sem) simp

lemma wake_Nil [simp]: "wake [] pc = pc"
  by (simp add: wake_def)

lemma owners_upd:
  "owners m (pc(t := p)) = (if p = Granted m \<or> p = Holding m then insert t (owners m pc) else owners m pc - {t})"
  by (auto simp: owners_def)

lemma queue_ok_upd:
  "(\<And>m. pc t \<noteq> Waiting m) \<Longrightarrow> (\<And>m. p \<noteq> Waiting m) \<Longrightarrow> queue_ok ws (pc(t := p)) \<longleftrightarrow> queue_ok ws pc"
  unfolding queue_ok_def by (metis fun_upd_apply)

lemma queue_ok_append:
  assumes "queue_ok ws pc" "\<And>m. pc t \<noteq> Waiting m"
  shows "queue_ok (ws @ [\<lparr>w_task = t, w_flags = m\<rparr>]) (pc(t := Waiting m))"
proof -
  have "t \<notin> w_task ` set ws"
  proof
    assume "t \<in> w_task ` set ws"
    then obtain w where "w \<in> set ws" "t = w_task w" by blast
    then have "\<lparr>w_task = t, w_flags = w_flags w\<rparr> \<in> set ws" by simp
    with assms show False by (auto simp: queue_ok_def)
  qed
  with assms show ?thesis by (auto simp: queue_ok_def)
qed

lemma wake_prefix:
  assumes q: "queue_ok (g @ rest) pc"
  shows "queue_ok rest (wake (map w_task g) pc)"
    and "owners m (wake (map w_task g) pc) = owners m pc \<union> w_task ` {w \<in> set g. w_flags w = m}"
proof -
  have g: "pc (w_task w) = Waiting (w_flags w)" if "w \<in> set (g @ rest)" for w
    using q that by (simp add: queue_ok_def)
  have only: "m = w_flags w" if "w \<in> set (g @ rest)" "pc (w_task w) = Waiting m" for w m
    using g [OF that(1)] that(2) by simp
  have wk: "wake (map w_task g) pc t = (if t \<in> w_task ` set g then clear_task (pc t) else pc t)" for t
    by (simp add: wake_def)
  have "wake (map w_task g) pc t = Waiting m \<longleftrightarrow> \<lparr>w_task = t, w_flags = m\<rparr> \<in> set rest" for t m
  proof (cases "t \<in> w_task ` set g")
    case True
    then obtain w where w: "w \<in> set g" "t = w_task w" by blast
    then have "wake (map w_task g) pc t = Granted (w_flags w)" using g [of w] by (simp add: wk)
    moreover have "\<lparr>w_task = t, w_flags = m\<rparr> \<notin> set rest"
      using q True by (force simp: queue_ok_def)
    ultimately show ?thesis by simp
  next
    case False
    then have "\<lparr>w_task = t, w_flags = m\<rparr> \<notin> set g" by force
    with False q show ?thesis by (simp add: wk queue_ok_def)
  qed
  with q show "queue_ok rest (wake (map w_task g) pc)" by (simp add: queue_ok_def)
  show "owners m (wake (map w_task g) pc) = owners m pc \<union> w_task ` {w \<in> set g. w_flags w = m}"
  proof (intro equalityI subsetI)
    fix t assume t: "t \<in> owners m (wake (map w_task g) pc)"
    show "t \<in> owners m pc \<union> w_task ` {w \<in> set g. w_flags w = m}"
    proof (cases "t \<in> w_task ` set g")
      case True
      then obtain w where w: "w \<in> set g" "t = w_task w" by blast
      with t g [of w] have "w_flags w = m" by (simp add: owners_def wk)
      with w show ?thesis by blast
    next
      case False
      with t show ?thesis by (simp add: owners_def wk)
    qed
  next
    fix t assume t: "t \<in> owners m pc \<union> w_task ` {w \<in> set g. w_flags w = m}"
    then show "t \<in> owners m (wake (map w_task g) pc)"
    proof
      assume "t \<in> owners m pc"
      then show ?thesis by (auto simp: owners_def wk)
    next
      assume "t \<in> w_task ` {w \<in> set g. w_flags w = m}"
      then obtain w where "w \<in> set g" "t = w_task w" "w_flags w = m" by blast
      with g [of w] show ?thesis by (simp add: owners_def wk)
    qed
  qed
qed

lemma wake_readers_spec:
  "wake_readers ws = (ts, rest) \<Longrightarrow> \<exists>g. ws = g @ rest \<and> ts = map w_task g \<and>
    (\<forall>w \<in> set g. w_flags w = READ) \<and> (rest \<noteq> [] \<longrightarrow> w_flags (hd rest) = WRITE)"
proof (induction ws arbitrary: ts rest)
  case (Cons w ws)
  show ?case
  proof (cases "w_flags w = READ")
    case True
    obtain ts' rest' where r: "wake_readers ws = (ts', rest')" by fastforce
    from Cons.IH [OF r] obtain g where g: "ws = g @ rest'" "ts' = map w_task g"
      "\<forall>w \<in> set g. w_flags w = READ" "rest' \<noteq> [] \<longrightarrow> w_flags (hd rest') = WRITE" by blast
    have "ts = w_task w # ts'" "rest = rest'" using Cons.prems True r by auto
    with g True show ?thesis by (intro exI [of _ "w # g"]) simp
  next
    case False
    then have "w_flags w = WRITE" by (cases "w_flags w") auto
    then show ?thesis using Cons.prems by auto
  qed
qed simp

text \<open>What a wake-up does, on every branch: the first writer, or all the readers in front.\<close>

lemma do_wake_cases:
  assumes "rw_wait_list sem \<noteq> []"
  obtains (writer) w ws where "rw_wait_list sem = w # ws" "w_flags w = WRITE" "wakewrite"
      "rwsem_do_wake sem wakewrite = Some (\<lparr>activity = - 1, rw_wait_list = ws\<rparr>, [w_task w])"
  | (no_writer) w ws where "rw_wait_list sem = w # ws" "w_flags w = WRITE" "\<not> wakewrite"
      "rwsem_do_wake sem wakewrite = Some (sem, [])"
  | (readers) g rest where "rw_wait_list sem = g @ rest" "g \<noteq> []" "\<forall>w \<in> set g. w_flags w = READ"
      "rest \<noteq> [] \<longrightarrow> w_flags (hd rest) = WRITE"
      "rwsem_do_wake sem wakewrite =
         Some (\<lparr>activity = activity sem + int (length g), rw_wait_list = rest\<rparr>, map w_task g)"
proof -
  from assms obtain w ws where l: "rw_wait_list sem = w # ws" by (cases "rw_wait_list sem") auto
  show thesis
  proof (cases "w_flags w")
    case WRITE
    then show thesis using l writer no_writer
      by (cases wakewrite) (auto simp: rwsem_do_wake_def)
  next
    case READ
    obtain ts rest where r: "wake_readers (w # ws) = (ts, rest)" by fastforce
    from wake_readers_spec [OF r] obtain g where g: "w # ws = g @ rest" "ts = map w_task g"
      "\<forall>w \<in> set g. w_flags w = READ" "rest \<noteq> [] \<longrightarrow> w_flags (hd rest) = WRITE" by blast
    have "g \<noteq> []"
    proof
      assume "g = []"
      with g(1,4) have "w_flags w = WRITE" by (metis append_Nil list.sel(1) list.distinct(1))
      with READ show False by simp
    qed
    moreover have "rwsem_do_wake sem wakewrite =
        Some (\<lparr>activity = activity sem + int (length g), rw_wait_list = rest\<rparr>, map w_task g)"
      using READ l r g(2) by (simp add: rwsem_do_wake_def)
    ultimately show thesis using readers g l by simp
  qed
qed

lemma owners_split: "owners READ pc \<inter> owners WRITE pc = {}"
  by (auto simp: owners_def)

lemma waiting_not_owner: "pc t = Waiting m \<Longrightarrow> t \<notin> owners k pc"
  by (simp add: owners_def)

text \<open>Waking readers on top of \<open>a\<close> readers; waking a writer when nobody owns the semaphore.\<close>

lemma wake_readers_inv:
  assumes act: "activity_ok a pc" "0 \<le> a" and q: "queue_ok (g @ rest) pc"
    and g: "\<forall>w \<in> set g. w_flags w = READ" "g \<noteq> []" and rest: "rest \<noteq> [] \<longrightarrow> w_flags (hd rest) = WRITE"
  shows "rw_inv (\<lparr>activity = a + int (length g), rw_wait_list = rest\<rparr>, wake (map w_task g) pc)"
proof -
  note w = wake_prefix [OF q]
  have r: "{w \<in> set g. w_flags w = READ} = set g" "{w \<in> set g. w_flags w = WRITE} = {}" using g(1) by auto
  have disj: "owners READ pc \<inter> w_task ` set g = {}"
  proof -
    have "w_task v \<notin> owners READ pc" if "v \<in> set g" for v
    proof (rule waiting_not_owner)
      show "pc (w_task v) = Waiting (w_flags v)" using that q by (simp add: queue_ok_def)
    qed
    then show ?thesis by blast
  qed
  have d: "distinct (map w_task g)" using q by (simp add: queue_ok_def)
  have "card (w_task ` set g) = length g" using distinct_card [OF d] by simp
  with disj act have "int (card (owners READ (wake (map w_task g) pc))) = a + int (length g)"
    unfolding w(2) r by (subst card_Un_disjoint) (auto simp: activity_ok_def)
  moreover have "0 < a + int (length g)" using act(2) g(2) by (cases g) auto
  ultimately show ?thesis using act g w r rest
    by (simp add: rw_inv_def activity_ok_def front_ok_def)
qed

lemma wake_writer_inv:
  assumes act: "activity_ok 0 pc" and q: "queue_ok (w # ws) pc" and w: "w_flags w = WRITE"
  shows "rw_inv (\<lparr>activity = - 1, rw_wait_list = ws\<rparr>, wake [w_task w] pc)"
proof -
  have "queue_ok ([w] @ ws) pc" using q by simp
  note p = wake_prefix [OF this]
  have e: "owners READ pc = {}" "owners WRITE pc = {}" using act by (auto simp: activity_ok_def)
  have "{v. v = w \<and> w_flags v = WRITE} = {w}" "{v. v = w \<and> w_flags v = READ} = {}" using w by auto
  then have "owners READ (wake [w_task w] pc) = {}" "owners WRITE (wake [w_task w] pc) = {w_task w}"
    using p(2) [of READ] p(2) [of WRITE] e by simp_all
  then show ?thesis using p(1) by (simp add: rw_inv_def activity_ok_def front_ok_def)
qed

lemma release_read:
  assumes "activity_ok a pc" "pc t = Holding READ"
  shows "0 < a" "activity_ok (a - 1) (pc(t := Outside))"
proof -
  have t: "t \<in> owners READ pc" using assms(2) by (simp add: owners_def)
  with assms(1) have a: "0 \<le> a" "int (card (owners READ pc)) = a" "finite (owners READ pc)" "owners WRITE pc = {}"
    by (auto simp: activity_ok_def split: if_splits)
  with t have "0 < card (owners READ pc)" by (auto simp: card_gt_0_iff)
  with a show "0 < a" by simp
  with a t show "activity_ok (a - 1) (pc(t := Outside))"
    by (simp add: activity_ok_def owners_upd card_Diff_singleton)
qed

lemma release_write:
  assumes "activity_ok a pc" "pc t = Holding WRITE"
  shows "a = - 1" "owners READ pc = {}" "owners WRITE pc = {t}" "activity_ok 0 (pc(t := Outside))"
    "activity_ok 1 (pc(t := Holding READ))"
proof -
  have t: "t \<in> owners WRITE pc" using assms(2) by (simp add: owners_def)
  with assms(1) show a: "a = - 1" "owners READ pc = {}" "owners WRITE pc = {t}"
    by (auto simp: activity_ok_def split: if_splits)
  then show "activity_ok 0 (pc(t := Outside))" "activity_ok 1 (pc(t := Holding READ))"
    by (simp_all add: activity_ok_def owners_upd)
qed

lemma up_read_step:
  assumes inv: "rw_inv (sem, pc)" and t: "pc t = Holding READ"
  shows "\<exists>sem' ts. up_read sem = Some (sem', ts) \<and> rw_inv (sem', wake ts (pc(t := Outside)))"
proof -
  have i: "activity_ok (activity sem) pc" "queue_ok (rw_wait_list sem) pc"
    "front_ok (activity sem) (rw_wait_list sem)" using inv by (auto simp: rw_inv_def)
  note r = release_read [OF i(1) t]
  have q: "queue_ok (rw_wait_list sem) (pc(t := Outside))" using i(2) t by (subst queue_ok_upd) auto
  show ?thesis
  proof (cases "activity sem - 1 = 0 \<and> rw_wait_list sem \<noteq> []")
    case True
    then obtain w ws where l: "rw_wait_list sem = w # ws" by (cases "rw_wait_list sem") auto
    have "w_flags w = WRITE" using i(3) r(1) l by (simp add: front_ok_def)
    moreover have "activity_ok 0 (pc(t := Outside))" using r(2) True by simp
    moreover have "queue_ok (w # ws) (pc(t := Outside))" using q l by simp
    ultimately have "rw_inv (\<lparr>activity = - 1, rw_wait_list = ws\<rparr>, wake [w_task w] (pc(t := Outside)))"
      by (intro wake_writer_inv)
    then show ?thesis using True l by (simp add: up_read_def rwsem_wake_one_writer_def)
  next
    case False
    then have "up_read sem = Some (sem\<lparr>activity := activity sem - 1\<rparr>, [])" by (auto simp: up_read_def Let_def)
    moreover have "front_ok (activity sem - 1) (rw_wait_list sem)"
      using i(3) r(1) False by (auto simp: front_ok_def)
    ultimately show ?thesis using r(2) q by (simp add: rw_inv_def)
  qed
qed

lemma up_write_step:
  assumes inv: "rw_inv (sem, pc)" and t: "pc t = Holding WRITE"
  shows "\<exists>sem' ts. up_write sem = Some (sem', ts) \<and> rw_inv (sem', wake ts (pc(t := Outside)))"
proof -
  have i: "activity_ok (activity sem) pc" "queue_ok (rw_wait_list sem) pc" using inv by (auto simp: rw_inv_def)
  note r = release_write [OF i(1) t]
  have q: "queue_ok (rw_wait_list sem) (pc(t := Outside))" using i(2) t by (subst queue_ok_upd) auto
  show ?thesis
  proof (cases "rw_wait_list sem = []")
    case True
    then show ?thesis using r(4) q by (simp add: up_write_def rw_inv_def front_ok_def)
  next
    case False
    let ?s = "sem\<lparr>activity := 0\<rparr>"
    have "rw_wait_list ?s \<noteq> []" using False by simp
    then have "\<exists>sem' ts. rwsem_do_wake ?s True = Some (sem', ts) \<and> rw_inv (sem', wake ts (pc(t := Outside)))"
    proof (cases rule: do_wake_cases [where wakewrite = True])
      case (writer w ws)
      then show ?thesis using wake_writer_inv [OF r(4), of w ws] q by simp
    next
      case (readers g rest)
      then show ?thesis using wake_readers_inv [OF r(4), of g rest] q by simp
    qed simp
    then show ?thesis using False by (simp add: up_write_def)
  qed
qed

lemma downgrade_step:
  assumes inv: "rw_inv (sem, pc)" and t: "pc t = Holding WRITE"
  shows "\<exists>sem' ts. downgrade_write sem = Some (sem', ts) \<and> rw_inv (sem', wake ts (pc(t := Holding READ)))"
proof -
  have i: "activity_ok (activity sem) pc" "queue_ok (rw_wait_list sem) pc" using inv by (auto simp: rw_inv_def)
  note r = release_write [OF i(1) t]
  have q: "queue_ok (rw_wait_list sem) (pc(t := Holding READ))" using i(2) t by (subst queue_ok_upd) auto
  show ?thesis
  proof (cases "rw_wait_list sem = []")
    case True
    then show ?thesis using r(5) q by (simp add: downgrade_write_def rw_inv_def front_ok_def)
  next
    case False
    let ?s = "sem\<lparr>activity := 1\<rparr>"
    have "rw_wait_list ?s \<noteq> []" using False by simp
    then have "\<exists>sem' ts. rwsem_do_wake ?s False = Some (sem', ts) \<and> rw_inv (sem', wake ts (pc(t := Holding READ)))"
    proof (cases rule: do_wake_cases [where wakewrite = False])
      case (no_writer w ws)
      then show ?thesis using r(5) q by (simp add: rw_inv_def front_ok_def)
    next
      case (readers g rest)
      then show ?thesis using wake_readers_inv [OF r(5), of g rest] q by simp
    qed simp
    then show ?thesis using False by (simp add: downgrade_write_def)
  qed
qed

text \<open>The down functions.\<close>

lemma down_read_step:
  assumes inv: "rw_inv (sem, pc)" and t: "pc t = Outside" and d: "down_read t sem = (ok, sem')"
  shows "rw_inv (sem', pc(t := if ok then Holding READ else Waiting READ))"
proof -
  have i: "activity_ok (activity sem) pc" "queue_ok (rw_wait_list sem) pc"
    "front_ok (activity sem) (rw_wait_list sem)" using inv by (auto simp: rw_inv_def)
  have no: "t \<notin> owners READ pc" "t \<notin> owners WRITE pc" using t by (auto simp: owners_def)
  show ?thesis
  proof (cases "0 \<le> activity sem \<and> rw_wait_list sem = []")
    case True
    with d have s: "ok" "sem' = sem\<lparr>activity := activity sem + 1\<rparr>" by (auto simp: down_read_def)
    have "queue_ok (rw_wait_list sem) (pc(t := Holding READ))" using i(2) t by (subst queue_ok_upd) auto
    with s True i no show ?thesis by (simp add: rw_inv_def activity_ok_def front_ok_def owners_upd)
  next
    case False
    with d have s: "\<not> ok" "sem' = sem\<lparr>rw_wait_list := rw_wait_list sem @ [\<lparr>w_task = t, w_flags = READ\<rparr>]\<rparr>"
      by (auto simp: down_read_def split: if_splits)
    have "queue_ok (rw_wait_list sem @ [\<lparr>w_task = t, w_flags = READ\<rparr>]) (pc(t := Waiting READ))"
      by (rule queue_ok_append [OF i(2)]) (simp add: t)
    with s False i no show ?thesis
      by (auto simp: rw_inv_def activity_ok_def front_ok_def owners_upd hd_append)
  qed
qed

lemma down_write_step:
  assumes inv: "rw_inv (sem, pc)" and t: "pc t = Outside" and d: "down_write t sem = (ok, sem')"
  shows "rw_inv (sem', pc(t := if ok then Holding WRITE else Waiting WRITE))"
proof -
  have i: "activity_ok (activity sem) pc" "queue_ok (rw_wait_list sem) pc"
    "front_ok (activity sem) (rw_wait_list sem)" using inv by (auto simp: rw_inv_def)
  have no: "t \<notin> owners READ pc" "t \<notin> owners WRITE pc" using t by (auto simp: owners_def)
  show ?thesis
  proof (cases "activity sem = 0 \<and> rw_wait_list sem = []")
    case True
    with d have s: "ok" "sem' = sem\<lparr>activity := - 1\<rparr>" by (auto simp: down_write_def)
    have "queue_ok (rw_wait_list sem) (pc(t := Holding WRITE))" using i(2) t by (subst queue_ok_upd) auto
    with s True i no show ?thesis by (auto simp: rw_inv_def activity_ok_def front_ok_def owners_upd)
  next
    case False
    with d have s: "\<not> ok" "sem' = sem\<lparr>rw_wait_list := rw_wait_list sem @ [\<lparr>w_task = t, w_flags = WRITE\<rparr>]\<rparr>"
      by (auto simp: down_write_def split: if_splits)
    have "queue_ok (rw_wait_list sem @ [\<lparr>w_task = t, w_flags = WRITE\<rparr>]) (pc(t := Waiting WRITE))"
      by (rule queue_ok_append [OF i(2)]) (simp add: t)
    with s False i no show ?thesis
      by (auto simp: rw_inv_def activity_ok_def front_ok_def owners_upd hd_append)
  qed
qed

text \<open>A successful trylock is a down function that does not wait.\<close>

lemma trylock_down:
  "fst (down_read_trylock sem) \<longleftrightarrow> fst (down_read t sem)"
  "fst (down_read_trylock sem) \<Longrightarrow> down_read_trylock sem = down_read t sem"
  "\<not> fst (down_read_trylock sem) \<Longrightarrow> snd (down_read_trylock sem) = sem"
  "fst (down_write_trylock sem) \<longleftrightarrow> fst (down_write t sem)"
  "fst (down_write_trylock sem) \<Longrightarrow> down_write_trylock sem = down_write t sem"
  "\<not> fst (down_write_trylock sem) \<Longrightarrow> snd (down_write_trylock sem) = sem"
  by (auto simp: down_read_trylock_def down_read_def down_write_trylock_def down_write_def split: if_splits)

lemma running_step:
  assumes "rw_inv (sem, pc)" "pc t = Granted m"
  shows "rw_inv (sem, pc(t := Holding m))"
proof -
  have "owners k (pc(t := Holding m)) = owners k pc" for k
    using assms(2) by (auto simp: owners_def)
  moreover have "queue_ok (rw_wait_list sem) (pc(t := Holding m)) = queue_ok (rw_wait_list sem) pc"
    using assms(2) by (intro queue_ok_upd) auto
  ultimately show ?thesis using assms(1) by (simp add: rw_inv_def activity_ok_def)
qed

interpretation rw: step_invariant rw_step rw_inv
proof
  fix s s' :: rw_sys
  assume inv: "rw_inv s" and step: "rw_step s s'"
  from step show "rw_inv s'"
  proof cases
    case (read_trylock pc t sem ok sem')
    then show ?thesis using inv trylock_down(2) [of sem t] trylock_down(3) [of sem] down_read_step [of sem pc t ok sem'] by auto
  next
    case (write_trylock pc t sem ok sem')
    then show ?thesis using inv trylock_down(5) [of sem t] trylock_down(6) [of sem] down_write_step [of sem pc t ok sem'] by auto
  next
    case (up_read pc t sem sem' ts)
    then show ?thesis using inv up_read_step [of sem pc t] by auto
  next
    case (up_write pc t sem sem' ts)
    then show ?thesis using inv up_write_step [of sem pc t] by auto
  next
    case (downgrade pc t sem sem' ts)
    then show ?thesis using inv downgrade_step [of sem pc t] by auto
  qed (use inv down_read_step down_write_step running_step in auto)
qed

lemma rw_start_inv: "rw_inv rw_start"
  by (simp add: rw_start_def rw_inv_def init_rwsem_def activity_ok_def queue_ok_def front_ok_def owners_def)

section \<open>Properties\<close>

text \<open>
  C18: In every state the tasks can reach, a task that holds or was granted the semaphore
  for writing is its only owner, the counter is the number of readers, or \<open>-1\<close> with a writer, every
  sleeping task is in the queue, no task sleeps on an unowned semaphore, and an owner can
  always release or downgrade without the functions running on an empty queue.
\<close>

theorem rwsem_exclusion:
  assumes "rw_step\<^sup>*\<^sup>* rw_start (sem, pc)"
  shows "(owners WRITE pc = {} \<or> (\<exists>t. owners WRITE pc = {t} \<and> owners READ pc = {})) \<and>
    activity sem = (if owners WRITE pc = {} then int (card (owners READ pc)) else - 1) \<and>
    (\<forall>t m. pc t = Waiting m \<longrightarrow> \<lparr>w_task = t, w_flags = m\<rparr> \<in> set (rw_wait_list sem)) \<and>
    (rw_wait_list sem \<noteq> [] \<longrightarrow> owners READ pc \<union> owners WRITE pc \<noteq> {}) \<and>
    (\<forall>t. pc t = Holding READ \<longrightarrow> up_read sem \<noteq> None) \<and>
    (\<forall>t. pc t = Holding WRITE \<longrightarrow> up_write sem \<noteq> None \<and> downgrade_write sem \<noteq> None)"
proof -
  from rw.run_keeps [OF assms rw_start_inv] have inv: "rw_inv (sem, pc)" .
  then have i: "activity_ok (activity sem) pc" "queue_ok (rw_wait_list sem) pc"
    "front_ok (activity sem) (rw_wait_list sem)" by (auto simp: rw_inv_def)
  have "owners WRITE pc = {} \<or> (\<exists>t. owners WRITE pc = {t} \<and> owners READ pc = {})"
    "activity sem = (if owners WRITE pc = {} then int (card (owners READ pc)) else - 1)"
    using i(1) by (auto simp: activity_ok_def split: if_splits)
  moreover have "owners READ pc \<union> owners WRITE pc \<noteq> {}" if "rw_wait_list sem \<noteq> []"
    using i(1,3) that by (auto simp: activity_ok_def front_ok_def split: if_splits)
  moreover have "\<forall>t m. pc t = Waiting m \<longrightarrow> \<lparr>w_task = t, w_flags = m\<rparr> \<in> set (rw_wait_list sem)"
    using i(2) by (simp add: queue_ok_def)
  moreover have "\<forall>t. pc t = Holding READ \<longrightarrow> up_read sem \<noteq> None" using up_read_step [OF inv] by blast
  moreover have "\<forall>t. pc t = Holding WRITE \<longrightarrow> up_write sem \<noteq> None \<and> downgrade_write sem \<noteq> None"
    using up_write_step [OF inv] downgrade_step [OF inv] by blast
  ultimately show ?thesis by blast
qed

text \<open>Those at the front of the queue that the release serves.\<close>

definition served :: "rwsem_waiter list \<Rightarrow> rwsem_waiter list" where
  "served ws = (if ws \<noteq> [] \<and> w_flags (hd ws) = WRITE then [hd ws] else takeWhile (\<lambda>w. w_flags w = READ) ws)"

lemma served_readers:
  assumes "ws = g @ rest" "g \<noteq> []" "\<forall>w \<in> set g. w_flags w = READ" "rest \<noteq> [] \<longrightarrow> w_flags (hd rest) = WRITE"
  shows "served ws = g"
proof -
  have "takeWhile (\<lambda>w. w_flags w = READ) rest = []" using assms(4) by (cases rest) auto
  moreover have "w_flags (hd ws) = READ" using assms(1-3) by (cases g) auto
  ultimately show ?thesis using assms(1,3) by (simp add: served_def takeWhile_append2)
qed

text \<open>
  C19: The queue is served in order. In a reachable state whose queue is not empty, the
  release by the last owner takes the first writer or all readers in front of the first
  writer off the front of the queue, and exactly these become the owners, each in the mode
  it waits for; the rest of the queue stays in order.
\<close>

theorem rwsem_served_in_order:
  assumes reach: "rw_step\<^sup>*\<^sup>* rw_start (sem, pc)" and wait: "rw_wait_list sem \<noteq> []"
    and last: "owners READ pc \<union> owners WRITE pc = {t}" and holds: "pc t = Holding m"
  shows "\<exists>sem' g. (if m = READ then up_read sem else up_write sem) = Some (sem', map w_task g) \<and>
    g = served (rw_wait_list sem) \<and> g \<noteq> [] \<and> rw_wait_list sem = g @ rw_wait_list sem' \<and>
    (\<forall>k. owners k (wake (map w_task g) (pc(t := Outside))) = w_task ` {w \<in> set g. w_flags w = k})"
proof -
  from rw.run_keeps [OF reach rw_start_inv] have i: "activity_ok (activity sem) pc"
    "queue_ok (rw_wait_list sem) pc" "front_ok (activity sem) (rw_wait_list sem)" by (auto simp: rw_inv_def)
  have q: "queue_ok (rw_wait_list sem) (pc(t := Outside))" using i(2) holds by (subst queue_ok_upd) auto
  have none: "owners k (pc(t := Outside)) = {}" for k
    using last by (cases k) (auto simp: owners_upd)
  have woken: "owners k (wake (map w_task g) (pc(t := Outside))) = w_task ` {w \<in> set g. w_flags w = k}"
    if "rw_wait_list sem = g @ rest" for g rest k
    using wake_prefix(2) [of g rest "pc(t := Outside)"] q that none by simp
  show ?thesis
  proof (cases m)
    case READ
    with holds last have "owners READ pc = {t}" by (auto simp: owners_def)
    with i(1) have a: "activity sem = 1" by (auto simp: activity_ok_def split: if_splits)
    with i(3) wait have f: "w_flags (hd (rw_wait_list sem)) = WRITE" by (simp add: front_ok_def)
    from wait obtain w ws where l: "rw_wait_list sem = w # ws" by (cases "rw_wait_list sem") auto
    have "up_read sem = Some (\<lparr>activity = - 1, rw_wait_list = ws\<rparr>, map w_task [w])"
      using a l by (simp add: up_read_def rwsem_wake_one_writer_def)
    moreover have "served (rw_wait_list sem) = [w]" using l f by (simp add: served_def)
    moreover have "rw_wait_list sem = [w] @ ws" using l by simp
    ultimately show ?thesis using READ woken [of "[w]" ws]
      by (intro exI [of _ "\<lparr>activity = - 1, rw_wait_list = ws\<rparr>"] exI [of _ "[w]"]) simp
  next
    case WRITE
    let ?s = "sem\<lparr>activity := 0\<rparr>"
    have up: "up_write sem = rwsem_do_wake ?s True" using wait by (simp add: up_write_def)
    have "rw_wait_list ?s \<noteq> []" using wait by simp
    then show ?thesis
    proof (cases rule: do_wake_cases [where wakewrite = True])
      case (writer w ws)
      then have "served (rw_wait_list sem) = [w]" "rw_wait_list sem = [w] @ ws" by (simp_all add: served_def)
      with WRITE up writer woken [of "[w]" ws] show ?thesis
        by (intro exI [of _ "\<lparr>activity = - 1, rw_wait_list = ws\<rparr>"] exI [of _ "[w]"]) simp
    next
      case (readers g rest)
      then have "served (rw_wait_list sem) = g" using served_readers by simp
      with WRITE up readers woken [of g rest] show ?thesis
        by (intro exI [of _ "\<lparr>activity = int (length g), rw_wait_list = rest\<rparr>"] exI [of _ g]) simp
    qed simp
  qed
qed

text \<open>A run with a reader, a waiting writer and a waiting reader.\<close>

definition rw_example :: rw_sys where
  "rw_example =
     (\<lparr>activity = 1, rw_wait_list = [\<lparr>w_task = 2, w_flags = WRITE\<rparr>, \<lparr>w_task = 3, w_flags = READ\<rparr>]\<rparr>,
      (\<lambda>_. Outside)(1 := Holding READ, 2 := Waiting WRITE, 3 := Waiting READ))"

lemma rw_example_reachable: "rw_step\<^sup>*\<^sup>* rw_start rw_example"
proof -
  let ?s1 = "(\<lparr>activity = 1, rw_wait_list = []\<rparr>, (\<lambda>_. Outside)(1 := Holding READ))"
  let ?s2 = "(\<lparr>activity = 1, rw_wait_list = [\<lparr>w_task = 2, w_flags = WRITE\<rparr>]\<rparr>,
      (\<lambda>_. Outside)(1 := Holding READ, 2 := Waiting WRITE))"
  have "rw_step rw_start ?s1"
    using rw_step.down_read [of "\<lambda>_. Outside" 1 init_rwsem True]
    by (simp add: rw_start_def init_rwsem_def down_read_def)
  moreover have "rw_step ?s1 ?s2"
    using rw_step.down_write [of "(\<lambda>_. Outside)(1 := Holding READ)" 2 "fst ?s1" False]
    by (simp add: down_write_def)
  moreover have "rw_step ?s2 rw_example"
    using rw_step.down_read [of "snd ?s2" 3 "fst ?s2" False]
    by (simp add: down_read_def rw_example_def)
  ultimately show ?thesis by (meson rtranclp.rtrancl_into_rtrancl rtranclp.rtrancl_refl)
qed

theorem rwsem_exclusion_witness:
  "owners WRITE (snd rw_example) = {} \<or>
   (\<exists>t. owners WRITE (snd rw_example) = {t} \<and> owners READ (snd rw_example) = {})"
  using rwsem_exclusion [of "fst rw_example" "snd rw_example"] rw_example_reachable by simp

theorem rwsem_served_in_order_witness:
  "\<exists>sem' g. up_read (fst rw_example) = Some (sem', map w_task g) \<and> g = served (rw_wait_list (fst rw_example)) \<and>
     rw_wait_list (fst rw_example) = g @ rw_wait_list sem'"
proof -
  have "owners READ (snd rw_example) \<union> owners WRITE (snd rw_example) = {1}"
    by (auto simp: rw_example_def owners_def split: if_splits)
  moreover have "snd rw_example 1 = Holding READ" "rw_wait_list (fst rw_example) \<noteq> []"
    by (simp_all add: rw_example_def)
  ultimately show ?thesis
    using rwsem_served_in_order [of "fst rw_example" "snd rw_example" 1 READ] rw_example_reachable by auto
qed

end
