(* ===== verification/Semaphore.thy ===== *)
theory Semaphore imports Prelude begin

text \<open>
  The counting semaphore of \<open>kernel/semaphore.c\<close>. The down functions hold the spinlock
  except while they sleep in \<open>schedule_timeout\<close>, so each stretch between two sleeps is one
  function on the state the spinlock protects. The step relation puts the functions
  together with the tasks that sleep in them.
\<close>

section \<open>State\<close>

type_synonym task = nat

text \<open>The waiter of a task is on its stack, so the list can name the task.\<close>

record semaphore =
  sem_count :: u32
  sem_wait :: "task list"

definition sema_init :: "u32 \<Rightarrow> semaphore" where
  "sema_init val = \<lparr>sem_count = val, sem_wait = []\<rparr>"

section \<open>Task states, signals and timeouts\<close>

definition TASK_INTERRUPTIBLE :: ulong where "TASK_INTERRUPTIBLE = 1"
definition TASK_UNINTERRUPTIBLE :: ulong where "TASK_UNINTERRUPTIBLE = 2"
definition TASK_WAKEKILL :: ulong where "TASK_WAKEKILL = 128"
definition TASK_KILLABLE :: ulong where "TASK_KILLABLE = TASK_WAKEKILL OR TASK_UNINTERRUPTIBLE"

text \<open>Whether a signal is pending for the task, and whether a fatal one is.\<close>

record signals =
  sig_pending :: bool
  sig_fatal :: bool

definition signal_pending_state :: "ulong \<Rightarrow> signals \<Rightarrow> bool" where
  "signal_pending_state state p =
     (if state AND (TASK_INTERRUPTIBLE OR TASK_WAKEKILL) = 0 then False
      else if \<not> sig_pending p then False
      else state AND TASK_INTERRUPTIBLE \<noteq> 0 \<or> sig_fatal p)"

definition MAX_SCHEDULE_TIMEOUT :: int where
  "MAX_SCHEDULE_TIMEOUT = 2 ^ 31 - 1"

text \<open>
  \<open>schedule_timeout\<close> for a task that runs again after \<open>elapsed\<close> ticks; the counter of ticks
  wraps around and so does the difference of the expiry and the present tick.
\<close>

definition schedule_timeout :: "int \<Rightarrow> nat \<Rightarrow> int" where
  "schedule_timeout timeout elapsed =
     (let left = (if timeout = MAX_SCHEDULE_TIMEOUT \<or> timeout < 0 then timeout
                  else sint (word_of_int timeout - of_nat elapsed :: ulong)) in
      if left < 0 then 0 else left)"

section \<open>Operations\<close>

text \<open>A down function either returns or goes to sleep with a timeout.\<close>

datatype outcome = Returns "unit result" | Sleeps int

text \<open>The top of the loop of \<open>__down_common\<close>, up to the sleep.\<close>

definition down_loop :: "task \<Rightarrow> ulong \<Rightarrow> int \<Rightarrow> signals \<Rightarrow> semaphore \<Rightarrow> outcome \<times> semaphore" where
  "down_loop t state timeout p sem =
     (if signal_pending_state state p
      then (Returns (Inl (Err EINTR)), sem\<lparr>sem_wait := remove1 t (sem_wait sem)\<rparr>)
      else if timeout \<le> 0
      then (Returns (Inl (Err ETIME)), sem\<lparr>sem_wait := remove1 t (sem_wait sem)\<rparr>)
      else (Sleeps timeout, sem))"

definition down_common :: "task \<Rightarrow> ulong \<Rightarrow> int \<Rightarrow> signals \<Rightarrow> semaphore \<Rightarrow> outcome \<times> semaphore" where
  "down_common t state timeout p sem =
     down_loop t state timeout p (sem\<lparr>sem_wait := sem_wait sem @ [t]\<rparr>)"

text \<open>The rest of the loop body after the sleep, and the next iteration's top.\<close>

definition down_resume ::
  "task \<Rightarrow> ulong \<Rightarrow> int \<Rightarrow> nat \<Rightarrow> bool \<Rightarrow> signals \<Rightarrow> semaphore \<Rightarrow> outcome \<times> semaphore" where
  "down_resume t state timeout elapsed upf p sem =
     (let timeout = schedule_timeout timeout elapsed in
      if upf then (Returns (Inr ()), sem) else down_loop t state timeout p sem)"

definition down_or :: "(semaphore \<Rightarrow> outcome \<times> semaphore) \<Rightarrow> semaphore \<Rightarrow> outcome \<times> semaphore" where
  "down_or contended sem =
     (if 0 < sem_count sem then (Returns (Inr ()), sem\<lparr>sem_count := sem_count sem - 1\<rparr>)
      else contended sem)"

definition down :: "task \<Rightarrow> signals \<Rightarrow> semaphore \<Rightarrow> outcome \<times> semaphore" where
  "down t p = down_or (down_common t TASK_UNINTERRUPTIBLE MAX_SCHEDULE_TIMEOUT p)"

definition down_interruptible :: "task \<Rightarrow> signals \<Rightarrow> semaphore \<Rightarrow> outcome \<times> semaphore" where
  "down_interruptible t p = down_or (down_common t TASK_INTERRUPTIBLE MAX_SCHEDULE_TIMEOUT p)"

definition down_killable :: "task \<Rightarrow> signals \<Rightarrow> semaphore \<Rightarrow> outcome \<times> semaphore" where
  "down_killable t p = down_or (down_common t TASK_KILLABLE MAX_SCHEDULE_TIMEOUT p)"

definition down_timeout :: "task \<Rightarrow> int \<Rightarrow> signals \<Rightarrow> semaphore \<Rightarrow> outcome \<times> semaphore" where
  "down_timeout t jiffies p = down_or (down_common t TASK_UNINTERRUPTIBLE jiffies p)"

text \<open>\<open>down_trylock\<close> returns whether it failed. The difference is read as an \<open>int\<close>.\<close>

definition down_trylock :: "semaphore \<Rightarrow> bool \<times> semaphore" where
  "down_trylock sem =
     (let count = sem_count sem - 1 in
      (sint count < 0, if 0 \<le> sint count then sem\<lparr>sem_count := count\<rparr> else sem))"

text \<open>\<open>up\<close>, with the task whose waiter it marked and woke up.\<close>

definition up :: "semaphore \<Rightarrow> semaphore \<times> task option" where
  "up sem =
     (case sem_wait sem of
        [] \<Rightarrow> (sem\<lparr>sem_count := sem_count sem + 1\<rparr>, None)
      | t # ts \<Rightarrow> (sem\<lparr>sem_wait := ts\<rparr>, Some t))"

section \<open>Tasks and the semaphore\<close>

text \<open>
  A sleeping task has the state and timeout of its call and the flag \<open>waiter.up\<close>. The
  numbers of units given by \<open>up\<close> and of units taken by the down functions are history.
\<close>

datatype sem_pc = Away | Asleep (in_state: ulong) (in_timeout: int) (was_up: bool)

record sem_sys =
  sem :: semaphore
  pcs :: "task \<Rightarrow> sem_pc"
  given :: nat
  taken :: nat

text \<open>The state after a stretch of a down function of \<open>t\<close> that began with \<open>waiter.up\<close> as \<open>u\<close>.\<close>

definition after_down :: "task \<Rightarrow> ulong \<Rightarrow> bool \<Rightarrow> outcome \<times> semaphore \<Rightarrow> sem_sys \<Rightarrow> sem_sys" where
  "after_down t state u os s =
     s\<lparr>sem := snd os,
       pcs := (pcs s)(t := (case fst os of Returns _ \<Rightarrow> Away | Sleeps timeout \<Rightarrow> Asleep state timeout u)),
       taken := (if fst os = Returns (Inr ()) \<and> \<not> u then taken s + 1 else taken s)\<rparr>"

definition after_up :: "semaphore \<times> task option \<Rightarrow> sem_sys \<Rightarrow> sem_sys" where
  "after_up r s =
     (case r of
        (sem', None) \<Rightarrow> s\<lparr>sem := sem', given := given s + 1\<rparr>
      | (sem', Some t) \<Rightarrow>
          s\<lparr>sem := sem', given := given s + 1, taken := taken s + 1,
            pcs := (pcs s)(t := (case pcs s t of Away \<Rightarrow> Away | Asleep st to u \<Rightarrow> Asleep st to True))\<rparr>)"

inductive sem_step :: "sem_sys \<Rightarrow> sem_sys \<Rightarrow> bool" where
  down: "pcs s t = Away \<Longrightarrow>
     sem_step s (after_down t TASK_UNINTERRUPTIBLE False (down t p (sem s)) s)"
| down_interruptible: "pcs s t = Away \<Longrightarrow>
     sem_step s (after_down t TASK_INTERRUPTIBLE False (down_interruptible t p (sem s)) s)"
| down_killable: "pcs s t = Away \<Longrightarrow>
     sem_step s (after_down t TASK_KILLABLE False (down_killable t p (sem s)) s)"
| down_timeout: "pcs s t = Away \<Longrightarrow>
     sem_step s (after_down t TASK_UNINTERRUPTIBLE False (down_timeout t jiffies p (sem s)) s)"
| down_trylock: "pcs s t = Away \<Longrightarrow> down_trylock (sem s) = (failed, sem') \<Longrightarrow>
     sem_step s (s\<lparr>sem := sem', taken := (if failed then taken s else taken s + 1)\<rparr>)"
| resume: "pcs s t = Asleep state timeout u \<Longrightarrow>
     sem_step s (after_down t state u (down_resume t state timeout elapsed u p (sem s)) s)"
| up: "sem_step s (after_up (up (sem s)) s)"

definition sem_start :: "u32 \<Rightarrow> sem_sys" where
  "sem_start val = \<lparr>sem = sema_init val, pcs = \<lambda>_. Away, given = 0, taken = 0\<rparr>"

section \<open>The invariant\<close>

text \<open>
  The list holds exactly the sleeping tasks that were not given a unit, once each; nobody
  waits while there are units left; and no unit is lost or made, as long as the counter
  does not wrap around.
\<close>

definition sem_inv :: "nat \<Rightarrow> sem_sys \<Rightarrow> bool" where
  "sem_inv init s \<longleftrightarrow>
     distinct (sem_wait (sem s)) \<and>
     (\<forall>t. t \<in> set (sem_wait (sem s)) \<longleftrightarrow> (\<exists>st to. pcs s t = Asleep st to False)) \<and>
     (sem_wait (sem s) \<noteq> [] \<longrightarrow> sem_count (sem s) = 0) \<and>
     (init + given s < 2 ^ 32 \<longrightarrow> unat (sem_count (sem s)) + taken s = init + given s)"

lemmas sem_defs = down_def down_interruptible_def down_killable_def down_timeout_def down_or_def
  down_common_def

lemma word_pred: "0 < (x :: u32) \<Longrightarrow> unat (x - 1) + 1 = unat x"
proof -
  assume "0 < x"
  then have x: "0 < unat x" by (simp add: word_less_nat_alt)
  then have "1 \<le> x" by (simp add: word_le_nat_alt)
  from unat_sub [OF this] x show ?thesis by simp
qed

lemma trylock_cases:
  "down_trylock sm = (failed, sm') \<Longrightarrow>
    failed \<and> sm' = sm \<or> \<not> failed \<and> 0 < sem_count sm \<and> sm' = sm\<lparr>sem_count := sem_count sm - 1\<rparr>"
proof -
  assume d: "down_trylock sm = (failed, sm')"
  have "0 < sem_count sm" if "0 \<le> sint (sem_count sm - 1)"
  proof (rule ccontr)
    assume "\<not> 0 < sem_count sm"
    then have "sem_count sm = 0" by (simp add: word_gt_0)
    with that show False by simp
  qed
  with d show ?thesis by (auto simp: down_trylock_def Let_def)
qed

text \<open>What one stretch of a down function does to the semaphore.\<close>

lemma down_loop_cases:
  "down_loop t state timeout p s = (r, s') \<Longrightarrow>
    (\<exists>e. r = Returns (Inl e)) \<and> s' = s\<lparr>sem_wait := remove1 t (sem_wait s)\<rparr> \<or>
    0 < timeout \<and> r = Sleeps timeout \<and> s' = s"
  by (auto simp: down_loop_def split: if_splits)

lemma down_or_cases:
  assumes "down_or (down_common t state timeout p) s = (r, s')" "t \<notin> set (sem_wait s)"
  shows "0 < sem_count s \<and> r = Returns (Inr ()) \<and> s' = s\<lparr>sem_count := sem_count s - 1\<rparr> \<or>
    sem_count s = 0 \<and> ((\<exists>e. r = Returns (Inl e)) \<and> s' = s \<or>
      r = Sleeps timeout \<and> s' = s\<lparr>sem_wait := sem_wait s @ [t]\<rparr>)"
proof (cases "0 < sem_count s")
  case False
  then have "sem_count s = 0" by (simp add: word_gt_0)
  with assms down_loop_cases [of t state timeout p "s\<lparr>sem_wait := sem_wait s @ [t]\<rparr>" r s'] show ?thesis
    by (auto simp: down_or_def down_common_def remove1_append remove1_idem)
qed (use assms in \<open>auto simp: down_or_def\<close>)

lemma sem_inv_down:
  assumes inv: "sem_inv init s" and t: "pcs s t = Away"
    and os: "down_or (down_common t state timeout p) (sem s) = os"
  shows "sem_inv init (after_down t state False os s)"
proof -
  obtain r s' where r: "os = (r, s')" by fastforce
  have nt: "t \<notin> set (sem_wait (sem s))" using inv t by (auto simp: sem_inv_def)
  from down_or_cases [OF os [unfolded r] nt]
  consider "0 < sem_count (sem s)" "r = Returns (Inr ())" "s' = (sem s)\<lparr>sem_count := sem_count (sem s) - 1\<rparr>"
    | e where "r = Returns (Inl e)" "s' = sem s"
    | "sem_count (sem s) = 0" "r = Sleeps timeout" "s' = (sem s)\<lparr>sem_wait := sem_wait (sem s) @ [t]\<rparr>"
    by blast
  then show ?thesis
  proof cases
    case 1
    then have "unat (sem_count (sem s) - 1) + 1 = unat (sem_count (sem s))" by (intro word_pred)
    moreover have "sem_wait (sem s) = []" using inv 1(1) by (auto simp: sem_inv_def)
    ultimately show ?thesis using inv t 1(2,3) r by (auto simp: sem_inv_def after_down_def)
  next
    case 2
    then show ?thesis using inv t r by (auto simp: sem_inv_def after_down_def)
  next
    case 3
    then show ?thesis using inv t r nt by (auto simp: sem_inv_def after_down_def)
  qed
qed

lemma sem_inv_resume:
  assumes inv: "sem_inv init s" and t: "pcs s t = Asleep state timeout u"
    and os: "down_resume t state timeout elapsed u p (sem s) = os"
  shows "sem_inv init (after_down t state u os s)"
proof (cases u)
  case True
  then have "os = (Returns (Inr ()), sem s)" using os by (simp add: down_resume_def)
  then show ?thesis using inv t True by (auto simp: sem_inv_def after_down_def)
next
  case False
  obtain r s' where r: "os = (r, s')" by fastforce
  have "down_loop t state (schedule_timeout timeout elapsed) p (sem s) = (r, s')"
    using os r False by (simp add: down_resume_def)
  from down_loop_cases [OF this] show ?thesis
  proof
    assume "(\<exists>e. r = Returns (Inl e)) \<and> s' = sem s\<lparr>sem_wait := remove1 t (sem_wait (sem s))\<rparr>"
    then show ?thesis using inv t False r by (auto simp: sem_inv_def after_down_def)
  next
    assume "0 < schedule_timeout timeout elapsed \<and> r = Sleeps (schedule_timeout timeout elapsed) \<and> s' = sem s"
    then show ?thesis using inv t False r by (auto simp: sem_inv_def after_down_def)
  qed
qed

lemma sem_inv_trylock:
  assumes inv: "sem_inv init s" and d: "down_trylock (sem s) = (failed, sem')"
  shows "sem_inv init (s\<lparr>sem := sem', taken := (if failed then taken s else taken s + 1)\<rparr>)"
  using trylock_cases [OF d]
proof
  assume "failed \<and> sem' = sem s"
  then show ?thesis using inv by (simp add: sem_inv_def)
next
  assume a: "\<not> failed \<and> 0 < sem_count (sem s) \<and> sem' = sem s\<lparr>sem_count := sem_count (sem s) - 1\<rparr>"
  then have "unat (sem_count (sem s) - 1) + 1 = unat (sem_count (sem s))" by (intro word_pred) simp
  moreover have "sem_wait (sem s) = []" using inv a by (auto simp: sem_inv_def)
  ultimately show ?thesis using inv a by (auto simp: sem_inv_def)
qed

lemma sem_inv_up:
  assumes inv: "sem_inv init s"
  shows "sem_inv init (after_up (up (sem s)) s)"
proof (cases "sem_wait (sem s)")
  case Nil
  have "unat (sem_count (sem s) + 1) = unat (sem_count (sem s)) + 1"
    if "init + (given s + 1) < 2 ^ 32"
  proof -
    have "unat (sem_count (sem s)) + 1 < 2 ^ 32" using inv that by (simp add: sem_inv_def)
    then show ?thesis by (simp add: unat_word_ariths)
  qed
  then show ?thesis using inv Nil by (auto simp: sem_inv_def after_up_def up_def)
next
  case (Cons t ts)
  then obtain st to where t: "pcs s t = Asleep st to False" using inv by (force simp: sem_inv_def)
  have "t \<notin> set ts" using inv Cons by (simp add: sem_inv_def)
  moreover have "v \<in> set ts \<longleftrightarrow> v \<noteq> t \<and> (\<exists>st to. pcs s v = Asleep st to False)" for v
    using inv Cons calculation by (auto simp: sem_inv_def)
  moreover have "init + given s < 2 ^ 32 \<longrightarrow> taken s = init + given s"
    using inv Cons by (auto simp: sem_inv_def)
  ultimately show ?thesis using inv Cons t by (simp add: sem_inv_def after_up_def up_def)
qed

interpretation sem: step_invariant sem_step "sem_inv init" for init
proof
  fix s s' assume inv: "sem_inv init s" and step: "sem_step s s'"
  from step show "sem_inv init s'"
    by cases (use inv sem_inv_down sem_inv_resume sem_inv_trylock sem_inv_up in
      \<open>auto simp: down_def down_interruptible_def down_killable_def down_timeout_def\<close>)
qed

lemma sem_start_inv: "sem_inv (unat val) (sem_start val)"
  by (simp add: sem_inv_def sem_start_def sema_init_def)

section \<open>Properties\<close>

text \<open>
  C39: No unit is lost or made. In every reachable state whose total of initial and given
  units fits the counter, the units left and the units taken add up to that total; so at
  most that many units are taken. A task sleeps in the list exactly if it was not given a
  unit, and nobody sleeps while a unit is left.
\<close>

theorem sem_conservation:
  assumes reach: "sem_step\<^sup>*\<^sup>* (sem_start val) s" and bound: "unat val + given s < 2 ^ 32"
  shows "unat (sem_count (sem s)) + taken s = unat val + given s \<and>
    (0 < sem_count (sem s) \<longrightarrow> (\<forall>t st to. pcs s t \<noteq> Asleep st to False)) \<and>
    (\<forall>t. t \<in> set (sem_wait (sem s)) \<longleftrightarrow> (\<exists>st to. pcs s t = Asleep st to False))"
proof -
  from sem.run_keeps [OF reach sem_start_inv] have inv: "sem_inv (unat val) s" .
  have "pcs s t \<noteq> Asleep st to False" if "0 < sem_count (sem s)" for t st to
  proof
    assume "pcs s t = Asleep st to False"
    then have "t \<in> set (sem_wait (sem s))" using inv by (auto simp: sem_inv_def)
    then have "sem_count (sem s) = 0" using inv by (auto simp: sem_inv_def)
    with that show False by simp
  qed
  with inv bound show ?thesis by (auto simp: sem_inv_def)
qed

text \<open>
  A down function that gives up takes nothing with it. In a reachable state, a task that
  wakes up with a unit returns success whatever signals and timeouts it has; one that wakes
  up without a unit and returns an error only leaves the list, with \<open>EINTR\<close> exactly if a
  signal its state admits is pending and else with \<open>ETIME\<close> when its time is over.
\<close>

theorem sem_giving_up:
  assumes reach: "sem_step\<^sup>*\<^sup>* (sem_start val) s" and asleep: "pcs s t = Asleep state timeout u"
  shows "(u \<longrightarrow> down_resume t state timeout elapsed u p (sem s) = (Returns (Inr ()), sem s)) \<and>
    (\<not> u \<longrightarrow> (case down_resume t state timeout elapsed u p (sem s) of
        (Returns r, s') \<Rightarrow>
          r = Inl (Err (if signal_pending_state state p then EINTR else ETIME)) \<and>
          (signal_pending_state state p \<or> schedule_timeout timeout elapsed = 0) \<and>
          sem_count s' = sem_count (sem s) \<and> t \<notin> set (sem_wait s') \<and>
          (\<exists>l1 l2. sem_wait (sem s) = l1 @ t # l2 \<and> sem_wait s' = l1 @ l2)
      | (Sleeps rest, s') \<Rightarrow> rest = schedule_timeout timeout elapsed \<and> 0 < rest \<and> s' = sem s))"
proof -
  from sem.run_keeps [OF reach sem_start_inv] have inv: "sem_inv (unat val) s" .
  have nonneg: "0 \<le> schedule_timeout timeout elapsed" by (simp add: schedule_timeout_def Let_def)
  have "\<exists>l1 l2. sem_wait (sem s) = l1 @ t # l2 \<and> remove1 t (sem_wait (sem s)) = l1 @ l2 \<and> t \<notin> set (l1 @ l2)"
    if "\<not> u"
  proof -
    have "t \<in> set (sem_wait (sem s))" using inv asleep that by (simp add: sem_inv_def)
    then obtain l1 l2 where l: "sem_wait (sem s) = l1 @ t # l2" "t \<notin> set l1"
      using split_list_first by metis
    with inv have "t \<notin> set l2" by (simp add: sem_inv_def)
    with l show ?thesis by (auto simp: remove1_append)
  qed
  with nonneg show ?thesis
    by (auto simp: down_resume_def down_loop_def Let_def)
qed

definition sem_example :: sem_sys where
  "sem_example =
     \<lparr>sem = \<lparr>sem_count = 0, sem_wait = [7]\<rparr>,
      pcs = (\<lambda>_. Away)(7 := Asleep TASK_INTERRUPTIBLE MAX_SCHEDULE_TIMEOUT False), given = 0, taken = 1\<rparr>"

lemma sem_example_reachable: "sem_step\<^sup>*\<^sup>* (sem_start 1) sem_example"
proof -
  let ?s1 = "\<lparr>sem = \<lparr>sem_count = 0, sem_wait = []\<rparr>, pcs = \<lambda>_. Away, given = 0, taken = 1\<rparr>"
  let ?p = "\<lparr>sig_pending = False, sig_fatal = False\<rparr>"
  have "sem_step (sem_start 1) ?s1"
    using sem_step.down [of "sem_start 1" 3 ?p]
    by (simp add: sem_start_def sema_init_def down_def down_or_def after_down_def fun_upd_idem)
  moreover have "down_interruptible 7 ?p \<lparr>sem_count = 0, sem_wait = []\<rparr> =
      (Sleeps MAX_SCHEDULE_TIMEOUT, \<lparr>sem_count = 0, sem_wait = [7]\<rparr>)"
    by (simp add: down_interruptible_def down_or_def down_common_def down_loop_def
        signal_pending_state_def MAX_SCHEDULE_TIMEOUT_def)
  then have "sem_step ?s1 sem_example"
    using sem_step.down_interruptible [of ?s1 7 ?p]
    by (simp add: after_down_def sem_example_def)
  ultimately show ?thesis by (meson rtranclp.rtrancl_into_rtrancl rtranclp.rtrancl_refl)
qed

theorem sem_conservation_witness:
  "unat (sem_count (sem sem_example)) + taken sem_example = unat (1 :: u32) + given sem_example"
proof -
  have "unat (1 :: u32) + given sem_example < 2 ^ 32" by (simp add: sem_example_def)
  from sem_conservation [OF sem_example_reachable this] show ?thesis by blast
qed

theorem sem_giving_up_witness:
  "case down_resume 7 TASK_INTERRUPTIBLE MAX_SCHEDULE_TIMEOUT 5 False
      \<lparr>sig_pending = True, sig_fatal = False\<rparr> (sem sem_example) of
     (Returns r, s') \<Rightarrow> r = Inl (Err EINTR) \<and> sem_wait s' = []
   | (Sleeps rest, s') \<Rightarrow> False"
proof -
  have "pcs sem_example 7 = Asleep TASK_INTERRUPTIBLE MAX_SCHEDULE_TIMEOUT False"
    by (simp add: sem_example_def)
  from sem_giving_up [OF sem_example_reachable this, of 5 "\<lparr>sig_pending = True, sig_fatal = False\<rparr>"]
  show ?thesis
    by (simp add: sem_example_def down_resume_def down_loop_def signal_pending_state_def
        TASK_INTERRUPTIBLE_def TASK_WAKEKILL_def Let_def)
qed

end
