(* ===== verification/Caps.thy ===== *)
theory Caps imports Bits begin

text \<open>
  Capability sets (\<open>include/linux/capability.h\<close>) and the capability rules of
  \<open>security/commoncap.c\<close> for \<open>capset\<close>, \<open>exec\<close>, \<open>prctl\<close> and changes of user ids. The
  flag \<open>fcaps\<close> of some functions is the option \<open>CONFIG_SECURITY_FILE_CAPABILITIES\<close>.
  The accounting flag \<open>PF_SUPERPRIV\<close> that \<open>capable\<close> sets is left out.
\<close>

section \<open>Capability sets\<close>

text \<open>The two words \<open>cap[0]\<close> and \<open>cap[1]\<close>.\<close>

type_synonym kernel_cap = "u32 \<times> u32"

definition cap_word :: "kernel_cap \<Rightarrow> nat \<Rightarrow> u32" where
  "cap_word c i = (if i = 0 then fst c else snd c)"

definition CAP_TO_INDEX :: "nat \<Rightarrow> nat" where "CAP_TO_INDEX x = drop_bit 5 x"
definition CAP_TO_MASK :: "nat \<Rightarrow> u32" where "CAP_TO_MASK x = push_bit (x AND 31) 1"

definition cap_raised :: "kernel_cap \<Rightarrow> nat \<Rightarrow> bool" where
  "cap_raised c flag \<longleftrightarrow> cap_word c (CAP_TO_INDEX flag) AND CAP_TO_MASK flag \<noteq> 0"

definition cap_lower :: "kernel_cap \<Rightarrow> nat \<Rightarrow> kernel_cap" where
  "cap_lower c flag =
     (if CAP_TO_INDEX flag = 0 then (fst c AND NOT (CAP_TO_MASK flag), snd c)
      else (fst c, snd c AND NOT (CAP_TO_MASK flag)))"

definition CAP_BOP_ALL :: "(u32 \<Rightarrow> u32 \<Rightarrow> u32) \<Rightarrow> kernel_cap \<Rightarrow> kernel_cap \<Rightarrow> kernel_cap" where
  "CAP_BOP_ALL f a b = (f (fst a) (fst b), f (snd a) (snd b))"

definition cap_combine :: "kernel_cap \<Rightarrow> kernel_cap \<Rightarrow> kernel_cap" where
  "cap_combine a b = CAP_BOP_ALL (\<lambda>x y. x OR y) a b"

definition cap_intersect :: "kernel_cap \<Rightarrow> kernel_cap \<Rightarrow> kernel_cap" where
  "cap_intersect a b = CAP_BOP_ALL (\<lambda>x y. x AND y) a b"

definition cap_drop :: "kernel_cap \<Rightarrow> kernel_cap \<Rightarrow> kernel_cap" where
  "cap_drop a drp = CAP_BOP_ALL (\<lambda>x y. x AND NOT y) a drp"

definition cap_isclear :: "kernel_cap \<Rightarrow> bool" where
  "cap_isclear a \<longleftrightarrow> fst a = 0 \<and> snd a = 0"

definition cap_issubset :: "kernel_cap \<Rightarrow> kernel_cap \<Rightarrow> bool" where
  "cap_issubset a b = cap_isclear (cap_drop a b)"

definition cap_empty_set :: kernel_cap where "cap_empty_set = (0, 0)"
definition cap_full_set :: kernel_cap where "cap_full_set = (NOT 0, NOT 0)"

abbreviation (input) CAP_CHOWN :: nat where "CAP_CHOWN \<equiv> 0"
abbreviation (input) CAP_DAC_OVERRIDE :: nat where "CAP_DAC_OVERRIDE \<equiv> 1"
abbreviation (input) CAP_DAC_READ_SEARCH :: nat where "CAP_DAC_READ_SEARCH \<equiv> 2"
abbreviation (input) CAP_FOWNER :: nat where "CAP_FOWNER \<equiv> 3"
abbreviation (input) CAP_FSETID :: nat where "CAP_FSETID \<equiv> 4"
abbreviation (input) CAP_SETGID :: nat where "CAP_SETGID \<equiv> 6"
abbreviation (input) CAP_SETUID :: nat where "CAP_SETUID \<equiv> 7"
abbreviation (input) CAP_SETPCAP :: nat where "CAP_SETPCAP \<equiv> 8"
abbreviation (input) CAP_SYS_PTRACE :: nat where "CAP_SYS_PTRACE \<equiv> 19"
abbreviation (input) CAP_MAC_OVERRIDE :: nat where "CAP_MAC_OVERRIDE \<equiv> 32"
abbreviation (input) CAP_LAST_CAP :: nat where "CAP_LAST_CAP \<equiv> 33"

definition cap_init_eff_set :: kernel_cap where
  "cap_init_eff_set = (NOT (CAP_TO_MASK CAP_SETPCAP), NOT 0)"

definition cap_fs_set :: kernel_cap where
  "cap_fs_set = (CAP_TO_MASK CAP_CHOWN OR CAP_TO_MASK CAP_DAC_OVERRIDE OR CAP_TO_MASK CAP_DAC_READ_SEARCH
     OR CAP_TO_MASK CAP_FOWNER OR CAP_TO_MASK CAP_FSETID, CAP_TO_MASK CAP_MAC_OVERRIDE)"

definition cap_drop_fs_set :: "kernel_cap \<Rightarrow> kernel_cap" where
  "cap_drop_fs_set a = cap_drop a cap_fs_set"

definition cap_raise_fs_set :: "kernel_cap \<Rightarrow> kernel_cap \<Rightarrow> kernel_cap" where
  "cap_raise_fs_set a permitted = cap_combine a (cap_intersect permitted cap_fs_set)"

section \<open>Tasks\<close>

record cred =
  t_uid :: u32
  t_euid :: u32
  t_suid :: u32
  t_fsuid :: u32
  t_gid :: u32
  t_egid :: u32
  t_sgid :: u32
  t_fsgid :: u32
  cap_effective :: kernel_cap
  cap_inheritable :: kernel_cap
  cap_permitted :: kernel_cap
  cap_bset :: kernel_cap
  securebits :: u32
  dumpable :: nat
  pdeath_signal :: nat

text \<open>\<open>0\<close> when the task has the capability, as in the code an error otherwise.\<close>

definition cap_capable :: "cred \<Rightarrow> nat \<Rightarrow> unit result" where
  "cap_capable tsk cap = (if cap_raised (cap_effective tsk) cap then Inr () else Inl (Err EPERM))"

definition capable :: "cred \<Rightarrow> nat \<Rightarrow> bool" where
  "capable cur cap \<longleftrightarrow> cap_capable cur cap = Inr ()"

text \<open>\<open>set_dumpable (current->mm, suid_dumpable)\<close>: values other than 0, 1 and 2 are ignored.\<close>

definition set_dumpable :: "nat \<Rightarrow> cred \<Rightarrow> cred" where
  "set_dumpable v t = (if v \<le> 2 then t\<lparr>dumpable := v\<rparr> else t)"

definition cap_ptrace_may_access :: "cred \<Rightarrow> cred \<Rightarrow> unit result" where
  "cap_ptrace_may_access cur child =
     (if cap_issubset (cap_permitted child) (cap_permitted cur) then Inr ()
      else if capable cur CAP_SYS_PTRACE then Inr ()
      else Inl (Err EPERM))"

definition cap_ptrace_traceme :: "cred \<Rightarrow> cred \<Rightarrow> unit result" where
  "cap_ptrace_traceme cur parent =
     (if cap_issubset (cap_permitted cur) (cap_permitted parent) then Inr ()
      else if cap_capable parent CAP_SYS_PTRACE = Inr () then Inr ()
      else Inl (Err EPERM))"

section \<open>Setting capabilities\<close>

text \<open>\<open>self\<close>: the target is the calling task.\<close>

definition cap_block_setpcap :: "bool \<Rightarrow> bool \<Rightarrow> bool" where
  "cap_block_setpcap fcaps self = (if fcaps then \<not> self else False)"

definition cap_inh_is_capped :: "bool \<Rightarrow> cred \<Rightarrow> bool" where
  "cap_inh_is_capped fcaps cur = (if fcaps then cap_capable cur CAP_SETPCAP \<noteq> Inr () else True)"

definition cap_limit_ptraced_target :: "bool \<Rightarrow> cred \<Rightarrow> bool" where
  "cap_limit_ptraced_target fcaps cur = (if fcaps then True else \<not> capable cur CAP_SETPCAP)"

definition cap_capset_check ::
  "bool \<Rightarrow> cred \<Rightarrow> bool \<Rightarrow> cred \<Rightarrow> kernel_cap \<Rightarrow> kernel_cap \<Rightarrow> kernel_cap \<Rightarrow> unit result" where
  "cap_capset_check fcaps cur self target effective inheritable permitted =
     (if cap_block_setpcap fcaps self then Inl (Err EPERM)
      else if cap_inh_is_capped fcaps cur \<and>
        \<not> cap_issubset inheritable (cap_combine (cap_inheritable target) (cap_permitted cur))
      then Inl (Err EPERM)
      else if \<not> cap_issubset inheritable (cap_combine (cap_inheritable target) (cap_bset cur))
      then Inl (Err EPERM)
      else if \<not> cap_issubset permitted (cap_combine (cap_permitted target) (cap_permitted cur))
      then Inl (Err EPERM)
      else if \<not> cap_issubset effective permitted then Inl (Err EPERM)
      else Inr ())"

definition cap_capset_set :: "cred \<Rightarrow> kernel_cap \<Rightarrow> kernel_cap \<Rightarrow> kernel_cap \<Rightarrow> cred" where
  "cap_capset_set target effective inheritable permitted =
     target\<lparr>cap_effective := effective, cap_inheritable := inheritable, cap_permitted := permitted\<rparr>"

text \<open>
  \<open>sys_capset\<close> on the calling task, for the words \<open>copy_from_user\<close> delivered, one or two
  triples of effective, permitted and inheritable; missing words are zero.
\<close>

definition capset_word :: "u32 list \<Rightarrow> nat \<Rightarrow> u32" where
  "capset_word ws i = (if i < length ws then ws ! i else 0)"

definition capset_self :: "bool \<Rightarrow> u32 list \<Rightarrow> u32 list \<Rightarrow> u32 list \<Rightarrow> cred \<Rightarrow> unit result \<times> cred" where
  "capset_self fcaps kE kP kI cur =
     (let effective = (capset_word kE 0, capset_word kE 1);
          permitted = (capset_word kP 0, capset_word kP 1);
          inheritable = (capset_word kI 0, capset_word kI 1);
          ret = cap_capset_check fcaps cur True cur effective inheritable permitted in
      (ret, if ret = Inr () then cap_capset_set cur effective inheritable permitted else cur))"

section \<open>Executing a program\<close>

abbreviation (input) SECURE_NOROOT :: nat where "SECURE_NOROOT \<equiv> 0"
abbreviation (input) SECURE_NO_SETUID_FIXUP :: nat where "SECURE_NO_SETUID_FIXUP \<equiv> 2"
abbreviation (input) SECURE_KEEP_CAPS :: nat where "SECURE_KEEP_CAPS \<equiv> 4"
abbreviation (input) SECURE_KEEP_CAPS_LOCKED :: nat where "SECURE_KEEP_CAPS_LOCKED \<equiv> 5"

definition issecure_mask :: "nat \<Rightarrow> u32" where "issecure_mask x = push_bit x 1"

definition issecure :: "nat \<Rightarrow> cred \<Rightarrow> bool" where
  "issecure x cur \<longleftrightarrow> issecure_mask x AND securebits cur \<noteq> 0"

record linux_binprm =
  b_e_uid :: u32
  b_e_gid :: u32
  b_cap_post_exec_permitted :: kernel_cap
  b_cap_effective :: bool

definition bprm_clear_caps :: "linux_binprm \<Rightarrow> linux_binprm" where
  "bprm_clear_caps bprm = bprm\<lparr>b_cap_post_exec_permitted := cap_empty_set, b_cap_effective := False\<rparr>"

text \<open>
  The capability attribute of a file as the words of \<open>vfs_cap_data\<close> in host byte order,
  its size in bytes, and \<open>cap_from_disk\<close>.
\<close>

record vfs_cap_data =
  magic_etc :: u32
  vfs_permitted :: kernel_cap
  vfs_inheritable :: kernel_cap

definition cap_from_disk :: "cred \<Rightarrow> vfs_cap_data \<Rightarrow> linux_binprm \<Rightarrow> nat \<Rightarrow> unit result \<times> linux_binprm" where
  "cap_from_disk cur caps bprm sz =
     (if sz < 4 then (Inl (Err EINVAL), bprm)
      else
        let rev = magic_etc caps AND 0xFF000000;
            tocopy = (if rev = 0x01000000 then if sz \<noteq> 12 then None else Some (1 :: nat)
                      else if rev = 0x02000000 then if sz \<noteq> 20 then None else Some 2
                      else None) in
        case tocopy of
          None \<Rightarrow> (Inl (Err EINVAL), bprm)
        | Some tocopy \<Rightarrow>
            let eff = magic_etc caps AND 1 \<noteq> 0;
                post = (\<lambda>i. if tocopy \<le> i then 0
                            else (cap_word (cap_bset cur) i AND cap_word (vfs_permitted caps) i)
                              OR (cap_word (cap_inheritable cur) i AND cap_word (vfs_inheritable caps) i));
                missing = (\<lambda>i. i < tocopy \<and> cap_word (vfs_permitted caps) i AND NOT (post i) \<noteq> 0);
                ret = (if missing 0 \<or> missing 1 then Inl (Err EPERM) else Inr ()) in
            (if eff then ret else Inr (),
             bprm\<lparr>b_cap_effective := eff, b_cap_post_exec_permitted := (post 0, post 1)\<rparr>))"

text \<open>
  \<open>get_file_caps\<close> with the answer of the file system: whether the mount is \<open>nosuid\<close>, and
  what \<open>getxattr\<close> returns, \<open>None\<close> where there is no method, no attribute or no support.
\<close>

datatype xattr_answer = No_xattr | Xattr_error failure | Xattr vfs_cap_data nat

definition get_file_caps ::
  "bool \<Rightarrow> bool \<Rightarrow> xattr_answer \<Rightarrow> cred \<Rightarrow> linux_binprm \<Rightarrow> unit result \<times> linux_binprm" where
  "get_file_caps fcaps nosuid xattr cur bprm =
     (let bprm = bprm_clear_caps bprm in
      if \<not> fcaps \<or> nosuid then (Inr (), bprm)
      else case xattr of
        No_xattr \<Rightarrow> (Inr (), bprm)
      | Xattr_error e \<Rightarrow> (Inl e, bprm_clear_caps bprm)
      | Xattr caps sz \<Rightarrow>
          (case cap_from_disk cur caps bprm sz of (rc, bprm) \<Rightarrow>
             (rc, if rc \<noteq> Inr () then bprm_clear_caps bprm else bprm)))"

definition cap_bprm_set_security ::
  "bool \<Rightarrow> bool \<Rightarrow> xattr_answer \<Rightarrow> cred \<Rightarrow> linux_binprm \<Rightarrow> unit result \<times> linux_binprm" where
  "cap_bprm_set_security fcaps nosuid xattr cur bprm =
     (case get_file_caps fcaps nosuid xattr cur bprm of (ret, bprm) \<Rightarrow>
        if \<not> issecure SECURE_NOROOT cur \<and> (b_e_uid bprm = 0 \<or> t_uid cur = 0)
        then (Inr (), bprm\<lparr>b_cap_post_exec_permitted := cap_combine (cap_bset cur) (cap_inheritable cur),
                           b_cap_effective := (b_e_uid bprm = 0)\<rparr>)
        else (ret, bprm))"

text \<open>The part of \<open>cap_bprm_apply_creds\<close> that limits a traced or shared task.\<close>

abbreviation (input) LSM_UNSAFE_PTRACE_CAP :: u32 where "LSM_UNSAFE_PTRACE_CAP \<equiv> 4"

definition bprm_limit :: "bool \<Rightarrow> nat \<Rightarrow> u32 \<Rightarrow> cred \<Rightarrow> linux_binprm \<Rightarrow> cred \<times> linux_binprm" where
  "bprm_limit fcaps suid_dumpable unsafe cur bprm =
     (if b_e_uid bprm \<noteq> t_uid cur \<or> b_e_gid bprm \<noteq> t_gid cur \<or>
         \<not> cap_issubset (b_cap_post_exec_permitted bprm) (cap_permitted cur)
      then let cur = (set_dumpable suid_dumpable cur)\<lparr>pdeath_signal := 0\<rparr>;
               limit = (unsafe AND NOT LSM_UNSAFE_PTRACE_CAP \<noteq> 0);
               bprm1 = (if limit \<and> \<not> capable cur CAP_SETUID
                        then bprm\<lparr>b_e_uid := t_uid cur, b_e_gid := t_gid cur\<rparr> else bprm);
               bprm2 = (if limit \<and> cap_limit_ptraced_target fcaps cur
                        then bprm1\<lparr>b_cap_post_exec_permitted :=
                               cap_intersect (b_cap_post_exec_permitted bprm1) (cap_permitted cur)\<rparr>
                        else bprm1) in
           (cur, bprm2)
      else (cur, bprm))"

text \<open>\<open>is_init\<close>: the task is the global init task.\<close>

definition cap_bprm_apply_creds ::
  "bool \<Rightarrow> nat \<Rightarrow> bool \<Rightarrow> u32 \<Rightarrow> cred \<Rightarrow> linux_binprm \<Rightarrow> cred \<times> linux_binprm" where
  "cap_bprm_apply_creds fcaps suid_dumpable is_init unsafe cur bprm =
     (case bprm_limit fcaps suid_dumpable unsafe cur bprm of (cur, bprm) \<Rightarrow>
        let cur = cur\<lparr>t_suid := b_e_uid bprm, t_euid := b_e_uid bprm, t_fsuid := b_e_uid bprm,
                      t_sgid := b_e_gid bprm, t_egid := b_e_gid bprm, t_fsgid := b_e_gid bprm\<rparr>;
            cur = (if \<not> is_init
                   then cur\<lparr>cap_permitted := b_cap_post_exec_permitted bprm,
                            cap_effective := (if b_cap_effective bprm then b_cap_post_exec_permitted bprm
                                              else cap_empty_set)\<rparr>
                   else cur) in
        (cur\<lparr>securebits := securebits cur AND NOT (issecure_mask SECURE_KEEP_CAPS)\<rparr>, bprm))"

definition cap_bprm_secureexec :: "cred \<Rightarrow> linux_binprm \<Rightarrow> bool" where
  "cap_bprm_secureexec cur bprm =
     (if t_uid cur \<noteq> 0 \<and> (b_cap_effective bprm \<or> \<not> cap_isclear (b_cap_post_exec_permitted bprm)) then True
      else t_euid cur \<noteq> t_uid cur \<or> t_egid cur \<noteq> t_gid cur)"

section \<open>Changes of user ids\<close>

definition cap_emulate_setxuid :: "u32 \<Rightarrow> u32 \<Rightarrow> u32 \<Rightarrow> cred \<Rightarrow> cred" where
  "cap_emulate_setxuid old_ruid old_euid old_suid cur =
     (let cur = (if (old_ruid = 0 \<or> old_euid = 0 \<or> old_suid = 0) \<and>
                   (t_uid cur \<noteq> 0 \<and> t_euid cur \<noteq> 0 \<and> t_suid cur \<noteq> 0) \<and> \<not> issecure SECURE_KEEP_CAPS cur
                 then cur\<lparr>cap_permitted := cap_empty_set, cap_effective := cap_empty_set\<rparr> else cur);
          cur = (if old_euid = 0 \<and> t_euid cur \<noteq> 0 then cur\<lparr>cap_effective := cap_empty_set\<rparr> else cur) in
      if old_euid \<noteq> 0 \<and> t_euid cur = 0 then cur\<lparr>cap_effective := cap_permitted cur\<rparr> else cur)"

datatype setid_flag = LSM_SETID_ID | LSM_SETID_RE | LSM_SETID_RES | LSM_SETID_FS

definition cap_task_post_setuid :: "u32 \<Rightarrow> u32 \<Rightarrow> u32 \<Rightarrow> setid_flag \<Rightarrow> cred \<Rightarrow> cred" where
  "cap_task_post_setuid old_ruid old_euid old_suid flags cur =
     (if issecure SECURE_NO_SETUID_FIXUP cur then cur
      else if flags = LSM_SETID_FS
      then let cur = (if old_ruid = 0 \<and> t_fsuid cur \<noteq> 0
                      then cur\<lparr>cap_effective := cap_drop_fs_set (cap_effective cur)\<rparr> else cur) in
           if old_ruid \<noteq> 0 \<and> t_fsuid cur = 0
           then cur\<lparr>cap_effective := cap_raise_fs_set (cap_effective cur) (cap_permitted cur)\<rparr> else cur
      else cap_emulate_setxuid old_ruid old_euid old_suid cur)"

section \<open>prctl\<close>

definition SECURE_ALL_BITS :: u32 where
  "SECURE_ALL_BITS =
     issecure_mask SECURE_NOROOT OR issecure_mask SECURE_NO_SETUID_FIXUP OR issecure_mask SECURE_KEEP_CAPS"

definition SECURE_ALL_LOCKS :: u32 where "SECURE_ALL_LOCKS = push_bit 1 SECURE_ALL_BITS"

definition cap_valid :: "u32 \<Rightarrow> bool" where "cap_valid x \<longleftrightarrow> unat x \<le> CAP_LAST_CAP"

definition cap_prctl_drop :: "u32 \<Rightarrow> cred \<Rightarrow> u32 result \<times> cred" where
  "cap_prctl_drop cap cur =
     (if \<not> capable cur CAP_SETPCAP then (Inl (Err EPERM), cur)
      else if \<not> cap_valid cap then (Inl (Err EINVAL), cur)
      else (Inr 0, cur\<lparr>cap_bset := cap_lower (cap_bset cur) (unat cap)\<rparr>))"

datatype prctl_option =
    PR_CAPBSET_READ | PR_CAPBSET_DROP | PR_SET_SECUREBITS | PR_GET_SECUREBITS
  | PR_GET_KEEPCAPS | PR_SET_KEEPCAPS | PR_OTHER

definition set_securebits :: "u32 \<Rightarrow> cred \<Rightarrow> u32 result \<times> cred" where
  "set_securebits arg2 cur =
     (if drop_bit 1 (securebits cur AND SECURE_ALL_LOCKS) AND (securebits cur XOR arg2) \<noteq> 0
         \<or> securebits cur AND SECURE_ALL_LOCKS AND NOT arg2 \<noteq> 0
         \<or> arg2 AND NOT (SECURE_ALL_LOCKS OR SECURE_ALL_BITS) \<noteq> 0
         \<or> cap_capable cur CAP_SETPCAP \<noteq> Inr ()
      then (Inl (Err EPERM), cur)
      else (Inr 0, cur\<lparr>securebits := arg2\<rparr>))"

definition set_keepcaps :: "u32 \<Rightarrow> cred \<Rightarrow> u32 result \<times> cred" where
  "set_keepcaps arg2 cur =
     (if 1 < arg2 then (Inl (Err EINVAL), cur)
      else if issecure SECURE_KEEP_CAPS_LOCKED cur then (Inl (Err EPERM), cur)
      else if arg2 \<noteq> 0 then (Inr 0, cur\<lparr>securebits := securebits cur OR issecure_mask SECURE_KEEP_CAPS\<rparr>)
      else (Inr 0, cur\<lparr>securebits := securebits cur AND NOT (issecure_mask SECURE_KEEP_CAPS)\<rparr>))"

text \<open>\<open>None\<close> where the option is not one of these and the caller goes on with its own.\<close>

definition cap_task_prctl :: "bool \<Rightarrow> prctl_option \<Rightarrow> u32 \<Rightarrow> cred \<Rightarrow> u32 result option \<times> cred" where
  "cap_task_prctl fcaps opt arg2 cur =
     (case opt of
        PR_CAPBSET_READ \<Rightarrow>
          (Some (if \<not> cap_valid arg2 then Inl (Err EINVAL)
                 else Inr (if cap_raised (cap_bset cur) (unat arg2) then 1 else 0)), cur)
      | PR_CAPBSET_DROP \<Rightarrow> if fcaps then apfst Some (cap_prctl_drop arg2 cur) else (None, cur)
      | PR_SET_SECUREBITS \<Rightarrow> if fcaps then apfst Some (set_securebits arg2 cur) else (None, cur)
      | PR_GET_SECUREBITS \<Rightarrow> if fcaps then (Some (Inr (securebits cur)), cur) else (None, cur)
      | PR_GET_KEEPCAPS \<Rightarrow> (Some (Inr (if issecure SECURE_KEEP_CAPS cur then 1 else 0)), cur)
      | PR_SET_KEEPCAPS \<Rightarrow> apfst Some (set_keepcaps arg2 cur)
      | PR_OTHER \<Rightarrow> (None, cur))"

section \<open>Capability sets as sets of numbers\<close>

definition caps_of :: "kernel_cap \<Rightarrow> nat set" where
  "caps_of c = {k. k < 64 \<and> bit (cap_word c (k div 32)) (k mod 32)}"

lemma caps_of_eq_iff: "caps_of a = caps_of b \<longleftrightarrow> a = b"
proof
  assume e: "caps_of a = caps_of b"
  have "bit (fst a) j = bit (fst b) j" "bit (snd a) j = bit (snd b) j" if "j < 32" for j
  proof -
    have "j \<in> caps_of a \<longleftrightarrow> j \<in> caps_of b" "j + 32 \<in> caps_of a \<longleftrightarrow> j + 32 \<in> caps_of b" using e by auto
    moreover have "(j + 32) div 32 = 1" using that by simp
    ultimately show "bit (fst a) j = bit (fst b) j" "bit (snd a) j = bit (snd b) j"
      using that by (simp_all add: caps_of_def cap_word_def)
  qed
  then show "a = b" by (intro prod_eqI bit_word_eqI) simp_all
qed simp

lemma word_of_op: "cap_word (CAP_BOP_ALL f a b) i = f (cap_word a i) (cap_word b i)"
  by (simp add: cap_word_def CAP_BOP_ALL_def)

lemma caps_of_combine [simp]: "caps_of (cap_combine a b) = caps_of a \<union> caps_of b"
  by (auto simp: caps_of_def cap_combine_def word_of_op bit_or_iff)

lemma caps_of_intersect [simp]: "caps_of (cap_intersect a b) = caps_of a \<inter> caps_of b"
  by (auto simp: caps_of_def cap_intersect_def word_of_op bit_and_iff)

lemma caps_of_drop [simp]: "caps_of (cap_drop a b) = caps_of a - caps_of b"
  by (auto simp: caps_of_def cap_drop_def word_of_op bit_and_iff bit_not_iff)

lemma caps_of_empty [simp]: "caps_of cap_empty_set = {}"
  by (simp add: caps_of_def cap_empty_set_def cap_word_def)

lemma cap_isclear_iff: "cap_isclear a \<longleftrightarrow> caps_of a = {}"
proof -
  have "cap_isclear a \<longleftrightarrow> a = cap_empty_set"
    by (cases a) (simp add: cap_isclear_def cap_empty_set_def)
  then show ?thesis by (metis caps_of_empty caps_of_eq_iff)
qed

lemma cap_issubset_iff [simp]: "cap_issubset a b \<longleftrightarrow> caps_of a \<subseteq> caps_of b"
  by (simp add: cap_issubset_def cap_isclear_iff)

lemma and_mask_31: "x AND 31 = x mod 32" for x :: nat
  using take_bit_eq_mask [of 5 x] by (simp add: mask_eq_exp_minus_1 take_bit_eq_mod)

lemma cap_raised_iff [simp]: "k < 64 \<Longrightarrow> cap_raised c k \<longleftrightarrow> k \<in> caps_of c"
proof -
  assume "k < 64"
  have "w AND push_bit j 1 \<noteq> 0 \<longleftrightarrow> bit w j" if "j < 32" for w :: u32 and j
    using and_pow2_bit [of w j] by simp
  then show ?thesis using \<open>k < 64\<close>
    by (simp add: cap_raised_def CAP_TO_INDEX_def CAP_TO_MASK_def and_mask_31 drop_bit_eq_div caps_of_def)
qed

lemma capable_iff: "k < 64 \<Longrightarrow> capable cur k \<longleftrightarrow> k \<in> caps_of (cap_effective cur)"
  by (simp add: capable_def cap_capable_def)

lemma caps_of_subset_64: "k \<in> caps_of c \<Longrightarrow> k < 64"
  by (simp add: caps_of_def)

lemma caps_of_lower: "k < 64 \<Longrightarrow> caps_of (cap_lower c k) = caps_of c - {k}"
proof -
  assume k: "k < 64"
  have m: "CAP_TO_MASK k = 2 ^ (k mod 32)" by (simp add: CAP_TO_MASK_def and_mask_31)
  have i: "CAP_TO_INDEX k = k div 32" by (simp add: CAP_TO_INDEX_def drop_bit_eq_div)
  have e: "j div 32 = k div 32 \<Longrightarrow> j mod 32 = k mod 32 \<Longrightarrow> j = k" for j :: nat
    by (metis div_mult_mod_eq)
  have w: "cap_word (cap_lower c k) l =
      (if l = k div 32 then cap_word c l AND NOT (2 ^ (k mod 32)) else cap_word c l)" if "l < 2" for l
  proof -
    have "k div 32 < 2" using k by simp
    then have "k div 32 = 0 \<or> k div 32 = 1" by linarith
    moreover have "l = 0 \<or> l = 1" using that by linarith
    ultimately show ?thesis by (auto simp: cap_lower_def m i cap_word_def)
  qed
  show ?thesis
  proof (intro set_eqI)
    fix j
    show "j \<in> caps_of (cap_lower c k) \<longleftrightarrow> j \<in> caps_of c - {k}"
    proof (cases "j < 64")
      case True
      then have "j div 32 < 2" by simp
      from w [OF this] e [of j] True show ?thesis
        by (auto simp: caps_of_def bit_and_iff bit_not_iff bit_pow2)
    qed (simp add: caps_of_def)
  qed
qed

section \<open>Properties\<close>

text \<open>Leaving root altogether: rule 1 of the comment on \<open>cap_emulate_setxuid\<close>.\<close>

definition leaves_root :: "u32 \<Rightarrow> u32 \<Rightarrow> u32 \<Rightarrow> cred \<Rightarrow> bool" where
  "leaves_root r e s cur \<longleftrightarrow> (r = 0 \<or> e = 0 \<or> s = 0) \<and>
     t_uid cur \<noteq> 0 \<and> t_euid cur \<noteq> 0 \<and> t_suid cur \<noteq> 0 \<and> \<not> issecure SECURE_KEEP_CAPS cur"

lemma setxuid_permitted:
  "cap_permitted (cap_emulate_setxuid r e s cur) =
    (if leaves_root r e s cur then cap_empty_set else cap_permitted cur)"
  by (simp add: cap_emulate_setxuid_def Let_def leaves_root_def)

lemma setxuid_effective:
  "cap_effective (cap_emulate_setxuid r e s cur) =
    (if e \<noteq> 0 \<and> t_euid cur = 0 then cap_permitted cur
     else if leaves_root r e s cur \<or> e = 0 \<and> t_euid cur \<noteq> 0 then cap_empty_set else cap_effective cur)"
  by (simp add: cap_emulate_setxuid_def Let_def leaves_root_def)

lemma post_setuid_permitted:
  "cap_permitted (cap_task_post_setuid r e s flags cur) =
    (if \<not> issecure SECURE_NO_SETUID_FIXUP cur \<and> flags \<noteq> LSM_SETID_FS
     then cap_permitted (cap_emulate_setxuid r e s cur) else cap_permitted cur)"
  by (simp add: cap_task_post_setuid_def Let_def)

lemma post_setuid_caps:
  "caps_of (cap_permitted (cap_task_post_setuid r e s flags cur)) \<subseteq> caps_of (cap_permitted cur)"
  "caps_of (cap_effective cur) \<subseteq> caps_of (cap_permitted cur) \<Longrightarrow>
    caps_of (cap_effective (cap_task_post_setuid r e s flags cur)) \<subseteq>
      caps_of (cap_permitted (cap_task_post_setuid r e s flags cur))"
proof -
  show "caps_of (cap_permitted (cap_task_post_setuid r e s flags cur)) \<subseteq> caps_of (cap_permitted cur)"
    by (simp add: post_setuid_permitted setxuid_permitted)
  assume sub: "caps_of (cap_effective cur) \<subseteq> caps_of (cap_permitted cur)"
  consider "issecure SECURE_NO_SETUID_FIXUP cur" | "\<not> issecure SECURE_NO_SETUID_FIXUP cur" "flags = LSM_SETID_FS"
    | "\<not> issecure SECURE_NO_SETUID_FIXUP cur" "flags \<noteq> LSM_SETID_FS" by blast
  then show "caps_of (cap_effective (cap_task_post_setuid r e s flags cur)) \<subseteq>
      caps_of (cap_permitted (cap_task_post_setuid r e s flags cur))"
  proof cases
    case 1
    then show ?thesis using sub by (simp add: cap_task_post_setuid_def)
  next
    case 2
    then show ?thesis using sub
      by (auto simp: cap_task_post_setuid_def Let_def cap_drop_fs_set_def cap_raise_fs_set_def)
  next
    case 3
    then have "cap_task_post_setuid r e s flags cur = cap_emulate_setxuid r e s cur"
      by (simp add: cap_task_post_setuid_def)
    moreover have "leaves_root r e s cur \<Longrightarrow> t_euid cur \<noteq> 0" by (simp add: leaves_root_def)
    ultimately show ?thesis using sub by (auto simp: setxuid_permitted setxuid_effective)
  qed
qed

lemma setxuid_ids:
  "t_uid (cap_task_post_setuid r e s flags cur) = t_uid cur"
  "t_euid (cap_task_post_setuid r e s flags cur) = t_euid cur"
  "t_suid (cap_task_post_setuid r e s flags cur) = t_suid cur"
  "t_fsuid (cap_task_post_setuid r e s flags cur) = t_fsuid cur"
  "t_gid (cap_task_post_setuid r e s flags cur) = t_gid cur"
  "t_egid (cap_task_post_setuid r e s flags cur) = t_egid cur"
  "t_sgid (cap_task_post_setuid r e s flags cur) = t_sgid cur"
  "t_fsgid (cap_task_post_setuid r e s flags cur) = t_fsgid cur"
  "securebits (cap_task_post_setuid r e s flags cur) = securebits cur"
  by (simp_all add: cap_task_post_setuid_def cap_emulate_setxuid_def Let_def)

lemma set_dumpable_sel [simp]:
  "t_uid (set_dumpable v c) = t_uid c" "t_euid (set_dumpable v c) = t_euid c"
  "t_suid (set_dumpable v c) = t_suid c" "t_fsuid (set_dumpable v c) = t_fsuid c"
  "t_gid (set_dumpable v c) = t_gid c" "t_egid (set_dumpable v c) = t_egid c"
  "t_sgid (set_dumpable v c) = t_sgid c" "t_fsgid (set_dumpable v c) = t_fsgid c"
  "cap_effective (set_dumpable v c) = cap_effective c" "cap_permitted (set_dumpable v c) = cap_permitted c"
  "cap_inheritable (set_dumpable v c) = cap_inheritable c" "cap_bset (set_dumpable v c) = cap_bset c"
  "securebits (set_dumpable v c) = securebits c"
  by (simp_all add: set_dumpable_def)

text \<open>
  \<open>capset\<close> on the calling task succeeds exactly when the new permitted set adds nothing,
  the new effective set is inside it, and the new inheritable set adds only capabilities
  of the bounding set that are permitted (the last not for a holder of \<open>CAP_SETPCAP\<close> with
  file capabilities configured); then the three sets are the given ones and all else is
  unchanged. Words the caller did not give are empty.
\<close>

theorem capset_self_spec:
  "capset_self fcaps kE kP kI cur =
    (let pE = (capset_word kE 0, capset_word kE 1); pP = (capset_word kP 0, capset_word kP 1);
         pI = (capset_word kI 0, capset_word kI 1) in
     if caps_of pE \<subseteq> caps_of pP \<and> caps_of pP \<subseteq> caps_of (cap_permitted cur) \<and>
        caps_of pI \<subseteq> caps_of (cap_inheritable cur) \<union> caps_of (cap_bset cur) \<and>
        (fcaps \<and> CAP_SETPCAP \<in> caps_of (cap_effective cur) \<or>
         caps_of pI \<subseteq> caps_of (cap_inheritable cur) \<union> caps_of (cap_permitted cur))
     then (Inr (), cur\<lparr>cap_effective := pE, cap_inheritable := pI, cap_permitted := pP\<rparr>)
     else (Inl (Err EPERM), cur))"
  by (auto simp: capset_self_def cap_capset_check_def cap_capset_set_def cap_block_setpcap_def
      cap_inh_is_capped_def cap_capable_def Let_def)

lemma cap_from_disk_v2:
  fixes cur :: cred
  assumes "magic_etc caps AND 0xFF000000 = 0x02000000"
  defines "P \<equiv> caps_of (cap_bset cur) \<inter> caps_of (vfs_permitted caps) \<union>
    caps_of (cap_inheritable cur) \<inter> caps_of (vfs_inheritable caps)"
  shows "\<exists>post. caps_of post = P \<and> cap_from_disk cur caps bprm 20 =
    (if magic_etc caps AND 1 \<noteq> 0 \<and> \<not> caps_of (vfs_permitted caps) \<subseteq> P then Inl (Err EPERM) else Inr (),
     bprm\<lparr>b_cap_effective := (magic_etc caps AND 1 \<noteq> 0), b_cap_post_exec_permitted := post\<rparr>)"
proof -
  let ?post = "\<lambda>i. (cap_word (cap_bset cur) i AND cap_word (vfs_permitted caps) i)
                              OR (cap_word (cap_inheritable cur) i AND cap_word (vfs_inheritable caps) i)"
  have p: "(?post 0, ?post 1) = cap_combine (cap_intersect (cap_bset cur) (vfs_permitted caps))
      (cap_intersect (cap_inheritable cur) (vfs_inheritable caps))"
    by (simp add: cap_combine_def cap_intersect_def CAP_BOP_ALL_def cap_word_def)
  then have P: "caps_of (?post 0, ?post 1) = P" by (simp add: P_def)
  have "cap_word (vfs_permitted caps) 0 AND NOT (?post 0) \<noteq> 0 \<or> cap_word (vfs_permitted caps) 1 AND NOT (?post 1) \<noteq> 0
      \<longleftrightarrow> \<not> cap_issubset (vfs_permitted caps) (?post 0, ?post 1)"
    by (simp add: cap_issubset_def cap_isclear_def cap_drop_def CAP_BOP_ALL_def cap_word_def
        del: cap_issubset_iff)
  then have "cap_word (vfs_permitted caps) 0 AND NOT (?post 0) \<noteq> 0 \<or> cap_word (vfs_permitted caps) 1 AND NOT (?post 1) \<noteq> 0
      \<longleftrightarrow> \<not> caps_of (vfs_permitted caps) \<subseteq> P" by (simp only: cap_issubset_iff P)
  then show ?thesis using assms(1) P
    by (intro exI [of _ "(?post 0, ?post 1)"]) (auto simp: cap_from_disk_def Let_def)
qed

text \<open>The two hooks \<open>exec\<close> calls for a program file, one after the other.\<close>

definition exec_creds ::
  "bool \<Rightarrow> bool \<Rightarrow> xattr_answer \<Rightarrow> nat \<Rightarrow> bool \<Rightarrow> u32 \<Rightarrow> u32 \<Rightarrow> u32 \<Rightarrow> cred \<Rightarrow> cred result" where
  "exec_creds fcaps nosuid xattr suid_dumpable is_init unsafe e_uid e_gid cur =
     (case cap_bprm_set_security fcaps nosuid xattr cur
         \<lparr>b_e_uid = e_uid, b_e_gid = e_gid, b_cap_post_exec_permitted = cap_empty_set, b_cap_effective = False\<rparr> of
        (Inl e, bprm) \<Rightarrow> Inl e
      | (Inr _, bprm) \<Rightarrow> Inr (fst (cap_bprm_apply_creds fcaps suid_dumpable is_init unsafe cur bprm)))"

lemma bprm_limit_spec:
  assumes "bprm_limit fcaps v unsafe cur bprm = (cur', bprm')"
  shows "cap_permitted cur' = cap_permitted cur" "t_uid cur' = t_uid cur" "t_gid cur' = t_gid cur"
    "b_cap_effective bprm' = b_cap_effective bprm"
    "caps_of (b_cap_post_exec_permitted bprm') \<subseteq> caps_of (b_cap_post_exec_permitted bprm)"
    "unsafe AND NOT LSM_UNSAFE_PTRACE_CAP = 0 \<Longrightarrow>
      b_cap_post_exec_permitted bprm' = b_cap_post_exec_permitted bprm"
    "unsafe AND NOT LSM_UNSAFE_PTRACE_CAP \<noteq> 0 \<Longrightarrow> fcaps \<or> CAP_SETPCAP \<notin> caps_of (cap_effective cur) \<Longrightarrow>
      caps_of (b_cap_post_exec_permitted bprm') =
        caps_of (b_cap_post_exec_permitted bprm) \<inter> caps_of (cap_permitted cur)"
    "unsafe AND NOT LSM_UNSAFE_PTRACE_CAP \<noteq> 0 \<Longrightarrow> CAP_SETUID \<notin> caps_of (cap_effective cur) \<Longrightarrow>
      b_e_uid bprm' = t_uid cur \<and> b_e_gid bprm' = t_gid cur"
  using assms by (auto simp: bprm_limit_def Let_def capable_iff cap_limit_ptraced_target_def split: if_splits)

lemma apply_creds_sel:
  assumes "bprm_limit fcaps v unsafe cur bprm = (cur', bprm')"
  shows "t_euid (fst (cap_bprm_apply_creds fcaps v is_init unsafe cur bprm)) = b_e_uid bprm'"
    "t_egid (fst (cap_bprm_apply_creds fcaps v is_init unsafe cur bprm)) = b_e_gid bprm'"
    "\<not> is_init \<Longrightarrow>
      cap_permitted (fst (cap_bprm_apply_creds fcaps v is_init unsafe cur bprm)) = b_cap_post_exec_permitted bprm'"
    "\<not> is_init \<Longrightarrow>
      cap_effective (fst (cap_bprm_apply_creds fcaps v is_init unsafe cur bprm)) =
        (if b_cap_effective bprm' then b_cap_post_exec_permitted bprm' else cap_empty_set)"
  using assms by (auto simp: cap_bprm_apply_creds_def Let_def)

text \<open>
  C28: What a program gets from \<open>exec\<close>, for a task other than \<open>init\<close> and a file system without
  \<open>nosuid\<close>. Away from root (or with \<open>SECURE_NOROOT\<close>) the new
  permitted set is \<open>(bset \<inter> fP) \<union> (pI \<inter> fI)\<close> for a well-formed attribute of revision 2, an
  executable that demands effective capabilities it would not get is refused, and when the
  task is traced or shared the new permitted set never exceeds the old one and, without
  \<open>CAP_SETUID\<close>, the ids are the caller's real ids.
\<close>

theorem exec_caps:
  assumes rev2: "magic_etc caps AND 0xFF000000 = 0x02000000"
    and user: "issecure SECURE_NOROOT cur \<or> e_uid \<noteq> 0 \<and> t_uid cur \<noteq> 0"
  shows "let P = caps_of (cap_bset cur) \<inter> caps_of (vfs_permitted caps) \<union>
                 caps_of (cap_inheritable cur) \<inter> caps_of (vfs_inheritable caps);
             eff = (magic_etc caps AND 1 \<noteq> 0);
             limited = (unsafe AND NOT LSM_UNSAFE_PTRACE_CAP \<noteq> 0) in
    case exec_creds True False (Xattr caps 20) v False unsafe e_uid e_gid cur of
      Inl e \<Rightarrow> e = Err EPERM \<and> eff \<and> \<not> caps_of (vfs_permitted caps) \<subseteq> P
    | Inr cur' \<Rightarrow> (eff \<longrightarrow> caps_of (vfs_permitted caps) \<subseteq> P) \<and>
        caps_of (cap_permitted cur') = (if limited then P \<inter> caps_of (cap_permitted cur) else P) \<and>
        cap_effective cur' = (if eff then cap_permitted cur' else cap_empty_set) \<and>
        (limited \<longrightarrow> CAP_SETUID \<notin> caps_of (cap_effective cur) \<longrightarrow>
          t_euid cur' = t_uid cur \<and> t_egid cur' = t_gid cur)"
proof -
  let ?bprm = "\<lparr>b_e_uid = e_uid, b_e_gid = e_gid, b_cap_post_exec_permitted = cap_empty_set, b_cap_effective = False\<rparr>"
  let ?P = "caps_of (cap_bset cur) \<inter> caps_of (vfs_permitted caps) \<union>
    caps_of (cap_inheritable cur) \<inter> caps_of (vfs_inheritable caps)"
  let ?eff = "magic_etc caps AND 1 \<noteq> 0"
  from cap_from_disk_v2 [OF rev2, of cur ?bprm] obtain post where post: "caps_of post = ?P"
    "cap_from_disk cur caps ?bprm 20 =
      (if ?eff \<and> \<not> caps_of (vfs_permitted caps) \<subseteq> ?P then Inl (Err EPERM) else Inr (),
       ?bprm\<lparr>b_cap_effective := ?eff, b_cap_post_exec_permitted := post\<rparr>)" by blast
  have clear: "bprm_clear_caps ?bprm = ?bprm" by (simp add: bprm_clear_caps_def)
  show ?thesis
  proof (cases "?eff \<and> \<not> caps_of (vfs_permitted caps) \<subseteq> ?P")
    case True
    then have "fst (cap_bprm_set_security True False (Xattr caps 20) cur ?bprm) = Inl (Err EPERM)"
      using user post(2)
      by (auto simp: cap_bprm_set_security_def get_file_caps_def clear bprm_clear_caps_def)
    then have "exec_creds True False (Xattr caps 20) v False unsafe e_uid e_gid cur = Inl (Err EPERM)"
      by (simp add: exec_creds_def case_prod_beta)
    with True show ?thesis by (simp add: Let_def)
  next
    case False
    let ?b = "?bprm\<lparr>b_cap_effective := ?eff, b_cap_post_exec_permitted := post\<rparr>"
    have rc: "cap_from_disk cur caps ?bprm 20 = (Inr (), ?b)" using post(2) False by auto
    have "get_file_caps True False (Xattr caps 20) cur ?bprm = (Inr (), ?b)"
      unfolding get_file_caps_def clear Let_def by (simp add: rc)
    then have "cap_bprm_set_security True False (Xattr caps 20) cur ?bprm = (Inr (), ?b)"
      using user by (auto simp: cap_bprm_set_security_def)
    then have e: "exec_creds True False (Xattr caps 20) v False unsafe e_uid e_gid cur =
        Inr (fst (cap_bprm_apply_creds True v False unsafe cur ?b))"
      by (simp add: exec_creds_def)
    obtain cur' b' where l: "bprm_limit True v unsafe cur ?b = (cur', b')" by fastforce
    note lim = bprm_limit_spec [OF l]
    note sel = apply_creds_sel [OF l, of False]
    have "caps_of (b_cap_post_exec_permitted b') =
        (if unsafe AND NOT LSM_UNSAFE_PTRACE_CAP \<noteq> 0 then ?P \<inter> caps_of (cap_permitted cur) else ?P)"
      using lim(6,7) post(1) by simp
    moreover have "b_cap_effective b' = ?eff" using lim(4) by simp
    moreover define c where "c = fst (cap_bprm_apply_creds True v False unsafe cur ?b)"
    ultimately show ?thesis using False lim(8) sel [folded c_def]
      unfolding Let_def e [folded c_def] by auto
  qed
qed

theorem capset_self_spec_witness:
  "capset_self True [0x80] [0x180] [0x80] \<lparr>t_uid = 0, t_euid = 0, t_suid = 0, t_fsuid = 0, t_gid = 0, t_egid = 0,
       t_sgid = 0, t_fsgid = 0, cap_effective = (0x1ff, 0), cap_inheritable = (0, 0), cap_permitted = (0x1ff, 0),
       cap_bset = (0x1ff, 0), securebits = 0, dumpable = 1, pdeath_signal = 0\<rparr> =
     (Inr (), \<lparr>t_uid = 0, t_euid = 0, t_suid = 0, t_fsuid = 0, t_gid = 0, t_egid = 0,
       t_sgid = 0, t_fsgid = 0, cap_effective = (0x80, 0), cap_inheritable = (0x80, 0), cap_permitted = (0x180, 0),
       cap_bset = (0x1ff, 0), securebits = 0, dumpable = 1, pdeath_signal = 0\<rparr>)"
  by code_simp

definition example_cred :: cred where
  "example_cred = \<lparr>t_uid = 1000, t_euid = 1000, t_suid = 1000, t_fsuid = 1000, t_gid = 100, t_egid = 100,
     t_sgid = 100, t_fsgid = 100, cap_effective = (0, 0), cap_inheritable = (0x400, 0), cap_permitted = (0, 0),
     cap_bset = (0xffff, 0), securebits = 0, dumpable = 1, pdeath_signal = 0\<rparr>"

definition example_vfs_caps :: vfs_cap_data where
  "example_vfs_caps = \<lparr>magic_etc = 0x02000001, vfs_permitted = (0x2000, 0), vfs_inheritable = (0xc00, 0)\<rparr>"

theorem exec_caps_witness:
  "case exec_creds True False (Xattr example_vfs_caps 20) 0 False 0 1000 100 example_cred of
     Inl e \<Rightarrow> False
   | Inr cur' \<Rightarrow> caps_of (cap_permitted cur') =
       caps_of (0xffff, 0) \<inter> caps_of (0x2000, 0) \<union> caps_of (0x400, 0) \<inter> caps_of (0xc00, 0)"
proof -
  have "magic_etc example_vfs_caps AND 0xFF000000 = 0x02000000"
    "issecure SECURE_NOROOT example_cred \<or> (1000 :: u32) \<noteq> 0 \<and> t_uid example_cred \<noteq> 0" by code_simp+
  from exec_caps [OF this, where v = 0 and unsafe = 0 and e_gid = 100]
  have s: "case exec_creds True False (Xattr example_vfs_caps 20) 0 False 0 1000 100 example_cred of
     Inl e \<Rightarrow> e = Err EPERM
   | Inr cur' \<Rightarrow> caps_of (cap_permitted cur') =
       caps_of (0xffff, 0) \<inter> caps_of (0x2000, 0) \<union> caps_of (0x400, 0) \<inter> caps_of (0xc00, 0)"
    by (simp add: Let_def example_cred_def example_vfs_caps_def split: sum.splits)
  have "is_ok (exec_creds True False (Xattr example_vfs_caps 20) 0 False 0 1000 100 example_cred)"
    by code_simp
  with s show ?thesis by (auto simp: is_ok_iff)
qed

section \<open>Secure bits\<close>

inductive secure_step :: "bool \<Rightarrow> cred \<Rightarrow> cred \<Rightarrow> bool" for fcaps :: bool where
  prctl: "cap_task_prctl fcaps opt arg2 cur = (r, cur') \<Longrightarrow> secure_step fcaps cur cur'"
| exec: "secure_step fcaps cur (fst (cap_bprm_apply_creds fcaps v is_init unsafe cur bprm))"

text \<open>What the locks of \<open>sb0\<close> guarantee of a later value.\<close>

definition locks_kept :: "u32 \<Rightarrow> u32 \<Rightarrow> bool" where
  "locks_kept sb0 sb \<longleftrightarrow>
     (\<forall>b \<in> {0, 2}. bit sb0 (b + 1) \<longrightarrow> bit sb (b + 1) \<and> (bit sb b \<longleftrightarrow> bit sb0 b)) \<and>
     (bit sb0 5 \<longrightarrow> bit sb 5 \<and> (bit sb 4 \<longrightarrow> bit sb0 4))"

lemma issecure_iff: "x < 32 \<Longrightarrow> issecure x cur \<longleftrightarrow> bit (securebits cur) x"
  using and_pow2_bit [of "securebits cur" x] by (simp add: issecure_def issecure_mask_def and.commute)

lemma secure_masks: "SECURE_ALL_BITS = 0x15" "SECURE_ALL_LOCKS = 0x2a"
  by (simp_all add: SECURE_ALL_BITS_def SECURE_ALL_LOCKS_def issecure_mask_def)

lemma locked_bit:
  assumes "drop_bit 1 (sb AND 0x2a) AND (sb XOR arg2) = 0" "sb AND 0x2a AND NOT arg2 = (0 :: u32)"
    "b \<in> {0, 2, 4}" "bit sb (b + 1)"
  shows "bit arg2 (b + 1) \<and> (bit arg2 b \<longleftrightarrow> bit sb b)"
proof -
  have l: "bit (0x2a :: u32) (b + 1)"
    using assms(3) by (auto simp: bit_numeral_rec)
  have "\<not> bit (drop_bit 1 (sb AND 0x2a) AND (sb XOR arg2)) b" "\<not> bit (sb AND 0x2a AND NOT arg2) (b + 1)"
    unfolding assms(1,2) by simp_all
  then have "\<not> (bit sb (1 + b) \<and> bit (0x2a :: u32) (1 + b) \<and> bit sb b \<noteq> bit arg2 b)"
    "bit sb (b + 1) \<and> bit (0x2a :: u32) (b + 1) \<longrightarrow> \<not> bit (NOT arg2) (b + 1)"
    by (simp_all only: bit_and_iff bit_xor_iff bit_drop_bit_eq o_apply) blast+
  moreover have "b + 1 < 32" using assms(3) by auto
  then have "bit (NOT arg2) (b + 1) \<longleftrightarrow> \<not> bit arg2 (b + 1)" by (simp add: bit_not_iff)
  ultimately show ?thesis using assms(4) l by (simp only: add.commute [of 1 b]) blast
qed

lemma set_securebits_keeps:
  assumes "set_securebits arg2 cur = (r, cur')"
  shows "locks_kept (securebits cur) (securebits cur')"
proof (cases "fst (set_securebits arg2 cur) = Inr 0")
  case True
  then have "drop_bit 1 (securebits cur AND 0x2a) AND (securebits cur XOR arg2) = 0"
    "securebits cur AND 0x2a AND NOT arg2 = 0" and s: "securebits cur' = arg2"
    using assms by (auto simp: set_securebits_def secure_masks split: if_splits)
  note l = locked_bit [OF this(1,2)]
  show ?thesis using l [of 0] l [of 2] l [of 4] unfolding locks_kept_def s by auto
next
  case False
  then have "cur' = cur" using assms by (auto simp: set_securebits_def split: if_splits)
  then show ?thesis by (simp add: locks_kept_def)
qed

lemma set_keepcaps_keeps:
  assumes "set_keepcaps arg2 cur = (r, cur')"
  shows "locks_kept (securebits cur) (securebits cur')"
proof (cases "cur' = cur")
  case False
  then have "\<not> bit (securebits cur) 5"
    and "securebits cur' = securebits cur OR 2 ^ 4 \<or> securebits cur' = securebits cur AND NOT (2 ^ 4)"
    using assms by (auto simp: set_keepcaps_def issecure_iff issecure_mask_def split: if_splits)
  then show ?thesis by (auto simp: locks_kept_def bit_or_iff bit_and_iff bit_not_iff bit_pow2 simp del: power_numeral)
qed (simp add: locks_kept_def)

lemma locks_kept_refl: "locks_kept sb sb"
  by (simp add: locks_kept_def)

lemma prctl_keeps:
  assumes "cap_task_prctl fcaps opt arg2 cur = (r, cur')"
  shows "locks_kept (securebits cur) (securebits cur')"
proof -
  have s: "cur' = snd (cap_task_prctl fcaps opt arg2 cur)" using assms by simp
  show ?thesis
  proof (cases opt)
  case PR_CAPBSET_DROP
  then have "cur' = cur \<or> cur' = snd (cap_prctl_drop arg2 cur)"
    using s by (simp add: cap_task_prctl_def)
  then have "securebits cur' = securebits cur" by (auto simp: cap_prctl_drop_def)
  then show ?thesis by (simp add: locks_kept_refl)
next
  case PR_SET_SECUREBITS
  then have "cur' = cur \<or> cur' = snd (set_securebits arg2 cur)"
    using s by (simp add: cap_task_prctl_def)
  then show ?thesis
    using locks_kept_refl set_securebits_keeps [OF prod.collapse [symmetric]] by auto
next
  case PR_SET_KEEPCAPS
  then have "cur' = snd (set_keepcaps arg2 cur)"
    using s by (simp add: cap_task_prctl_def)
  then show ?thesis using set_keepcaps_keeps [OF prod.collapse [symmetric]] by auto
  qed (use s in \<open>simp_all add: cap_task_prctl_def locks_kept_refl\<close>)
qed

lemma secure_step_keeps: "secure_step fcaps cur cur' \<Longrightarrow> locks_kept (securebits cur) (securebits cur')"
proof (induction rule: secure_step.induct)
  case (prctl opt arg2 cur r cur')
  then show ?case by (rule prctl_keeps)
next
  case (exec cur v is_init unsafe bprm)
  obtain cur' b' where l: "bprm_limit fcaps v unsafe cur bprm = (cur', b')" by fastforce
  then have "securebits cur' = securebits cur" by (auto simp: bprm_limit_def Let_def split: if_splits)
  with l have "securebits (fst (cap_bprm_apply_creds fcaps v is_init unsafe cur bprm)) =
      securebits cur AND NOT (2 ^ 4)"
    by (simp add: cap_bprm_apply_creds_def Let_def issecure_mask_def)
  then show ?case by (auto simp: locks_kept_def bit_and_iff bit_not_iff bit_pow2 simp del: power_numeral)
qed

lemma locks_kept_trans: "locks_kept a b \<Longrightarrow> locks_kept b c \<Longrightarrow> locks_kept a c"
  by (auto simp: locks_kept_def)

interpretation secure: step_invariant "secure_step fcaps" "\<lambda>cur. locks_kept sb0 (securebits cur)" for fcaps sb0
  by unfold_locales (blast intro: locks_kept_trans secure_step_keeps)

text \<open>
  C29: The locks of the secure bits hold. Whatever a task does with \<open>prctl\<close> and \<open>exec\<close>, a
  lock that is set stays set, \<open>SECURE_NOROOT\<close> and \<open>SECURE_NO_SETUID_FIXUP\<close> keep the value
  they had when they were locked, and a locked \<open>SECURE_KEEP_CAPS\<close> is never turned on.
\<close>

theorem securebits_locked:
  assumes "(secure_step fcaps)\<^sup>*\<^sup>* cur cur'"
  shows "\<forall>b \<in> {SECURE_NOROOT, SECURE_NO_SETUID_FIXUP, SECURE_KEEP_CAPS}. issecure (b + 1) cur \<longrightarrow>
    issecure (b + 1) cur' \<and>
    (if b = SECURE_KEEP_CAPS then issecure b cur' \<longrightarrow> issecure b cur else issecure b cur' \<longleftrightarrow> issecure b cur)"
proof -
  have "locks_kept (securebits cur) (securebits cur)" by (simp add: locks_kept_def)
  from secure.run_keeps [OF assms this] show ?thesis by (simp add: issecure_iff locks_kept_def)
qed

theorem securebits_locked_witness:
  "issecure (SECURE_NOROOT + 1) (example_cred\<lparr>securebits := 3\<rparr>) \<and>
   issecure SECURE_NOROOT (snd (cap_task_prctl True PR_SET_SECUREBITS 2 (example_cred\<lparr>securebits := 3\<rparr>)))"
proof -
  let ?c = "example_cred\<lparr>securebits := 3\<rparr>"
  have "secure_step True ?c (snd (cap_task_prctl True PR_SET_SECUREBITS 2 ?c))"
    by (rule secure_step.prctl [OF prod.collapse [symmetric]])
  then have "(secure_step True)\<^sup>*\<^sup>* ?c (snd (cap_task_prctl True PR_SET_SECUREBITS 2 ?c))" by blast
  from securebits_locked [OF this]
  show ?thesis by (simp add: issecure_iff bit_numeral_rec)
qed

end
