(* ===== verification/Setid.thy ===== *)
theory Setid imports Caps begin

text \<open>
  The system calls of \<open>kernel/sys.c\<close> that change the user and group ids of the calling
  task. With \<open>CONFIG_SECURITY\<close> unset the hooks \<open>security_task_setuid\<close> and
  \<open>security_task_setgid\<close> return 0 and \<open>security_task_post_setuid\<close> is
  \<open>cap_task_post_setuid\<close> (\<open>include/linux/security.h\<close>). The hooks for keys and the process
  events connector do not change the state modelled here.
\<close>

section \<open>State\<close>

text \<open>
  The calling task, its \<open>user_struct\<close> (by user id) and the process counts of all users.
  The environment holds the sysctl \<open>suid_dumpable\<close>, the process limit, and for which ids
  \<open>alloc_uid\<close> finds memory.
\<close>

record setid_env =
  suid_dumpable :: nat
  rlim_nproc :: nat
  alloc_uid :: "u32 \<Rightarrow> bool"

record setid_state =
  cur :: cred
  cur_user :: u32
  processes :: "u32 \<Rightarrow> int"

definition no_id :: u32 where "no_id = - 1"

definition dump_if :: "bool \<Rightarrow> setid_env \<Rightarrow> setid_state \<Rightarrow> setid_state" where
  "dump_if b env s = (if b then s\<lparr>cur := set_dumpable (suid_dumpable env) (cur s)\<rparr> else s)"

definition switch_uid :: "u32 \<Rightarrow> setid_state \<Rightarrow> setid_state" where
  "switch_uid new_user s =
     (let p = (processes s)(new_user := processes s new_user + 1);
          p = p(cur_user s := p (cur_user s) - 1) in
      s\<lparr>processes := p, cur_user := new_user\<rparr>)"

text \<open>\<open>root_user\<close> is the user with id 0.\<close>

definition set_user :: "setid_env \<Rightarrow> u32 \<Rightarrow> bool \<Rightarrow> setid_state \<Rightarrow> unit result \<times> setid_state" where
  "set_user env new_ruid dumpclear s =
     (if \<not> alloc_uid env new_ruid then (Inl (Err EAGAIN), s)
      else if int (rlim_nproc env) \<le> processes s new_ruid \<and> new_ruid \<noteq> 0 then (Inl (Err EAGAIN), s)
      else let s = dump_if dumpclear env (switch_uid new_ruid s) in
           (Inr (), s\<lparr>cur := (cur s)\<lparr>t_uid := new_ruid\<rparr>\<rparr>))"

text \<open>The call of \<open>security_task_post_setuid\<close> at the end.\<close>

definition post_setuid :: "u32 \<Rightarrow> u32 \<Rightarrow> u32 \<Rightarrow> setid_flag \<Rightarrow> setid_state \<Rightarrow> unit result \<times> setid_state" where
  "post_setuid old_ruid old_euid old_suid flags s =
     (Inr (), s\<lparr>cur := cap_task_post_setuid old_ruid old_euid old_suid flags (cur s)\<rparr>)"

section \<open>Group ids\<close>

definition setregid :: "setid_env \<Rightarrow> u32 \<Rightarrow> u32 \<Rightarrow> setid_state \<Rightarrow> unit result \<times> setid_state" where
  "setregid env rgid egid s =
     (let c = cur s; old_rgid = t_gid c; old_egid = t_egid c in
      if rgid \<noteq> no_id \<and> \<not> (old_rgid = rgid \<or> t_egid c = rgid \<or> capable c CAP_SETGID)
      then (Inl (Err EPERM), s)
      else if egid \<noteq> no_id \<and> \<not> (old_rgid = egid \<or> t_egid c = egid \<or> t_sgid c = egid \<or> capable c CAP_SETGID)
      then (Inl (Err EPERM), s)
      else
        let new_rgid = (if rgid \<noteq> no_id then rgid else old_rgid);
            new_egid = (if egid \<noteq> no_id then egid else old_egid);
            s = dump_if (new_egid \<noteq> old_egid) env s;
            c = cur s;
            c = (if rgid \<noteq> no_id \<or> egid \<noteq> no_id \<and> egid \<noteq> old_rgid then c\<lparr>t_sgid := new_egid\<rparr> else c) in
        (Inr (), s\<lparr>cur := c\<lparr>t_fsgid := new_egid, t_egid := new_egid, t_gid := new_rgid\<rparr>\<rparr>))"

definition setgid :: "setid_env \<Rightarrow> u32 \<Rightarrow> setid_state \<Rightarrow> unit result \<times> setid_state" where
  "setgid env gid s =
     (let old_egid = t_egid (cur s) in
      if capable (cur s) CAP_SETGID
      then let s = dump_if (old_egid \<noteq> gid) env s in
           (Inr (), s\<lparr>cur := (cur s)\<lparr>t_gid := gid, t_egid := gid, t_sgid := gid, t_fsgid := gid\<rparr>\<rparr>)
      else if gid = t_gid (cur s) \<or> gid = t_sgid (cur s)
      then let s = dump_if (old_egid \<noteq> gid) env s in
           (Inr (), s\<lparr>cur := (cur s)\<lparr>t_egid := gid, t_fsgid := gid\<rparr>\<rparr>)
      else (Inl (Err EPERM), s))"

text \<open>The test \<open>setresuid\<close> and \<open>setresgid\<close> make of each id.\<close>

definition res_ok :: "u32 \<Rightarrow> u32 \<Rightarrow> u32 \<Rightarrow> u32 \<Rightarrow> bool" where
  "res_ok i r e s \<longleftrightarrow> \<not> (i \<noteq> no_id \<and> i \<noteq> r \<and> i \<noteq> e \<and> i \<noteq> s)"

definition setresgid :: "setid_env \<Rightarrow> u32 \<Rightarrow> u32 \<Rightarrow> u32 \<Rightarrow> setid_state \<Rightarrow> unit result \<times> setid_state" where
  "setresgid env rgid egid sgid s =
     (let c = cur s; ok = (\<lambda>i. res_ok i (t_gid c) (t_egid c) (t_sgid c)) in
      if \<not> capable c CAP_SETGID \<and> \<not> (ok rgid \<and> ok egid \<and> ok sgid) then (Inl (Err EPERM), s)
      else
        let s = (if egid \<noteq> no_id
                 then let s = dump_if (egid \<noteq> t_egid (cur s)) env s in s\<lparr>cur := (cur s)\<lparr>t_egid := egid\<rparr>\<rparr>
                 else s);
            c = cur s;
            c = c\<lparr>t_fsgid := t_egid c\<rparr>;
            c = (if rgid \<noteq> no_id then c\<lparr>t_gid := rgid\<rparr> else c);
            c = (if sgid \<noteq> no_id then c\<lparr>t_sgid := sgid\<rparr> else c) in
        (Inr (), s\<lparr>cur := c\<rparr>))"

definition setfsgid :: "setid_env \<Rightarrow> u32 \<Rightarrow> setid_state \<Rightarrow> u32 \<times> setid_state" where
  "setfsgid env gid s =
     (let c = cur s; old_fsgid = t_fsgid c in
      if gid = t_gid c \<or> gid = t_egid c \<or> gid = t_sgid c \<or> gid = t_fsgid c \<or> capable c CAP_SETGID
      then let s = dump_if (gid \<noteq> old_fsgid) env s in
           (old_fsgid, s\<lparr>cur := (cur s)\<lparr>t_fsgid := gid\<rparr>\<rparr>)
      else (old_fsgid, s))"

section \<open>User ids\<close>

definition setreuid :: "setid_env \<Rightarrow> u32 \<Rightarrow> u32 \<Rightarrow> setid_state \<Rightarrow> unit result \<times> setid_state" where
  "setreuid env ruid euid s =
     (let c = cur s; old_ruid = t_uid c; old_euid = t_euid c; old_suid = t_suid c;
          new_ruid = (if ruid \<noteq> no_id then ruid else old_ruid);
          new_euid = (if euid \<noteq> no_id then euid else old_euid) in
      if ruid \<noteq> no_id \<and> old_ruid \<noteq> ruid \<and> t_euid c \<noteq> ruid \<and> \<not> capable c CAP_SETUID
      then (Inl (Err EPERM), s)
      else if euid \<noteq> no_id \<and> old_ruid \<noteq> euid \<and> t_euid c \<noteq> euid \<and> t_suid c \<noteq> euid \<and> \<not> capable c CAP_SETUID
      then (Inl (Err EPERM), s)
      else case (if new_ruid \<noteq> old_ruid then set_user env new_ruid (new_euid \<noteq> old_euid) s else (Inr (), s)) of
        (Inl _, s) \<Rightarrow> (Inl (Err EAGAIN), s)
      | (Inr _, s) \<Rightarrow>
          let s = dump_if (new_euid \<noteq> old_euid) env s;
              c = (cur s)\<lparr>t_euid := new_euid, t_fsuid := new_euid\<rparr>;
              c = (if ruid \<noteq> no_id \<or> euid \<noteq> no_id \<and> euid \<noteq> old_ruid then c\<lparr>t_suid := t_euid c\<rparr> else c);
              c = c\<lparr>t_fsuid := t_euid c\<rparr> in
          post_setuid old_ruid old_euid old_suid LSM_SETID_RE (s\<lparr>cur := c\<rparr>))"

definition setuid :: "setid_env \<Rightarrow> u32 \<Rightarrow> setid_state \<Rightarrow> unit result \<times> setid_state" where
  "setuid env uid s =
     (let c = cur s; old_euid = t_euid c; old_ruid = t_uid c; old_suid = t_suid c in
      case (if capable c CAP_SETUID
            then (case (if uid \<noteq> old_ruid then set_user env uid (old_euid \<noteq> uid) s else (Inr (), s)) of
                    (Inl _, s) \<Rightarrow> (Inl (Err EAGAIN), s)
                  | (Inr _, s) \<Rightarrow> (Inr uid, s))
            else if uid \<noteq> t_uid c \<and> uid \<noteq> old_suid then (Inl (Err EPERM), s)
            else (Inr old_suid, s)) of
        (Inl e, s) \<Rightarrow> (Inl e, s)
      | (Inr new_suid, s) \<Rightarrow>
          let s = dump_if (old_euid \<noteq> uid) env s in
          post_setuid old_ruid old_euid old_suid LSM_SETID_ID
            (s\<lparr>cur := (cur s)\<lparr>t_euid := uid, t_fsuid := uid, t_suid := new_suid\<rparr>\<rparr>))"

definition setresuid :: "setid_env \<Rightarrow> u32 \<Rightarrow> u32 \<Rightarrow> u32 \<Rightarrow> setid_state \<Rightarrow> unit result \<times> setid_state" where
  "setresuid env ruid euid suid s =
     (let c = cur s; old_ruid = t_uid c; old_euid = t_euid c; old_suid = t_suid c;
          ok = (\<lambda>i. res_ok i (t_uid c) (t_euid c) (t_suid c)) in
      if \<not> capable c CAP_SETUID \<and> \<not> (ok ruid \<and> ok euid \<and> ok suid) then (Inl (Err EPERM), s)
      else case (if ruid \<noteq> no_id \<and> ruid \<noteq> t_uid c then set_user env ruid (euid \<noteq> t_euid c) s else (Inr (), s)) of
        (Inl _, s) \<Rightarrow> (Inl (Err EAGAIN), s)
      | (Inr _, s) \<Rightarrow>
          let s = (if euid \<noteq> no_id
                   then let s = dump_if (euid \<noteq> t_euid (cur s)) env s in s\<lparr>cur := (cur s)\<lparr>t_euid := euid\<rparr>\<rparr>
                   else s);
              c = cur s;
              c = c\<lparr>t_fsuid := t_euid c\<rparr>;
              c = (if suid \<noteq> no_id then c\<lparr>t_suid := suid\<rparr> else c) in
          post_setuid old_ruid old_euid old_suid LSM_SETID_RES (s\<lparr>cur := c\<rparr>))"

definition setfsuid :: "setid_env \<Rightarrow> u32 \<Rightarrow> setid_state \<Rightarrow> u32 \<times> setid_state" where
  "setfsuid env uid s =
     (let c = cur s; old_fsuid = t_fsuid c;
          s = (if uid = t_uid c \<or> uid = t_euid c \<or> uid = t_suid c \<or> uid = t_fsuid c \<or> capable c CAP_SETUID
               then let s = dump_if (uid \<noteq> old_fsuid) env s in s\<lparr>cur := (cur s)\<lparr>t_fsuid := uid\<rparr>\<rparr>
               else s) in
      (old_fsuid, snd (post_setuid old_fsuid no_id no_id LSM_SETID_FS s)))"

section \<open>What one call does\<close>

text \<open>The effect of a call on the credentials: which ids, and what of the capabilities.\<close>

lemma dump_if_cur [simp]:
  "t_uid (cur (dump_if b env s)) = t_uid (cur s)" "t_euid (cur (dump_if b env s)) = t_euid (cur s)"
  "t_suid (cur (dump_if b env s)) = t_suid (cur s)" "t_fsuid (cur (dump_if b env s)) = t_fsuid (cur s)"
  "t_gid (cur (dump_if b env s)) = t_gid (cur s)" "t_egid (cur (dump_if b env s)) = t_egid (cur s)"
  "t_sgid (cur (dump_if b env s)) = t_sgid (cur s)" "t_fsgid (cur (dump_if b env s)) = t_fsgid (cur s)"
  "cap_effective (cur (dump_if b env s)) = cap_effective (cur s)"
  "cap_permitted (cur (dump_if b env s)) = cap_permitted (cur s)"
  "securebits (cur (dump_if b env s)) = securebits (cur s)"
  by (simp_all add: dump_if_def)

lemma set_user_ok:
  assumes "set_user env u b s = (Inr (), s')"
  shows "t_uid (cur s') = u" "t_euid (cur s') = t_euid (cur s)" "t_suid (cur s') = t_suid (cur s)"
    "t_fsuid (cur s') = t_fsuid (cur s)" "cap_effective (cur s') = cap_effective (cur s)"
    "cap_permitted (cur s') = cap_permitted (cur s)" "securebits (cur s') = securebits (cur s)"
  using assms by (auto simp: set_user_def Let_def switch_uid_def split: if_splits)

lemma set_user_fails: "set_user env u b s = (Inl e, s') \<Longrightarrow> e = Err EAGAIN \<and> s' = s"
  by (auto simp: set_user_def Let_def split: if_splits)

section \<open>Unprivileged tasks stay inside their ids\<close>

definition confined :: "u32 set \<Rightarrow> u32 set \<Rightarrow> nat set \<Rightarrow> cred \<Rightarrow> bool" where
  "confined U G P c \<longleftrightarrow> {t_uid c, t_euid c, t_suid c, t_fsuid c} \<subseteq> U \<and>
     {t_gid c, t_egid c, t_sgid c, t_fsgid c} \<subseteq> G \<and>
     caps_of (cap_permitted c) \<subseteq> P \<and> caps_of (cap_effective c) \<subseteq> caps_of (cap_permitted c)"

lemma confined_ids:
  "confined U G P c \<Longrightarrow> t_uid c \<in> U \<and> t_euid c \<in> U \<and> t_suid c \<in> U \<and> t_fsuid c \<in> U"
  "confined U G P c \<Longrightarrow> t_gid c \<in> G \<and> t_egid c \<in> G \<and> t_sgid c \<in> G \<and> t_fsgid c \<in> G"
  by (simp_all add: confined_def)

lemma confined_upd:
  assumes "confined U G P c"
  shows "u \<in> U \<Longrightarrow> confined U G P (c\<lparr>t_uid := u\<rparr>)" "u \<in> U \<Longrightarrow> confined U G P (c\<lparr>t_euid := u\<rparr>)"
    "u \<in> U \<Longrightarrow> confined U G P (c\<lparr>t_suid := u\<rparr>)" "u \<in> U \<Longrightarrow> confined U G P (c\<lparr>t_fsuid := u\<rparr>)"
    "u \<in> G \<Longrightarrow> confined U G P (c\<lparr>t_gid := u\<rparr>)" "u \<in> G \<Longrightarrow> confined U G P (c\<lparr>t_egid := u\<rparr>)"
    "u \<in> G \<Longrightarrow> confined U G P (c\<lparr>t_sgid := u\<rparr>)" "u \<in> G \<Longrightarrow> confined U G P (c\<lparr>t_fsgid := u\<rparr>)"
  using assms by (simp_all add: confined_def)

lemma confined_dump [simp]: "confined U G P (cur (dump_if b env s)) \<longleftrightarrow> confined U G P (cur s)"
  by (simp add: confined_def)

lemma confined_post: "confined U G P c \<Longrightarrow> confined U G P (cap_task_post_setuid r e s f c)"
  using post_setuid_caps(1) [of r e s f c] post_setuid_caps(2) [of c r e s f] by (auto simp: confined_def setxuid_ids)

lemma confined_post_setuid:
  "confined U G P (cur s) \<Longrightarrow> confined U G P (cur (snd (post_setuid r e su f s)))"
  by (simp add: post_setuid_def confined_post)

lemma confined_set_user:
  assumes "confined U G P (cur s)" "u \<in> U"
  shows "confined U G P (cur (snd (set_user env u b s)))"
proof (cases "fst (set_user env u b s)")
  case (Inl e)
  then have "snd (set_user env u b s) = s" using set_user_fails [of env u b s e] by (cases "set_user env u b s") auto
  then show ?thesis using assms by simp
next
  case (Inr x)
  then obtain s' where s: "set_user env u b s = (Inr (), s')" by (cases "set_user env u b s") auto
  then have "cur s' = (cur (dump_if b env (switch_uid u s)))\<lparr>t_uid := u\<rparr>"
    by (auto simp: set_user_def Let_def split: if_splits)
  moreover have "confined U G P (cur (dump_if b env (switch_uid u s)))"
    using assms(1) by (simp add: switch_uid_def Let_def)
  ultimately show ?thesis using s assms(2) by (simp add: confined_upd)
qed

lemma not_capable: "confined U G P c \<Longrightarrow> k \<notin> P \<Longrightarrow> k < 64 \<Longrightarrow> \<not> capable c k"
  by (auto simp: confined_def capable_iff)

lemma setregid_confined:
  assumes "confined U G P (cur s)" "CAP_SETGID \<notin> P"
  shows "confined U G P (cur (snd (setregid env r e s)))"
  using assms confined_ids(2) [OF assms(1)] not_capable [OF assms]
  by (auto simp: setregid_def Let_def intro!: confined_upd)

lemma setgid_confined:
  assumes "confined U G P (cur s)" "CAP_SETGID \<notin> P"
  shows "confined U G P (cur (snd (setgid env g s)))"
  using assms confined_ids(2) [OF assms(1)] not_capable [OF assms]
  by (auto simp: setgid_def Let_def intro!: confined_upd)

lemma setresgid_confined:
  assumes "confined U G P (cur s)" "CAP_SETGID \<notin> P"
  shows "confined U G P (cur (snd (setresgid env r e g s)))"
  using assms confined_ids(2) [OF assms(1)] not_capable [OF assms]
  by (auto simp: setresgid_def res_ok_def Let_def intro!: confined_upd)

lemma setfsgid_confined:
  assumes "confined U G P (cur s)" "CAP_SETGID \<notin> P"
  shows "confined U G P (cur (snd (setfsgid env g s)))"
  using assms confined_ids(2) [OF assms(1)] not_capable [OF assms]
  by (auto simp: setfsgid_def Let_def intro!: confined_upd)

lemma setfsuid_confined:
  assumes "confined U G P (cur s)" "CAP_SETUID \<notin> P"
  shows "confined U G P (cur (snd (setfsuid env g s)))"
  using assms confined_ids(1) [OF assms(1)] not_capable [OF assms]
  by (auto simp: setfsuid_def Let_def intro!: confined_upd confined_post_setuid)

lemma setuid_confined:
  assumes "confined U G P (cur s)" "CAP_SETUID \<notin> P"
  shows "confined U G P (cur (snd (setuid env u s)))"
  using assms confined_ids(1) [OF assms(1)] not_capable [OF assms]
  by (auto simp: setuid_def Let_def intro!: confined_upd confined_post_setuid)

text \<open>The conditional call of \<open>set_user\<close>.\<close>

lemma confined_maybe_set_user:
  assumes "confined U G P (cur s)" "b \<Longrightarrow> u \<in> U" "(if b then set_user env u d s else (Inr (), s)) = (r, s1)"
  shows "confined U G P (cur s1)"
proof (cases b)
  case True
  with assms(3) have "s1 = snd (set_user env u d s)" by simp
  then show ?thesis using confined_set_user assms(1,2) True by blast
qed (use assms in simp)

lemma setreuid_tail:
  assumes "confined U G P (cur s)" "ne \<in> U"
  shows "confined U G P (cur (snd (let s = dump_if b env s;
              c = (cur s)\<lparr>t_euid := ne, t_fsuid := ne\<rparr>;
              c = (if d then c\<lparr>t_suid := t_euid c\<rparr> else c);
              c = c\<lparr>t_fsuid := t_euid c\<rparr> in
          post_setuid r e su LSM_SETID_RE (s\<lparr>cur := c\<rparr>))))"
  using assms unfolding Let_def by (intro confined_post_setuid) (simp add: confined_upd)

lemma setreuid_confined:
  assumes "confined U G P (cur s)" "CAP_SETUID \<notin> P"
  shows "confined U G P (cur (snd (setreuid env ru eu s)))"
proof -
  let ?c = "cur s"
  define nr where "nr = (if ru \<noteq> no_id then ru else t_uid ?c)"
  define ne where "ne = (if eu \<noteq> no_id then eu else t_euid ?c)"
  note ids = confined_ids(1) [OF assms(1)] and nc = not_capable [OF assms, simplified]
  obtain r s1 where u: "(if nr \<noteq> t_uid ?c then set_user env nr (ne \<noteq> t_euid ?c) s else (Inr (), s)) = (r, s1)"
    by fastforce
  define a1 where "a1 = (ru \<noteq> no_id \<and> t_uid ?c \<noteq> ru \<and> t_euid ?c \<noteq> ru)"
  define a2 where "a2 = (eu \<noteq> no_id \<and> t_uid ?c \<noteq> eu \<and> t_euid ?c \<noteq> eu \<and> t_suid ?c \<noteq> eu)"
  have eq: "setreuid env ru eu s = (if a1 then (Inl (Err EPERM), s) else if a2 then (Inl (Err EPERM), s)
      else case r of Inl _ \<Rightarrow> (Inl (Err EAGAIN), s1)
      | Inr _ \<Rightarrow> (let s = dump_if (ne \<noteq> t_euid ?c) env s1;
              c = (cur s)\<lparr>t_euid := ne, t_fsuid := ne\<rparr>;
              c = (if ru \<noteq> no_id \<or> eu \<noteq> no_id \<and> eu \<noteq> t_uid ?c then c\<lparr>t_suid := t_euid c\<rparr> else c);
              c = c\<lparr>t_fsuid := t_euid c\<rparr> in
          post_setuid (t_uid ?c) (t_euid ?c) (t_suid ?c) LSM_SETID_RE (s\<lparr>cur := c\<rparr>)))"
    unfolding setreuid_def Let_def [of "cur s"] Let_def [of "t_uid ?c"] Let_def [of "t_euid ?c"] Let_def [of "t_suid ?c"]
      nr_def [symmetric] ne_def [symmetric] Let_def [of nr] Let_def [of ne] u
    by (simp add: nc a1_def a2_def)
  show ?thesis
  proof (cases "a1 \<or> a2")
    case True
    then show ?thesis using assms(1) unfolding eq by auto
  next
    case False
    then have U: "nr \<in> U" "ne \<in> U" using ids by (auto simp: a1_def a2_def nr_def ne_def)
    have c1: "confined U G P (cur s1)" by (rule confined_maybe_set_user [OF assms(1) _ u]) (use U in auto)
    show ?thesis
    proof (cases r)
      case Inl
      then show ?thesis using False c1 unfolding eq by simp
    next
      case Inr
      then have "snd (setreuid env ru eu s) = snd (let s = dump_if (ne \<noteq> t_euid ?c) env s1;
              c = (cur s)\<lparr>t_euid := ne, t_fsuid := ne\<rparr>;
              c = (if ru \<noteq> no_id \<or> eu \<noteq> no_id \<and> eu \<noteq> t_uid ?c then c\<lparr>t_suid := t_euid c\<rparr> else c);
              c = c\<lparr>t_fsuid := t_euid c\<rparr> in
          post_setuid (t_uid ?c) (t_euid ?c) (t_suid ?c) LSM_SETID_RE (s\<lparr>cur := c\<rparr>))"
        using False unfolding eq by simp
      then show ?thesis using setreuid_tail [OF c1 U(2)] by simp
    qed
  qed
qed

lemma setresuid_confined:
  assumes "confined U G P (cur s)" "CAP_SETUID \<notin> P"
  shows "confined U G P (cur (snd (setresuid env ru eu su s)))"
proof -
  let ?c = "cur s"
  note ids = confined_ids(1) [OF assms(1)] and nc = not_capable [OF assms, simplified]
  obtain r s1 where u: "(if ru \<noteq> no_id \<and> ru \<noteq> t_uid ?c then set_user env ru (eu \<noteq> t_euid ?c) s else (Inr (), s)) = (r, s1)"
    by fastforce
  show ?thesis
  proof (cases "res_ok ru (t_uid ?c) (t_euid ?c) (t_suid ?c) \<and> res_ok eu (t_uid ?c) (t_euid ?c) (t_suid ?c) \<and>
      res_ok su (t_uid ?c) (t_euid ?c) (t_suid ?c)")
    case False
    then show ?thesis using assms(1) nc by (auto simp: setresuid_def Let_def)
  next
    case ok: True
    then have U: "ru \<noteq> no_id \<Longrightarrow> ru \<in> U" "eu \<noteq> no_id \<Longrightarrow> eu \<in> U" "su \<noteq> no_id \<Longrightarrow> su \<in> U"
      using ids by (auto simp: res_ok_def)
    have c1: "confined U G P (cur s1)" by (rule confined_maybe_set_user [OF assms(1) _ u]) (use U in auto)
    note ids1 = confined_ids(1) [OF c1]
    show ?thesis
    proof (cases r)
      case Inl
      then show ?thesis using ok u c1 by (simp add: setresuid_def Let_def nc)
    next
      case Inr
      then show ?thesis using ok u c1 U ids1
        by (simp add: setresuid_def Let_def nc) (auto intro!: confined_post_setuid confined_upd)
    qed
  qed
qed

inductive setid_step :: "setid_env \<Rightarrow> setid_state \<Rightarrow> setid_state \<Rightarrow> bool" for env :: setid_env where
  "setid_step env s (snd (setuid env u s))"
| "setid_step env s (snd (setreuid env ru eu s))"
| "setid_step env s (snd (setresuid env ru eu su s))"
| "setid_step env s (snd (setfsuid env fu s))"
| "setid_step env s (snd (setgid env g s))"
| "setid_step env s (snd (setregid env rg eg s))"
| "setid_step env s (snd (setresgid env rg eg sg s))"
| "setid_step env s (snd (setfsgid env fg s))"
| "setid_step env s (s\<lparr>cur := snd (capset_self fcaps kE kP kI (cur s))\<rparr>)"

lemma capset_confined:
  "confined U G P c \<Longrightarrow> confined U G P (snd (capset_self fcaps kE kP kI c))"
  by (auto simp: confined_def capset_self_def cap_capset_check_def cap_capset_set_def Let_def)

lemma setid_step_confined:
  assumes "confined U G P (cur s)" "setid_step env s s'" "CAP_SETUID \<notin> P" "CAP_SETGID \<notin> P"
  shows "confined U G P (cur s')"
  using assms(2,1)
proof cases
  case 9
  then show ?thesis using assms(1) capset_confined by simp
qed (use assms in \<open>simp_all add: setuid_confined setreuid_confined setresuid_confined setfsuid_confined
       setgid_confined setregid_confined setresgid_confined setfsgid_confined\<close>)

interpretation setid: step_invariant "setid_step env"
  "\<lambda>s. CAP_SETUID \<notin> P \<and> CAP_SETGID \<notin> P \<and> confined U G P (cur s)" for env U G P
  by unfold_locales (blast intro: setid_step_confined)

text \<open>
  C2: A task without \<open>CAP_SETUID\<close> and \<open>CAP_SETGID\<close> in its permitted set, and with its
  effective set inside the permitted one, cannot leave its ids:
  whatever sequence of the id calls and \<open>capset\<close> it makes, each of its user ids is one of the
  four it began with, each of its group ids one of its four group ids, its permitted set
  never grows and its effective set stays inside it.
\<close>

theorem setid_confined:
  assumes "(setid_step env)\<^sup>*\<^sup>* s s'"
    and "CAP_SETUID \<notin> caps_of (cap_permitted (cur s))" "CAP_SETGID \<notin> caps_of (cap_permitted (cur s))"
    and "caps_of (cap_effective (cur s)) \<subseteq> caps_of (cap_permitted (cur s))"
  shows "{t_uid (cur s'), t_euid (cur s'), t_suid (cur s'), t_fsuid (cur s')} \<subseteq>
      {t_uid (cur s), t_euid (cur s), t_suid (cur s), t_fsuid (cur s)} \<and>
    {t_gid (cur s'), t_egid (cur s'), t_sgid (cur s'), t_fsgid (cur s')} \<subseteq>
      {t_gid (cur s), t_egid (cur s), t_sgid (cur s), t_fsgid (cur s)} \<and>
    caps_of (cap_permitted (cur s')) \<subseteq> caps_of (cap_permitted (cur s)) \<and>
    caps_of (cap_effective (cur s')) \<subseteq> caps_of (cap_permitted (cur s'))"
proof -
  let ?U = "{t_uid (cur s), t_euid (cur s), t_suid (cur s), t_fsuid (cur s)}"
  let ?G = "{t_gid (cur s), t_egid (cur s), t_sgid (cur s), t_fsgid (cur s)}"
  have "confined ?U ?G (caps_of (cap_permitted (cur s))) (cur s)" using assms(4) by (simp add: confined_def)
  with assms(2,3) setid.run_keeps [OF assms(1), of "caps_of (cap_permitted (cur s))" ?U ?G]
  have "confined ?U ?G (caps_of (cap_permitted (cur s))) (cur s')" by blast
  then show ?thesis unfolding confined_def by blast
qed

text \<open>A successful privileged \<open>setuid\<close>, and the rules for leaving root.\<close>

lemma setuid_privileged:
  assumes "capable (cur s) CAP_SETUID" "setuid env u s = (Inr (), s1)"
  shows "\<exists>c. cur s1 = cap_task_post_setuid (t_uid (cur s)) (t_euid (cur s)) (t_suid (cur s)) LSM_SETID_ID c \<and>
    t_uid c = u \<and> t_euid c = u \<and> t_suid c = u \<and> t_fsuid c = u \<and>
    cap_permitted c = cap_permitted (cur s) \<and> cap_effective c = cap_effective (cur s) \<and>
    securebits c = securebits (cur s)"
proof -
  obtain r s2 where u: "(if u \<noteq> t_uid (cur s) then set_user env u (t_euid (cur s) \<noteq> u) s else (Inr (), s)) = (r, s2)"
    by fastforce
  have r: "r = Inr ()" using assms u by (cases r) (auto simp: setuid_def Let_def)
  define c where "c = (cur (dump_if (t_euid (cur s) \<noteq> u) env s2))\<lparr>t_euid := u, t_fsuid := u, t_suid := u\<rparr>"
  have "cur s1 = cap_task_post_setuid (t_uid (cur s)) (t_euid (cur s)) (t_suid (cur s)) LSM_SETID_ID c"
    using assms u r by (auto simp: setuid_def Let_def post_setuid_def c_def)
  moreover have "t_uid (cur s2) = u \<and> cap_permitted (cur s2) = cap_permitted (cur s) \<and>
      cap_effective (cur s2) = cap_effective (cur s) \<and> securebits (cur s2) = securebits (cur s)"
  proof (cases "u \<noteq> t_uid (cur s)")
    case True
    with u r have "set_user env u (t_euid (cur s) \<noteq> u) s = (Inr (), s2)" by simp
    from set_user_ok [OF this] show ?thesis by simp
  qed (use u in simp)
  ultimately show ?thesis by (intro exI [of _ c]) (simp add: c_def)
qed

text \<open>
  C3: A task with effective id 0, \<open>CAP_SETUID\<close> in its effective set and \<open>SECURE_NO_SETUID_FIXUP\<close>
  clear that calls \<open>setuid\<close> with another id, successfully, has this id as all four user ids, no
  effective capability, also with \<open>SECURE_KEEP_CAPS\<close>, and its permitted capabilities only with
  \<open>SECURE_KEEP_CAPS\<close>. Without it, no sequence of id calls and \<open>capset\<close> leads back to another user
  id or to any capability; only the exec of a program could. (The comment on
  \<open>cap_emulate_setxuid\<close> has the effective set retained with \<open>SECURE_KEEP_CAPS\<close>; the code clears it.)
\<close>

theorem setuid_drops_root:
  assumes priv: "CAP_SETUID \<in> caps_of (cap_effective (cur s))" "t_euid (cur s) = 0" and u: "u \<noteq> 0"
    and fixup: "\<not> issecure SECURE_NO_SETUID_FIXUP (cur s)" and ok: "setuid env u s = (Inr (), s1)"
  shows "t_uid (cur s1) = u \<and> t_euid (cur s1) = u \<and> t_suid (cur s1) = u \<and> t_fsuid (cur s1) = u \<and>
    cap_effective (cur s1) = cap_empty_set \<and>
    cap_permitted (cur s1) = (if issecure SECURE_KEEP_CAPS (cur s) then cap_permitted (cur s) else cap_empty_set) \<and>
    (\<not> issecure SECURE_KEEP_CAPS (cur s) \<longrightarrow> (\<forall>s2. (setid_step env)\<^sup>*\<^sup>* s1 s2 \<longrightarrow>
      t_uid (cur s2) = u \<and> t_euid (cur s2) = u \<and> t_suid (cur s2) = u \<and> t_fsuid (cur s2) = u \<and>
      caps_of (cap_permitted (cur s2)) = {} \<and> caps_of (cap_effective (cur s2)) = {}))"
proof -
  have "capable (cur s) CAP_SETUID" using priv(1) by (simp add: capable_iff)
  from setuid_privileged [OF this ok] obtain c where
    c: "cur s1 = cap_task_post_setuid (t_uid (cur s)) 0 (t_suid (cur s)) LSM_SETID_ID c"
      "t_uid c = u" "t_euid c = u" "t_suid c = u" "t_fsuid c = u"
      "cap_permitted c = cap_permitted (cur s)" "securebits c = securebits (cur s)"
    using priv(2) by auto
  have e: "cur s1 = cap_emulate_setxuid (t_uid (cur s)) 0 (t_suid (cur s)) c"
    using c(1,7) fixup by (simp add: cap_task_post_setuid_def issecure_def)
  have ids: "t_uid (cur s1) = u" "t_euid (cur s1) = u" "t_suid (cur s1) = u" "t_fsuid (cur s1) = u"
    using c by (simp_all add: setxuid_ids)
  have eff: "cap_effective (cur s1) = cap_empty_set"
    unfolding e setxuid_effective using c u by simp
  have perm: "cap_permitted (cur s1) = (if issecure SECURE_KEEP_CAPS (cur s) then cap_permitted (cur s) else cap_empty_set)"
    unfolding e setxuid_permitted leaves_root_def using c u by (simp add: issecure_def)
  have "t_uid (cur s2) = u \<and> t_euid (cur s2) = u \<and> t_suid (cur s2) = u \<and> t_fsuid (cur s2) = u \<and>
      caps_of (cap_permitted (cur s2)) = {} \<and> caps_of (cap_effective (cur s2)) = {}"
    if "\<not> issecure SECURE_KEEP_CAPS (cur s)" "(setid_step env)\<^sup>*\<^sup>* s1 s2" for s2
  proof -
    have "confined {u} UNIV {} (cur s1)" using ids eff perm that(1) by (simp add: confined_def)
    with setid.run_keeps [OF that(2), of "{}" "{u}" UNIV] have "confined {u} UNIV {} (cur s2)" by simp
    then show ?thesis by (auto simp: confined_def)
  qed
  with ids eff perm show ?thesis by blast
qed

definition root_state :: setid_state where
  "root_state = \<lparr>cur = example_cred\<lparr>t_uid := 0, t_euid := 0, t_suid := 0, t_fsuid := 0,
       cap_effective := (0xffff, 0), cap_permitted := (0xffff, 0)\<rparr>, cur_user = 0, processes = (\<lambda>_. 1)\<rparr>"

definition example_env :: setid_env where
  "example_env = \<lparr>suid_dumpable = 0, rlim_nproc = 10, alloc_uid = (\<lambda>_. True)\<rparr>"

theorem setuid_drops_root_witness:
  "t_uid (cur (snd (setuid example_env 1000 root_state))) = 1000 \<and>
   cap_permitted (cur (snd (setuid example_env 1000 root_state))) = cap_empty_set"
proof -
  have cap: "CAP_SETUID \<in> caps_of (cap_effective (cur root_state))"
    by (simp add: root_state_def example_cred_def caps_of_def cap_word_def bit_numeral_rec)
  then have "capable (cur root_state) CAP_SETUID" by (simp add: capable_iff)
  then have "fst (setuid example_env 1000 root_state) = Inr ()"
    by (simp add: setuid_def set_user_def post_setuid_def example_env_def root_state_def example_cred_def Let_def)
  then have "setuid example_env 1000 root_state = (Inr (), snd (setuid example_env 1000 root_state))"
    by (metis prod.collapse)
  moreover note cap
  moreover have "\<not> issecure SECURE_NO_SETUID_FIXUP (cur root_state)" "\<not> issecure SECURE_KEEP_CAPS (cur root_state)"
    by (simp_all add: root_state_def example_cred_def issecure_def)
  moreover have "t_euid (cur root_state) = 0" by (simp add: root_state_def)
  moreover have "(1000 :: u32) \<noteq> 0" by simp
  ultimately show ?thesis
    using setuid_drops_root [of root_state 1000 example_env "snd (setuid example_env 1000 root_state)"] by presburger
qed

theorem setid_confined_witness:
  "t_uid (cur (snd (setresuid example_env 7 1000 7 \<lparr>cur = example_cred, cur_user = 1000, processes = (\<lambda>_. 1)\<rparr>))) = 1000"
proof -
  let ?s = "\<lparr>cur = example_cred, cur_user = 1000, processes = (\<lambda>_. 1)\<rparr>"
  have "(setid_step example_env)\<^sup>*\<^sup>* ?s (snd (setresuid example_env 7 1000 7 ?s))"
    by (intro r_into_rtranclp setid_step.intros)
  moreover have "caps_of (cap_permitted (cur ?s)) = {}" "caps_of (cap_effective (cur ?s)) = {}"
    using caps_of_empty by (simp_all add: example_cred_def cap_empty_set_def)
  ultimately show ?thesis using setid_confined [of example_env ?s] by (simp add: example_cred_def)
qed

end
