(* ===== verification/GroupInfo.thy ===== *)
theory GroupInfo imports Setid begin

text \<open>
  The supplementary groups of a task (\<open>kernel/sys.c\<close>): \<open>groups_sort\<close>, a Shell sort,
  \<open>groups_search\<close>, a binary search, and the calls built on them. The blocks of a
  \<open>group_info\<close> are one list of \<open>ngroups\<close> ids (the macro \<open>GROUP_AT\<close>). There are at most
  \<open>NGROUPS_MAX = 65536\<close> of them, so the index arithmetic in \<open>int\<close> does not overflow and
  indices are numbers here; only the difference of two ids is kept at its width.
\<close>

section \<open>Sorting\<close>

function stride_up :: "nat \<Rightarrow> nat \<Rightarrow> nat" where
  "stride_up gidsetsize stride =
     (if stride < gidsetsize then stride_up gidsetsize (3 * stride + 1) else stride)"
  by pat_completeness auto
termination by (relation "measure (\<lambda>(n, s). n - s)") auto

declare stride_up.simps [simp del]

text \<open>
  The inner \<open>while\<close>: the array and the last \<open>right\<close>. It runs with a positive stride.
\<close>

function shift_right :: "u32 list \<Rightarrow> nat \<Rightarrow> u32 \<Rightarrow> int \<Rightarrow> nat \<Rightarrow> u32 list \<times> nat" where
  "shift_right g stride tmp left right =
     (if 0 < stride \<and> 0 \<le> left \<and> g ! nat left > tmp
      then shift_right (g[right := g ! nat left]) stride tmp (left - int stride) (nat left)
      else (g, right))"
  by pat_completeness auto
termination by (relation "measure (\<lambda>(g, stride, tmp, left, right). nat (left + 1))") auto

declare shift_right.simps [simp del]

definition shell_insert :: "nat \<Rightarrow> nat \<Rightarrow> u32 list \<Rightarrow> u32 list" where
  "shell_insert stride base g =
     (let right = base + stride; tmp = g ! right;
          (g, right) = shift_right g stride tmp (int base) right in g[right := tmp])"

definition shell_pass :: "nat \<Rightarrow> u32 list \<Rightarrow> u32 list" where
  "shell_pass stride g = fold (shell_insert stride) [0..<length g - stride] g"

fun shell_loop :: "nat \<Rightarrow> u32 list \<Rightarrow> u32 list" where
  "shell_loop stride g = (if stride = 0 then g else shell_loop (stride div 3) (shell_pass stride g))"

declare shell_loop.simps [simp del]

definition groups_sort :: "u32 list \<Rightarrow> u32 list" where
  "groups_sort g = shell_loop (stride_up (length g) 1 div 3) g"

section \<open>Searching\<close>

function bsearch_loop :: "u32 list \<Rightarrow> u32 \<Rightarrow> nat \<Rightarrow> nat \<Rightarrow> bool" where
  "bsearch_loop g grp left right =
     (if left < right
      then let mid = (left + right) div 2; cmp = sint (grp - g ! mid) in
           if 0 < cmp then bsearch_loop g grp (mid + 1) right
           else if cmp < 0 then bsearch_loop g grp left mid
           else True
      else False)"
  by pat_completeness auto
termination by (relation "measure (\<lambda>(g, grp, left, right). right - left)") auto

declare bsearch_loop.simps [simp del]

text \<open>\<open>None\<close> for a task without a \<open>group_info\<close>.\<close>

definition groups_search :: "u32 list option \<Rightarrow> u32 \<Rightarrow> bool" where
  "groups_search group_info grp =
     (case group_info of None \<Rightarrow> False | Some g \<Rightarrow> bsearch_loop g grp 0 (length g))"

section \<open>The calls\<close>

record groups_state =
  g_cred :: cred
  group_info :: "u32 list"

definition NGROUPS_MAX :: nat where "NGROUPS_MAX = 65536"

definition set_current_groups :: "u32 list \<Rightarrow> groups_state \<Rightarrow> unit result \<times> groups_state" where
  "set_current_groups g s = (Inr (), s\<lparr>group_info := groups_sort g\<rparr>)"

text \<open>
  \<open>alloc\<close>: \<open>groups_alloc\<close> finds memory; \<open>user\<close>: the ids \<open>groups_from_user\<close> copies, \<open>None\<close>
  when the user's memory cannot be read. \<open>gidsetsize\<close> is cast to \<open>unsigned\<close> for the test.
\<close>

definition setgroups :: "bool \<Rightarrow> u32 \<Rightarrow> u32 list option \<Rightarrow> groups_state \<Rightarrow> unit result \<times> groups_state" where
  "setgroups alloc gidsetsize user s =
     (if \<not> capable (g_cred s) CAP_SETGID then (Inl (Err EPERM), s)
      else if NGROUPS_MAX < unat gidsetsize then (Inl (Err EINVAL), s)
      else if \<not> alloc then (Inl (Err ENOMEM), s)
      else case user of
        None \<Rightarrow> (Inl (Err EFAULT), s)
      | Some ids \<Rightarrow> set_current_groups (take (unat gidsetsize) ids) s)"

text \<open>\<open>getgroups\<close>: the number of groups, and the ids it copies out (\<open>ok\<close>: it can).\<close>

definition getgroups :: "bool \<Rightarrow> int \<Rightarrow> groups_state \<Rightarrow> (nat \<times> u32 list) result" where
  "getgroups ok gidsetsize s =
     (if gidsetsize < 0 then Inl (Err EINVAL)
      else let i = length (group_info s) in
        if gidsetsize \<noteq> 0
        then if gidsetsize < int i then Inl (Err EINVAL)
             else if \<not> ok then Inl (Err EFAULT)
             else Inr (i, group_info s)
        else Inr (i, []))"

definition in_group_p :: "groups_state \<Rightarrow> u32 \<Rightarrow> bool" where
  "in_group_p s grp = (if grp \<noteq> t_fsgid (g_cred s) then groups_search (Some (group_info s)) grp else True)"

definition in_egroup_p :: "groups_state \<Rightarrow> u32 \<Rightarrow> bool" where
  "in_egroup_p s grp = (if grp \<noteq> t_egid (g_cred s) then groups_search (Some (group_info s)) grp else True)"

section \<open>The sort permutes\<close>

lemma mset_two_updates:
  assumes "l < length g" "r < length g"
  shows "mset (g[r := g ! l, l := x]) = mset (g[r := x])"
proof (cases "l = r")
  case False
  let ?h = "g[r := x]"
  have "mset (?h[l := ?h ! r, r := ?h ! l]) = mset ?h" using assms by (intro mset_swap) simp_all
  moreover have "?h[l := ?h ! r, r := ?h ! l] = g[r := g ! l, l := x]"
    using assms False by (intro nth_equalityI) (auto simp: nth_list_update)
  ultimately show ?thesis by simp
qed (simp add: assms)

lemma shift_right_perm:
  "shift_right g stride tmp left right = (g', r) \<Longrightarrow> right < length g \<Longrightarrow> left < int (length g) \<Longrightarrow>
    r < length g \<and> length g' = length g \<and> mset (g'[r := tmp]) = mset (g[right := tmp])"
proof (induction g stride tmp left right arbitrary: g' r rule: shift_right.induct)
  case (1 g stride tmp left right)
  show ?case
  proof (cases "0 < stride \<and> 0 \<le> left \<and> g ! nat left > tmp")
    case True
    then have l: "nat left < length g" using "1.prems"(3) by linarith
    have "shift_right (g[right := g ! nat left]) stride tmp (left - int stride) (nat left) = (g', r)"
      using "1.prems"(1) True by (subst (asm) shift_right.simps) simp
    from "1.IH" [OF True this] l "1.prems" have
      "r < length g \<and> length g' = length g \<and> mset (g'[r := tmp]) = mset (g[right := g ! nat left, nat left := tmp])"
      by simp
    then show ?thesis using mset_two_updates [OF l "1.prems"(2)] by simp
  next
    case False
    then have "g' = g" "r = right" using "1.prems"(1) by (subst (asm) shift_right.simps; simp)+
    then show ?thesis using "1.prems"(2) by simp
  qed
qed

lemma shell_insert_perm:
  assumes "base + stride < length g"
  shows "length (shell_insert stride base g) = length g \<and> mset (shell_insert stride base g) = mset g"
proof -
  obtain g' r where s: "shift_right g stride (g ! (base + stride)) (int base) (base + stride) = (g', r)"
    by fastforce
  from shift_right_perm [OF s] assms have "length g' = length g"
    "mset (g'[r := g ! (base + stride)]) = mset g" by simp_all
  then show ?thesis by (simp add: shell_insert_def s)
qed

lemma shell_fold_perm:
  "n + stride \<le> length g \<Longrightarrow> length (fold (shell_insert stride) [0..<n] g) = length g \<and>
    mset (fold (shell_insert stride) [0..<n] g) = mset g"
proof (induction n)
  case (Suc n)
  then show ?case
    using shell_insert_perm [of n stride "fold (shell_insert stride) [0..<n] g"] by simp
qed simp

lemma shell_pass_perm: "length (shell_pass stride g) = length g \<and> mset (shell_pass stride g) = mset g"
  using shell_fold_perm [of "length g - stride" stride g]
  by (cases "stride \<le> length g") (simp_all add: shell_pass_def)

lemma shell_loop_perm: "mset (shell_loop stride g) = mset g"
proof (induction stride g rule: shell_loop.induct)
  case (1 stride g)
  then show ?case using shell_pass_perm [of stride g] by (subst shell_loop.simps) simp
qed

section \<open>The last pass sorts\<close>

text \<open>
  While a value is being inserted with stride 1, the first \<open>N\<close> elements are sorted apart from
  the position \<open>r\<close> the value will go to, and those behind it are not below the value.
\<close>

definition hole :: "u32 list \<Rightarrow> nat \<Rightarrow> nat \<Rightarrow> u32 \<Rightarrow> bool" where
  "hole g N r tmp \<longleftrightarrow> (\<forall>i j. i < j \<longrightarrow> j < N \<longrightarrow> i \<noteq> r \<longrightarrow> j \<noteq> r \<longrightarrow> g ! i \<le> g ! j) \<and>
     (\<forall>j. r < j \<longrightarrow> j < N \<longrightarrow> tmp \<le> g ! j)"

lemma hole_shift:
  assumes h: "hole g N (Suc l) tmp" and l: "Suc l < N" "N \<le> length g" and gt: "tmp < g ! l"
  shows "hole (g[Suc l := g ! l]) N l tmp"
proof -
  let ?g = "g[Suc l := g ! l]"
  have nth: "?g ! j = (if j = Suc l then g ! l else g ! j)" if "j < N" for j
    using that l by (simp add: nth_list_update)
  have "?g ! i \<le> ?g ! j" if "i < j" "j < N" "i \<noteq> l" "j \<noteq> l" for i j
  proof -
    have g: "g ! i \<le> g ! j" if "i < j" "j < N" "i \<noteq> Suc l" "j \<noteq> Suc l" for i j
      using h that by (simp add: hole_def)
    consider "j = Suc l" | "i = Suc l" | "i \<noteq> Suc l" "j \<noteq> Suc l" by blast
    then show ?thesis
    proof cases
      case 1
      then have "i < l" using that by simp
      with g [of i l] l 1 that show ?thesis by (simp add: nth)
    next
      case 2
      with g [of l j] l that show ?thesis by (simp add: nth)
    next
      case 3
      with g [of i j] that show ?thesis by (simp add: nth)
    qed
  qed
  moreover have "tmp \<le> ?g ! j" if "l < j" "j < N" for j
    using h gt that by (auto simp: nth hole_def)
  ultimately show ?thesis by (simp add: hole_def)
qed

lemma hole_fill:
  assumes h: "hole g N r tmp" and r: "r < N" "N \<le> length g" and le: "r = 0 \<or> g ! (r - 1) \<le> tmp"
  shows "sorted (take N (g[r := tmp]))"
proof -
  have "g[r := tmp] ! i \<le> g[r := tmp] ! j" if "i < j" "j < N" for i j
  proof -
    have g: "g ! i \<le> g ! j" if "i < j" "j < N" "i \<noteq> r" "j \<noteq> r" for i j
      using h that by (simp add: hole_def)
    consider "j = r" | "i = r" | "i \<noteq> r" "j \<noteq> r" by blast
    then show ?thesis
    proof cases
      case 1
      then have "g ! i \<le> g ! (r - 1)"
        using g [of i "r - 1"] that r by (cases "i = r - 1") auto
      with 1 le that r show ?thesis by auto
    next
      case 2
      then show ?thesis using h that r by (simp add: hole_def)
    next
      case 3
      then show ?thesis using g [of i j] that by simp
    qed
  qed
  then show ?thesis using r by (simp add: sorted_iff_nth_mono_less)
qed

lemma shift_right_hole:
  "shift_right g 1 tmp (int r - 1) r = (g', r') \<Longrightarrow> hole g N r tmp \<Longrightarrow> r < N \<Longrightarrow> N \<le> length g \<Longrightarrow>
    sorted (take N (g'[r' := tmp]))"
proof (induction r arbitrary: g)
  case 0
  then show ?case using hole_fill [of g N 0 tmp] by (simp add: shift_right.simps)
next
  case (Suc l)
  show ?case
  proof (cases "g ! l > tmp")
    case True
    have "shift_right (g[Suc l := g ! l]) 1 tmp (int l - 1) l = (g', r')"
      using Suc.prems(1) True by (subst (asm) shift_right.simps) simp
    with Suc.IH hole_shift [OF Suc.prems(2-4) True] Suc.prems(3,4) show ?thesis by simp
  next
    case False
    then have "g' = g" "r' = Suc l"
      using Suc.prems(1) by (subst (asm) shift_right.simps; simp)+
    then show ?thesis using hole_fill [OF Suc.prems(2-4)] False by simp
  qed
qed

lemma shell_insert_sorted:
  assumes "sorted (take (Suc base) g)" "Suc base < length g"
  shows "sorted (take (Suc (Suc base)) (shell_insert 1 base g))"
proof -
  let ?tmp = "g ! Suc base"
  obtain g' r where s: "shift_right g 1 ?tmp (int (Suc base) - 1) (Suc base) = (g', r)" by fastforce
  have "hole g (Suc (Suc base)) (Suc base) ?tmp"
    using assms by (auto simp: hole_def sorted_iff_nth_mono_less)
  from shift_right_hole [OF s this] assms(2) have "sorted (take (Suc (Suc base)) (g'[r := ?tmp]))" by simp
  then show ?thesis using s by (simp add: shell_insert_def)
qed

lemma shell_pass_sorted: "sorted (shell_pass 1 g)"
proof -
  have "n + 1 \<le> length g \<Longrightarrow> sorted (take (Suc n) (fold (shell_insert 1) [0..<n] g))" for n
  proof (induction n)
    case 0
    then show ?case by (cases g) auto
  next
    case (Suc n)
    let ?f = "fold (shell_insert 1) [0..<n] g"
    have "length ?f = length g" using shell_fold_perm [of n 1 g] Suc.prems by simp
    with Suc shell_insert_sorted [of n ?f] show ?case by simp
  qed
  from this [of "length g - 1"] show ?thesis
    by (cases "g = []") (simp_all add: shell_pass_def shell_fold_perm)
qed

text \<open>The strides: every number of the sequence 1, 4, 13, ... divides down to 1.\<close>

fun stride_seq :: "nat \<Rightarrow> nat" where
  "stride_seq 0 = 1"
| "stride_seq (Suc n) = 3 * stride_seq n + 1"

lemma stride_seq_div: "stride_seq (Suc n) div 3 = stride_seq n" by simp

lemma stride_seq_pos: "0 < stride_seq n" by (induction n) simp_all

lemma stride_up_seq: "\<exists>m \<ge> n. stride_up k (stride_seq n) = stride_seq m \<and> k \<le> stride_seq m"
proof (induction "k - stride_seq n" arbitrary: n rule: less_induct)
  case less
  show ?case
  proof (cases "stride_seq n < k")
    case True
    then have "k - stride_seq (Suc n) < k - stride_seq n" by simp
    from less [OF this] obtain m where "Suc n \<le> m" "stride_up k (stride_seq (Suc n)) = stride_seq m" "k \<le> stride_seq m"
      by blast
    moreover have "stride_up k (stride_seq n) = stride_up k (stride_seq (Suc n))"
      using True by (subst stride_up.simps) simp
    ultimately show ?thesis by (metis Suc_leD)
  next
    case False
    then show ?thesis by (intro exI [of _ n]) (subst stride_up.simps, simp)
  qed
qed

lemma shell_loop_sorted: "sorted (shell_loop (stride_seq n) g)"
proof (induction n arbitrary: g)
  case 0
  have "shell_loop 1 g = shell_loop (1 div 3) (shell_pass 1 g)" by (subst shell_loop.simps) simp
  also have "\<dots> = shell_pass 1 g" by (subst shell_loop.simps) simp
  finally show ?case using shell_pass_sorted by simp
next
  case (Suc n)
  have "shell_loop (stride_seq (Suc n)) g = shell_loop (stride_seq n) (shell_pass (stride_seq (Suc n)) g)"
    using stride_seq_pos [of "Suc n"] by (subst shell_loop.simps) (simp add: stride_seq_div del: stride_seq.simps)
  then show ?case using Suc by simp
qed

lemma groups_sort_sorted: "sorted (groups_sort g)"
proof -
  from stride_up_seq [of 0 "length g"] obtain m where m: "stride_up (length g) 1 = stride_seq m" "length g \<le> stride_seq m"
    by auto
  show ?thesis
  proof (cases m)
    case 0
    then have "length g \<le> 1" using m(2) by simp
    then have "sorted g" by (cases g) auto
    moreover have "groups_sort g = g" using m(1) 0 by (simp add: groups_sort_def shell_loop.simps)
    ultimately show ?thesis by simp
  next
    case (Suc n)
    then show ?thesis using m(1) shell_loop_sorted [of n g] stride_seq_div [of n]
      by (simp add: groups_sort_def del: stride_seq.simps)
  qed
qed

lemma groups_sort_perm: "mset (groups_sort g) = mset g"
  by (simp add: groups_sort_def shell_loop_perm)

lemma groups_sort_eq: "groups_sort g = sort g"
  using properties_for_sort [OF groups_sort_perm groups_sort_sorted, of g] by simp

lemma groups_sort_set: "set (groups_sort g) = set g"
  using groups_sort_perm by (rule mset_eq_setD)

section \<open>The search finds members\<close>

text \<open>What the callers of a search rely on, for ids whose comparison does not overflow.\<close>

definition near :: "u32 \<Rightarrow> u32 \<Rightarrow> bool" where
  "near x y \<longleftrightarrow> \<bar>uint x - uint y\<bar> < 2 ^ 31"

locale group_lookup =
  fixes lookup :: "u32 list \<Rightarrow> u32 \<Rightarrow> bool"
  assumes lookup_iff: "sorted g \<Longrightarrow> (\<forall>y \<in> set g. near x y) \<Longrightarrow> lookup g x \<longleftrightarrow> x \<in> set g"
begin

lemma lookup_sort: "(\<forall>y \<in> set g. near x y) \<Longrightarrow> lookup (groups_sort g) x \<longleftrightarrow> x \<in> set g"
  using lookup_iff [OF groups_sort_sorted, of g x] by (simp add: groups_sort_set)

lemma lookup_low:
  assumes "\<forall>y \<in> set g. y < 0x80000000" "x < 0x80000000"
  shows "lookup (groups_sort g) x \<longleftrightarrow> x \<in> set g"
proof (rule lookup_sort)
  have "uint y < 2 ^ 31 \<and> 0 \<le> uint y" if "y < 0x80000000" for y :: u32
    using that by (simp add: word_less_def)
  note bound = this
  have "near x y" if "y < 0x80000000" for y
  proof -
    have "uint x < 2 ^ 31 \<and> 0 \<le> uint x" "uint y < 2 ^ 31 \<and> 0 \<le> uint y"
      using bound assms(2) that by blast+
    then have "uint x - uint y < 2 ^ 31" "- (uint x - uint y) < 2 ^ 31" by linarith+
    then show ?thesis unfolding near_def by (rule abs_less_iff [THEN iffD2, OF conjI])
  qed
  with assms(1) have "near x y" if "y \<in> set g" for y using that by blast
  then show "\<forall>y \<in> set g. near x y" by blast
qed

end

lemma sint_diff:
  assumes "near x y"
  shows "sint (x - y) = uint x - uint y"
proof -
  have "x - y = word_of_int (uint x - uint y)" by simp
  then have "sint (x - y) = signed_take_bit 31 (uint x - uint y)" by (simp only: sint_sbintrunc') simp
  also have "\<dots> = uint x - uint y"
    using assms by (intro signed_take_bit_int_eq_self) (auto simp: near_def)
  finally show ?thesis .
qed

lemma bsearch_loop_iff:
  "sorted g \<Longrightarrow> \<forall>y \<in> set g. near x y \<Longrightarrow> right \<le> length g \<Longrightarrow>
    bsearch_loop g x left right \<longleftrightarrow> (\<exists>i. left \<le> i \<and> i < right \<and> g ! i = x)"
proof (induction g x left right rule: bsearch_loop.induct)
  case (1 g x left right)
  show ?case
  proof (cases "left < right")
    case True
    define mid where "mid = (left + right) div 2"
    have mid: "left \<le> mid" "mid < right" using True by (auto simp: mid_def)
    then have mem: "g ! mid \<in> set g" using "1.prems"(3) by simp
    then have cmp: "sint (x - g ! mid) = uint x - uint (g ! mid)"
      using "1.prems"(2) sint_diff by blast
    have mono: "uint (g ! i) \<le> uint (g ! j)" if "i \<le> j" "j < right" for i j
      using sorted_nth_mono [OF "1.prems"(1) that(1)] that(2) "1.prems"(3) by (simp add: word_le_def)
    have loop: "bsearch_loop g x left right =
        (if 0 < sint (x - g ! mid) then bsearch_loop g x (mid + 1) right
         else if sint (x - g ! mid) < 0 then bsearch_loop g x left mid else True)"
      using True by (subst bsearch_loop.simps) (simp add: mid_def Let_def)
    consider "uint (g ! mid) < uint x" | "uint x < uint (g ! mid)" | "g ! mid = x"
      by (metis linorder_neqE_linordered_idom word_uint_eq_iff)
    then show ?thesis
    proof cases
      case 1
      then have "0 < sint (x - g ! mid)" using cmp by simp
      then have "bsearch_loop g x left right \<longleftrightarrow> (\<exists>i. mid + 1 \<le> i \<and> i < right \<and> g ! i = x)"
        using loop "1.IH"(1) [OF True mid_def refl] "1.prems" by simp
      moreover have "mid + 1 \<le> i" if "i < right" "g ! i = x" for i
        using mono [of i mid] mid(2) 1 that by (cases "i \<le> mid") auto
      moreover have "left \<le> i" if "mid + 1 \<le> i" for i using mid(1) that by simp
      ultimately show ?thesis by blast
    next
      case 2
      then have c: "\<not> 0 < sint (x - g ! mid)" "sint (x - g ! mid) < 0" using cmp by simp_all
      then have "bsearch_loop g x left right \<longleftrightarrow> (\<exists>i. left \<le> i \<and> i < mid \<and> g ! i = x)"
        using loop "1.IH"(2) [OF True mid_def refl c] "1.prems" mid(2) by simp
      moreover have "i < mid" if "i < right" "g ! i = x" for i
        using mono [of mid i] 2 that by (cases "mid \<le> i") auto
      moreover have "i < right" if "i < mid" for i using mid(2) that by simp
      ultimately show ?thesis by blast
    next
      case 3
      then have "bsearch_loop g x left right" using loop cmp by simp
      with 3 mid show ?thesis by blast
    qed
  next
    case False
    then show ?thesis by (subst bsearch_loop.simps) auto
  qed
qed

interpretation groups: group_lookup "\<lambda>g. groups_search (Some g)"
proof
  fix g :: "u32 list" and x
  assume "sorted g" "\<forall>y \<in> set g. near x y"
  then show "groups_search (Some g) x \<longleftrightarrow> x \<in> set g"
    using bsearch_loop_iff [of g x "length g" 0] by (auto simp: groups_search_def in_set_conv_nth)
qed

lemma in_group_p_iff:
  assumes "group_info s = groups_sort g" "\<forall>y \<in> set g. near x y"
  shows "in_group_p s x \<longleftrightarrow> x = t_fsgid (g_cred s) \<or> x \<in> set g"
  using assms groups.lookup_sort [OF assms(2)] by (simp add: in_group_p_def)

section \<open>Properties\<close>

text \<open>
  C32: \<open>groups_sort\<close> returns its ids in increasing order, each as often as before: the Shell
  sort is equivalent to \<open>sort\<close>, for every number of groups.
\<close>

theorem groups_sort_correct: "groups_sort g = sort g"
  by (rule groups_sort_eq)

text \<open>
  C30: After a successful \<open>setgroups\<close>, \<open>in_group_p\<close> holds exactly for the file system group
  and the ids the call was given, whatever their order, as long as the ids compared differ
  by less than \<open>2 ^ 31\<close>; the other outcomes are \<open>EPERM\<close>, \<open>EINVAL\<close>, \<open>ENOMEM\<close> and \<open>EFAULT\<close>
  in this order and change nothing.
\<close>

theorem setgroups_membership:
  assumes "\<forall>y \<in> set (take (unat n) ids). near x y"
  shows "if CAP_SETGID \<notin> caps_of (cap_effective (g_cred s)) then setgroups alloc n (Some ids) s = (Inl (Err EPERM), s)
    else if 65536 < unat n then setgroups alloc n (Some ids) s = (Inl (Err EINVAL), s)
    else if \<not> alloc then setgroups alloc n (Some ids) s = (Inl (Err ENOMEM), s)
    else setgroups alloc n None s = (Inl (Err EFAULT), s) \<and>
      (\<exists>s'. setgroups alloc n (Some ids) s = (Inr (), s') \<and> g_cred s' = g_cred s \<and>
        (in_group_p s' x \<longleftrightarrow> x = t_fsgid (g_cred s) \<or> x \<in> set (take (unat n) ids)))"
proof -
  let ?s = "s\<lparr>group_info := groups_sort (take (unat n) ids)\<rparr>"
  have "in_group_p ?s x \<longleftrightarrow> x = t_fsgid (g_cred s) \<or> x \<in> set (take (unat n) ids)"
    using in_group_p_iff [of ?s "take (unat n) ids" x] assms by simp
  then show ?thesis
    by (auto simp: setgroups_def capable_iff NGROUPS_MAX_def set_current_groups_def)
qed

text \<open>
  The comparison in \<open>groups_search\<close> is the sign of a 32-bit difference. Two groups whose
  ids differ by more than \<open>2 ^ 31\<close> are sorted as unsigned numbers, but the search for the
  lower one goes to the wrong side: the task is not found to be in its own group.
\<close>

theorem groups_search_overflow:
  assumes "uint b - uint a > 2 ^ 31"
  shows "\<not> groups_search (Some (groups_sort [b, a])) a \<and> a \<in> set [b, a]"
proof -
  have "a < b" using assms by (simp add: word_less_def)
  then have "\<not> b \<le> a" by simp
  then have g: "groups_sort [b, a] = [a, b]" by (simp add: groups_sort_eq)
  have "a - b = word_of_int (uint a - uint b)" by simp
  also have "\<dots> = word_of_int (uint a - uint b + 2 ^ 32)"
    unfolding word_of_int_eq_iff by (simp only: take_bit_eq_mod) simp
  finally have "sint (a - b) = sint (word_of_int (uint a - uint b + 2 ^ 32) :: u32)" by (rule arg_cong)
  also have "\<dots> = uint a - uint b + 2 ^ 32"
  proof -
    have "uint b < 4294967296" using uint_lt2p [of b] by simp
    then have "- (2 ^ 31) \<le> uint a - uint b + 2 ^ 32" by simp (use uint_ge_0 [of a] in linarith)
    moreover have "uint a - uint b + 2 ^ 32 < 2 ^ 31" using assms by simp
    ultimately show ?thesis by (simp only: sint_sbintrunc') (simp add: signed_take_bit_int_eq_self)
  qed
  finally have s: "sint (a - b) = uint a - uint b + 2 ^ 32" .
  have "uint b < 4294967296" using uint_lt2p [of b] by simp
  then have "0 < sint (a - b)" unfolding s by simp (use uint_ge_0 [of a] in linarith)
  then have "\<not> bsearch_loop [a, b] a 0 2" by (simp add: bsearch_loop.simps)
  then show ?thesis by (simp add: g groups_search_def numeral_2_eq_2)
qed

definition groups_example :: groups_state where
  "groups_example = \<lparr>g_cred = example_cred\<lparr>cap_effective := (0x40, 0)\<rparr>, group_info = []\<rparr>"

theorem setgroups_membership_witness:
  "\<exists>s'. setgroups True 3 (Some [30, 10, 20]) groups_example = (Inr (), s') \<and> in_group_p s' 20"
proof -
  have "\<forall>y \<in> set (take (unat (3 :: u32)) [30, 10, 20]). near 20 y" by (simp add: near_def)
  moreover have "CAP_SETGID \<in> caps_of (cap_effective (g_cred groups_example))"
    by (simp add: groups_example_def caps_of_def cap_word_def bit_numeral_rec)
  ultimately show ?thesis
    using setgroups_membership [of 3 "[30, 10, 20]" 20 groups_example True] by auto
qed

theorem groups_search_overflow_witness:
  "\<not> groups_search (Some (groups_sort [0x90000000, 1])) 1 \<and> (1 :: u32) \<in> set [0x90000000, 1]"
  using groups_search_overflow [where a = 1 and b = "0x90000000"] by simp

end
