(* ===== verification/PosixAcl.thy ===== *)
theory PosixAcl imports GroupInfo begin

text \<open>
  POSIX access control lists (\<open>fs/posix_acl.c\<close>) and \<open>generic_permission\<close>
  (\<open>fs/namei.c\<close>), which asks the list, the mode bits, the groups of the task and its
  capabilities. A list is the array \<open>a_entries\<close>; its reference count and its allocation
  are left out.
\<close>

section \<open>Entries\<close>

text \<open>\<open>ACL_UNKNOWN\<close> is every other value of the \<open>short\<close> \<open>e_tag\<close>.\<close>

datatype acl_tag =
  ACL_USER_OBJ | ACL_USER | ACL_GROUP_OBJ | ACL_GROUP | ACL_MASK | ACL_OTHER | ACL_UNKNOWN

record posix_acl_entry =
  e_tag :: acl_tag
  e_perm :: u16
  e_id :: u32

type_synonym posix_acl = "posix_acl_entry list"

definition ACL_UNDEFINED_ID :: u32 where "ACL_UNDEFINED_ID = - 1"

abbreviation (input) S_IRWXU :: "'a::len word" where "S_IRWXU \<equiv> 0x1c0"
abbreviation (input) S_IRWXG :: "'a::len word" where "S_IRWXG \<equiv> 0x38"
abbreviation (input) S_IRWXO :: "'a::len word" where "S_IRWXO \<equiv> 7"
abbreviation (input) S_IRWXUGO :: "'a::len word" where "S_IRWXUGO \<equiv> 0x1ff"

section \<open>Validity\<close>

text \<open>The variables of the loop; \<open>None\<close> is the state 0.\<close>

record valid_state =
  v_state :: "acl_tag option"
  v_id :: u32
  v_needs_mask :: bool

text \<open>One iteration; \<open>None\<close> is the return of \<open>-EINVAL\<close>.\<close>

definition valid_step :: "posix_acl_entry \<Rightarrow> valid_state \<Rightarrow> valid_state option" where
  "valid_step pa v =
     (if e_perm pa AND NOT 7 \<noteq> 0 then None
      else case e_tag pa of
        ACL_USER_OBJ \<Rightarrow>
          if v_state v = Some ACL_USER_OBJ then Some (v\<lparr>v_id := 0, v_state := Some ACL_USER\<rparr>) else None
      | ACL_USER \<Rightarrow>
          if v_state v \<noteq> Some ACL_USER then None
          else if e_id pa = ACL_UNDEFINED_ID \<or> e_id pa < v_id v then None
          else Some (v\<lparr>v_id := e_id pa + 1, v_needs_mask := True\<rparr>)
      | ACL_GROUP_OBJ \<Rightarrow>
          if v_state v = Some ACL_USER then Some (v\<lparr>v_id := 0, v_state := Some ACL_GROUP\<rparr>) else None
      | ACL_GROUP \<Rightarrow>
          if v_state v \<noteq> Some ACL_GROUP then None
          else if e_id pa = ACL_UNDEFINED_ID \<or> e_id pa < v_id v then None
          else Some (v\<lparr>v_id := e_id pa + 1, v_needs_mask := True\<rparr>)
      | ACL_MASK \<Rightarrow>
          if v_state v \<noteq> Some ACL_GROUP then None else Some (v\<lparr>v_state := Some ACL_OTHER\<rparr>)
      | ACL_OTHER \<Rightarrow>
          if v_state v = Some ACL_OTHER \<or> v_state v = Some ACL_GROUP \<and> \<not> v_needs_mask v
          then Some (v\<lparr>v_state := None\<rparr>) else None
      | ACL_UNKNOWN \<Rightarrow> None)"

fun valid_loop :: "posix_acl \<Rightarrow> valid_state \<Rightarrow> valid_state option" where
  "valid_loop [] v = Some v"
| "valid_loop (pa # pas) v = do { v \<leftarrow> valid_step pa v; valid_loop pas v }"

definition posix_acl_valid :: "posix_acl \<Rightarrow> unit result" where
  "posix_acl_valid acl =
     (case valid_loop acl \<lparr>v_state = Some ACL_USER_OBJ, v_id = 0, v_needs_mask = False\<rparr> of
        None \<Rightarrow> Inl (Err EINVAL)
      | Some v \<Rightarrow> if v_state v = None then Inr () else Inl (Err EINVAL))"

section \<open>Modes\<close>

text \<open>\<open>posix_acl_equiv_mode\<close>: the mode bits of the list and whether it says more than they do.\<close>

fun equiv_loop :: "posix_acl \<Rightarrow> u16 \<Rightarrow> bool \<Rightarrow> (u16 \<times> bool) option" where
  "equiv_loop [] mode not_equiv = Some (mode, not_equiv)"
| "equiv_loop (pa # pas) mode not_equiv =
     (case e_tag pa of
        ACL_USER_OBJ \<Rightarrow> equiv_loop pas (mode OR push_bit 6 (e_perm pa AND S_IRWXO)) not_equiv
      | ACL_GROUP_OBJ \<Rightarrow> equiv_loop pas (mode OR push_bit 3 (e_perm pa AND S_IRWXO)) not_equiv
      | ACL_OTHER \<Rightarrow> equiv_loop pas (mode OR (e_perm pa AND S_IRWXO)) not_equiv
      | ACL_MASK \<Rightarrow>
          equiv_loop pas ((mode AND NOT S_IRWXG) OR push_bit 3 (e_perm pa AND S_IRWXO)) True
      | ACL_USER \<Rightarrow> equiv_loop pas mode True
      | ACL_GROUP \<Rightarrow> equiv_loop pas mode True
      | ACL_UNKNOWN \<Rightarrow> None)"

definition posix_acl_equiv_mode :: "posix_acl \<Rightarrow> u16 \<Rightarrow> bool result \<times> u16" where
  "posix_acl_equiv_mode acl mode_p =
     (case equiv_loop acl 0 False of
        None \<Rightarrow> (Inl (Err EINVAL), mode_p)
      | Some (mode, not_equiv) \<Rightarrow> (Inr not_equiv, (mode_p AND NOT S_IRWXUGO) OR mode))"

definition posix_acl_from_mode :: "u16 \<Rightarrow> posix_acl" where
  "posix_acl_from_mode mode =
     [\<lparr>e_tag = ACL_USER_OBJ, e_perm = drop_bit 6 (mode AND S_IRWXU), e_id = ACL_UNDEFINED_ID\<rparr>,
      \<lparr>e_tag = ACL_GROUP_OBJ, e_perm = drop_bit 3 (mode AND S_IRWXG), e_id = ACL_UNDEFINED_ID\<rparr>,
      \<lparr>e_tag = ACL_OTHER, e_perm = mode AND S_IRWXO, e_id = ACL_UNDEFINED_ID\<rparr>]"

text \<open>
  The loops of \<open>posix_acl_create_masq\<close> and \<open>posix_acl_chmod_masq\<close> remember the positions of
  the last group entry and the last mask entry. A step that is \<open>None\<close> makes the loop return
  \<open>-EIO\<close> (\<open>False\<close>) with the entries changed so far.
\<close>

record masq_state =
  m_mode :: u16
  m_group_obj :: "nat option"
  m_mask_obj :: "nat option"
  m_not_equiv :: bool

definition create_step :: "nat \<Rightarrow> posix_acl \<times> masq_state \<Rightarrow> (posix_acl \<times> masq_state) option" where
  "create_step i am = (case am of (acl, m) \<Rightarrow>
     let pa = acl ! i in
     case e_tag pa of
       ACL_USER_OBJ \<Rightarrow>
         let p = e_perm pa AND (drop_bit 6 (m_mode m) OR NOT S_IRWXO) in
         Some (acl[i := pa\<lparr>e_perm := p\<rparr>], m\<lparr>m_mode := m_mode m AND (push_bit 6 p OR NOT S_IRWXU)\<rparr>)
     | ACL_USER \<Rightarrow> Some (acl, m\<lparr>m_not_equiv := True\<rparr>)
     | ACL_GROUP \<Rightarrow> Some (acl, m\<lparr>m_not_equiv := True\<rparr>)
     | ACL_GROUP_OBJ \<Rightarrow> Some (acl, m\<lparr>m_group_obj := Some i\<rparr>)
     | ACL_OTHER \<Rightarrow>
         let p = e_perm pa AND (m_mode m OR NOT S_IRWXO) in
         Some (acl[i := pa\<lparr>e_perm := p\<rparr>], m\<lparr>m_mode := m_mode m AND (p OR NOT S_IRWXO)\<rparr>)
     | ACL_MASK \<Rightarrow> Some (acl, m\<lparr>m_mask_obj := Some i, m_not_equiv := True\<rparr>)
     | ACL_UNKNOWN \<Rightarrow> None)"

fun masq_loop ::
  "(nat \<Rightarrow> posix_acl \<times> masq_state \<Rightarrow> (posix_acl \<times> masq_state) option) \<Rightarrow> nat list \<Rightarrow>
    posix_acl \<times> masq_state \<Rightarrow> bool \<times> posix_acl \<times> masq_state" where
  "masq_loop f [] am = (True, am)"
| "masq_loop f (i # is) am = (case f i am of None \<Rightarrow> (False, am) | Some am \<Rightarrow> masq_loop f is am)"

text \<open>The entry that takes the group bits of the mode: the mask, or else the group entry.\<close>

definition group_class :: "masq_state \<Rightarrow> nat option" where
  "group_class m = (case m_mask_obj m of Some i \<Rightarrow> Some i | None \<Rightarrow> m_group_obj m)"

definition posix_acl_create_masq :: "posix_acl \<Rightarrow> u16 \<Rightarrow> bool result \<times> posix_acl \<times> u16" where
  "posix_acl_create_masq acl mode_p =
     (case masq_loop create_step [0..<length acl]
         (acl, \<lparr>m_mode = mode_p, m_group_obj = None, m_mask_obj = None, m_not_equiv = False\<rparr>) of
        (False, acl, m) \<Rightarrow> (Inl (Err EIO), acl, mode_p)
      | (True, acl, m) \<Rightarrow>
          (case group_class m of
             None \<Rightarrow> (Inl (Err EIO), acl, mode_p)
           | Some i \<Rightarrow>
               let p = e_perm (acl ! i) AND (drop_bit 3 (m_mode m) OR NOT S_IRWXO);
                   mode = m_mode m AND (push_bit 3 p OR NOT S_IRWXG) in
               (Inr (m_not_equiv m), acl[i := (acl ! i)\<lparr>e_perm := p\<rparr>], (mode_p AND NOT S_IRWXUGO) OR mode)))"

definition chmod_step :: "nat \<Rightarrow> posix_acl \<times> masq_state \<Rightarrow> (posix_acl \<times> masq_state) option" where
  "chmod_step i am = (case am of (acl, m) \<Rightarrow>
     let pa = acl ! i in
     case e_tag pa of
       ACL_USER_OBJ \<Rightarrow> Some (acl[i := pa\<lparr>e_perm := drop_bit 6 (m_mode m AND S_IRWXU)\<rparr>], m)
     | ACL_USER \<Rightarrow> Some (acl, m)
     | ACL_GROUP \<Rightarrow> Some (acl, m)
     | ACL_GROUP_OBJ \<Rightarrow> Some (acl, m\<lparr>m_group_obj := Some i\<rparr>)
     | ACL_MASK \<Rightarrow> Some (acl, m\<lparr>m_mask_obj := Some i\<rparr>)
     | ACL_OTHER \<Rightarrow> Some (acl[i := pa\<lparr>e_perm := m_mode m AND S_IRWXO\<rparr>], m)
     | ACL_UNKNOWN \<Rightarrow> None)"

definition posix_acl_chmod_masq :: "posix_acl \<Rightarrow> u16 \<Rightarrow> unit result \<times> posix_acl" where
  "posix_acl_chmod_masq acl mode =
     (case masq_loop chmod_step [0..<length acl]
         (acl, \<lparr>m_mode = mode, m_group_obj = None, m_mask_obj = None, m_not_equiv = False\<rparr>) of
        (False, acl, m) \<Rightarrow> (Inl (Err EIO), acl)
      | (True, acl, m) \<Rightarrow>
          (case group_class m of
             None \<Rightarrow> (Inl (Err EIO), acl)
           | Some i \<Rightarrow> (Inr (), acl[i := (acl ! i)\<lparr>e_perm := drop_bit 3 (mode AND S_IRWXG)\<rparr>])))"

section \<open>Permission\<close>

record inode =
  i_uid :: u32
  i_gid :: u32
  i_mode :: u16
  is_posixacl :: bool

text \<open>\<open>(perm & want) == want\<close> on the promoted values.\<close>

definition perm_ok :: "u16 \<Rightarrow> u32 \<Rightarrow> bool" where
  "perm_ok perm want \<longleftrightarrow> ucast perm AND want = want"

definition check_perm :: "u16 \<Rightarrow> u32 \<Rightarrow> unit result" where
  "check_perm perm want = (if perm_ok perm want then Inr () else Inl (Err EACCES))"

text \<open>The label \<open>mask\<close>: the entries behind \<open>pa\<close> are searched for a mask.\<close>

fun mask_perm :: "posix_acl_entry \<Rightarrow> posix_acl \<Rightarrow> u32 \<Rightarrow> unit result" where
  "mask_perm pa [] want = check_perm (e_perm pa) want"
| "mask_perm pa (mask_obj # pas) want =
     (if e_tag mask_obj = ACL_MASK then check_perm (e_perm pa AND e_perm mask_obj) want
      else mask_perm pa pas want)"

fun acl_perm_loop :: "groups_state \<Rightarrow> inode \<Rightarrow> posix_acl \<Rightarrow> u32 \<Rightarrow> bool \<Rightarrow> unit result" where
  "acl_perm_loop tsk ino [] want found = Inl (Err EIO)"
| "acl_perm_loop tsk ino (pa # pas) want found =
     (case e_tag pa of
        ACL_USER_OBJ \<Rightarrow>
          if i_uid ino = t_fsuid (g_cred tsk) then check_perm (e_perm pa) want
          else acl_perm_loop tsk ino pas want found
      | ACL_USER \<Rightarrow>
          if e_id pa = t_fsuid (g_cred tsk) then mask_perm pa pas want
          else acl_perm_loop tsk ino pas want found
      | ACL_GROUP_OBJ \<Rightarrow>
          if in_group_p tsk (i_gid ino)
          then if perm_ok (e_perm pa) want then mask_perm pa pas want
               else acl_perm_loop tsk ino pas want True
          else acl_perm_loop tsk ino pas want found
      | ACL_GROUP \<Rightarrow>
          if in_group_p tsk (e_id pa)
          then if perm_ok (e_perm pa) want then mask_perm pa pas want
               else acl_perm_loop tsk ino pas want True
          else acl_perm_loop tsk ino pas want found
      | ACL_MASK \<Rightarrow> acl_perm_loop tsk ino pas want found
      | ACL_OTHER \<Rightarrow> if found then Inl (Err EACCES) else check_perm (e_perm pa) want
      | ACL_UNKNOWN \<Rightarrow> Inl (Err EIO))"

definition posix_acl_permission :: "groups_state \<Rightarrow> inode \<Rightarrow> posix_acl \<Rightarrow> u32 \<Rightarrow> unit result" where
  "posix_acl_permission tsk ino acl want = acl_perm_loop tsk ino acl want False"

text \<open>The callback of the file systems, for what they find on the disk for the inode.\<close>

definition check_acl :: "groups_state \<Rightarrow> posix_acl option result \<Rightarrow> inode \<Rightarrow> u32 \<Rightarrow> unit result" where
  "check_acl tsk found ino want =
     (case found of
        Inl e \<Rightarrow> Inl e
      | Inr None \<Rightarrow> Inl (Err EAGAIN)
      | Inr (Some acl) \<Rightarrow> posix_acl_permission tsk ino acl want)"

abbreviation (input) MAY_EXEC :: u32 where "MAY_EXEC \<equiv> 1"
abbreviation (input) MAY_WRITE :: u32 where "MAY_WRITE \<equiv> 2"
abbreviation (input) MAY_READ :: u32 where "MAY_READ \<equiv> 4"

definition S_ISDIR :: "u16 \<Rightarrow> bool" where "S_ISDIR m \<longleftrightarrow> m AND 0xf000 = 0x4000"

definition execute_ok :: "inode \<Rightarrow> bool" where
  "execute_ok ino \<longleftrightarrow> i_mode ino AND 0x49 \<noteq> 0 \<or> S_ISDIR (i_mode ino)"

text \<open>The label \<open>check_capabilities\<close>.\<close>

definition check_capabilities :: "groups_state \<Rightarrow> inode \<Rightarrow> u32 \<Rightarrow> unit result" where
  "check_capabilities tsk ino want =
     (if (want AND MAY_EXEC = 0 \<or> execute_ok ino) \<and> capable (g_cred tsk) CAP_DAC_OVERRIDE then Inr ()
      else if (want = MAY_READ \<or> S_ISDIR (i_mode ino) \<and> want AND MAY_WRITE = 0) \<and>
        capable (g_cred tsk) CAP_DAC_READ_SEARCH then Inr ()
      else Inl (Err EACCES))"

definition mode_check :: "groups_state \<Rightarrow> inode \<Rightarrow> u32 \<Rightarrow> u16 \<Rightarrow> unit result" where
  "mode_check tsk ino want mode =
     (if want AND NOT (ucast mode) = 0 then Inr () else check_capabilities tsk ino want)"

text \<open>\<open>chk\<close> is the optional callback.\<close>

definition generic_permission ::
  "groups_state \<Rightarrow> inode \<Rightarrow> u32 \<Rightarrow> (inode \<Rightarrow> u32 \<Rightarrow> unit result) option \<Rightarrow> unit result" where
  "generic_permission tsk ino want0 chk =
     (let mode = i_mode ino; want = want0 AND 7 in
      if t_fsuid (g_cred tsk) = i_uid ino then mode_check tsk ino want (drop_bit 6 mode)
      else
        let by_mode = mode_check tsk ino want (if in_group_p tsk (i_gid ino) then drop_bit 3 mode else mode) in
        case chk of
          None \<Rightarrow> by_mode
        | Some chk \<Rightarrow>
            if is_posixacl ino \<and> mode AND S_IRWXG \<noteq> 0
            then let error = chk ino want in
                 if error = Inl (Err EACCES) then check_capabilities tsk ino want
                 else if error \<noteq> Inl (Err EAGAIN) then error
                 else by_mode
            else by_mode)"

section \<open>The form of a valid list\<close>

lemma valid_loop_None: "valid_loop acl v = Some v' \<Longrightarrow> v_state v = None \<Longrightarrow> acl = []"
  by (cases acl) (auto simp: valid_step_def split: if_splits acl_tag.splits option.splits bind_splits)

definition entry_ok :: "posix_acl_entry \<Rightarrow> bool" where
  "entry_ok e \<longleftrightarrow> e_perm e AND NOT 7 = 0"

definition other_form :: "posix_acl \<Rightarrow> bool" where
  "other_form acl \<longleftrightarrow> (\<exists>ot. acl = [ot] \<and> e_tag ot = ACL_OTHER)"

definition group_form :: "posix_acl \<Rightarrow> bool \<Rightarrow> bool" where
  "group_form acl needs \<longleftrightarrow> (\<exists>gs m ot. acl = gs @ m @ [ot] \<and> (\<forall>g \<in> set gs. e_tag g = ACL_GROUP) \<and>
     (m = [] \<and> \<not> needs \<and> gs = [] \<or> (\<exists>mo. m = [mo] \<and> e_tag mo = ACL_MASK)) \<and> e_tag ot = ACL_OTHER)"

lemma valid_other:
  assumes "valid_loop acl v = Some v'" "v_state v = Some ACL_OTHER" "v_state v' = None"
  shows "other_form acl"
proof (cases acl)
  case Nil
  then show ?thesis using assms by simp
next
  case (Cons pa pas)
  with assms obtain w where w: "valid_step pa v = Some w" "valid_loop pas w = Some v'"
    by (auto split: bind_splits)
  then have "e_tag pa = ACL_OTHER \<and> v_state w = None"
    using assms(2) by (auto simp: valid_step_def split: if_splits acl_tag.splits)
  with w(2) Cons valid_loop_None show ?thesis by (auto simp: other_form_def)
qed

lemma valid_group:
  "valid_loop acl v = Some v' \<Longrightarrow> v_state v = Some ACL_GROUP \<Longrightarrow> v_state v' = None \<Longrightarrow>
    group_form acl (v_needs_mask v)"
proof (induction acl arbitrary: v)
  case (Cons pa pas)
  then obtain w where w: "valid_step pa v = Some w" "valid_loop pas w = Some v'"
    by (auto split: bind_splits)
  from w(1) Cons.prems(2) consider
      (g) "e_tag pa = ACL_GROUP" "v_state w = Some ACL_GROUP" "v_needs_mask w"
    | (m) "e_tag pa = ACL_MASK" "v_state w = Some ACL_OTHER"
    | (o) "e_tag pa = ACL_OTHER" "v_state w = None" "\<not> v_needs_mask v"
    by (auto simp: valid_step_def split: if_splits acl_tag.splits)
  then show ?case
  proof cases
    case g
    from Cons.IH [OF w(2) g(2) Cons.prems(3)] g(3) obtain gs mo ot where
      "pas = gs @ [mo] @ [ot]" "\<forall>g \<in> set gs. e_tag g = ACL_GROUP" "e_tag mo = ACL_MASK" "e_tag ot = ACL_OTHER"
      by (auto simp: group_form_def)
    then show ?thesis using g(1) unfolding group_form_def
      by (intro exI [of _ "pa # gs"] exI [of _ "[mo]"] exI [of _ ot]) simp
  next
    case m
    from valid_other [OF w(2) m(2) Cons.prems(3)] obtain ot where "pas = [ot]" "e_tag ot = ACL_OTHER"
      by (auto simp: other_form_def)
    then show ?thesis using m(1) unfolding group_form_def
      by (intro exI [of _ "[]"] exI [of _ "[pa]"] exI [of _ ot]) simp
  next
    case o
    from valid_loop_None [OF w(2) o(2)] o show ?thesis by (auto simp: group_form_def)
  qed
qed simp

definition user_form :: "posix_acl \<Rightarrow> bool \<Rightarrow> bool" where
  "user_form acl needs \<longleftrightarrow> (\<exists>us go rest. acl = us @ go # rest \<and> (\<forall>u \<in> set us. e_tag u = ACL_USER) \<and>
     e_tag go = ACL_GROUP_OBJ \<and> group_form rest (needs \<or> us \<noteq> []))"

lemma valid_user:
  "valid_loop acl v = Some v' \<Longrightarrow> v_state v = Some ACL_USER \<Longrightarrow> v_state v' = None \<Longrightarrow>
    user_form acl (v_needs_mask v)"
proof (induction acl arbitrary: v)
  case (Cons pa pas)
  then obtain w where w: "valid_step pa v = Some w" "valid_loop pas w = Some v'"
    by (auto split: bind_splits)
  from w(1) Cons.prems(2) consider
      (u) "e_tag pa = ACL_USER" "v_state w = Some ACL_USER" "v_needs_mask w"
    | (g) "e_tag pa = ACL_GROUP_OBJ" "v_state w = Some ACL_GROUP" "v_needs_mask w = v_needs_mask v"
    by (auto simp: valid_step_def split: if_splits acl_tag.splits)
  then show ?case
  proof cases
    case u
    from Cons.IH [OF w(2) u(2) Cons.prems(3)] u(3) obtain us go rest where
      "pas = us @ go # rest" "\<forall>u \<in> set us. e_tag u = ACL_USER" "e_tag go = ACL_GROUP_OBJ" "group_form rest True"
      by (auto simp: user_form_def)
    then show ?thesis using u(1) unfolding user_form_def
      by (intro exI [of _ "pa # us"] exI [of _ go] exI [of _ rest]) simp
  next
    case g
    from valid_group [OF w(2) g(2) Cons.prems(3)] g show ?thesis unfolding user_form_def
      by (intro exI [of _ "[]"] exI [of _ pa] exI [of _ pas]) simp
  qed
qed simp

text \<open>The owner, users, the group, groups, a mask (if there are users or groups) and the others.\<close>

lemma valid_form:
  assumes "posix_acl_valid acl = Inr ()"
  obtains uo us go gs m ot where "acl = uo # us @ go # gs @ m @ [ot]"
    "e_tag uo = ACL_USER_OBJ" "\<forall>u \<in> set us. e_tag u = ACL_USER" "e_tag go = ACL_GROUP_OBJ"
    "\<forall>g \<in> set gs. e_tag g = ACL_GROUP" "e_tag ot = ACL_OTHER"
    "m = [] \<and> us = [] \<and> gs = [] \<or> (\<exists>mo. m = [mo] \<and> e_tag mo = ACL_MASK)"
proof -
  obtain v' where v: "valid_loop acl \<lparr>v_state = Some ACL_USER_OBJ, v_id = 0, v_needs_mask = False\<rparr> = Some v'"
    "v_state v' = None"
    using assms by (auto simp: posix_acl_valid_def split: option.splits if_splits)
  then obtain uo rest w where w: "acl = uo # rest"
    "valid_step uo \<lparr>v_state = Some ACL_USER_OBJ, v_id = 0, v_needs_mask = False\<rparr> = Some w" "valid_loop rest w = Some v'"
    by (cases acl) (auto split: bind_splits)
  from w(2) have u: "e_tag uo = ACL_USER_OBJ" "v_state w = Some ACL_USER" "\<not> v_needs_mask w"
    by (auto simp: valid_step_def split: if_splits acl_tag.splits)
  from valid_user [OF w(3) u(2) v(2)] u(3) obtain us go gm where
    r: "rest = us @ go # gm" "\<forall>u \<in> set us. e_tag u = ACL_USER" "e_tag go = ACL_GROUP_OBJ" "group_form gm (us \<noteq> [])"
    by (auto simp: user_form_def)
  from r(4) obtain gs m ot where "gm = gs @ m @ [ot]" "\<forall>g \<in> set gs. e_tag g = ACL_GROUP"
    "m = [] \<and> us = [] \<and> gs = [] \<or> (\<exists>mo. m = [mo] \<and> e_tag mo = ACL_MASK)" "e_tag ot = ACL_OTHER"
    by (auto simp: group_form_def)
  with w(1) u(1) r that show thesis by simp
qed

text \<open>The identifiers of the named users of a valid list are strictly ascending.\<close>

lemma after_id: "v \<noteq> - 1 \<Longrightarrow> v + 1 \<le> w \<Longrightarrow> v < w" for v w :: u32
  using unatSuc [of v] by (simp add: word_le_nat_alt word_less_nat_alt add.commute eq_neg_iff_add_eq_0)

lemma valid_users_distinct:
  "valid_loop (us @ rest) v = Some v' \<Longrightarrow> \<forall>u \<in> set us. e_tag u = ACL_USER \<Longrightarrow>
    distinct (map e_id us) \<and> (\<forall>u \<in> set us. v_id v \<le> e_id u)"
proof (induction us arbitrary: v)
  case (Cons u us)
  then obtain w where w: "valid_step u v = Some w" "valid_loop (us @ rest) w = Some v'"
    by (auto split: bind_splits)
  from w(1) Cons.prems(2) have u: "v_id v \<le> e_id u" "e_id u \<noteq> - 1" "v_id w = e_id u + 1"
    by (auto simp: valid_step_def ACL_UNDEFINED_ID_def split: if_splits)
  from Cons.IH [OF w(2)] Cons.prems(2) u(2,3) have "distinct (map e_id us)" "\<forall>x \<in> set us. e_id u < e_id x"
    by (auto intro: after_id)
  with u(1) show ?case by fastforce
qed simp

section \<open>The POSIX.1e algorithm\<close>

definition acl_mask :: "posix_acl \<Rightarrow> u16" where
  "acl_mask acl = (case filter (\<lambda>e. e_tag e = ACL_MASK) acl of [] \<Rightarrow> - 1 | e # es \<Rightarrow> e_perm e)"

definition named_user :: "groups_state \<Rightarrow> posix_acl_entry \<Rightarrow> bool" where
  "named_user tsk e \<longleftrightarrow> e_tag e = ACL_USER \<and> e_id e = t_fsuid (g_cred tsk)"

definition group_entry :: "groups_state \<Rightarrow> inode \<Rightarrow> posix_acl_entry \<Rightarrow> bool" where
  "group_entry tsk ino e \<longleftrightarrow> e_tag e = ACL_GROUP_OBJ \<and> in_group_p tsk (i_gid ino) \<or>
     e_tag e = ACL_GROUP \<and> in_group_p tsk (e_id e)"

definition acl_grants :: "groups_state \<Rightarrow> inode \<Rightarrow> posix_acl \<Rightarrow> u32 \<Rightarrow> bool" where
  "acl_grants tsk ino acl want \<longleftrightarrow>
     (if i_uid ino = t_fsuid (g_cred tsk)
      then \<exists>e \<in> set acl. e_tag e = ACL_USER_OBJ \<and> perm_ok (e_perm e) want
      else if \<exists>e \<in> set acl. named_user tsk e
      then \<exists>e \<in> set acl. named_user tsk e \<and> perm_ok (e_perm e AND acl_mask acl) want
      else if \<exists>e \<in> set acl. group_entry tsk ino e
      then \<exists>e \<in> set acl. group_entry tsk ino e \<and> perm_ok (e_perm e AND acl_mask acl) want
      else \<exists>e \<in> set acl. e_tag e = ACL_OTHER \<and> perm_ok (e_perm e) want)"

lemma perm_ok_and: "perm_ok (p AND q) want \<longleftrightarrow> perm_ok p want \<and> perm_ok q want"
  unfolding perm_ok_def by (auto simp: bit_eq_iff bit_simps)

lemma acl_mask_skip: "\<forall>e \<in> set xs. e_tag e \<noteq> ACL_MASK \<Longrightarrow> acl_mask (xs @ ys) = acl_mask ys"
  by (simp add: acl_mask_def)

lemma mask_perm_acl_mask: "mask_perm pa pas want = check_perm (e_perm pa AND acl_mask pas) want"
  by (induction pas) (auto simp: acl_mask_def)

lemma perm_users:
  "\<forall>u \<in> set us. e_tag u = ACL_USER \<Longrightarrow> distinct (map e_id us) \<Longrightarrow>
    acl_perm_loop tsk ino (us @ rest) want f =
      (if \<exists>u \<in> set us. named_user tsk u
       then if \<exists>u \<in> set us. named_user tsk u \<and> perm_ok (e_perm u AND acl_mask rest) want
         then Inr () else Inl (Err EACCES)
       else acl_perm_loop tsk ino rest want f)"
proof (induction us)
  case (Cons u us)
  have skip: "acl_mask (us @ rest) = acl_mask rest" using Cons.prems by (auto intro: acl_mask_skip)
  show ?case
  proof (cases "e_id u = t_fsuid (g_cred tsk)")
    case True
    with Cons.prems have "named_user tsk u" "\<forall>x \<in> set us. \<not> named_user tsk x"
      by (auto simp: named_user_def image_iff)
    with True Cons.prems show ?thesis by (auto simp: mask_perm_acl_mask skip check_perm_def)
  next
    case False
    then have "\<not> named_user tsk u" by (simp add: named_user_def)
    with False Cons show ?thesis by simp
  qed
qed simp

lemma perm_groups:
  "\<forall>g \<in> set gs. e_tag g = ACL_GROUP_OBJ \<or> e_tag g = ACL_GROUP \<Longrightarrow>
    acl_perm_loop tsk ino (gs @ rest) want f =
      (if \<exists>g \<in> set gs. group_entry tsk ino g \<and> perm_ok (e_perm g) want
       then if perm_ok (acl_mask rest) want then Inr () else Inl (Err EACCES)
       else acl_perm_loop tsk ino rest want (f \<or> (\<exists>g \<in> set gs. group_entry tsk ino g)))"
proof (induction gs arbitrary: f)
  case (Cons g gs)
  have skip: "acl_mask (gs @ rest) = acl_mask rest" using Cons.prems by (intro acl_mask_skip) auto
  have IH: "acl_perm_loop tsk ino (gs @ rest) want f' =
      (if \<exists>g \<in> set gs. group_entry tsk ino g \<and> perm_ok (e_perm g) want
       then if perm_ok (acl_mask rest) want then Inr () else Inl (Err EACCES)
       else acl_perm_loop tsk ino rest want (f' \<or> (\<exists>g \<in> set gs. group_entry tsk ino g)))" for f'
    using Cons by simp
  have step: "acl_perm_loop tsk ino ((g # gs) @ rest) want f =
      (if group_entry tsk ino g
       then if perm_ok (e_perm g) want then check_perm (e_perm g AND acl_mask rest) want
            else acl_perm_loop tsk ino (gs @ rest) want True
       else acl_perm_loop tsk ino (gs @ rest) want f)"
    using Cons.prems by (auto simp: group_entry_def mask_perm_acl_mask skip)
  show ?case unfolding step
    by (cases "group_entry tsk ino g"; cases "perm_ok (e_perm g) want")
      (auto simp: IH check_perm_def perm_ok_and)
qed simp

lemma perm_loop_other:
  "e_tag ot = ACL_OTHER \<Longrightarrow> m = [] \<or> (\<exists>mo. m = [mo] \<and> e_tag mo = ACL_MASK) \<Longrightarrow>
    acl_perm_loop tsk ino (m @ [ot]) want f =
      (if \<not> f \<and> perm_ok (e_perm ot) want then Inr () else Inl (Err EACCES))"
  by (auto simp: check_perm_def)

lemma permission_decides:
  assumes "posix_acl_valid acl = Inr ()"
  shows "posix_acl_permission tsk ino acl want =
    (if acl_grants tsk ino acl want then Inr () else Inl (Err EACCES))"
proof -
  obtain uo us go gs m ot where acl: "acl = uo # us @ go # gs @ m @ [ot]"
    and tags: "e_tag uo = ACL_USER_OBJ" "\<forall>u \<in> set us. e_tag u = ACL_USER" "e_tag go = ACL_GROUP_OBJ"
      "\<forall>g \<in> set gs. e_tag g = ACL_GROUP" "e_tag ot = ACL_OTHER"
    and m: "m = [] \<or> (\<exists>mo. m = [mo] \<and> e_tag mo = ACL_MASK)"
    using valid_form [OF assms] by metis
  have dist: "distinct (map e_id us)"
    using assms tags(2) valid_users_distinct [of us "go # gs @ m @ [ot]"] unfolding acl
    by (auto simp: posix_acl_valid_def split: option.splits if_splits bind_splits)
  have mask_eq: "acl_mask acl = acl_mask (m @ [ot])"
    using acl_mask_skip [of "uo # us @ go # gs" "m @ [ot]"] tags unfolding acl by force
  have none: "e_tag e \<noteq> ACL_USER_OBJ" "\<not> named_user tsk e" "\<not> group_entry tsk ino e" if "e \<in> set (m @ [ot])" for e
    using that m tags(5) by (auto simp: named_user_def group_entry_def)
  have "(\<exists>e \<in> set acl. e_tag e = ACL_USER_OBJ \<and> Q e) \<longleftrightarrow> Q uo" for Q
    using tags none(1) unfolding acl by auto
  note owner = this
  have "(\<exists>e \<in> set acl. named_user tsk e \<and> Q e) \<longleftrightarrow> (\<exists>u \<in> set us. named_user tsk u \<and> Q u)" for Q
    using tags none(2) unfolding acl by (auto simp: named_user_def)
  note user = this
  have "(\<exists>e \<in> set acl. group_entry tsk ino e \<and> Q e) \<longleftrightarrow>
      (\<exists>g \<in> set (go # gs). group_entry tsk ino g \<and> Q g)" for Q
    using tags none(3) unfolding acl by (auto simp: group_entry_def)
  note grp = this
  have "(\<exists>e \<in> set acl. e_tag e = ACL_OTHER \<and> Q e) \<longleftrightarrow> Q ot" for Q
    using tags m unfolding acl by auto
  note other = this
  have 1: "posix_acl_permission tsk ino acl want =
      (if i_uid ino = t_fsuid (g_cred tsk) then check_perm (e_perm uo) want
       else acl_perm_loop tsk ino (us @ (go # gs) @ m @ [ot]) want False)"
    using tags(1) unfolding acl posix_acl_permission_def by simp
  have 2: "acl_mask ((go # gs) @ m @ [ot]) = acl_mask acl"
    using acl_mask_skip [of "go # gs" "m @ [ot]"] tags mask_eq by force
  have 3: "acl_perm_loop tsk ino ((go # gs) @ m @ [ot]) want False =
      (if \<exists>g \<in> set (go # gs). group_entry tsk ino g \<and> perm_ok (e_perm g) want
       then if perm_ok (acl_mask acl) want then Inr () else Inl (Err EACCES)
       else acl_perm_loop tsk ino (m @ [ot]) want (False \<or> (\<exists>g \<in> set (go # gs). group_entry tsk ino g)))"
    using perm_groups [of "go # gs"] tags(3,4) unfolding mask_eq by simp
  note users = perm_users [OF tags(2) dist, of tsk ino "(go # gs) @ m @ [ot]" want False, unfolded 2]
  note named = user [of "\<lambda>_. True", unfolded simp_thms] and matching = grp [of "\<lambda>_. True", unfolded simp_thms]
  consider (uo) "i_uid ino = t_fsuid (g_cred tsk)"
    | (us) "i_uid ino \<noteq> t_fsuid (g_cred tsk)" "\<exists>u \<in> set us. named_user tsk u"
    | (gs) "i_uid ino \<noteq> t_fsuid (g_cred tsk)" "\<not> (\<exists>u \<in> set us. named_user tsk u)"
        "\<exists>g \<in> set (go # gs). group_entry tsk ino g"
    | (ot) "i_uid ino \<noteq> t_fsuid (g_cred tsk)" "\<not> (\<exists>u \<in> set us. named_user tsk u)"
        "\<not> (\<exists>g \<in> set (go # gs). group_entry tsk ino g)"
    by blast
  then show ?thesis
  proof cases
    case uo
    then show ?thesis by (simp only: 1 acl_grants_def owner if_True check_perm_def simp_thms)
  next
    case us
    then have "posix_acl_permission tsk ino acl want =
        (if \<exists>u \<in> set us. named_user tsk u \<and> perm_ok (e_perm u AND acl_mask acl) want
         then Inr () else Inl (Err EACCES))"
      by (simp only: 1 users if_True if_False)
    with us show ?thesis by (simp only: acl_grants_def named user if_True if_False)
  next
    case gs
    then have "posix_acl_permission tsk ino acl want =
        (if (\<exists>g \<in> set (go # gs). group_entry tsk ino g \<and> perm_ok (e_perm g) want) \<and>
           perm_ok (acl_mask acl) want then Inr () else Inl (Err EACCES))"
      by (simp only: 1 users 3 perm_loop_other [OF tags(5) m] if_True if_False split: if_split) blast
    moreover have "acl_grants tsk ino acl want \<longleftrightarrow>
        (\<exists>g \<in> set (go # gs). group_entry tsk ino g \<and> perm_ok (e_perm g AND acl_mask acl) want)"
      using gs by (simp only: acl_grants_def named matching grp if_True if_False)
    ultimately show ?thesis unfolding perm_ok_and by (simp only: split: if_split) blast
  next
    case ot
    then have "\<not> (\<exists>g \<in> set (go # gs). group_entry tsk ino g \<and> perm_ok (e_perm g) want)" by blast
    with ot show ?thesis
      by (simp only: 1 users 3 perm_loop_other [OF tags(5) m] acl_grants_def named matching other
          if_True if_False simp_thms)
  qed
qed

text \<open>
  C4: For a list that \<open>posix_acl_valid\<close> accepts, \<open>posix_acl_permission\<close> decides by the
  POSIX.1e algorithm: the owner by its entry, a named user by the one entry of that user
  under the mask, a member of some group of the list by whether one of the matching entries
  gives all of what is wanted under the mask, and everybody else by the last entry. It never
  returns \<open>-EIO\<close>.
\<close>

theorem posix_acl_permission_spec:
  assumes "posix_acl_valid acl = Inr ()"
  shows "posix_acl_permission tsk ino acl want =
    (if acl_grants tsk ino acl want then Inr () else Inl (Err EACCES))"
  using assms by (rule permission_decides)

section \<open>The mode of a list\<close>

lemma bit_low_mask: "bit (x AND mask k :: u16) n \<longleftrightarrow> n < k \<and> bit x n"
  by (auto simp: bit_and_iff bit_mask_iff dest: bit_imp_le_length)

lemma masks: "(7 :: u16) = mask 3" "(0x1ff :: u16) = mask 9" "(0x38 :: u16) = push_bit 3 (mask 3)"
  by (simp_all add: mask_eq_exp_minus_1)

lemma bit_low3: "bit (x AND 7 :: u16) n \<longleftrightarrow> n < 3 \<and> bit x n"
  unfolding masks by (rule bit_low_mask)

lemma bit_not_ugo: "bit (x AND NOT 0x1ff :: u16) n \<longleftrightarrow> 9 \<le> n \<and> bit x n"
  unfolding masks by (auto simp: bit_and_iff bit_not_iff bit_mask_iff dest: bit_imp_le_length)

lemma bit_not_g: "bit (x AND NOT 0x38 :: u16) n \<longleftrightarrow> \<not> (3 \<le> n \<and> n < 6) \<and> bit x n"
  unfolding masks by (auto simp: bit_and_iff bit_not_iff bit_push_bit_iff bit_mask_iff dest: bit_imp_le_length)

text \<open>The entry whose bits are the group bits of the mode.\<close>

definition class_entry :: "posix_acl_entry list \<Rightarrow> posix_acl_entry \<Rightarrow> posix_acl_entry" where
  "class_entry m go = (case m of [] \<Rightarrow> go | mo # _ \<Rightarrow> mo)"

lemma equiv_loop_named:
  "\<forall>e \<in> set es. e_tag e = ACL_USER \<or> e_tag e = ACL_GROUP \<Longrightarrow>
    equiv_loop (es @ rest) mode ne = equiv_loop rest mode (ne \<or> es \<noteq> [])"
  by (induction es arbitrary: ne) auto

lemma class_bits:
  fixes u g c :: u16
  shows "(push_bit 6 (u AND 7) OR push_bit 3 (g AND 7)) AND - 57 OR push_bit 3 (c AND 7) =
    push_bit 6 (u AND 7) OR push_bit 3 (c AND 7)"
  by (rule bit_word_eqI) (auto simp: bit_not_g [simplified] bit_low3 bit_or_iff bit_push_bit_iff simp del: push_bit_and)

lemma equiv_loop_form:
  assumes "e_tag uo = ACL_USER_OBJ" "\<forall>u \<in> set us. e_tag u = ACL_USER" "e_tag go = ACL_GROUP_OBJ"
    "\<forall>g \<in> set gs. e_tag g = ACL_GROUP" "e_tag ot = ACL_OTHER" "m = [] \<or> (\<exists>mo. m = [mo] \<and> e_tag mo = ACL_MASK)"
  shows "equiv_loop (uo # us @ go # gs @ m @ [ot]) 0 False =
    Some ((push_bit 6 (e_perm uo AND 7) OR push_bit 3 (e_perm (class_entry m go) AND 7)) OR (e_perm ot AND 7),
      us \<noteq> [] \<or> gs \<noteq> [] \<or> m \<noteq> [])"
  using assms by (auto simp: equiv_loop_named class_entry_def class_bits simp del: push_bit_and)

lemma perm_ok_mode:
  assumes "\<And>n. n < 3 \<Longrightarrow> bit p n = bit q n"
  shows "(want AND 7) AND NOT (ucast p) = 0 \<longleftrightarrow> perm_ok q (want AND 7)"
proof -
  have 7: "(7 :: u32) = mask 3" by (simp add: mask_eq_exp_minus_1)
  show ?thesis unfolding 7 perm_ok_def using assms by (auto simp: bit_eq_iff bit_simps)
qed

lemma mode_of_form:
  assumes sync: "posix_acl_equiv_mode acl mode = (Inr ne, mode)" and acl: "acl = uo # us @ go # gs @ m @ [ot]"
    and tags: "e_tag uo = ACL_USER_OBJ" "\<forall>u \<in> set us. e_tag u = ACL_USER" "e_tag go = ACL_GROUP_OBJ"
      "\<forall>g \<in> set gs. e_tag g = ACL_GROUP" "e_tag ot = ACL_OTHER"
      "m = [] \<or> (\<exists>mo. m = [mo] \<and> e_tag mo = ACL_MASK)" and n: "n < 3"
  shows "bit (drop_bit 6 mode) n = bit (e_perm uo) n"
    and "bit (drop_bit 3 mode) n = bit (e_perm (class_entry m go)) n"
    and "bit mode n = bit (e_perm ot) n"
proof -
  have mode: "mode = (mode AND NOT 0x1ff) OR ((push_bit 6 (e_perm uo AND 7) OR
      push_bit 3 (e_perm (class_entry m go) AND 7)) OR (e_perm ot AND 7))"
    using sync equiv_loop_form [OF tags] unfolding posix_acl_equiv_mode_def acl by simp
  note simps = bit_drop_bit_eq bit_or_iff bit_not_ugo [simplified] bit_push_bit_iff bit_low3
  show "bit (drop_bit 6 mode) n = bit (e_perm uo) n"
    using n by (subst mode) (simp add: simps del: push_bit_and drop_bit_and)
  show "bit (drop_bit 3 mode) n = bit (e_perm (class_entry m go)) n"
    using n by (subst mode) (simp add: simps del: push_bit_and drop_bit_and)
  show "bit mode n = bit (e_perm ot) n"
    using n by (subst mode) (simp add: simps del: push_bit_and drop_bit_and)
qed

text \<open>The entry for the group class (the mask where there is one) and the entry for others.\<close>

definition class_grants :: "posix_acl \<Rightarrow> u32 \<Rightarrow> bool" where
  "class_grants acl want \<longleftrightarrow>
     (\<exists>e \<in> set acl. e_tag e = (if \<exists>m \<in> set acl. e_tag m = ACL_MASK then ACL_MASK else ACL_GROUP_OBJ) \<and>
        perm_ok (e_perm e) want)"

definition other_grants :: "posix_acl \<Rightarrow> u32 \<Rightarrow> bool" where
  "other_grants acl want \<longleftrightarrow> (\<exists>e \<in> set acl. e_tag e = ACL_OTHER \<and> perm_ok (e_perm e) want)"

text \<open>
  C20: For a file with a valid access list whose mode bits are those of the list,
  \<open>generic_permission\<close> with the callback of the file system answers as the list does when
  the task owns the file, or when the file system keeps lists and the mode gives the group
  class something. Else the list is not looked at: a member of the group of the file gets what
  the group class has, every other task what the entry for others has, named entries being
  passed over. What is refused in this way is given to a task with the capabilities that
  override it, and to nobody else.
\<close>

theorem generic_permission_acl:
  assumes "posix_acl_valid acl = Inr ()"
    and sync: "posix_acl_equiv_mode acl (i_mode ino) = (Inr ne, i_mode ino)"
  shows "generic_permission tsk ino want (Some (check_acl tsk (Inr (Some acl)))) =
    (if if t_fsuid (g_cred tsk) = i_uid ino \<or> is_posixacl ino \<and> i_mode ino AND S_IRWXG \<noteq> 0
        then acl_grants tsk ino acl (want AND 7)
        else if in_group_p tsk (i_gid ino) then class_grants acl (want AND 7) else other_grants acl (want AND 7)
     then Inr () else check_capabilities tsk ino (want AND 7))"
proof -
  obtain uo us go gs m ot where acl: "acl = uo # us @ go # gs @ m @ [ot]"
    and tags: "e_tag uo = ACL_USER_OBJ" "\<forall>u \<in> set us. e_tag u = ACL_USER" "e_tag go = ACL_GROUP_OBJ"
      "\<forall>g \<in> set gs. e_tag g = ACL_GROUP" "e_tag ot = ACL_OTHER"
      "m = [] \<or> (\<exists>mo. m = [mo] \<and> e_tag mo = ACL_MASK)"
    using valid_form [OF assms(1)] by metis
  note bits = mode_of_form [OF sync acl tags]
  consider (owner) "t_fsuid (g_cred tsk) = i_uid ino"
    | (acl) "t_fsuid (g_cred tsk) \<noteq> i_uid ino" "is_posixacl ino" "i_mode ino AND S_IRWXG \<noteq> 0"
    | (mode) "t_fsuid (g_cred tsk) \<noteq> i_uid ino" "\<not> (is_posixacl ino \<and> i_mode ino AND S_IRWXG \<noteq> 0)"
    by blast
  then show ?thesis
  proof cases
    case owner
    have "acl_grants tsk ino acl w \<longleftrightarrow> perm_ok (e_perm uo) w" for w
      using owner tags unfolding acl by (auto simp: acl_grants_def)
    with owner perm_ok_mode [OF bits(1)] show ?thesis by (simp add: generic_permission_def mode_check_def)
  next
    case acl
    then show ?thesis
      by (simp add: generic_permission_def check_acl_def permission_decides [OF assms(1)] Let_def)
  next
    case mode
    have "class_grants acl w \<longleftrightarrow> perm_ok (e_perm (class_entry m go)) w" for w
      using tags unfolding acl by (auto simp: class_grants_def class_entry_def)
    moreover have "other_grants acl w \<longleftrightarrow> perm_ok (e_perm ot) w" for w
      using tags unfolding acl by (auto simp: other_grants_def)
    moreover have "generic_permission tsk ino want (Some (check_acl tsk (Inr (Some acl)))) =
        mode_check tsk ino (want AND 7) (if in_group_p tsk (i_gid ino) then drop_bit 3 (i_mode ino) else i_mode ino)"
      using mode by (simp only: generic_permission_def Let_def option.case if_False)
    moreover note perm_ok_mode [OF bits(2)] perm_ok_mode [OF bits(3)]
    ultimately show ?thesis
      using mode by (cases "in_group_p tsk (i_gid ino)") (auto simp: mode_check_def)
  qed
qed

section \<open>Changing the mode\<close>

lemma masq_loop_snoc:
  "masq_loop f (is @ [i]) am = (case masq_loop f is am of
     (True, am') \<Rightarrow> (case f i am' of None \<Rightarrow> (False, am') | Some am'' \<Rightarrow> (True, am''))
   | (False, am') \<Rightarrow> (False, am'))"
  by (induction "is" arbitrary: am) (auto split: option.splits)

text \<open>What the loop does to an entry, and the whole of \<open>chmod\<close> for the class entry \<open>cls\<close>.\<close>

definition chmod_entry :: "u16 \<Rightarrow> posix_acl_entry \<Rightarrow> posix_acl_entry" where
  "chmod_entry mode e =
     (if e_tag e = ACL_USER_OBJ then e\<lparr>e_perm := drop_bit 6 (mode AND S_IRWXU)\<rparr>
      else if e_tag e = ACL_OTHER then e\<lparr>e_perm := mode AND S_IRWXO\<rparr> else e)"

definition chmod_class :: "acl_tag \<Rightarrow> u16 \<Rightarrow> posix_acl_entry \<Rightarrow> posix_acl_entry" where
  "chmod_class cls mode e =
     (if e_tag e = cls then e\<lparr>e_perm := drop_bit 3 (mode AND S_IRWXG)\<rparr> else chmod_entry mode e)"

text \<open>The position of the last entry with the tag below \<open>n\<close>.\<close>

definition seen :: "acl_tag \<Rightarrow> posix_acl \<Rightarrow> nat \<Rightarrow> nat option \<Rightarrow> bool" where
  "seen tag acl n r \<longleftrightarrow> (case r of
     Some i \<Rightarrow> i < n \<and> e_tag (acl ! i) = tag | None \<Rightarrow> \<forall>i < n. e_tag (acl ! i) \<noteq> tag)"

lemma seen_Suc:
  "seen tag acl n r \<Longrightarrow> e_tag (acl ! n) \<noteq> tag \<Longrightarrow> seen tag acl (Suc n) r"
  "e_tag (acl ! n) = tag \<Longrightarrow> seen tag acl (Suc n) (Some n)"
  by (auto simp: seen_def less_Suc_eq split: option.splits)

lemma chmod_loop:
  assumes "\<forall>e \<in> set acl. e_tag e \<noteq> ACL_UNKNOWN"
  shows "n \<le> length acl \<Longrightarrow> \<exists>m. masq_loop chmod_step [0..<n]
      (acl, \<lparr>m_mode = mode, m_group_obj = None, m_mask_obj = None, m_not_equiv = False\<rparr>) =
      (True, map (chmod_entry mode) (take n acl) @ drop n acl, m) \<and> m_mode m = mode \<and>
    seen ACL_GROUP_OBJ acl n (m_group_obj m) \<and> seen ACL_MASK acl n (m_mask_obj m)"
proof (induction n)
  case 0
  then show ?case by (simp add: seen_def)
next
  case (Suc n)
  then have n: "n < length acl" by simp
  from Suc obtain m where m: "masq_loop chmod_step [0..<n]
      (acl, \<lparr>m_mode = mode, m_group_obj = None, m_mask_obj = None, m_not_equiv = False\<rparr>) =
      (True, map (chmod_entry mode) (take n acl) @ drop n acl, m)" "m_mode m = mode"
    "seen ACL_GROUP_OBJ acl n (m_group_obj m)" "seen ACL_MASK acl n (m_mask_obj m)" by auto
  let ?acl = "map (chmod_entry mode) (take n acl) @ drop n acl"
  have at: "?acl ! n = acl ! n" using n by (simp add: nth_append)
  have upd: "?acl[n := e] = map (chmod_entry mode) (take n acl) @ e # drop (Suc n) acl" for e
    using n by (simp add: list_update_append Cons_nth_drop_Suc [symmetric])
  have take: "map (chmod_entry mode) (take (Suc n) acl) @ drop (Suc n) acl =
      ?acl[n := chmod_entry mode (acl ! n)]"
    using n unfolding upd by (simp add: take_Suc_conv_app_nth)
  have self: "?acl[n := acl ! n] = ?acl" using at list_update_id [of ?acl n] by simp
  have "e_tag (acl ! n) \<noteq> ACL_UNKNOWN" using assms n by simp
  then obtain m' where "chmod_step n (?acl, m) = Some (?acl[n := chmod_entry mode (acl ! n)], m')"
    "m_mode m' = mode" "seen ACL_GROUP_OBJ acl (Suc n) (m_group_obj m')"
    "seen ACL_MASK acl (Suc n) (m_mask_obj m')"
    using m(2-4) unfolding chmod_step_def at
    by (cases "e_tag (acl ! n)") (simp_all add: at self chmod_entry_def seen_Suc)
  with m(1) show ?case unfolding take by (simp add: masq_loop_snoc)
qed

lemma unique_tag:
  assumes "acl = xs @ e # ys" "\<forall>x \<in> set xs \<union> set ys. e_tag x \<noteq> tag"
    and "i < length acl" "e_tag (acl ! i) = tag"
  shows "i = length xs"
proof (rule ccontr)
  assume "i \<noteq> length xs"
  with assms(1,3) have "acl ! i \<in> set xs \<union> set ys"
    by (auto simp: nth_append nth_Cons split: nat.split)
  with assms(2,4) show False by blast
qed

lemma chmod_update:
  fixes mode :: u16
  assumes acl: "acl = xs @ e # ys" "\<forall>x \<in> set xs \<union> set ys. e_tag x \<noteq> cls"
    and i: "i < length acl" "e_tag (acl ! i) = cls" and "cls \<in> {ACL_GROUP_OBJ, ACL_MASK}"
  defines "new \<equiv> map (chmod_entry mode) acl"
  shows "new[i := (new ! i)\<lparr>e_perm := drop_bit 3 (mode AND S_IRWXG)\<rparr>] = map (chmod_class cls mode) acl"
proof (rule nth_equalityI)
  fix j assume "j < length (new[i := (new ! i)\<lparr>e_perm := drop_bit 3 (mode AND S_IRWXG)\<rparr>])"
  then have j: "j < length acl" by (simp add: new_def)
  have "e_tag (acl ! j) = cls \<longleftrightarrow> j = i"
    using unique_tag [OF acl i] unique_tag [OF acl j] i(2) by auto
  then show "new[i := (new ! i)\<lparr>e_perm := drop_bit 3 (mode AND S_IRWXG)\<rparr>] ! j = map (chmod_class cls mode) acl ! j"
    using assms(5) i j by (auto simp: new_def chmod_class_def chmod_entry_def)
qed (simp add: new_def)

lemma chmod_masq_form:
  assumes "posix_acl_valid acl = Inr ()"
  shows "posix_acl_chmod_masq acl mode = (Inr (),
    map (chmod_class (if \<exists>e \<in> set acl. e_tag e = ACL_MASK then ACL_MASK else ACL_GROUP_OBJ) mode) acl)"
proof -
  obtain uo us go gs m ot where acl: "acl = uo # us @ go # gs @ m @ [ot]"
    and tags: "e_tag uo = ACL_USER_OBJ" "\<forall>u \<in> set us. e_tag u = ACL_USER" "e_tag go = ACL_GROUP_OBJ"
      "\<forall>g \<in> set gs. e_tag g = ACL_GROUP" "e_tag ot = ACL_OTHER"
      "m = [] \<or> (\<exists>mo. m = [mo] \<and> e_tag mo = ACL_MASK)"
    using valid_form [OF assms] by metis
  have "\<forall>e \<in> set acl. e_tag e \<noteq> ACL_UNKNOWN" using tags unfolding acl by auto
  from chmod_loop [OF this, of "length acl"] obtain s where s: "masq_loop chmod_step [0..<length acl]
      (acl, \<lparr>m_mode = mode, m_group_obj = None, m_mask_obj = None, m_not_equiv = False\<rparr>) =
      (True, map (chmod_entry mode) acl, s)" "m_mode s = mode"
    "seen ACL_GROUP_OBJ acl (length acl) (m_group_obj s)" "seen ACL_MASK acl (length acl) (m_mask_obj s)"
    by auto
  show ?thesis
  proof (cases "m_mask_obj s")
    case (Some i)
    with s(4) have i: "i < length acl" "e_tag (acl ! i) = ACL_MASK" by (auto simp: seen_def)
    then have mask: "\<exists>e \<in> set acl. e_tag e = ACL_MASK" using nth_mem by blast
    with tags obtain mo where "m = [mo]" unfolding acl by auto
    then have "acl = (uo # us @ go # gs) @ mo # [ot]" unfolding acl by simp
    from chmod_update [OF this _ i] tags
    have "(map (chmod_entry mode) acl)[i := (map (chmod_entry mode) acl ! i)\<lparr>e_perm := drop_bit 3 (mode AND S_IRWXG)\<rparr>] =
        map (chmod_class ACL_MASK mode) acl" by fastforce
    with mask s Some show ?thesis by (simp add: posix_acl_chmod_masq_def group_class_def)
  next
    case None
    with s(4) have mask: "\<not> (\<exists>e \<in> set acl. e_tag e = ACL_MASK)"
      by (auto simp: seen_def in_set_conv_nth)
    have "go \<in> set acl" unfolding acl by simp
    with s(3) tags(3) obtain i where i: "m_group_obj s = Some i" "i < length acl" "e_tag (acl ! i) = ACL_GROUP_OBJ"
      by (auto simp: seen_def in_set_conv_nth split: option.splits)
    have "acl = (uo # us) @ go # (gs @ m @ [ot])" unfolding acl by simp
    from chmod_update [OF this _ i(2,3)] tags
    have "(map (chmod_entry mode) acl)[i := (map (chmod_entry mode) acl ! i)\<lparr>e_perm := drop_bit 3 (mode AND S_IRWXG)\<rparr>] =
        map (chmod_class ACL_GROUP_OBJ mode) acl" by fastforce
    with mask s i None show ?thesis by (simp add: posix_acl_chmod_masq_def group_class_def)
  qed
qed

lemma valid_map:
  "valid_loop acl v = Some v' \<Longrightarrow>
    (\<And>e. e_perm e AND NOT 7 = 0 \<Longrightarrow> e_tag (f e) = e_tag e \<and> e_id (f e) = e_id e \<and> e_perm (f e) AND NOT 7 = 0) \<Longrightarrow>
    valid_loop (map f acl) v = Some v'"
proof (induction acl arbitrary: v)
  case (Cons e acl)
  then obtain w where w: "valid_step e v = Some w" "valid_loop acl w = Some v'"
    by (auto split: bind_splits)
  from w(1) have ok: "e_perm e AND NOT 7 = 0" by (auto simp: valid_step_def split: if_splits)
  have "valid_step (f e) v = valid_step e v"
    unfolding valid_step_def using Cons.prems(2) [OF ok] ok by (simp only:)
  with w Cons.IH [OF w(2) Cons.prems(2)] show ?case by simp
qed simp

lemma posix_acl_valid_map:
  assumes "posix_acl_valid acl = Inr ()"
    and f: "\<And>e. e_perm e AND NOT 7 = 0 \<Longrightarrow>
      e_tag (f e) = e_tag e \<and> e_id (f e) = e_id e \<and> e_perm (f e) AND NOT 7 = 0"
  shows "posix_acl_valid (map f acl) = Inr ()"
proof -
  obtain v where v: "valid_loop acl \<lparr>v_state = Some ACL_USER_OBJ, v_id = 0, v_needs_mask = False\<rparr> = Some v"
    "v_state v = None"
    using assms(1) by (auto simp: posix_acl_valid_def split: option.splits if_splits)
  have "valid_loop (map f acl) \<lparr>v_state = Some ACL_USER_OBJ, v_id = 0, v_needs_mask = False\<rparr> = Some v"
    by (rule valid_map [OF v(1) f])
  with v(2) show ?thesis by (simp add: posix_acl_valid_def)
qed

lemma mode_fields:
  fixes mode :: u16
  shows "drop_bit 6 (mode AND 0x1c0) AND NOT 7 = 0" "drop_bit 3 (mode AND 0x38) AND NOT 7 = 0"
    "(mode AND 7) AND NOT 7 = 0"
    "(push_bit 6 (drop_bit 6 (mode AND 0x1c0) AND 7) OR push_bit 3 (drop_bit 3 (mode AND 0x38) AND 7)) OR
      ((mode AND 7) AND 7) = mode AND 0x1ff"
proof -
  have u: "bit (mode AND 0x1c0) n \<longleftrightarrow> 6 \<le> n \<and> n < 9 \<and> bit mode n" for n
  proof -
    have 1: "(0x1c0 :: u16) = push_bit 6 (mask 3)" by (simp add: mask_eq_exp_minus_1)
    show ?thesis unfolding 1 by (auto simp: bit_and_iff bit_push_bit_iff bit_mask_iff dest: bit_imp_le_length)
  qed
  have g: "bit (mode AND 0x38) n \<longleftrightarrow> 3 \<le> n \<and> n < 6 \<and> bit mode n" for n
    unfolding masks by (auto simp: bit_and_iff bit_push_bit_iff bit_mask_iff dest: bit_imp_le_length)
  have a: "bit (mode AND 0x1ff) n \<longleftrightarrow> n < 9 \<and> bit mode n" for n
    unfolding masks by (rule bit_low_mask)
  have low: "x AND NOT 7 = 0" if "\<And>n. bit x n \<Longrightarrow> n < 3" for x :: u16
    unfolding masks using that
    by (auto simp: bit_eq_iff bit_and_iff bit_not_iff bit_mask_iff dest: bit_imp_le_length)
  show "drop_bit 6 (mode AND 0x1c0) AND NOT 7 = 0"
    by (rule low) (simp add: bit_drop_bit_eq u del: drop_bit_and)
  show "drop_bit 3 (mode AND 0x38) AND NOT 7 = 0"
    by (rule low) (simp add: bit_drop_bit_eq g del: drop_bit_and)
  show "(mode AND 7) AND NOT 7 = 0" by (rule low) (simp add: bit_low3)
  show "(push_bit 6 (drop_bit 6 (mode AND 0x1c0) AND 7) OR push_bit 3 (drop_bit 3 (mode AND 0x38) AND 7)) OR
      ((mode AND 7) AND 7) = mode AND 0x1ff"
  proof (rule bit_word_eqI)
    fix n :: nat
    consider "n < 3" | "3 \<le> n" "n < 6" | "6 \<le> n" by linarith
    then show "bit ((push_bit 6 (drop_bit 6 (mode AND 0x1c0) AND 7) OR push_bit 3 (drop_bit 3 (mode AND 0x38) AND 7)) OR
        ((mode AND 7) AND 7)) n \<longleftrightarrow> bit (mode AND 0x1ff) n"
      by cases (auto simp: bit_or_iff bit_push_bit_iff bit_low3 bit_drop_bit_eq u g a
        simp del: drop_bit_and push_bit_and dest: bit_imp_le_length)
  qed
qed

lemma chmod_class_fields:
  assumes "e_perm e AND NOT 7 = 0"
  shows "e_tag (chmod_class cls mode e) = e_tag e \<and> e_id (chmod_class cls mode e) = e_id e \<and>
    e_perm (chmod_class cls mode e) AND NOT 7 = 0"
  using assms mode_fields(1-3) unfolding chmod_class_def chmod_entry_def by simp

lemma chmod_class_tag: "e_tag (chmod_class cls mode e) = e_tag e" "e_id (chmod_class cls mode e) = e_id e"
  by (simp_all add: chmod_class_def chmod_entry_def)

lemma chmod_class_named:
  "cls \<in> {ACL_MASK, ACL_GROUP_OBJ} \<Longrightarrow> e_tag e = ACL_USER \<or> e_tag e = ACL_GROUP \<Longrightarrow> chmod_class cls mode e = e"
  unfolding chmod_class_def chmod_entry_def by (elim insertE disjE emptyE) simp_all

lemma filter_named:
  assumes "cls \<in> {ACL_MASK, ACL_GROUP_OBJ}"
  shows "filter (\<lambda>e. e_tag e = ACL_USER \<or> e_tag e = ACL_GROUP) (map (chmod_class cls mode) acl) =
    filter (\<lambda>e. e_tag e = ACL_USER \<or> e_tag e = ACL_GROUP) acl"
  by (induction acl) (simp_all add: chmod_class_tag chmod_class_named [OF assms])

text \<open>
  C21: \<open>posix_acl_chmod_masq\<close> on a valid list succeeds and leaves a valid list with the
  same tags and identifiers, changes no named entry, and the mode bits
  \<open>posix_acl_equiv_mode\<close> then reads off the list are those that were asked for; whether
  the list says more than the bits is as before.
\<close>

theorem posix_acl_chmod_roundtrip:
  assumes "posix_acl_valid acl = Inr ()"
  shows "\<exists>acl'. posix_acl_chmod_masq acl mode = (Inr (), acl') \<and> posix_acl_valid acl' = Inr () \<and>
    map e_tag acl' = map e_tag acl \<and> map e_id acl' = map e_id acl \<and>
    filter (\<lambda>e. e_tag e = ACL_USER \<or> e_tag e = ACL_GROUP) acl' =
      filter (\<lambda>e. e_tag e = ACL_USER \<or> e_tag e = ACL_GROUP) acl \<and>
    posix_acl_equiv_mode acl' p =
      (fst (posix_acl_equiv_mode acl p), (p AND NOT S_IRWXUGO) OR (mode AND S_IRWXUGO))"
proof -
  obtain uo us go gs m ot where acl: "acl = uo # us @ go # gs @ m @ [ot]"
    and tags: "e_tag uo = ACL_USER_OBJ" "\<forall>u \<in> set us. e_tag u = ACL_USER" "e_tag go = ACL_GROUP_OBJ"
      "\<forall>g \<in> set gs. e_tag g = ACL_GROUP" "e_tag ot = ACL_OTHER"
      "m = [] \<or> (\<exists>mo. m = [mo] \<and> e_tag mo = ACL_MASK)"
    using valid_form [OF assms] by metis
  define cls where "cls = (if \<exists>e \<in> set acl. e_tag e = ACL_MASK then ACL_MASK else ACL_GROUP_OBJ)"
  let ?f = "chmod_class cls mode"
  have cls: "cls = (if m = [] then ACL_GROUP_OBJ else ACL_MASK)"
    using tags unfolding cls_def acl by auto
  have us: "map ?f us = us" "map ?f gs = gs"
    using tags(2,4) cls by (auto intro!: map_idI chmod_class_named)
  have map: "map ?f acl = ?f uo # us @ ?f go # gs @ map ?f m @ [?f ot]"
    unfolding acl by (simp add: us)
  have "posix_acl_chmod_masq acl mode = (Inr (), map ?f acl)"
    unfolding cls_def by (rule chmod_masq_form [OF assms])
  moreover have "posix_acl_valid (map ?f acl) = Inr ()"
    by (rule posix_acl_valid_map [OF assms chmod_class_fields])
  moreover have "filter (\<lambda>e. e_tag e = ACL_USER \<or> e_tag e = ACL_GROUP) (map ?f acl) =
      filter (\<lambda>e. e_tag e = ACL_USER \<or> e_tag e = ACL_GROUP) acl"
    by (rule filter_named) (simp add: cls)
  moreover have "posix_acl_equiv_mode (map ?f acl) p =
      (fst (posix_acl_equiv_mode acl p), (p AND NOT S_IRWXUGO) OR (mode AND S_IRWXUGO))"
  proof -
    have perms: "e_perm (?f uo) = drop_bit 6 (mode AND 0x1c0)" "e_perm (?f ot) = mode AND 7"
      "e_perm (class_entry (map ?f m) (?f go)) = drop_bit 3 (mode AND 0x38)"
      using tags(1,3,5,6) unfolding cls by (auto simp: chmod_class_def chmod_entry_def class_entry_def)
    have "equiv_loop (map ?f acl) 0 False = Some (mode AND 0x1ff, us \<noteq> [] \<or> gs \<noteq> [] \<or> map ?f m \<noteq> [])"
      unfolding map mode_fields(4) [symmetric] perms [symmetric]
      by (rule equiv_loop_form) (use tags in \<open>auto simp: chmod_class_tag\<close>)
    moreover note equiv_loop_form [OF tags, folded acl]
    ultimately show ?thesis unfolding posix_acl_equiv_mode_def by simp
  qed
  moreover have "map e_tag (map ?f acl) = map e_tag acl" "map e_id (map ?f acl) = map e_id acl"
    by (simp_all add: chmod_class_tag)
  ultimately show ?thesis by (intro exI [of _ "map ?f acl"] conjI) assumption+
qed

section \<open>A list with a named user, a named group and a mask\<close>

definition acl_example :: posix_acl where
  "acl_example =
     [\<lparr>e_tag = ACL_USER_OBJ, e_perm = 6, e_id = 0\<rparr>, \<lparr>e_tag = ACL_USER, e_perm = 7, e_id = 1000\<rparr>,
      \<lparr>e_tag = ACL_GROUP_OBJ, e_perm = 4, e_id = 0\<rparr>, \<lparr>e_tag = ACL_GROUP, e_perm = 0, e_id = 20\<rparr>,
      \<lparr>e_tag = ACL_MASK, e_perm = 4, e_id = 0\<rparr>, \<lparr>e_tag = ACL_OTHER, e_perm = 4, e_id = 0\<rparr>]"

definition inode_example :: inode where
  "inode_example = \<lparr>i_uid = 500, i_gid = 500, i_mode = 0x81a4, is_posixacl = True\<rparr>"

definition acl_task :: "u32 \<Rightarrow> groups_state" where
  "acl_task u = groups_example\<lparr>g_cred := (g_cred groups_example)\<lparr>t_fsuid := u, cap_effective := (0, 0)\<rparr>\<rparr>"

lemma acl_example_valid: "posix_acl_valid acl_example = Inr ()"
  by (simp add: posix_acl_valid_def acl_example_def valid_step_def ACL_UNDEFINED_ID_def)

text \<open>The mask takes writing from the named user 1000.\<close>

theorem posix_acl_permission_spec_witness:
  "posix_acl_permission (acl_task 1000) inode_example acl_example 2 = Inl (Err EACCES) \<and>
   \<not> acl_grants (acl_task 1000) inode_example acl_example 2"
proof -
  have "\<not> acl_grants (acl_task 1000) inode_example acl_example 2"
    by (simp add: acl_grants_def acl_example_def inode_example_def acl_task_def named_user_def acl_mask_def perm_ok_def)
  then show ?thesis using posix_acl_permission_spec [OF acl_example_valid, of "acl_task 1000" inode_example 2] by simp
qed

theorem generic_permission_acl_witness:
  "generic_permission (acl_task 1000) inode_example 4 (Some (check_acl (acl_task 1000) (Inr (Some acl_example)))) = Inr ()"
proof -
  have sync: "posix_acl_equiv_mode acl_example (i_mode inode_example) = (Inr True, i_mode inode_example)"
    by (simp add: posix_acl_equiv_mode_def acl_example_def inode_example_def)
  have "acl_grants (acl_task 1000) inode_example acl_example (4 AND 7)"
    by (simp add: acl_grants_def acl_example_def inode_example_def acl_task_def named_user_def acl_mask_def perm_ok_def)
  then show ?thesis
    using generic_permission_acl [OF acl_example_valid sync, of "acl_task 1000" 4] by (simp add: inode_example_def)
qed

text \<open>
  A list whose mask gives nothing: it refuses reading to the named user 1000, but
  \<open>generic_permission\<close> passes it over and grants reading by the entry for others.
\<close>

definition masked_acl :: posix_acl where
  "masked_acl =
     [\<lparr>e_tag = ACL_USER_OBJ, e_perm = 6, e_id = 0\<rparr>, \<lparr>e_tag = ACL_USER, e_perm = 4, e_id = 1000\<rparr>,
      \<lparr>e_tag = ACL_GROUP_OBJ, e_perm = 4, e_id = 0\<rparr>, \<lparr>e_tag = ACL_MASK, e_perm = 0, e_id = 0\<rparr>,
      \<lparr>e_tag = ACL_OTHER, e_perm = 4, e_id = 0\<rparr>]"

lemma masked_list_passed_over:
  defines "ino \<equiv> inode_example\<lparr>i_mode := 0x8184\<rparr>"
  shows "posix_acl_valid masked_acl = Inr () \<and> posix_acl_equiv_mode masked_acl (i_mode ino) = (Inr True, i_mode ino) \<and>
    posix_acl_permission (acl_task 1000) ino masked_acl 4 = Inl (Err EACCES) \<and>
    generic_permission (acl_task 1000) ino 4 (Some (check_acl (acl_task 1000) (Inr (Some masked_acl)))) = Inr ()"
proof (intro conjI)
  show valid: "posix_acl_valid masked_acl = Inr ()"
    by (simp add: posix_acl_valid_def masked_acl_def valid_step_def ACL_UNDEFINED_ID_def)
  show "posix_acl_equiv_mode masked_acl (i_mode ino) = (Inr True, i_mode ino)"
    by (simp add: posix_acl_equiv_mode_def masked_acl_def ino_def inode_example_def)
  have "\<not> acl_grants (acl_task 1000) ino masked_acl 4"
    by (simp add: acl_grants_def masked_acl_def ino_def inode_example_def acl_task_def named_user_def acl_mask_def perm_ok_def)
  then show "posix_acl_permission (acl_task 1000) ino masked_acl 4 = Inl (Err EACCES)"
    by (simp add: permission_decides [OF valid])
  have "in_group_p (acl_task 1000) 500 = False" by code_simp
  then show "generic_permission (acl_task 1000) ino 4 (Some (check_acl (acl_task 1000) (Inr (Some masked_acl)))) = Inr ()"
    by (simp add: generic_permission_def mode_check_def ino_def inode_example_def acl_task_def)
qed

theorem posix_acl_chmod_roundtrip_witness:
  "\<exists>acl'. posix_acl_chmod_masq acl_example 0x1ed = (Inr (), acl') \<and> posix_acl_valid acl' = Inr () \<and>
     posix_acl_equiv_mode acl' 0x8000 = (Inr True, 0x81ed)"
proof -
  have "fst (posix_acl_equiv_mode acl_example 0x8000) = Inr True"
    by (simp add: posix_acl_equiv_mode_def acl_example_def)
  then show ?thesis
    using posix_acl_chmod_roundtrip [OF acl_example_valid, of "0x1ed" "0x8000"] by auto
qed

end
