(* ===== verification/FileLock.thy ===== *)
theory FileLock imports Prelude begin

text \<open>
  Locks on files (\<open>fs/locks.c\<close>): POSIX byte-range locks and \<open>flock\<close> locks of one inode. Every
  function below runs under the big kernel lock, so it is one function on the list of locks
  of the inode and the list of blocked requests. The callbacks of file systems, process ids
  and leases other than their removal are left out.

  An offset (\<open>loff_t\<close>) is an integer: the functions add and subtract 1 at most, and
  \<open>FileLockSpec\<close> shows the bounds of what is stored. Where offsets are added up
  (\<open>flock_to_posix_lock\<close>) the words are kept.
\<close>

section \<open>Locks\<close>

abbreviation (input) FL_POSIX :: u8 where "FL_POSIX \<equiv> 1"
abbreviation (input) FL_FLOCK :: u8 where "FL_FLOCK \<equiv> 2"
abbreviation (input) FL_ACCESS :: u8 where "FL_ACCESS \<equiv> 8"
abbreviation (input) FL_EXISTS :: u8 where "FL_EXISTS \<equiv> 16"
abbreviation (input) FL_LEASE :: u8 where "FL_LEASE \<equiv> 32"
abbreviation (input) FL_CLOSE :: u8 where "FL_CLOSE \<equiv> 64"
abbreviation (input) FL_SLEEP :: u8 where "FL_SLEEP \<equiv> 128"

abbreviation (input) F_RDLCK :: "'a::len word" where "F_RDLCK \<equiv> 0"
abbreviation (input) F_WRLCK :: "'a::len word" where "F_WRLCK \<equiv> 1"
abbreviation (input) F_UNLCK :: "'a::len word" where "F_UNLCK \<equiv> 2"

abbreviation (input) LOCK_MAND :: "'a::len word" where "LOCK_MAND \<equiv> 32"
abbreviation (input) LOCK_READ :: "'a::len word" where "LOCK_READ \<equiv> 64"
abbreviation (input) LOCK_WRITE :: "'a::len word" where "LOCK_WRITE \<equiv> 128"
abbreviation (input) LOCK_RW :: "'a::len word" where "LOCK_RW \<equiv> 192"

definition OFFSET_MAX :: int where "OFFSET_MAX = 2 ^ 63 - 1"
definition FILE_LOCK_DEFERRED :: nat where "FILE_LOCK_DEFERRED = 1"

text \<open>
  \<open>struct file_lock\<close>. \<open>fl_owner\<close> is the address of the table of open files, \<open>fl_file\<close> of the
  open file, \<open>fl_lmops\<close> of the operations of a lock manager. A lock on the list of an
  inode has a queue of waiting requests, each with a name (its address).
\<close>

record file_lock =
  fl_owner :: nat
  fl_flags :: u8
  fl_type :: u8
  fl_file :: "nat option"
  fl_start :: int
  fl_end :: int
  fl_lmops :: "nat option"

type_synonym waiters = "(nat \<times> file_lock) list"

record held_lock = file_lock +
  fl_block :: waiters

definition held :: "file_lock \<Rightarrow> held_lock" where
  "held fl = file_lock.extend fl (held_lock.fields [])"

text \<open>
  The locks of the inode, and the requests of all inodes blocked on POSIX locks, the newest
  first, each with the lock it waits for (its \<open>fl_next\<close>).
\<close>

record lock_state =
  i_flock :: "held_lock list"
  blocked_list :: "(nat \<times> file_lock \<times> file_lock) list"

definition IS_POSIX :: "'a file_lock_scheme \<Rightarrow> bool" where "IS_POSIX fl \<longleftrightarrow> fl_flags fl AND FL_POSIX \<noteq> 0"
definition IS_FLOCK :: "'a file_lock_scheme \<Rightarrow> bool" where "IS_FLOCK fl \<longleftrightarrow> fl_flags fl AND FL_FLOCK \<noteq> 0"
definition IS_LEASE :: "'a file_lock_scheme \<Rightarrow> bool" where "IS_LEASE fl \<longleftrightarrow> fl_flags fl AND FL_LEASE \<noteq> 0"

definition locks_copy :: "'a file_lock_scheme \<Rightarrow> file_lock" where
  "locks_copy fl = (file_lock.truncate fl)\<lparr>fl_file := None, fl_lmops := None\<rparr>"

definition locks_overlap :: "'a file_lock_scheme \<Rightarrow> 'b file_lock_scheme \<Rightarrow> bool" where
  "locks_overlap fl1 fl2 \<longleftrightarrow> fl_start fl2 \<le> fl_end fl1 \<and> fl_start fl1 \<le> fl_end fl2"

text \<open>\<open>cmp\<close>: \<open>fl_compare_owner\<close> of the lock managers that have one.\<close>

type_synonym owner_cmp = "nat \<Rightarrow> (file_lock \<Rightarrow> file_lock \<Rightarrow> bool) option"

definition posix_same_owner :: "owner_cmp \<Rightarrow> 'a file_lock_scheme \<Rightarrow> 'b file_lock_scheme \<Rightarrow> bool" where
  "posix_same_owner cmp fl1 fl2 \<longleftrightarrow>
     (case Option.bind (fl_lmops fl1) cmp of
        Some compare_owner \<Rightarrow> fl_lmops fl2 = fl_lmops fl1 \<and> compare_owner (file_lock.truncate fl1) (file_lock.truncate fl2)
      | None \<Rightarrow> fl_owner fl1 = fl_owner fl2)"

definition locks_conflict :: "'a file_lock_scheme \<Rightarrow> 'b file_lock_scheme \<Rightarrow> bool" where
  "locks_conflict caller_fl sys_fl \<longleftrightarrow> fl_type sys_fl = F_WRLCK \<or> fl_type caller_fl = F_WRLCK"

definition posix_locks_conflict :: "owner_cmp \<Rightarrow> 'a file_lock_scheme \<Rightarrow> 'b file_lock_scheme \<Rightarrow> bool" where
  "posix_locks_conflict cmp caller_fl sys_fl \<longleftrightarrow>
     IS_POSIX sys_fl \<and> \<not> posix_same_owner cmp caller_fl sys_fl \<and>
     locks_overlap caller_fl sys_fl \<and> locks_conflict caller_fl sys_fl"

definition flock_locks_conflict :: "'a file_lock_scheme \<Rightarrow> 'b file_lock_scheme \<Rightarrow> bool" where
  "flock_locks_conflict caller_fl sys_fl \<longleftrightarrow>
     IS_FLOCK sys_fl \<and> fl_file caller_fl \<noteq> fl_file sys_fl \<and>
     fl_type caller_fl AND LOCK_MAND = 0 \<and> fl_type sys_fl AND LOCK_MAND = 0 \<and>
     locks_conflict caller_fl sys_fl"

text \<open>The first lock of the list with a property.\<close>

fun first_index :: "('a \<Rightarrow> bool) \<Rightarrow> 'a list \<Rightarrow> nat option" where
  "first_index P [] = None"
| "first_index P (x # xs) = (if P x then Some 0 else map_option Suc (first_index P xs))"

section \<open>Waiting\<close>

text \<open>Waking up takes the requests off the queue of the lock and off the global list.\<close>

definition wake_up :: "waiters \<Rightarrow> (nat \<times> file_lock \<times> file_lock) list \<Rightarrow> (nat \<times> file_lock \<times> file_lock) list" where
  "wake_up ws bl = filter (\<lambda>(id, _). id \<notin> fst ` set ws) bl"

definition locks_insert_block :: "nat \<Rightarrow> nat \<Rightarrow> file_lock \<Rightarrow> lock_state \<Rightarrow> lock_state" where
  "locks_insert_block i w req s =
     (let fl = i_flock s ! i in
      s\<lparr>i_flock := (i_flock s)[i := fl\<lparr>fl_block := fl_block fl @ [(w, req)]\<rparr>],
        blocked_list := (if IS_POSIX fl then (w, req, file_lock.truncate fl) # blocked_list s else blocked_list s)\<rparr>)"

text \<open>\<open>posix_unblock_lock\<close>: the request stops waiting, if it is.\<close>

definition posix_unblock_lock :: "nat \<Rightarrow> lock_state \<Rightarrow> unit result \<times> lock_state" where
  "posix_unblock_lock w s =
     (if \<exists>fl \<in> set (i_flock s). w \<in> fst ` set (fl_block fl)
      then (Inr (), s\<lparr>i_flock := map (\<lambda>fl. fl\<lparr>fl_block := filter (\<lambda>(v, _). v \<noteq> w) (fl_block fl)\<rparr>) (i_flock s),
                      blocked_list := filter (\<lambda>(v, _). v \<noteq> w) (blocked_list s)\<rparr>)
      else (Inl (Err ENOENT), s))"

fun what_owner_is_waiting_for :: "owner_cmp \<Rightarrow> (nat \<times> file_lock \<times> file_lock) list \<Rightarrow> file_lock \<Rightarrow> file_lock option" where
  "what_owner_is_waiting_for cmp [] block_fl = None"
| "what_owner_is_waiting_for cmp ((_, fl, blocker) # bl) block_fl =
     (if posix_same_owner cmp fl block_fl then Some blocker else what_owner_is_waiting_for cmp bl block_fl)"

text \<open>The loop; the number is \<open>MAX_DEADLK_ITERATIONS + 1 - i\<close>.\<close>

fun deadlock_loop :: "nat \<Rightarrow> owner_cmp \<Rightarrow> (nat \<times> file_lock \<times> file_lock) list \<Rightarrow> file_lock \<Rightarrow> file_lock \<Rightarrow> bool" where
  "deadlock_loop 0 cmp bl caller_fl block_fl = False"
| "deadlock_loop (Suc n) cmp bl caller_fl block_fl =
     (case what_owner_is_waiting_for cmp bl block_fl of
        None \<Rightarrow> False
      | Some block_fl \<Rightarrow> posix_same_owner cmp caller_fl block_fl \<or> deadlock_loop n cmp bl caller_fl block_fl)"

definition posix_locks_deadlock :: "owner_cmp \<Rightarrow> (nat \<times> file_lock \<times> file_lock) list \<Rightarrow> file_lock \<Rightarrow> file_lock \<Rightarrow> bool" where
  "posix_locks_deadlock = deadlock_loop 11"

section \<open>POSIX locks\<close>

text \<open>
  The variables of the loop over the locks of the owner. The list is split at \<open>before\<close>; a
  pointer to a lock before it is a position. \<open>p_at\<close>: the lock \<open>request\<close> points to once the
  request has been merged into a lock or has replaced one. \<open>p_woken\<close>: the requests woken.
\<close>

record plf_vars =
  p_req :: file_lock
  p_at :: "nat option"
  p_added :: bool
  p_left :: "nat option"
  p_right :: bool
  p_woken :: waiters

definition set_range :: "int \<Rightarrow> int \<Rightarrow> 'a file_lock_scheme \<Rightarrow> 'a file_lock_scheme" where
  "set_range lo hi fl = fl\<lparr>fl_start := lo, fl_end := hi\<rparr>"

text \<open>An assignment to the bounds of \<open>*request\<close>, which may be a lock of the list.\<close>

definition write_request :: "int \<Rightarrow> int \<Rightarrow> held_lock list \<Rightarrow> plf_vars \<Rightarrow> held_lock list \<times> plf_vars" where
  "write_request lo hi bef v =
     ((case p_at v of None \<Rightarrow> bef | Some i \<Rightarrow> bef[i := set_range lo hi (bef ! i)]),
      v\<lparr>p_req := set_range lo hi (p_req v)\<rparr>)"

fun owner_loop :: "owner_cmp \<Rightarrow> held_lock list \<Rightarrow> held_lock list \<Rightarrow> plf_vars \<Rightarrow> held_lock list \<times> held_lock list \<times> plf_vars" where
  "owner_loop cmp bef [] v = (bef, [], v)"
| "owner_loop cmp bef (fl # rest) v =
     (let req = p_req v in
      if \<not> posix_same_owner cmp req fl then (bef, fl # rest, v)
      else if fl_type req = fl_type fl then
        if fl_end fl < fl_start req - 1 then owner_loop cmp (bef @ [fl]) rest v
        else if fl_start fl - 1 > fl_end req then (bef, fl # rest, v)
        else
          let lo = (if fl_start fl > fl_start req then fl_start req else fl_start fl);
              hi = (if fl_end fl < fl_end req then fl_end req else fl_end fl) in
          if p_added v then
            (case write_request lo hi bef v of (bef, v) \<Rightarrow>
               owner_loop cmp bef rest (v\<lparr>p_woken := p_woken v @ fl_block fl\<rparr>))
          else
            let fl = set_range lo hi fl in
            owner_loop cmp (bef @ [fl]) rest
              (v\<lparr>p_req := file_lock.truncate fl, p_at := Some (length bef), p_added := True\<rparr>)
      else
        if fl_end fl < fl_start req then owner_loop cmp (bef @ [fl]) rest v
        else if fl_start fl > fl_end req then (bef, fl # rest, v)
        else
          let v = (if fl_type req = F_UNLCK then v\<lparr>p_added := True\<rparr> else v);
              v = (if fl_start fl < fl_start req then v\<lparr>p_left := Some (length bef)\<rparr> else v) in
          if fl_end fl > fl_end req then (bef, fl # rest, v\<lparr>p_right := True\<rparr>)
          else if fl_start fl \<ge> fl_start req then
            let v = v\<lparr>p_woken := p_woken v @ fl_block fl\<rparr> in
            if p_added v then owner_loop cmp bef rest v
            else
              let fl = (set_range (fl_start req) (fl_end req) fl)
                \<lparr>fl_type := fl_type req, fl_lmops := fl_lmops req, fl_block := []\<rparr> in
              owner_loop cmp (bef @ [fl]) rest
                (v\<lparr>p_req := file_lock.truncate fl, p_at := Some (length bef), p_added := True\<rparr>)
          else owner_loop cmp (bef @ [fl]) rest v)"

text \<open>
  What follows the loop when no error ends the call: the new lock is inserted at \<open>before\<close>,
  a lock that reaches over the end of the request is cut, one that begins before it is
  cut, and one that does both is split with the second new structure.
\<close>

definition trim_left :: "int \<Rightarrow> held_lock \<Rightarrow> held_lock" where
  "trim_left start fl = fl\<lparr>fl_end := start - 1, fl_block := []\<rparr>"

definition trim_right :: "int \<Rightarrow> held_lock \<Rightarrow> held_lock" where
  "trim_right end fl = fl\<lparr>fl_start := end + 1, fl_block := []\<rparr>"

definition finish_lock :: "held_lock list \<Rightarrow> held_lock list \<Rightarrow> plf_vars \<Rightarrow> held_lock list \<times> waiters" where
  "finish_lock bef rest v =
     (let new = (if p_added v then [] else [held (p_req v)]);
          lo = fl_start (p_req v); hi = fl_end (p_req v);
          trimmed = (case p_left v of Some i \<Rightarrow> bef[i := trim_left lo (bef ! i)] | None \<Rightarrow> bef);
          left_ws = (case p_left v of Some i \<Rightarrow> fl_block (bef ! i) | None \<Rightarrow> []) in
      case (p_right v, rest) of
        (True, right # rest) \<Rightarrow>
          if p_left v = Some (length bef)
          then (bef @ [trim_left lo (held (file_lock.truncate right))] @ new @ trim_right hi right # rest,
                p_woken v @ fl_block right)
          else (trimmed @ new @ trim_right hi right # rest, p_woken v @ fl_block right @ left_ws)
      | _ \<Rightarrow> (trimmed @ new @ rest, p_woken v @ left_ws))"

definition apply_lock :: "owner_cmp \<Rightarrow> bool \<Rightarrow> bool \<Rightarrow> file_lock \<Rightarrow> held_lock list \<Rightarrow> nat result \<times> held_lock list \<times> waiters" where
  "apply_lock cmp new_fl new_fl2 request locks =
     (let other = (\<lambda>fl. \<not> IS_POSIX fl \<or> \<not> posix_same_owner cmp request fl) in
      case owner_loop cmp (takeWhile other locks) (dropWhile other locks)
          \<lparr>p_req = request, p_at = None, p_added = False, p_left = None, p_right = False, p_woken = []\<rparr> of
        (bef, rest, v) \<Rightarrow>
          if p_right v \<and> p_left v = Some (length bef) \<and> \<not> new_fl2
          then (Inl (Err ENOLCK), bef @ rest, p_woken v)
          else if \<not> p_added v \<and> fl_type (p_req v) = F_UNLCK
          then (if fl_flags (p_req v) AND FL_EXISTS \<noteq> 0 then Inl (Err ENOENT) else Inr 0, bef @ rest, p_woken v)
          else if \<not> p_added v \<and> \<not> new_fl
          then (Inl (Err ENOLCK), bef @ rest, p_woken v)
          else (Inr 0, finish_lock bef rest v))"

text \<open>
  \<open>__posix_lock_file\<close> for the request with the name \<open>w\<close>; \<open>alloc\<close>: whether the two new
  structures find memory. The result has the copy of a conflicting lock and the requests
  woken.
\<close>

definition posix_lock :: "owner_cmp \<Rightarrow> bool \<times> bool \<Rightarrow> nat \<Rightarrow> file_lock \<Rightarrow> lock_state \<Rightarrow>
    nat result \<times> file_lock option \<times> lock_state \<times> waiters" where
  "posix_lock cmp alloc w request s =
     (let access = (fl_flags request AND FL_ACCESS \<noteq> 0);
          need = (\<not> access \<and> (fl_type request \<noteq> F_UNLCK \<or> fl_start request \<noteq> 0 \<or> fl_end request \<noteq> OFFSET_MAX)) in
      case (if fl_type request \<noteq> F_UNLCK
            then first_index (\<lambda>fl. IS_POSIX fl \<and> posix_locks_conflict cmp request fl) (i_flock s) else None) of
        Some i \<Rightarrow>
          let fl = i_flock s ! i; conflock = Some (locks_copy fl) in
          if fl_flags request AND FL_SLEEP = 0 then (Inl (Err EAGAIN), conflock, s, [])
          else if posix_locks_deadlock cmp (blocked_list s) request (file_lock.truncate fl)
          then (Inl (Err EDEADLK), conflock, s, [])
          else (Inr FILE_LOCK_DEFERRED, conflock, locks_insert_block i w request s, [])
      | None \<Rightarrow>
          if access then (Inr 0, None, s, [])
          else case apply_lock cmp (need \<and> fst alloc) (need \<and> snd alloc) request (i_flock s) of
            (r, locks, ws) \<Rightarrow> (r, None, s\<lparr>i_flock := locks, blocked_list := wake_up ws (blocked_list s)\<rparr>, ws))"

text \<open>\<open>posix_test_lock\<close>: the first conflicting lock, or the request with the type \<open>F_UNLCK\<close>.\<close>

definition posix_test_lock :: "owner_cmp \<Rightarrow> file_lock \<Rightarrow> lock_state \<Rightarrow> file_lock" where
  "posix_test_lock cmp fl s =
     (case first_index (\<lambda>cfl. IS_POSIX cfl \<and> posix_locks_conflict cmp fl cfl) (i_flock s) of
        Some i \<Rightarrow> locks_copy (i_flock s ! i)
      | None \<Rightarrow> fl\<lparr>fl_type := F_UNLCK\<rparr>)"

text \<open>The request of \<open>locks_remove_posix\<close> when the task closes the file.\<close>

definition locks_remove_posix :: "owner_cmp \<Rightarrow> nat \<Rightarrow> nat \<Rightarrow> nat \<Rightarrow> lock_state \<Rightarrow> lock_state" where
  "locks_remove_posix cmp w filp own s =
     (if i_flock s = [] then s
      else let lock = \<lparr>fl_owner = own, fl_flags = FL_POSIX OR FL_CLOSE, fl_type = F_UNLCK, fl_file = Some filp,
                       fl_start = 0, fl_end = OFFSET_MAX, fl_lmops = None\<rparr> in
           (case posix_lock cmp (False, False) w lock s of (_, _, s, _) \<Rightarrow> s))"

section \<open>Locks of open files\<close>

definition remove_at :: "nat \<Rightarrow> 'a list \<Rightarrow> 'a list" where
  "remove_at i xs = take i xs @ drop (Suc i) xs"

definition insert_at :: "nat \<Rightarrow> 'a \<Rightarrow> 'a list \<Rightarrow> 'a list" where
  "insert_at i x xs = take i xs @ x # drop i xs"

text \<open>
  \<open>flock_lock_file\<close> up to the label \<open>find_conflict\<close>: it looks for the lock of the open file and
  deletes it. \<open>Inl\<close> is a return, \<open>Inr found\<close> goes on.
\<close>

definition flock_delete :: "bool \<Rightarrow> nat \<Rightarrow> file_lock \<Rightarrow> lock_state \<Rightarrow> (nat result + bool) \<times> lock_state \<times> waiters" where
  "flock_delete alloc filp request s =
     (if fl_flags request AND FL_ACCESS \<noteq> 0 then (Inr False, s, [])
      else if fl_type request \<noteq> F_UNLCK \<and> \<not> alloc then (Inl (Inl (Err ENOMEM)), s, [])
      else
        let go_on = (\<lambda>found. if fl_type request = F_UNLCK
              then Inl (if fl_flags request AND FL_EXISTS \<noteq> 0 \<and> \<not> found then Inl (Err ENOENT) else Inr 0)
              else Inr found) in
        case first_index (\<lambda>fl. IS_POSIX fl \<or> \<not> IS_LEASE fl \<and> fl_file fl = Some filp) (i_flock s) of
          None \<Rightarrow> (go_on False, s, [])
        | Some i \<Rightarrow>
            let fl = i_flock s ! i in
            if IS_POSIX fl then (go_on False, s, [])
            else if fl_type request = fl_type fl then (Inl (Inr 0), s, [])
            else (go_on True, s\<lparr>i_flock := remove_at i (i_flock s), blocked_list := wake_up (fl_block fl) (blocked_list s)\<rparr>,
                  fl_block fl))"

text \<open>From the label \<open>find_conflict\<close> on; the new lock is inserted before the first POSIX lock.\<close>

definition flock_insert :: "nat \<Rightarrow> file_lock \<Rightarrow> lock_state \<Rightarrow> nat result \<times> lock_state" where
  "flock_insert w request s =
     (let before = first_index (\<lambda>fl. IS_POSIX fl \<or> \<not> IS_LEASE fl \<and> flock_locks_conflict request fl) (i_flock s);
          new = (if fl_flags request AND FL_ACCESS \<noteq> 0 then (\<lambda>i. (Inr 0, s))
                 else (\<lambda>i. (Inr 0, s\<lparr>i_flock := insert_at i (held request) (i_flock s)\<rparr>))) in
      case before of
        None \<Rightarrow> new (length (i_flock s))
      | Some i \<Rightarrow>
          if IS_POSIX (i_flock s ! i) then new i
          else if fl_flags request AND FL_SLEEP = 0 then (Inl (Err EAGAIN), s)
          else (Inr FILE_LOCK_DEFERRED, locks_insert_block i w request s))"

text \<open>
  The whole call. When a lock was deleted, \<open>cond_resched_bkl\<close> may let other tasks run in
  between; \<open>others\<close> is what they do to the locks.
\<close>

definition flock_lock_file ::
  "bool \<Rightarrow> nat \<Rightarrow> nat \<Rightarrow> file_lock \<Rightarrow> (lock_state \<Rightarrow> lock_state) \<Rightarrow> lock_state \<Rightarrow> nat result \<times> lock_state \<times> waiters" where
  "flock_lock_file alloc w filp request others s =
     (case flock_delete alloc filp request s of
        (Inl r, s, ws) \<Rightarrow> (r, s, ws)
      | (Inr found, s, ws) \<Rightarrow>
          (case flock_insert w request (if found then others s else s) of (r, s) \<Rightarrow> (r, s, ws)))"

text \<open>
  \<open>locks_remove_flock\<close> at the last close of an open file, for a file system without a
  \<open>flock\<close> method. A POSIX lock that still names the file is a \<open>BUG\<close>.
\<close>

fun remove_flock :: "nat \<Rightarrow> held_lock list \<Rightarrow> (held_lock list \<times> waiters) result" where
  "remove_flock filp [] = Inr ([], [])"
| "remove_flock filp (fl # fls) =
     (if fl_file fl = Some filp \<and> \<not> IS_FLOCK fl \<and> \<not> IS_LEASE fl then Inl Bug
      else case remove_flock filp fls of
        Inl e \<Rightarrow> Inl e
      | Inr (fls, ws) \<Rightarrow>
          if fl_file fl = Some filp then Inr (fls, fl_block fl @ ws) else Inr (fl # fls, ws))"

definition locks_remove_flock :: "nat \<Rightarrow> lock_state \<Rightarrow> lock_state result" where
  "locks_remove_flock filp s =
     (case remove_flock filp (i_flock s) of
        Inl e \<Rightarrow> Inl e
      | Inr (locks, ws) \<Rightarrow> Inr (s\<lparr>i_flock := locks, blocked_list := wake_up ws (blocked_list s)\<rparr>))"

definition flock_translate_cmd :: "u32 \<Rightarrow> u32 result" where
  "flock_translate_cmd cmd =
     (if cmd AND LOCK_MAND \<noteq> 0 then Inr (cmd AND (LOCK_MAND OR LOCK_RW))
      else if cmd = 1 then Inr F_RDLCK else if cmd = 2 then Inr F_WRLCK else if cmd = 8 then Inr F_UNLCK
      else Inl (Err EINVAL))"

text \<open>\<open>locks_alloc_lock\<close> gives a structure that \<open>locks_init_lock\<close> has zeroed.\<close>

definition flock_make_lock :: "bool \<Rightarrow> nat \<Rightarrow> u32 \<Rightarrow> file_lock result" where
  "flock_make_lock alloc filp cmd =
     (case flock_translate_cmd cmd of
        Inl e \<Rightarrow> Inl e
      | Inr type \<Rightarrow>
          if \<not> alloc then Inl (Err ENOMEM)
          else Inr \<lparr>fl_owner = 0, fl_flags = FL_FLOCK, fl_type = ucast type, fl_file = Some filp,
                   fl_start = 0, fl_end = OFFSET_MAX, fl_lmops = None\<rparr>)"

section \<open>Requests of programs\<close>

text \<open>
  \<open>struct flock\<close> and \<open>struct flock64\<close> differ in the width of the offsets. An open file has its
  position and the size of its inode. A sum of signed offsets wraps around.
\<close>

record 'a flock =
  l_type :: u16
  l_whence :: u16
  l_start :: 'a
  l_len :: 'a

record open_file =
  f_addr :: nat
  f_pos :: u64
  i_size :: u64

definition assign_type :: "file_lock \<Rightarrow> u16 \<Rightarrow> file_lock result" where
  "assign_type fl type =
     (if type = F_RDLCK \<or> type = F_WRLCK \<or> type = F_UNLCK then Inr (fl\<lparr>fl_type := ucast type\<rparr>) else Inl (Err EINVAL))"

text \<open>The offset \<open>l_start\<close> counts from.\<close>

definition flock_base :: "open_file \<Rightarrow> u16 \<Rightarrow> u64 option" where
  "flock_base filp whence =
     (if whence = 0 then Some 0 else if whence = 1 then Some (f_pos filp)
      else if whence = 2 then Some (i_size filp) else None)"

text \<open>The common part; the base is cast to the width of the offsets (\<open>off_t\<close> or \<open>loff_t\<close>).\<close>

definition flock_range :: "'a::len word \<Rightarrow> 'a word \<Rightarrow> 'a word \<Rightarrow> (int \<times> int) result" where
  "flock_range base start len =
     (let start = base + start in
      if sint start < 0 then Inl (Err EINVAL)
      else if sint len < 0 \<and> sint (start + len) < 0 then Inl (Err EINVAL)
      else
        let fl_end = (if sint len > 0 then sint (start + len - 1)
                      else if sint len < 0 then sint (start - 1) else OFFSET_MAX);
            fl_start = (if sint len < 0 then sint (start + len) else sint start) in
        if fl_end < fl_start then Inl (Err EOVERFLOW) else Inr (fl_start, fl_end))"

definition to_posix_lock :: "nat \<Rightarrow> nat \<Rightarrow> u16 \<Rightarrow> (int \<times> int) result \<Rightarrow> file_lock result" where
  "to_posix_lock files filp type rng =
     (case rng of
        Inl e \<Rightarrow> Inl e
      | Inr (start, end) \<Rightarrow>
          assign_type \<lparr>fl_owner = files, fl_flags = FL_POSIX, fl_type = 0, fl_file = Some filp,
            fl_start = start, fl_end = end, fl_lmops = None\<rparr> type)"

definition flock_to_posix_lock :: "nat \<Rightarrow> open_file \<Rightarrow> u32 flock \<Rightarrow> file_lock result" where
  "flock_to_posix_lock files filp l =
     (case flock_base filp (l_whence l) of
        None \<Rightarrow> Inl (Err EINVAL)
      | Some base \<Rightarrow> to_posix_lock files (f_addr filp) (l_type l) (flock_range (ucast base) (l_start l) (l_len l)))"

definition flock64_to_posix_lock :: "nat \<Rightarrow> open_file \<Rightarrow> u64 flock \<Rightarrow> file_lock result" where
  "flock64_to_posix_lock files filp l =
     (case flock_base filp (l_whence l) of
        None \<Rightarrow> Inl (Err EINVAL)
      | Some base \<Rightarrow> to_posix_lock files (f_addr filp) (l_type l) (flock_range base (l_start l) (l_len l)))"

definition OFFT_OFFSET_MAX :: int where "OFFT_OFFSET_MAX = 2 ^ 31 - 1"

definition posix_lock_to_flock :: "file_lock \<Rightarrow> u32 flock result" where
  "posix_lock_to_flock fl =
     (if fl_start fl > OFFT_OFFSET_MAX then Inl (Err EOVERFLOW)
      else if fl_end fl \<noteq> OFFSET_MAX \<and> fl_end fl > OFFT_OFFSET_MAX then Inl (Err EOVERFLOW)
      else Inr \<lparr>l_type = ucast (fl_type fl), l_whence = 0, l_start = word_of_int (fl_start fl),
                l_len = (if fl_end fl = OFFSET_MAX then 0 else word_of_int (fl_end fl - fl_start fl + 1))\<rparr>)"

definition posix_lock_to_flock64 :: "file_lock \<Rightarrow> u64 flock" where
  "posix_lock_to_flock64 fl =
     \<lparr>l_type = ucast (fl_type fl), l_whence = 0, l_start = word_of_int (fl_start fl),
      l_len = (if fl_end fl = OFFSET_MAX then 0 else word_of_int (fl_end fl - fl_start fl + 1))\<rparr>"

text \<open>
  \<open>fcntl_getlk64\<close> for a file system without a \<open>lock\<close> method, on the request copied from the
  program (\<open>None\<close> when that fails); the result is what is copied back.
\<close>

definition fcntl_getlk64 :: "owner_cmp \<Rightarrow> nat \<Rightarrow> open_file \<Rightarrow> u64 flock option \<Rightarrow> lock_state \<Rightarrow> u64 flock result" where
  "fcntl_getlk64 cmp files filp user s =
     (case user of
        None \<Rightarrow> Inl (Err EFAULT)
      | Some l \<Rightarrow>
          if l_type l \<noteq> F_RDLCK \<and> l_type l \<noteq> F_WRLCK then Inl (Err EINVAL)
          else (case flock64_to_posix_lock files filp l of
             Inl e \<Rightarrow> Inl e
           | Inr fl \<Rightarrow>
               let fl = posix_test_lock cmp fl s in
               if fl_type fl = F_UNLCK then Inr (l\<lparr>l_type := ucast (fl_type fl)\<rparr>)
               else Inr (posix_lock_to_flock64 fl)))"

section \<open>Mandatory locks and share modes\<close>

definition locks_mandatory_locked :: "nat \<Rightarrow> lock_state \<Rightarrow> unit result" where
  "locks_mandatory_locked files s =
     (if \<exists>fl \<in> set (i_flock s). IS_POSIX fl \<and> fl_owner fl \<noteq> files then Inl (Err EAGAIN) else Inr ())"

definition blocks_read :: "int \<Rightarrow> ulong \<Rightarrow> held_lock \<Rightarrow> bool" where
  "blocks_read start len fl \<longleftrightarrow>
     (if IS_POSIX fl
      then fl_type fl \<noteq> F_RDLCK \<and> \<not> (fl_end fl < start \<or> fl_start fl > sint (word_of_int (start + uint len) :: u64))
      else IS_FLOCK fl \<and> fl_type fl AND LOCK_MAND \<noteq> 0 \<and> fl_type fl AND LOCK_READ = 0)"

definition lock_may_read :: "lock_state \<Rightarrow> int \<Rightarrow> ulong \<Rightarrow> bool" where
  "lock_may_read s start len \<longleftrightarrow> \<not> (\<exists>fl \<in> set (i_flock s). blocks_read start len fl)"

definition blocks_write :: "int \<Rightarrow> ulong \<Rightarrow> held_lock \<Rightarrow> bool" where
  "blocks_write start len fl \<longleftrightarrow>
     (if IS_POSIX fl
      then \<not> (fl_end fl < start \<or> fl_start fl > sint (word_of_int (start + uint len) :: u64))
      else IS_FLOCK fl \<and> fl_type fl AND LOCK_MAND \<noteq> 0 \<and> fl_type fl AND LOCK_WRITE = 0)"

definition lock_may_write :: "lock_state \<Rightarrow> int \<Rightarrow> ulong \<Rightarrow> bool" where
  "lock_may_write s start len \<longleftrightarrow> \<not> (\<exists>fl \<in> set (i_flock s). blocks_write start len fl)"

end
