(* ===== verification/FileLockLoop.thy ===== *)
theory FileLockLoop imports FileLock begin

text \<open>
  The loop of \<open>posix_lock\<close> over the locks of one owner: an invariant of the loop, its exits, and
  what inserting and cutting leave of the locks. The owner's locks are a sorted list; what
  they mean is the set of bytes covered with each type.
\<close>

section \<open>Sorted locks and the bytes they cover\<close>

definition clear :: "'a file_lock_scheme \<Rightarrow> 'b file_lock_scheme \<Rightarrow> bool" where
  "clear a b \<longleftrightarrow> fl_end a < fl_start b \<and> (fl_type a = fl_type b \<longrightarrow> fl_end a + 1 < fl_start b)"

definition plain :: "nat \<Rightarrow> 'a file_lock_scheme \<Rightarrow> bool" where
  "plain own l \<longleftrightarrow> IS_POSIX l \<and> fl_owner l = own \<and> fl_lmops l = None \<and>
     0 \<le> fl_start l \<and> fl_start l \<le> fl_end l \<and> fl_end l \<le> OFFSET_MAX"

definition good :: "nat \<Rightarrow> held_lock \<Rightarrow> bool" where
  "good own l \<longleftrightarrow> plain own l \<and> fl_type l \<noteq> F_UNLCK"

definition cover :: "held_lock list \<Rightarrow> int \<Rightarrow> u8 \<Rightarrow> bool" where
  "cover L x t \<longleftrightarrow> (\<exists>l \<in> set L. fl_type l = t \<and> fl_start l \<le> x \<and> x \<le> fl_end l)"

text \<open>The bytes after the range of \<open>q\<close> has been given the type of \<open>q\<close>.\<close>

definition paint :: "'a file_lock_scheme \<Rightarrow> (int \<Rightarrow> u8 \<Rightarrow> bool) \<Rightarrow> int \<Rightarrow> u8 \<Rightarrow> bool" where
  "paint q C x t \<longleftrightarrow> (if fl_start q \<le> x \<and> x \<le> fl_end q then t = fl_type q \<and> t \<noteq> F_UNLCK else C x t)"

definition waits :: "held_lock list \<Rightarrow> (nat \<times> file_lock) set" where
  "waits L = (\<Union>l \<in> set L. set (fl_block l))"

text \<open>Every queue of \<open>L\<close> was the queue of a lock of \<open>S\<close> with the type and inside the range.\<close>

definition kept :: "held_lock list \<Rightarrow> held_lock list \<Rightarrow> bool" where
  "kept S L \<longleftrightarrow> (\<forall>l \<in> set L. \<forall>w \<in> set (fl_block l). \<exists>l0 \<in> set S. w \<in> set (fl_block l0) \<and>
     fl_type l0 = fl_type l \<and> fl_start l \<le> fl_start l0 \<and> fl_end l0 \<le> fl_end l)"

lemma clear_trans: "clear a b \<Longrightarrow> clear b c \<Longrightarrow> fl_start b \<le> fl_end b \<Longrightarrow> clear a c"
  by (auto simp: clear_def)

lemma set_range_simps [simp]:
  "fl_start (set_range lo hi l) = lo" "fl_end (set_range lo hi l) = hi" "fl_type (set_range lo hi l) = fl_type l"
  "fl_owner (set_range lo hi l) = fl_owner l" "fl_flags (set_range lo hi l) = fl_flags l"
  "fl_lmops (set_range lo hi l) = fl_lmops l" "fl_file (set_range lo hi l) = fl_file l"
  by (simp_all add: set_range_def)

lemma set_range_block [simp]: "fl_block (set_range lo hi l) = fl_block l"
  by (simp add: set_range_def)

lemma truncate_simps [simp]:
  "fl_start (file_lock.truncate l) = fl_start l" "fl_end (file_lock.truncate l) = fl_end l"
  "fl_type (file_lock.truncate l) = fl_type l" "fl_owner (file_lock.truncate l) = fl_owner l"
  "fl_flags (file_lock.truncate l) = fl_flags l" "fl_lmops (file_lock.truncate l) = fl_lmops l"
  "fl_file (file_lock.truncate l) = fl_file l"
  by (simp_all add: file_lock.truncate_def)

lemma held_simps [simp]:
  "fl_start (held l) = fl_start l" "fl_end (held l) = fl_end l" "fl_type (held l) = fl_type l"
  "fl_owner (held l) = fl_owner l" "fl_flags (held l) = fl_flags l" "fl_lmops (held l) = fl_lmops l"
  "fl_file (held l) = fl_file l" "fl_block (held l) = []"
  by (simp_all add: held_def file_lock.extend_def held_lock.fields_def)

lemma trim_simps [simp]:
  "fl_start (trim_left lo l) = fl_start l" "fl_end (trim_left lo l) = lo - 1" "fl_type (trim_left lo l) = fl_type l"
  "fl_owner (trim_left lo l) = fl_owner l" "fl_flags (trim_left lo l) = fl_flags l"
  "fl_lmops (trim_left lo l) = fl_lmops l" "fl_block (trim_left lo l) = []"
  "fl_start (trim_right hi l) = hi + 1" "fl_end (trim_right hi l) = fl_end l" "fl_type (trim_right hi l) = fl_type l"
  "fl_owner (trim_right hi l) = fl_owner l" "fl_flags (trim_right hi l) = fl_flags l"
  "fl_lmops (trim_right hi l) = fl_lmops l" "fl_block (trim_right hi l) = []"
  by (simp_all add: trim_left_def trim_right_def)

lemma IS_POSIX_simps [simp]:
  "IS_POSIX (set_range lo hi l) = IS_POSIX l" "IS_POSIX (file_lock.truncate l) = IS_POSIX l"
  "IS_POSIX (held q) = IS_POSIX q" "IS_POSIX (trim_left lo k) = IS_POSIX k" "IS_POSIX (trim_right hi k) = IS_POSIX k"
  by (simp_all add: IS_POSIX_def)

lemma cover_append [simp]: "cover (A @ B) x t \<longleftrightarrow> cover A x t \<or> cover B x t"
  by (auto simp: cover_def)

lemma cover_Cons [simp]:
  "cover (l # B) x t \<longleftrightarrow> fl_type l = t \<and> fl_start l \<le> x \<and> x \<le> fl_end l \<or> cover B x t"
  by (auto simp: cover_def)

lemma cover_Nil [simp]: "\<not> cover [] x t" by (simp add: cover_def)

lemma waits_simps [simp]:
  "waits [] = {}" "waits (l # L) = set (fl_block l) \<union> waits L" "waits (A @ B) = waits A \<union> waits B"
  by (auto simp: waits_def)

lemma same_owner_plain: "fl_lmops a = None \<Longrightarrow> posix_same_owner cmp a b \<longleftrightarrow> fl_owner a = fl_owner b"
  by (simp add: posix_same_owner_def)

lemma sorted_other_bytes:
  assumes "sorted_wrt clear (D @ x # R)" "\<forall>l \<in> set (D @ x # R). fl_start l \<le> fl_end l"
    and "fl_start x \<le> p" "p \<le> fl_end x"
  shows "\<not> cover (D @ R) p t"
proof
  assume "cover (D @ R) p t"
  then obtain l where l: "l \<in> set (D @ R)" "fl_start l \<le> p" "p \<le> fl_end l" by (auto simp: cover_def)
  then have "clear l x \<or> clear x l" using assms(1) by (auto simp: sorted_wrt_append)
  then show False using l assms(3,4) by (auto simp: clear_def)
qed

lemma paint_absorb:
  assumes "sorted_wrt clear (D @ x # R)" "\<forall>l \<in> set (D @ x # R). fl_start l \<le> fl_end l"
    and "fl_type x = fl_type q" "fl_type x \<noteq> F_UNLCK" "fl_start x \<le> fl_end q + 1" "fl_start q \<le> fl_end x + 1"
    and q': "fl_type q' = fl_type q" "fl_start q' = min (fl_start q) (fl_start x)" "fl_end q' = max (fl_end q) (fl_end x)"
  shows "paint q' (cover (D @ R)) p t \<longleftrightarrow> paint q (cover (D @ x # R)) p t"
proof -
  consider (x) "fl_start x \<le> p" "p \<le> fl_end x" | (q) "fl_start q \<le> p" "p \<le> fl_end q"
    | (out) "\<not> (fl_start x \<le> p \<and> p \<le> fl_end x)" "\<not> (fl_start q \<le> p \<and> p \<le> fl_end q)" by blast
  then show ?thesis
  proof cases
    case x
    with sorted_other_bytes [OF assms(1,2) x] assms(3,4) q' show ?thesis by (auto simp: paint_def)
  next
    case q
    with q' show ?thesis by (auto simp: paint_def)
  next
    case out
    with assms(5,6) q' have "\<not> (fl_start q' \<le> p \<and> p \<le> fl_end q')" by auto
    with out show ?thesis by (auto simp: paint_def)
  qed
qed

lemma paint_inside:
  "fl_start q \<le> fl_start x \<Longrightarrow> fl_end x \<le> fl_end q \<Longrightarrow>
    paint q (cover (D @ R)) p t \<longleftrightarrow> paint q (cover (D @ x # R)) p t"
  by (auto simp: paint_def)

lemma paint_same: "fl_start q' = fl_start q \<Longrightarrow> fl_end q' = fl_end q \<Longrightarrow> fl_type q' = fl_type q \<Longrightarrow>
    paint q' C = paint q C"
  by (auto simp: paint_def fun_eq_iff)

section \<open>The loop over the locks of the owner\<close>

text \<open>
  \<open>D\<close>: the locks passed; \<open>F\<close>: the lock the request became, if it did; \<open>R\<close>: the locks to
  come. \<open>left_ok\<close>: everything in \<open>D\<close> ends before the request, except for the last lock if it
  is \<open>left\<close>; \<open>n\<close> locks of other owners come first.
\<close>

definition left_ok :: "nat \<Rightarrow> held_lock list \<Rightarrow> plf_vars \<Rightarrow> bool" where
  "left_ok n D v \<longleftrightarrow> p_left v = None \<and> (\<forall>d \<in> set D. clear d (p_req v)) \<or>
     (\<exists>D' l. D = D' @ [l] \<and> p_left v = Some (n + length D') \<and> fl_type l \<noteq> fl_type (p_req v) \<and>
       fl_start l < fl_start (p_req v) \<and> fl_start (p_req v) \<le> fl_end l \<and> fl_end l \<le> fl_end (p_req v) \<and>
       (\<forall>d \<in> set D'. clear d (p_req v)))"

definition req_ok :: "nat \<Rightarrow> held_lock list \<Rightarrow> file_lock \<Rightarrow> nat \<Rightarrow> held_lock list \<Rightarrow> held_lock list \<Rightarrow> held_lock list \<Rightarrow> plf_vars \<Rightarrow> bool" where
  "req_ok own S r0 n D F R v \<longleftrightarrow>
     (if F = [] then p_at v = None \<and> p_req v = r0 \<and> (if p_added v then fl_type r0 = F_UNLCK else D @ R = S)
      else \<exists>f. F = [f] \<and> p_at v = Some (n + length D) \<and> p_added v \<and> fl_type r0 \<noteq> F_UNLCK \<and>
        fl_start f = fl_start (p_req v) \<and> fl_end f = fl_end (p_req v) \<and> fl_type f = fl_type r0 \<and>
        (\<forall>x \<in> set R. fl_start (p_req v) \<le> fl_start x))"

definition loop_inv :: "nat \<Rightarrow> held_lock list \<Rightarrow> file_lock \<Rightarrow> nat \<Rightarrow> held_lock list \<Rightarrow> held_lock list \<Rightarrow> held_lock list \<Rightarrow> plf_vars \<Rightarrow> bool" where
  "loop_inv own S r0 n D F R v \<longleftrightarrow>
     sorted_wrt clear (D @ R) \<and> (\<forall>l \<in> set (D @ F @ R). good own l) \<and> plain own (p_req v) \<and>
     fl_type (p_req v) = fl_type r0 \<and> req_ok own S r0 n D F R v \<and>
     (\<forall>x t. paint (p_req v) (cover (D @ R)) x t \<longleftrightarrow> paint r0 (cover S) x t) \<and>
     kept S (D @ F @ R) \<and> waits S \<subseteq> waits (D @ F @ R) \<union> set (p_woken v) \<and> set (D @ R) \<subseteq> set S"

text \<open>The three ways out of the loop.\<close>

definition loop_exit :: "nat \<Rightarrow> held_lock list \<Rightarrow> held_lock list \<Rightarrow> held_lock list \<Rightarrow> plf_vars \<Rightarrow> bool" where
  "loop_exit n D F R v \<longleftrightarrow>
     (if p_right v
      then \<exists>x R'. R = x # R' \<and> fl_type x \<noteq> fl_type (p_req v) \<and> fl_start x \<le> fl_end (p_req v) \<and>
        fl_end (p_req v) < fl_end x \<and> (\<forall>y \<in> set R'. clear (p_req v) y) \<and>
        (p_added v \<or> fl_type (p_req v) \<noteq> F_UNLCK) \<and>
        (if fl_start x < fl_start (p_req v)
         then p_left v = Some (n + length D) \<and> F = [] \<and> (\<forall>d \<in> set D. clear d (p_req v))
         else left_ok n D v)
      else (\<forall>x \<in> set R. clear (p_req v) x) \<and> left_ok n D v \<and>
        (p_left v = None \<or> p_added v \<or> fl_type (p_req v) \<noteq> F_UNLCK))"

lemma loop_invD:
  assumes "loop_inv own S r0 n D F R v"
  shows "sorted_wrt clear (D @ R)" "\<And>l. l \<in> set (D @ F @ R) \<Longrightarrow> good own l" "plain own (p_req v)"
    "fl_type (p_req v) = fl_type r0" "req_ok own S r0 n D F R v"
    "\<And>x t. paint (p_req v) (cover (D @ R)) x t \<longleftrightarrow> paint r0 (cover S) x t"
    "kept S (D @ F @ R)" "waits S \<subseteq> waits (D @ F @ R) \<union> set (p_woken v)" "set (D @ R) \<subseteq> set S"
  using assms by (auto simp: loop_inv_def)

text \<open>Once there is a lock at \<open>left\<close> or the request is in the list, no later lock begins before it.\<close>

lemma no_later_start:
  assumes "loop_inv own S r0 n D F (x # R) v" "left_ok n D v" "fl_start x < fl_start (p_req v)"
  shows "F = [] \<and> p_left v = None \<and> (\<forall>d \<in> set D. clear d (p_req v))"
proof -
  have "F = []" using loop_invD(5) [OF assms(1)] assms(3) by (auto simp: req_ok_def split: if_splits)
  moreover have "clear l x" if "l \<in> set D" for l
    using loop_invD(1) [OF assms(1)] that by (simp add: sorted_wrt_append)
  then have "\<not> (\<exists>D' l. D = D' @ [l] \<and> fl_start (p_req v) \<le> fl_end l)"
    using assms(3) by (fastforce simp: clear_def)
  ultimately show ?thesis using assms(2) unfolding left_ok_def by blast
qed

text \<open>A lock that is passed.\<close>

lemma pass_lock:
  assumes inv: "loop_inv own S r0 n D [] (x # R) v"
  shows "loop_inv own S r0 n (D @ [x]) [] R v"
  using inv unfolding loop_inv_def req_ok_def by auto

lemma kept_step:
  assumes "kept S (A @ x # B)" and y: "fl_block y = fl_block x \<or> fl_block y = []"
    "fl_block y \<noteq> [] \<Longrightarrow> fl_type y = fl_type x \<and> fl_start y \<le> fl_start x \<and> fl_end x \<le> fl_end y"
  shows "kept S (A @ y # B)"
  unfolding kept_def
proof (intro ballI)
  fix l w assume l: "l \<in> set (A @ y # B)" and w: "w \<in> set (fl_block l)"
  show "\<exists>l0 \<in> set S. w \<in> set (fl_block l0) \<and> fl_type l0 = fl_type l \<and> fl_start l \<le> fl_start l0 \<and> fl_end l0 \<le> fl_end l"
  proof (cases "l = y")
    case True
    then have "w \<in> set (fl_block x)" "fl_block y \<noteq> []" using w y(1) by auto
    moreover from this(1) obtain l0 where "l0 \<in> set S" "w \<in> set (fl_block l0)" "fl_type l0 = fl_type x"
      "fl_start x \<le> fl_start l0" "fl_end l0 \<le> fl_end x"
      using assms(1) by (auto simp: kept_def)
    ultimately show ?thesis using True y(2) by (intro bexI [of _ l0]) auto
  next
    case False
    then show ?thesis using l w assms(1) by (auto simp: kept_def)
  qed
qed

lemma kept_sub: "kept S L \<Longrightarrow> set L' \<subseteq> set L \<Longrightarrow> kept S L'"
  unfolding kept_def by blast

text \<open>A lock inside the range of a request that is in the list already, or of an unlock, is deleted.\<close>

lemma delete_lock:
  assumes inv: "loop_inv own S r0 n D F (x # R) v" and "p_added v"
    and "fl_start (p_req v) \<le> fl_start x" "fl_end x \<le> fl_end (p_req v)"
  shows "loop_inv own S r0 n D F R (v\<lparr>p_woken := p_woken v @ fl_block x\<rparr>)"
proof -
  note I = loop_invD [OF inv]
  have "req_ok own S r0 n D F R (v\<lparr>p_woken := p_woken v @ fl_block x\<rparr>)"
    using I(5) assms(2) by (auto simp: req_ok_def split: if_splits)
  moreover have "kept S (D @ F @ R)" using I(7) by (rule kept_sub) auto
  ultimately show ?thesis
    using I(1-4,6,8,9) paint_inside [OF assms(3,4), of D R] unfolding loop_inv_def
    by (auto simp: sorted_wrt_append)
qed

text \<open>The request replaces a lock of another type inside its range.\<close>

lemma replace_lock:
  assumes inv: "loop_inv own S r0 n D [] (x # R) v" and "\<not> p_added v" "fl_type r0 \<noteq> F_UNLCK"
    and x: "fl_start (p_req v) \<le> fl_start x" "fl_end x \<le> fl_end (p_req v)"
    and y: "y = (set_range (fl_start (p_req v)) (fl_end (p_req v)) x)\<lparr>fl_type := fl_type (p_req v), fl_lmops := fl_lmops (p_req v), fl_block := []\<rparr>"
  shows "loop_inv own S r0 n D [y] R (v\<lparr>p_woken := p_woken v @ fl_block x,
    p_req := file_lock.truncate y, p_at := Some (n + length D), p_added := True\<rparr>)"
proof -
  note I = loop_invD [OF inv]
  have y': "fl_start y = fl_start (p_req v)" "fl_end y = fl_end (p_req v)" "fl_type y = fl_type (p_req v)"
    "fl_block y = []" "fl_owner y = fl_owner x" "fl_lmops y = fl_lmops (p_req v)" "IS_POSIX y = IS_POSIX x"
    unfolding y by (simp_all add: IS_POSIX_def set_range_def)
  have gx: "good own x" using I(2) by simp
  have "\<forall>z \<in> set R. fl_start x \<le> fl_start z"
    using I(1) gx by (auto simp: sorted_wrt_append clear_def good_def plain_def)
  then have later: "\<forall>z \<in> set R. fl_start (p_req v) \<le> fl_start z" using x(1) by force
  have gy: "good own y" "plain own (file_lock.truncate y)"
    using gx I(3,4) assms(3) y' unfolding good_def plain_def by simp_all
  have pc: "paint (file_lock.truncate y) C = paint (p_req v) C" for C by (rule paint_same) (simp_all add: y')
  have "kept S (D @ [y] @ R)"
    using kept_step [of S D x R y] I(7) y'(4) by simp
  then show ?thesis
    using I(1,2,4,6,8,9) gy later paint_inside [OF x, of D R] y' assms(3) unfolding loop_inv_def req_ok_def
    by (auto simp: sorted_wrt_append pc)
qed

text \<open>A lock of the same type that touches the request is merged.\<close>

lemma left_ok_grow:
  "left_ok n D v \<Longrightarrow> p_left v' = p_left v \<Longrightarrow> fl_type (p_req v') = fl_type (p_req v) \<Longrightarrow>
    fl_start (p_req v') = fl_start (p_req v) \<Longrightarrow> fl_end (p_req v) \<le> fl_end (p_req v') \<Longrightarrow> left_ok n D v'"
  unfolding left_ok_def clear_def by force

lemma merge_bounds:
  "(if fl_start x > fl_start q then fl_start q else fl_start x) = min (fl_start q) (fl_start x)"
  "(if fl_end x < fl_end q then fl_end q else fl_end x) = max (fl_end q) (fl_end x)"
  by auto

lemma merge_added:
  assumes inv: "loop_inv own S r0 (length pre) D F (x # R) v" and l: "left_ok (length pre) D v" and "p_added v"
    and x: "fl_type x = fl_type (p_req v)" "fl_start x \<le> fl_end (p_req v) + 1" "fl_start (p_req v) \<le> fl_end x + 1"
    and lo: "lo = min (fl_start (p_req v)) (fl_start x)" and hi: "hi = max (fl_end (p_req v)) (fl_end x)"
  shows "\<exists>F' v'. write_request lo hi (pre @ D @ F) v = (pre @ D @ F', v') \<and> p_added v' \<and> p_right v' = p_right v \<and>
    loop_inv own S r0 (length pre) D F' R (v'\<lparr>p_woken := p_woken v' @ fl_block x\<rparr>) \<and>
    left_ok (length pre) D (v'\<lparr>p_woken := p_woken v' @ fl_block x\<rparr>)"
proof -
  note I = loop_invD [OF inv]
  have gx: "good own x" using I(2) by simp
  with x(1) I(4) have tx: "fl_type r0 \<noteq> F_UNLCK" by (simp add: good_def)
  with I(5) assms(3) obtain f where F: "F = [f]" "p_at v = Some (length pre + length D)"
    "fl_start f = fl_start (p_req v)" "fl_end f = fl_end (p_req v)" "fl_type f = fl_type r0"
    "\<forall>z \<in> set (x # R). fl_start (p_req v) \<le> fl_start z"
    by (auto simp: req_ok_def split: if_splits)
  have lo': "lo = fl_start (p_req v)" using F(6) lo by simp
  define v' where "v' = v\<lparr>p_req := set_range lo hi (p_req v)\<rparr>"
  define v2 where "v2 = v'\<lparr>p_woken := p_woken v' @ fl_block x\<rparr>"
  define f' where "f' = set_range lo hi f"
  have w: "write_request lo hi (pre @ D @ F) v = (pre @ D @ [f'], v')"
    by (simp add: write_request_def F(1,2) v'_def f'_def list_update_append)
  have p2: "p_req v2 = set_range lo hi (p_req v)" "p_at v2 = p_at v" "p_added v2" "p_left v2 = p_left v"
    "p_woken v2 = p_woken v @ fl_block x" by (simp_all add: v2_def v'_def assms(3))
  have gf: "good own f'" using I(2) [of f] gx I(3) hi lo' by (auto simp: F(1) f'_def good_def plain_def)
  have span: "\<forall>l \<in> set (D @ x # R). fl_start l \<le> fl_end l" using I(2) by (auto simp: good_def plain_def)
  have "paint (p_req v2) (cover (D @ R)) y t \<longleftrightarrow> paint (p_req v) (cover (D @ x # R)) y t" for y t
    by (rule paint_absorb [OF I(1) span x(1)]) (use x gx lo hi p2 in \<open>simp_all add: good_def\<close>)
  moreover have "req_ok own S r0 (length pre) D [f'] R v2"
    using F lo' tx by (simp add: req_ok_def p2 f'_def)
  moreover have "kept S (D @ [f'] @ R)"
  proof -
    have "kept S (D @ f # R)" using I(7) unfolding F(1) by (rule kept_sub) auto
    then have "kept S (D @ f' # R)"
      by (rule kept_step) (use F hi lo' in \<open>simp_all add: f'_def\<close>)
    then show ?thesis by simp
  qed
  moreover have "plain own (p_req v2)" using I(3) gx lo' hi by (auto simp: p2 good_def plain_def)
  ultimately have "loop_inv own S r0 (length pre) D [f'] R v2"
    using I(1,2,4,6,8,9) gf unfolding loop_inv_def p2(1,5) F(1)
    by (auto simp: sorted_wrt_append f'_def)
  moreover have "left_ok (length pre) D v2"
    by (rule left_ok_grow [OF l]) (simp_all add: p2 lo' hi)
  ultimately show ?thesis unfolding w v2_def
    by (intro exI [of _ "[f']"] exI [of _ v']) (simp add: v'_def assms(3))
qed

lemma merge_new:
  assumes inv: "loop_inv own S r0 n D [] (x # R) v" and l: "left_ok n D v" and "\<not> p_added v"
    and x: "fl_type x = fl_type (p_req v)" "fl_start x \<le> fl_end (p_req v) + 1" "fl_start (p_req v) \<le> fl_end x + 1"
    and y: "y = set_range (min (fl_start (p_req v)) (fl_start x)) (max (fl_end (p_req v)) (fl_end x)) x"
    and v': "v' = v\<lparr>p_req := file_lock.truncate y, p_at := Some (n + length D), p_added := True\<rparr>"
  shows "loop_inv own S r0 n D [y] R v' \<and> left_ok n D v'"
proof -
  note I = loop_invD [OF inv]
  have gx: "good own x" using I(2) by simp
  with x(1) I(4) have tx: "fl_type r0 \<noteq> F_UNLCK" by (simp add: good_def)
  have gy: "good own y" using gx I(3) by (auto simp: y good_def plain_def)
  have span: "\<forall>l \<in> set (D @ x # R). fl_start l \<le> fl_end l" using I(2) by (auto simp: good_def plain_def)
  have later: "\<forall>z \<in> set R. clear x z" "\<forall>d \<in> set D. clear d x" using I(1) by (auto simp: sorted_wrt_append)
  have "paint (p_req v') (cover (D @ R)) b t \<longleftrightarrow> paint (p_req v) (cover (D @ x # R)) b t" for b t
    by (rule paint_absorb [OF I(1) span x(1)]) (use x gx in \<open>simp_all add: good_def v' y\<close>)
  moreover have "req_ok own S r0 n D [y] R v'"
    using later(1) gx tx x(1) I(4) by (auto simp: req_ok_def v' y clear_def good_def plain_def)
  moreover have "kept S (D @ [y] @ R)"
    using kept_step [of S D x R y] I(7) by (simp add: y)
  moreover have "plain own (p_req v')" using gy by (simp add: v' good_def plain_def)
  ultimately have "loop_inv own S r0 n D [y] R v'"
    using I(1,2,4,6,8,9) gy x(1) unfolding loop_inv_def
    by (auto simp: sorted_wrt_append v' y)
  moreover have "left_ok n D v'"
  proof (cases "fl_start (p_req v) \<le> fl_start x")
    case True
    show ?thesis by (rule left_ok_grow [OF l]) (use True x(1) in \<open>simp_all add: v' y\<close>)
  next
    case False
    with no_later_start [OF inv l] have "p_left v = None" by simp
    moreover have "fl_start y = fl_start x" "fl_type y = fl_type x" using False by (simp_all add: y)
    ultimately show ?thesis using later(2) by (auto simp: left_ok_def v' clear_def)
  qed
  ultimately show ?thesis by blast
qed

lemma loop_inv_flags [simp]:
  "loop_inv own S r0 n D F R (v\<lparr>p_left := l\<rparr>) = loop_inv own S r0 n D F R v"
  "loop_inv own S r0 n D F R (v\<lparr>p_right := b\<rparr>) = loop_inv own S r0 n D F R v"
  by (simp_all add: loop_inv_def req_ok_def)

lemma left_ok_flags [simp]:
  "left_ok n D (v\<lparr>p_added := b\<rparr>) = left_ok n D v" "left_ok n D (v\<lparr>p_right := b\<rparr>) = left_ok n D v"
  "left_ok n D (v\<lparr>p_woken := ws\<rparr>) = left_ok n D v"
  by (simp_all add: left_ok_def)

lemma loop_inv_added:
  "loop_inv own S r0 n D F R v \<Longrightarrow> fl_type (p_req v) = F_UNLCK \<Longrightarrow> loop_inv own S r0 n D F R (v\<lparr>p_added := True\<rparr>)"
  unfolding loop_inv_def req_ok_def by (auto split: if_splits)

text \<open>Where the loop stands, and that it leaves.\<close>

definition loop_ready :: "nat \<Rightarrow> held_lock list \<Rightarrow> file_lock \<Rightarrow> nat \<Rightarrow> held_lock list \<Rightarrow> held_lock list \<Rightarrow> held_lock list \<Rightarrow> plf_vars \<Rightarrow> bool" where
  "loop_ready own S r0 n D F R v \<longleftrightarrow> loop_inv own S r0 n D F R v \<and> left_ok n D v \<and> \<not> p_right v \<and>
     (p_left v = None \<or> p_added v \<or> fl_type (p_req v) \<noteq> F_UNLCK)"

definition loop_leaves :: "owner_cmp \<Rightarrow> nat \<Rightarrow> held_lock list \<Rightarrow> file_lock \<Rightarrow> held_lock list \<Rightarrow> held_lock list \<Rightarrow> held_lock list \<Rightarrow> held_lock list \<Rightarrow> plf_vars \<Rightarrow> bool" where
  "loop_leaves cmp own S r0 pre post bef R v \<longleftrightarrow>
     (\<exists>D' F' R' v'. owner_loop cmp bef (R @ post) v = (pre @ D' @ F', R' @ post, v') \<and>
        loop_inv own S r0 (length pre) D' F' R' v' \<and> loop_exit (length pre) D' F' R' v')"

lemma loop_same_type:
  assumes IH: "\<And>D F v. loop_ready own S r0 (length pre) D F R v \<Longrightarrow> loop_leaves cmp own S r0 pre post (pre @ D @ F) R v"
    and ready: "loop_ready own S r0 (length pre) D F (x # R) v" and True: "fl_type (p_req v) = fl_type x"
  shows "loop_leaves cmp own S r0 pre post (pre @ D @ F) (x # R) v"
proof -
  let ?n = "length pre" and ?bef = "pre @ D @ F" and ?q = "p_req v"
  from ready have inv: "loop_inv own S r0 ?n D F (x # R) v" and left: "left_ok ?n D v" and right0: "\<not> p_right v"
    and added0: "p_left v = None \<or> p_added v \<or> fl_type ?q \<noteq> F_UNLCK" by (simp_all add: loop_ready_def)
  note I = loop_invD [OF inv]
  have gx: "good own x" using I(2) by simp
  then have xs: "fl_start x \<le> fl_end x" "fl_type x \<noteq> F_UNLCK" by (simp_all add: good_def plain_def)
  have same: "posix_same_owner cmp ?q x" using I(3) gx by (simp add: same_owner_plain good_def plain_def)
  have later: "\<forall>y \<in> set R. clear x y" using I(1) by (simp add: sorted_wrt_append)
  have exit: ?thesis if "owner_loop cmp ?bef (x # R @ post) v = (?bef, x # R @ post, v')"
    "loop_inv own S r0 ?n D F (x # R) v'" "loop_exit ?n D F (x # R) v'" for v'
    using that unfolding loop_leaves_def
    by (intro exI [of _ D] exI [of _ F] exI [of _ "x # R"] exI [of _ v']) simp
  have go: ?thesis if "owner_loop cmp ?bef (x # R @ post) v = owner_loop cmp (pre @ D' @ F') (R @ post) v'"
    "loop_inv own S r0 ?n D' F' R v'" "left_ok ?n D' v'" "\<not> p_right v'"
    "p_left v' = None \<or> p_added v' \<or> fl_type (p_req v') \<noteq> F_UNLCK" for D' F' v'
    using IH [of D' F' v'] that by (simp add: loop_ready_def loop_leaves_def)
  consider (before) "fl_end x < fl_start ?q - 1" | (after) "\<not> fl_end x < fl_start ?q - 1" "fl_start x - 1 > fl_end ?q"
    | (merge) "\<not> fl_end x < fl_start ?q - 1" "\<not> fl_start x - 1 > fl_end ?q" by blast
  then show ?thesis
  proof cases
    case before
    with no_later_start [OF inv left] xs have n: "F = []" "p_left v = None" "\<forall>d \<in> set D. clear d ?q" by auto
    show ?thesis
    proof (rule go)
      show "owner_loop cmp ?bef (x # R @ post) v = owner_loop cmp (pre @ (D @ [x]) @ []) (R @ post) v"
        using before True same n(1) by simp
      show "loop_inv own S r0 ?n (D @ [x]) [] R v" using inv n(1) pass_lock by blast
      show "left_ok ?n (D @ [x]) v" using n before by (auto simp: left_ok_def clear_def)
    qed (use n right0 in auto)
  next
    case after
    show ?thesis
    proof (rule exit)
      show "owner_loop cmp ?bef (x # R @ post) v = (?bef, x # R @ post, v)" using after True same by simp
      have "clear ?q x" using after by (auto simp: clear_def)
      then show "loop_exit ?n D F (x # R) v"
        using left right0 later xs added0 by (auto simp: loop_exit_def intro: clear_trans)
    qed (rule inv)
  next
    case merge
    let ?lo = "min (fl_start ?q) (fl_start x)" and ?hi = "max (fl_end ?q) (fl_end x)"
    have x: "fl_type x = fl_type ?q" "fl_start x \<le> fl_end ?q + 1" "fl_start ?q \<le> fl_end x + 1"
      using merge True by auto
    show ?thesis
    proof (cases "p_added v")
      case added: True
      from merge_added [OF inv left added x refl refl] obtain F' v' where
        w: "write_request ?lo ?hi ?bef v = (pre @ D @ F', v')" "p_added v'" "p_right v' = p_right v"
          "loop_inv own S r0 ?n D F' R (v'\<lparr>p_woken := p_woken v' @ fl_block x\<rparr>)"
          "left_ok ?n D (v'\<lparr>p_woken := p_woken v' @ fl_block x\<rparr>)" by blast
      have "owner_loop cmp ?bef (x # R @ post) v =
          owner_loop cmp (pre @ D @ F') (R @ post) (v'\<lparr>p_woken := p_woken v' @ fl_block x\<rparr>)"
        using merge True same added w(1) by (simp only: owner_loop.simps Let_def merge_bounds) simp
      from go [OF this w(4,5)] w(2,3) right0 show ?thesis by simp
    next
      case new: False
      then have F: "F = []" using I(5) by (auto simp: req_ok_def split: if_splits)
      let ?y = "set_range ?lo ?hi x"
      let ?v = "v\<lparr>p_req := file_lock.truncate ?y, p_at := Some (?n + length D), p_added := True\<rparr>"
      from merge_new [OF inv [unfolded F] left new x refl refl]
      have m: "loop_inv own S r0 ?n D [?y] R ?v" "left_ok ?n D ?v" by blast+
      have "owner_loop cmp ?bef (x # R @ post) v = owner_loop cmp (pre @ D @ [?y]) (R @ post) ?v"
        using merge True same new F by (simp only: owner_loop.simps Let_def merge_bounds) simp
      from go [OF this m] right0 show ?thesis by simp
    qed
  qed
qed

lemma loop_other_type:
  assumes IH: "\<And>D F v. loop_ready own S r0 (length pre) D F R v \<Longrightarrow> loop_leaves cmp own S r0 pre post (pre @ D @ F) R v"
    and ready: "loop_ready own S r0 (length pre) D F (x # R) v" and False: "fl_type (p_req v) \<noteq> fl_type x"
  shows "loop_leaves cmp own S r0 pre post (pre @ D @ F) (x # R) v"
proof -
  let ?n = "length pre" and ?bef = "pre @ D @ F" and ?q = "p_req v"
  from ready have inv: "loop_inv own S r0 ?n D F (x # R) v" and left: "left_ok ?n D v" and right0: "\<not> p_right v"
    and added0: "p_left v = None \<or> p_added v \<or> fl_type ?q \<noteq> F_UNLCK" by (simp_all add: loop_ready_def)
  note I = loop_invD [OF inv]
  have gx: "good own x" using I(2) by simp
  then have xs: "fl_start x \<le> fl_end x" "fl_type x \<noteq> F_UNLCK" by (simp_all add: good_def plain_def)
  have same: "posix_same_owner cmp ?q x" using I(3) gx by (simp add: same_owner_plain good_def plain_def)
  have later: "\<forall>y \<in> set R. clear x y" using I(1) by (simp add: sorted_wrt_append)
  have exit: ?thesis if "owner_loop cmp ?bef (x # R @ post) v = (?bef, x # R @ post, v')"
    "loop_inv own S r0 ?n D F (x # R) v'" "loop_exit ?n D F (x # R) v'" for v'
    using that unfolding loop_leaves_def
    by (intro exI [of _ D] exI [of _ F] exI [of _ "x # R"] exI [of _ v']) simp
  have go: ?thesis if "owner_loop cmp ?bef (x # R @ post) v = owner_loop cmp (pre @ D' @ F') (R @ post) v'"
    "loop_inv own S r0 ?n D' F' R v'" "left_ok ?n D' v'" "\<not> p_right v'"
    "p_left v' = None \<or> p_added v' \<or> fl_type (p_req v') \<noteq> F_UNLCK" for D' F' v'
    using IH [of D' F' v'] that by (simp add: loop_ready_def loop_leaves_def)
  consider (before) "fl_end x < fl_start ?q" | (after) "\<not> fl_end x < fl_start ?q" "fl_start x > fl_end ?q"
    | (overlap) "\<not> fl_end x < fl_start ?q" "\<not> fl_start x > fl_end ?q" by blast
  then show ?thesis
  proof cases
    case before
    with no_later_start [OF inv left] xs have n: "F = []" "p_left v = None" "\<forall>d \<in> set D. clear d ?q" by auto
    show ?thesis
    proof (rule go)
      show "owner_loop cmp ?bef (x # R @ post) v = owner_loop cmp (pre @ (D @ [x]) @ []) (R @ post) v"
        using before False same n(1) by simp
      show "loop_inv own S r0 ?n (D @ [x]) [] R v" using inv n(1) pass_lock by blast
      show "left_ok ?n (D @ [x]) v" using n before False by (auto simp: left_ok_def clear_def)
    qed (use n right0 in auto)
  next
    case after
    show ?thesis
    proof (rule exit)
      show "owner_loop cmp ?bef (x # R @ post) v = (?bef, x # R @ post, v)" using after False same by simp
      have "clear ?q x" using after False by (auto simp: clear_def)
      then show "loop_exit ?n D F (x # R) v"
        using left right0 later xs added0 by (auto simp: loop_exit_def intro: clear_trans)
    qed (rule inv)
  next
    case overlap
    define va where "va = (if fl_type ?q = F_UNLCK then v\<lparr>p_added := True\<rparr> else v)"
    define vb where "vb = (if fl_start x < fl_start ?q then va\<lparr>p_left := Some (length ?bef)\<rparr> else va)"
    have va: "p_req va = ?q" "p_left va = p_left v" "p_right va = p_right v" "p_woken va = p_woken v"
      "fl_type ?q = F_UNLCK \<longrightarrow> p_added va" "left_ok ?n D va"
      using left by (simp_all add: va_def)
    have inva: "loop_inv own S r0 ?n D F (x # R) va"
      using inv loop_inv_added by (auto simp: va_def)
    have vb: "p_req vb = ?q" "p_added vb = p_added va" "p_right vb = p_right v" "p_woken vb = p_woken v"
      using va by (simp_all add: vb_def)
    have invb: "loop_inv own S r0 ?n D F (x # R) vb" using inva by (simp add: vb_def)
    have step: "owner_loop cmp ?bef (x # R @ post) v =
        (if fl_end x > fl_end ?q then (?bef, x # R @ post, vb\<lparr>p_right := True\<rparr>)
         else if fl_start x \<ge> fl_start ?q then
           let v = vb\<lparr>p_woken := p_woken vb @ fl_block x\<rparr> in
           if p_added vb then owner_loop cmp ?bef (R @ post) v
           else
             let fl = (set_range (fl_start ?q) (fl_end ?q) x)\<lparr>fl_type := fl_type ?q, fl_lmops := fl_lmops ?q, fl_block := []\<rparr> in
             owner_loop cmp (?bef @ [fl]) (R @ post)
               (v\<lparr>p_req := file_lock.truncate fl, p_at := Some (length ?bef), p_added := True\<rparr>)
         else owner_loop cmp (?bef @ [x]) (R @ post) vb)"
      using overlap False same va vb
      by (simp only: owner_loop.simps Let_def va_def [symmetric] vb_def [symmetric] if_False if_True not_True_eq_False) simp
    consider (right) "fl_end x > fl_end ?q" | (inside) "\<not> fl_end x > fl_end ?q" "fl_start x \<ge> fl_start ?q"
      | (begins) "\<not> fl_end x > fl_end ?q" "\<not> fl_start x \<ge> fl_start ?q" by blast
    then show ?thesis
    proof cases
      case right
      show ?thesis
      proof (rule exit)
        show "owner_loop cmp ?bef (x # R @ post) v = (?bef, x # R @ post, vb\<lparr>p_right := True\<rparr>)"
          unfolding step using right by simp
        show "loop_inv own S r0 ?n D F (x # R) (vb\<lparr>p_right := True\<rparr>)" using invb by simp
        have "\<forall>y \<in> set R. clear ?q y" using later right xs by (auto simp: clear_def)
        moreover have "if fl_start x < fl_start ?q
            then p_left vb = Some (?n + length D) \<and> F = [] \<and> (\<forall>d \<in> set D. clear d ?q) else left_ok ?n D vb"
          using no_later_start [OF inv left] va(6) by (auto simp: vb_def)
        ultimately show "loop_exit ?n D F (x # R) (vb\<lparr>p_right := True\<rparr>)"
          using False right overlap vb(1,2) va(5) by (auto simp: loop_exit_def)
      qed
    next
      case inside
      then have "vb = va" by (simp add: vb_def)
      show ?thesis
      proof (cases "p_added va")
        case True
        have "fl_start (p_req va) \<le> fl_start x" "fl_end x \<le> fl_end (p_req va)" using inside va(1) by simp_all
        from delete_lock [OF inva True this]
        have d: "loop_inv own S r0 ?n D F R (va\<lparr>p_woken := p_woken va @ fl_block x\<rparr>)" .
        have "owner_loop cmp ?bef (x # R @ post) v = owner_loop cmp ?bef (R @ post) (va\<lparr>p_woken := p_woken va @ fl_block x\<rparr>)"
          unfolding step \<open>vb = va\<close> using inside True by simp
        from go [OF this d] va(3,6) right0 True show ?thesis by simp
      next
        case new: False
        then have t: "fl_type r0 \<noteq> F_UNLCK" "va = v" using va(5) I(4) by (auto simp: va_def)
        then have F: "F = []" using I(5) new by (auto simp: req_ok_def split: if_splits)
        define y where "y = (set_range (fl_start ?q) (fl_end ?q) x)\<lparr>fl_type := fl_type ?q, fl_lmops := fl_lmops ?q, fl_block := []\<rparr>"
        define v2 where "v2 = v\<lparr>p_woken := p_woken v @ fl_block x, p_req := file_lock.truncate y,
          p_at := Some (?n + length D), p_added := True\<rparr>"
        have "fl_start ?q \<le> fl_start x" "fl_end x \<le> fl_end ?q" using inside by simp_all
        from replace_lock [OF inv [unfolded F] new [unfolded t(2)] t(1) this y_def]
        have r: "loop_inv own S r0 ?n D [y] R v2" by (simp add: v2_def)
        have "fl_start y = fl_start ?q" "fl_end y = fl_end ?q" "fl_type y = fl_type ?q" by (simp_all add: y_def set_range_def)
        then have l: "left_ok ?n D v2"
          using left by (intro left_ok_grow [OF left]) (simp_all add: v2_def)
        have "owner_loop cmp ?bef (x # R @ post) v = owner_loop cmp (pre @ D @ [y]) (R @ post) v2"
          unfolding step \<open>vb = va\<close> t(2) using inside new by (simp add: t(2) F y_def v2_def Let_def)
        from go [OF this r l] right0 show ?thesis by (simp add: v2_def)
      qed
    next
      case begins
      with no_later_start [OF inv left] have n: "F = []" "p_left v = None" "\<forall>d \<in> set D. clear d ?q" by auto
      show ?thesis
      proof (rule go)
        show "owner_loop cmp ?bef (x # R @ post) v = owner_loop cmp (pre @ (D @ [x]) @ []) (R @ post) vb"
          unfolding step using begins n(1) by simp
        show "loop_inv own S r0 ?n (D @ [x]) [] R vb" using invb n(1) pass_lock by blast
        have "p_left vb = Some (?n + length D)" using begins n(1) by (simp add: vb_def)
        then show "left_ok ?n (D @ [x]) vb" using n(3) begins overlap False vb(1) by (auto simp: left_ok_def)
      qed (use n vb va(5) right0 in auto)
    qed
  qed
qed

lemma owner_loop_spec:
  assumes post: "post = [] \<or> fl_owner (hd post) \<noteq> own"
  shows "loop_ready own S r0 (length pre) D F R v \<Longrightarrow> loop_leaves cmp own S r0 pre post (pre @ D @ F) R v"
proof (induction R arbitrary: D F v)
  case Nil
  then have inv: "loop_inv own S r0 (length pre) D F [] v" and exit: "loop_exit (length pre) D F [] v"
    by (simp_all add: loop_ready_def loop_exit_def)
  have "fl_owner (p_req v) = own \<and> fl_lmops (p_req v) = None" using loop_invD(3) [OF inv] by (simp add: plain_def)
  with post have "owner_loop cmp (pre @ D @ F) post v = (pre @ D @ F, post, v)"
    by (cases post) (auto simp: same_owner_plain)
  with inv exit show ?case unfolding loop_leaves_def
    by (intro exI [of _ D] exI [of _ F] exI [of _ "[]"] exI [of _ v]) simp
next
  case (Cons x R)
  then show ?case
    by (cases "fl_type (p_req v) = fl_type x") (auto intro: loop_same_type loop_other_type)
qed

section \<open>Inserting and cutting\<close>

text \<open>
  The locks of the owner after the call: \<open>A\<close> before the request, \<open>L\<close> the cut lock to its
  left, \<open>N\<close> the request, \<open>X\<close> the cut lock to its right, \<open>B\<close> after it.
\<close>

lemma assemble_sorted:
  assumes q: "fl_start q \<le> fl_end q"
    and sorted: "sorted_wrt clear A" "sorted_wrt clear B" "\<forall>a \<in> set A. \<forall>b \<in> set B. clear a b"
    and A: "\<forall>a \<in> set A. clear a q" and B: "\<forall>b \<in> set B. clear q b"
    and L: "L = [] \<or> (\<exists>l. L = [l] \<and> fl_end l = fl_start q - 1 \<and> fl_type l \<noteq> fl_type q \<and> (\<forall>a \<in> set A. clear a l))"
    and N: "N = [] \<or> (\<exists>g. N = [g] \<and> fl_start g = fl_start q \<and> fl_end g = fl_end q \<and> fl_type g = fl_type q)"
    and X: "X = [] \<or> (\<exists>x. X = [x] \<and> fl_start x = fl_end q + 1 \<and> fl_type x \<noteq> fl_type q \<and> (\<forall>b \<in> set B. clear x b))"
  shows "sorted_wrt clear (A @ L @ N @ X @ B)"
proof -
  have AX: "\<forall>a \<in> set A. \<forall>x \<in> set X. clear a x" and AN: "\<forall>a \<in> set A. \<forall>g \<in> set N. clear a g"
    and NB: "\<forall>g \<in> set N. \<forall>b \<in> set B. clear g b" and LB: "\<forall>l \<in> set L. \<forall>b \<in> set B. clear l b"
    using q A B X N L by (auto simp: clear_def)
  have LN: "\<forall>l \<in> set L. \<forall>g \<in> set N. clear l g" and LX: "\<forall>l \<in> set L. \<forall>x \<in> set X. clear l x"
    and NX: "\<forall>g \<in> set N. \<forall>x \<in> set X. clear g x"
    using q X N L by (auto simp: clear_def)
  have one: "sorted_wrt clear L" "sorted_wrt clear N" "sorted_wrt clear X"
    and AL: "\<forall>a \<in> set A. \<forall>l \<in> set L. clear a l" and XB: "\<forall>x \<in> set X. \<forall>b \<in> set B. clear x b"
    using L N X by auto
  from one sorted AL AN AX LN LX LB NX NB XB show ?thesis unfolding sorted_wrt_append set_append by blast
qed

lemma assemble_cover:
  assumes q: "fl_start q \<le> fl_end q"
    and A: "\<forall>a \<in> set A. fl_end a < fl_start q" and B: "\<forall>b \<in> set B. fl_end q < fl_start b"
    and LX: "\<And>t'. \<not> (fl_start q \<le> p \<and> p \<le> fl_end q) \<Longrightarrow> cover (L @ X) p t' \<longleftrightarrow> cover M p t'"
      "\<And>t'. fl_start q \<le> p \<and> p \<le> fl_end q \<Longrightarrow> \<not> cover (L @ X) p t'"
    and N: "N = [] \<and> fl_type q = F_UNLCK \<or>
      (\<exists>g. N = [g] \<and> fl_start g = fl_start q \<and> fl_end g = fl_end q \<and> fl_type g = fl_type q \<and> fl_type q \<noteq> F_UNLCK)"
  shows "cover (A @ L @ N @ X @ B) p t \<longleftrightarrow> paint q (cover (A @ M @ B)) p t"
proof (cases "fl_start q \<le> p \<and> p \<le> fl_end q")
  case True
  then have "\<not> cover A p t" "\<not> cover B p t" using A B by (auto simp: cover_def)
  moreover have "cover N p t \<longleftrightarrow> t = fl_type q \<and> t \<noteq> F_UNLCK" using N True by auto
  ultimately show ?thesis using True LX(2) [of t] by (simp add: paint_def)
next
  case False
  have "\<not> cover N p t" using N False by auto
  with False LX(1) [of t] show ?thesis by (auto simp: paint_def)
qed

lemma left_split:
  assumes "left_ok (length pre) D v"
  obtains A M where "D = A @ M" "\<forall>a \<in> set A. clear a (p_req v)"
    "M = [] \<or> (\<exists>l. M = [l] \<and> fl_type l \<noteq> fl_type (p_req v) \<and> fl_start l < fl_start (p_req v) \<and>
      fl_start (p_req v) \<le> fl_end l \<and> fl_end l \<le> fl_end (p_req v))"
    "(case p_left v of Some i \<Rightarrow> (pre @ D @ F)[i := trim_left lo ((pre @ D @ F) ! i)] | None \<Rightarrow> pre @ D @ F) =
      pre @ A @ map (trim_left lo) M @ F"
    "(case p_left v of Some i \<Rightarrow> fl_block ((pre @ D @ F) ! i) | None \<Rightarrow> []) = concat (map fl_block M)"
    "p_left v \<noteq> Some (length (pre @ D @ F))"
proof (cases "p_left v")
  case None
  with assms that [of D "[]"] show thesis by (auto simp: left_ok_def)
next
  case (Some i)
  with assms obtain D' l where "D = D' @ [l]" "i = length pre + length D'" "fl_type l \<noteq> fl_type (p_req v)"
    "fl_start l < fl_start (p_req v)" "fl_start (p_req v) \<le> fl_end l" "fl_end l \<le> fl_end (p_req v)"
    "\<forall>d \<in> set D'. clear d (p_req v)" by (auto simp: left_ok_def)
  with Some that [of D' "[l]"] show thesis by (auto simp: list_update_append nth_append)
qed

lemma request_locks:
  assumes "loop_inv own S r0 n D F R v" "p_added v \<or> fl_type r0 \<noteq> F_UNLCK"
  defines "N \<equiv> F @ (if p_added v then [] else [held (p_req v)])"
  shows "N = [] \<and> fl_type (p_req v) = F_UNLCK \<or> (\<exists>g. N = [g] \<and> fl_start g = fl_start (p_req v) \<and>
      fl_end g = fl_end (p_req v) \<and> fl_type g = fl_type (p_req v) \<and> fl_type (p_req v) \<noteq> F_UNLCK)"
    and "\<forall>g \<in> set N. good own g" "waits N = waits F"
    "\<forall>g \<in> set N. fl_block g \<noteq> [] \<longrightarrow> g \<in> set F"
  using loop_invD(2-5) [OF assms(1)] assms(2) unfolding N_def req_ok_def
  by (auto simp: good_def plain_def split: if_splits)

text \<open>What a call leaves of the locks \<open>S\<close> of the owner.\<close>

definition updated :: "nat \<Rightarrow> held_lock list \<Rightarrow> file_lock \<Rightarrow> held_lock list \<Rightarrow> waiters \<Rightarrow> bool" where
  "updated own S r0 G ws \<longleftrightarrow> sorted_wrt clear G \<and> (\<forall>l \<in> set G. good own l) \<and>
     (\<forall>x t. cover G x t \<longleftrightarrow> paint r0 (cover S) x t) \<and> kept S G \<and> waits S \<subseteq> waits G \<union> set ws"

lemma kept_parts:
  assumes "kept S (D @ F @ R)"
    and "\<And>l. l \<in> set G \<Longrightarrow> fl_block l \<noteq> [] \<Longrightarrow> l \<in> set (D @ F @ R)"
  shows "kept S G"
proof -
  have "\<forall>l \<in> set G. \<forall>w \<in> set (fl_block l). l \<in> set (D @ F @ R)" using assms(2) by (metis empty_iff empty_set)
  with assms(1) show ?thesis unfolding kept_def by blast
qed

lemma updatedI:
  assumes "sorted_wrt clear G" "\<forall>l \<in> set G. good own l" "\<And>p t. cover G p t \<longleftrightarrow> paint q C p t"
    "\<And>p t. paint q C p t \<longleftrightarrow> paint r0 (cover S) p t" "kept S G" "waits S \<subseteq> waits G \<union> set ws"
  shows "updated own S r0 G ws"
  using assms by (simp add: updated_def)

lemma request_single:
  "N = [] \<and> b \<or> (\<exists>g. N = [g] \<and> fl_start g = lo \<and> fl_end g = hi \<and> fl_type g = t \<and> c) \<Longrightarrow>
    N = [] \<or> (\<exists>g. N = [g] \<and> fl_start g = lo \<and> fl_end g = hi \<and> fl_type g = t)"
  by blast

text \<open>No lock reaches over the end of the request.\<close>

lemma finish_none:
  assumes inv: "loop_inv own S r0 (length pre) D F R v" and add: "p_added v \<or> fl_type r0 \<noteq> F_UNLCK"
    and r: "\<not> p_right v" and l: "left_ok (length pre) D v" and R: "\<forall>y \<in> set R. clear (p_req v) y"
  shows "\<exists>G ws. finish_lock (pre @ D @ F) (R @ post) v = (pre @ G @ post, ws) \<and> updated own S r0 G ws"
proof -
  note I = loop_invD [OF inv]
  let ?q = "p_req v" and ?lo = "fl_start (p_req v)" and ?hi = "fl_end (p_req v)"
  define N where "N = F @ (if p_added v then [] else [held (p_req v)])"
  note N = request_locks [OF inv add, folded N_def]
  have q: "?lo \<le> ?hi" using I(3) by (simp add: plain_def)
  have g: "\<forall>l \<in> set D. good own l" "\<forall>l \<in> set R. good own l" using I(2) by simp_all
  obtain A M where s: "D = A @ M" "\<forall>a \<in> set A. clear a ?q"
    "M = [] \<or> (\<exists>l. M = [l] \<and> fl_type l \<noteq> fl_type ?q \<and> fl_start l < ?lo \<and> ?lo \<le> fl_end l \<and> fl_end l \<le> ?hi)"
    "(case p_left v of Some i \<Rightarrow> (pre @ D @ F)[i := trim_left ?lo ((pre @ D @ F) ! i)] | None \<Rightarrow> pre @ D @ F) =
      pre @ A @ map (trim_left ?lo) M @ F"
    "(case p_left v of Some i \<Rightarrow> fl_block ((pre @ D @ F) ! i) | None \<Rightarrow> []) = concat (map fl_block M)"
    "p_left v \<noteq> Some (length (pre @ D @ F))" by (rule left_split [OF l])
  let ?L = "map (trim_left ?lo) M"
  let ?G = "A @ ?L @ N @ [] @ R"
  have fin: "finish_lock (pre @ D @ F) (R @ post) v = (pre @ ?G @ post, p_woken v @ concat (map fl_block M))"
    unfolding finish_lock_def Let_def s(4,5) using r by (simp add: N_def)
  have "updated own S r0 ?G (p_woken v @ concat (map fl_block M))"
  proof (rule updatedI [where q = ?q and C = "cover (A @ M @ R)"])
    show "sorted_wrt clear ?G"
      by (rule assemble_sorted [OF q _ _ _ s(2) R _ request_single [OF N(1)]])
        (use I(1) s(3) in \<open>auto simp: s(1) sorted_wrt_append clear_def\<close>)
    show "cover ?G p t \<longleftrightarrow> paint ?q (cover (A @ M @ R)) p t" for p t
      by (rule assemble_cover [OF q _ _ _ _ N(1)]) (use s(2,3) R in \<open>auto simp: clear_def\<close>)
    show "\<forall>l \<in> set ?G. good own l" using g N(2) s(1,3) I(3) by (auto simp: good_def plain_def)
    show "kept S ?G" by (rule kept_parts [OF I(7)]) (use N(4) s(1) in auto)
    show "waits S \<subseteq> waits ?G \<union> set (p_woken v @ concat (map fl_block M))" using I(8) N(3) s(1,3) by auto
    show "paint ?q (cover (A @ M @ R)) p t \<longleftrightarrow> paint r0 (cover S) p t" for p t
      using I(6) [of p t] by (simp add: s(1))
  qed
  with fin show ?thesis by blast
qed

text \<open>A lock of another type reaches over its end only.\<close>

lemma finish_right:
  assumes inv: "loop_inv own S r0 (length pre) D F R v" and add: "p_added v \<or> fl_type r0 \<noteq> F_UNLCK"
    and r: "p_right v" and l: "left_ok (length pre) D v"
    and R: "R = x # R'" "fl_type x \<noteq> fl_type (p_req v)" "fl_start x \<le> fl_end (p_req v)"
      "fl_end (p_req v) < fl_end x" "\<forall>y \<in> set R'. clear (p_req v) y" "\<not> fl_start x < fl_start (p_req v)"
  shows "\<exists>G ws. finish_lock (pre @ D @ F) (R @ post) v = (pre @ G @ post, ws) \<and> updated own S r0 G ws"
proof -
  note I = loop_invD [OF inv]
  let ?q = "p_req v" and ?lo = "fl_start (p_req v)" and ?hi = "fl_end (p_req v)"
  define N where "N = F @ (if p_added v then [] else [held (p_req v)])"
  note N = request_locks [OF inv add, folded N_def]
  have q: "?lo \<le> ?hi" using I(3) by (simp add: plain_def)
  have g: "\<forall>l \<in> set D. good own l" "\<forall>l \<in> set R. good own l" using I(2) by simp_all
  obtain A M where s: "D = A @ M" "\<forall>a \<in> set A. clear a ?q"
    "M = [] \<or> (\<exists>l. M = [l] \<and> fl_type l \<noteq> fl_type ?q \<and> fl_start l < ?lo \<and> ?lo \<le> fl_end l \<and> fl_end l \<le> ?hi)"
    "(case p_left v of Some i \<Rightarrow> (pre @ D @ F)[i := trim_left ?lo ((pre @ D @ F) ! i)] | None \<Rightarrow> pre @ D @ F) =
      pre @ A @ map (trim_left ?lo) M @ F"
    "(case p_left v of Some i \<Rightarrow> fl_block ((pre @ D @ F) ! i) | None \<Rightarrow> []) = concat (map fl_block M)"
    "p_left v \<noteq> Some (length (pre @ D @ F))" by (rule left_split [OF l])
  let ?L = "map (trim_left ?lo) M"
  let ?x = "trim_right ?hi x"
  let ?G = "A @ ?L @ N @ [?x] @ R'"
  have gx: "good own x" "\<forall>b \<in> set R'. clear ?x b"
    using g(2) I(1) by (simp_all add: R(1) sorted_wrt_append clear_def)
  have fin: "finish_lock (pre @ D @ F) (R @ post) v =
      (pre @ ?G @ post, p_woken v @ fl_block x @ concat (map fl_block M))"
    unfolding finish_lock_def Let_def s(4,5) using r s(6) by (simp add: N_def R(1))
  have "updated own S r0 ?G (p_woken v @ fl_block x @ concat (map fl_block M))"
  proof (rule updatedI [where q = ?q and C = "cover (A @ (M @ [x]) @ R')"])
    show "sorted_wrt clear ?G"
      by (rule assemble_sorted [OF q _ _ _ s(2) R(5) _ request_single [OF N(1)]])
        (use I(1) s(3) R(2) gx(2) in \<open>auto simp: s(1) R(1) sorted_wrt_append clear_def\<close>)
    show "cover ?G p t \<longleftrightarrow> paint ?q (cover (A @ (M @ [x]) @ R')) p t" for p t
      by (rule assemble_cover [OF q _ _ _ _ N(1)]) (use s(2,3) R in \<open>auto simp: clear_def\<close>)
    show "\<forall>l \<in> set ?G. good own l" using g R gx N(2) s(1,3) I(3) by (auto simp: good_def plain_def)
    show "kept S ?G" by (rule kept_parts [OF I(7)]) (use N(4) s(1) R(1) in auto)
    show "waits S \<subseteq> waits ?G \<union> set (p_woken v @ fl_block x @ concat (map fl_block M))"
      using I(8) N(3) s(1,3) by (auto simp: R(1))
    show "paint ?q (cover (A @ (M @ [x]) @ R')) p t \<longleftrightarrow> paint r0 (cover S) p t" for p t
      using I(6) [of p t] by (simp add: s(1) R(1))
  qed
  with fin show ?thesis by blast
qed

text \<open>A lock of another type reaches over both ends and is split.\<close>

lemma finish_split:
  assumes inv: "loop_inv own S r0 (length pre) D F R v" and add: "p_added v \<or> fl_type r0 \<noteq> F_UNLCK"
    and r: "p_right v" and l: "p_left v = Some (length pre + length D)" "F = []" "\<forall>d \<in> set D. clear d (p_req v)"
    and R: "R = x # R'" "fl_type x \<noteq> fl_type (p_req v)" "fl_start x \<le> fl_end (p_req v)"
      "fl_end (p_req v) < fl_end x" "\<forall>y \<in> set R'. clear (p_req v) y" "fl_start x < fl_start (p_req v)"
  shows "\<exists>G ws. finish_lock (pre @ D @ F) (R @ post) v = (pre @ G @ post, ws) \<and> updated own S r0 G ws"
proof -
  note I = loop_invD [OF inv]
  let ?q = "p_req v" and ?lo = "fl_start (p_req v)" and ?hi = "fl_end (p_req v)"
  define N where "N = F @ (if p_added v then [] else [held (p_req v)])"
  note N = request_locks [OF inv add, folded N_def]
  have q: "?lo \<le> ?hi" using I(3) by (simp add: plain_def)
  have g: "\<forall>l \<in> set D. good own l" "\<forall>l \<in> set R. good own l" using I(2) by simp_all
  let ?x = "trim_right ?hi x" and ?l = "trim_left ?lo (held (file_lock.truncate x))"
  let ?G = "D @ [?l] @ N @ [?x] @ R'"
  have gx: "good own x" "\<forall>b \<in> set R'. clear ?x b"
    using g(2) I(1) by (simp_all add: R(1) sorted_wrt_append clear_def)
  have fin: "finish_lock (pre @ D @ F) (R @ post) v = (pre @ ?G @ post, p_woken v @ fl_block x)"
    unfolding finish_lock_def Let_def using r l by (simp add: N_def R(1))
  have "updated own S r0 ?G (p_woken v @ fl_block x)"
  proof (rule updatedI [where q = ?q and C = "cover (D @ [x] @ R')"])
    show "sorted_wrt clear ?G"
      by (rule assemble_sorted [OF q _ _ _ l(3) R(5) _ request_single [OF N(1)]])
        (use I(1) R(2) gx(2) in \<open>auto simp: R(1) sorted_wrt_append clear_def\<close>)
    show "cover ?G p t \<longleftrightarrow> paint ?q (cover (D @ [x] @ R')) p t" for p t
      by (rule assemble_cover [OF q _ _ _ _ N(1)]) (use q l(3) R in \<open>auto simp: clear_def\<close>)
    show "\<forall>l \<in> set ?G. good own l" using g R gx N(2) I(3) by (auto simp: good_def plain_def)
    show "kept S ?G" by (rule kept_parts [OF I(7)]) (use N(4) R(1) in auto)
    show "waits S \<subseteq> waits ?G \<union> set (p_woken v @ fl_block x)" using I(8) N(3) by (auto simp: R(1))
    show "paint ?q (cover (D @ [x] @ R')) p t \<longleftrightarrow> paint r0 (cover S) p t" for p t
      using I(6) [of p t] by (simp add: R(1))
  qed
  with fin show ?thesis by blast
qed

lemma finish_updated:
  assumes inv: "loop_inv own S r0 (length pre) D F R v" and exit: "loop_exit (length pre) D F R v"
    and add: "p_added v \<or> fl_type r0 \<noteq> F_UNLCK"
  shows "\<exists>G ws. finish_lock (pre @ D @ F) (R @ post) v = (pre @ G @ post, ws) \<and> updated own S r0 G ws"
proof (cases "p_right v")
  case False
  with exit finish_none [OF inv add] show ?thesis by (simp add: loop_exit_def)
next
  case True
  with exit obtain x R' where R: "R = x # R'" "fl_type x \<noteq> fl_type (p_req v)" "fl_start x \<le> fl_end (p_req v)"
    "fl_end (p_req v) < fl_end x" "\<forall>y \<in> set R'. clear (p_req v) y" and
    l: "if fl_start x < fl_start (p_req v) then p_left v = Some (length pre + length D) \<and> F = [] \<and> (\<forall>d \<in> set D. clear d (p_req v))
        else left_ok (length pre) D v"
    by (auto simp: loop_exit_def)
  show ?thesis
  proof (cases "fl_start x < fl_start (p_req v)")
    case both: True
    with l finish_split [OF inv add True _ _ _ R both] show ?thesis by simp
  next
    case one: False
    with l finish_right [OF inv add True _ R one] show ?thesis by simp
  qed
qed

end
