(* ===== verification/FileLockSpec.thy ===== *)
theory FileLockSpec imports FileLockLoop begin

text \<open>
  What the POSIX locks of \<open>FileLock\<close> promise: after a call the owner holds exactly the
  requested type on the requested range, every other byte and owner is as before, the list
  stays sorted, merged and free of conflicts, and no waiting request is lost.
\<close>

section \<open>The list of an inode\<close>

text \<open>
  First the locks that are not POSIX locks, then the POSIX locks of one owner after another;
  the locks of an owner are sorted, disjoint and merged.
\<close>

definition own_locks :: "nat \<Rightarrow> held_lock list \<Rightarrow> bool" where
  "own_locks own g \<longleftrightarrow> sorted_wrt clear g \<and> (\<forall>l \<in> set g. good own l)"

definition groups_ok :: "held_lock list list \<Rightarrow> bool" where
  "groups_ok gs \<longleftrightarrow> (\<forall>g \<in> set gs. g \<noteq> [] \<and> own_locks (fl_owner (hd g)) g) \<and> distinct (map (fl_owner \<circ> hd) gs)"

definition locks_wf :: "held_lock list \<Rightarrow> bool" where
  "locks_wf L \<longleftrightarrow> (\<exists>F gs. L = F @ concat gs \<and> (\<forall>f \<in> set F. \<not> IS_POSIX f) \<and> groups_ok gs)"

definition other_lock :: "nat \<Rightarrow> held_lock \<Rightarrow> bool" where
  "other_lock own l \<longleftrightarrow> \<not> IS_POSIX l \<or> fl_owner l \<noteq> own"

lemma group_other:
  assumes "\<forall>g \<in> set gs. g \<noteq> [] \<and> own_locks (fl_owner (hd g)) g" "own \<notin> set (map (fl_owner \<circ> hd) gs)"
  shows "\<forall>l \<in> set (concat gs). fl_owner l \<noteq> own"
proof (rule ballI)
  fix l assume "l \<in> set (concat gs)"
  then obtain g where g: "g \<in> set gs" "l \<in> set g" by auto
  with assms(1) have "own_locks (fl_owner (hd g)) g" by blast
  with g(2) have "fl_owner l = fl_owner (hd g)" by (simp add: own_locks_def good_def plain_def)
  then show "fl_owner l \<noteq> own" using assms(2) g(1) by auto
qed

lemma own_locks_hd: "own_locks own G \<Longrightarrow> G \<noteq> [] \<Longrightarrow> fl_owner (hd G) = own"
  using hd_in_set [of G] by (simp add: own_locks_def good_def plain_def)

lemma locks_wf_replace:
  assumes F: "\<forall>f \<in> set F. \<not> IS_POSIX f" and gs: "groups_ok (gs1 @ gs2)"
    and own: "own \<notin> set (map (fl_owner \<circ> hd) (gs1 @ gs2))" and G: "own_locks own G"
  shows "locks_wf ((F @ concat gs1) @ G @ concat gs2)"
proof (cases "G = []")
  case True
  have "(F @ concat gs1) @ G @ concat gs2 = F @ concat (gs1 @ gs2)" using True by simp
  with F gs show ?thesis unfolding locks_wf_def by (intro exI conjI)
next
  case False
  have "(F @ concat gs1) @ G @ concat gs2 = F @ concat (gs1 @ G # gs2)" by simp
  moreover have "groups_ok (gs1 @ G # gs2)"
    using gs own G False own_locks_hd [OF G False] unfolding groups_ok_def by simp
  ultimately show ?thesis using F unfolding locks_wf_def by (intro exI conjI)
qed

lemma locks_wf_split:
  assumes "locks_wf L"
  shows "\<exists>pre S post. L = pre @ S @ post \<and> own_locks own S \<and> (\<forall>l \<in> set pre. other_lock own l) \<and>
    (\<forall>l \<in> set post. fl_owner l \<noteq> own) \<and> (S = [] \<longrightarrow> post = []) \<and> (\<forall>G. own_locks own G \<longrightarrow> locks_wf (pre @ G @ post))"
proof -
  from assms obtain F gs where L: "L = F @ concat gs" "\<forall>f \<in> set F. \<not> IS_POSIX f" "groups_ok gs"
    unfolding locks_wf_def by (elim exE conjE)
  show ?thesis
  proof (cases "own \<in> set (map (fl_owner \<circ> hd) gs)")
    case True
    then obtain g where g: "g \<in> set gs" "fl_owner (hd g) = own" by auto
    obtain g1 g2 where gs: "gs = g1 @ g # g2" using split_list [OF g(1)] by blast
    have ok: "groups_ok (g1 @ g2)" "own \<notin> set (map (fl_owner \<circ> hd) (g1 @ g2))" "g \<noteq> []" "own_locks own g"
      using L(3) g unfolding gs groups_ok_def by auto
    then have other: "\<forall>l \<in> set (concat (g1 @ g2)). fl_owner l \<noteq> own"
      using group_other [of "g1 @ g2" own] by (simp add: groups_ok_def)
    have "L = (F @ concat g1) @ g @ concat g2" unfolding L(1) gs by simp
    moreover have "\<forall>l \<in> set (F @ concat g1). other_lock own l"
      using L(2) other unfolding other_lock_def by auto
    moreover have "\<forall>l \<in> set (concat g2). fl_owner l \<noteq> own" using other by simp
    moreover have "\<forall>G. own_locks own G \<longrightarrow> locks_wf ((F @ concat g1) @ G @ concat g2)"
      using locks_wf_replace [OF L(2) ok(1,2)] by simp
    ultimately show ?thesis using ok(3,4)
      by (intro exI [of _ "F @ concat g1"] exI [of _ g] exI [of _ "concat g2"]) simp
  next
    case False
    have "\<forall>l \<in> set (concat gs). fl_owner l \<noteq> own"
      using group_other [of gs own] L(3) False by (simp add: groups_ok_def)
    then have "\<forall>l \<in> set L. other_lock own l" using L(2) unfolding L(1) other_lock_def by auto
    moreover have "\<forall>G. own_locks own G \<longrightarrow> locks_wf (L @ G @ [])"
      using locks_wf_replace [OF L(2), of gs "[]" own] L(3) False unfolding L(1) by simp
    ultimately show ?thesis
      by (intro exI [of _ L] exI [of _ "[]"]) (simp add: own_locks_def)
  qed
qed

section \<open>One call\<close>

text \<open>An unlock that finds nothing to unlock changes nothing.\<close>

lemma paint_unlock_nothing:
  assumes "\<forall>d \<in> set D. clear d q" "\<forall>y \<in> set R. clear q y" "fl_type q = F_UNLCK"
  shows "paint q (cover (D @ R)) x t \<longleftrightarrow> cover (D @ R) x t"
  using assms by (auto simp: paint_def cover_def clear_def)

lemma updated_refl:
  assumes "own_locks own S" "\<And>x t. paint r0 (cover S) x t \<longleftrightarrow> cover S x t"
  shows "updated own S r0 S ws"
  using assms by (auto simp: updated_def own_locks_def kept_def)

lemma apply_lock_split:
  fixes cmp :: owner_cmp
  assumes "\<forall>l \<in> set pre. other_lock own l" "own_locks own S" "S = [] \<longrightarrow> post = []" "plain own req"
  defines "other \<equiv> \<lambda>fl. \<not> IS_POSIX fl \<or> \<not> posix_same_owner cmp req fl"
  shows "takeWhile other (pre @ S @ post) = pre \<and> dropWhile other (pre @ S @ post) = S @ post"
proof -
  have "other l \<longleftrightarrow> other_lock own l" for l
    using assms(4) by (simp add: other_def other_lock_def plain_def same_owner_plain eq_commute)
  then have pre: "\<forall>l \<in> set pre. other l" using assms(1) by simp
  show ?thesis
  proof (cases S)
    case Nil
    with assms(3) pre show ?thesis by simp
  next
    case (Cons x xs)
    then have "\<not> other_lock own x" using assms(2) by (simp add: own_locks_def good_def plain_def other_lock_def)
    with \<open>other x \<longleftrightarrow> other_lock own x\<close> Cons pre show ?thesis by simp
  qed
qed

lemma loop_ready_start:
  assumes "own_locks own S" "plain own req"
  shows "loop_ready own S req n [] [] S
    \<lparr>p_req = req, p_at = None, p_added = False, p_left = None, p_right = False, p_woken = []\<rparr>"
  using assms by (auto simp: loop_ready_def loop_inv_def left_ok_def req_ok_def own_locks_def kept_def)

text \<open>What the call makes of the locks \<open>S\<close> of the owner, and with which result.\<close>

definition applied :: "nat \<Rightarrow> held_lock list \<Rightarrow> file_lock \<Rightarrow> held_lock list \<Rightarrow> held_lock list \<Rightarrow> bool \<Rightarrow> nat result \<times> held_lock list \<times> waiters \<Rightarrow> bool" where
  "applied own S req pre post mem res \<longleftrightarrow> (case res of (r, L', ws) \<Rightarrow>
     (\<exists>G. L' = pre @ G @ post \<and> updated own S req G ws \<and>
        (r = Inr 0 \<or> r = Inl (Err ENOENT) \<and> fl_type req = F_UNLCK \<and>
          (\<forall>x t. fl_start req \<le> x \<and> x \<le> fl_end req \<longrightarrow> \<not> cover S x t))) \<or>
     r = Inl (Err ENOLCK) \<and> \<not> mem \<and> (fl_type req \<noteq> F_UNLCK \<or> fl_end req < OFFSET_MAX) \<and>
       (\<exists>G. L' = pre @ G @ post \<and> own_locks own G \<and> set G \<subseteq> set S))"

lemma appliedI:
  "updated own S req G ws \<Longrightarrow> r = Inr 0 \<or> r = Inl (Err ENOENT) \<and> fl_type req = F_UNLCK \<and>
      (\<forall>x t. fl_start req \<le> x \<and> x \<le> fl_end req \<longrightarrow> \<not> cover S x t) \<Longrightarrow>
    applied own S req pre post mem (r, pre @ G @ post, ws)"
  by (auto simp: applied_def)

lemma apply_lock_applied:
  assumes pre: "\<forall>l \<in> set pre. other_lock own l" and S: "own_locks own S" "S = [] \<longrightarrow> post = []"
    and post: "\<forall>l \<in> set post. fl_owner l \<noteq> own" and q: "plain own req"
  shows "applied own S req pre post (nf \<and> nf2) (apply_lock cmp nf nf2 req (pre @ S @ post))"
proof -
  let ?v0 = "\<lparr>p_req = req, p_at = None, p_added = False, p_left = None, p_right = False, p_woken = []\<rparr>"
  have "post = [] \<or> fl_owner (hd post) \<noteq> own" using post by (cases post) auto
  from owner_loop_spec [where cmp = cmp and pre = pre, OF this loop_ready_start [OF S(1) q]] obtain D F R v where
    l: "owner_loop cmp pre (S @ post) ?v0 = (pre @ D @ F, R @ post, v)"
    and inv: "loop_inv own S req (length pre) D F R v" and exit: "loop_exit (length pre) D F R v"
    by (auto simp: loop_leaves_def)
  have type: "fl_type (p_req v) = fl_type req" using loop_invD(4) [OF inv] .
  have eq: "apply_lock cmp nf nf2 req (pre @ S @ post) =
      (if p_right v \<and> p_left v = Some (length (pre @ D @ F)) \<and> \<not> nf2
       then (Inl (Err ENOLCK), (pre @ D @ F) @ R @ post, p_woken v)
       else if \<not> p_added v \<and> fl_type (p_req v) = F_UNLCK
       then (if fl_flags (p_req v) AND FL_EXISTS \<noteq> 0 then Inl (Err ENOENT) else Inr 0, (pre @ D @ F) @ R @ post, p_woken v)
       else if \<not> p_added v \<and> \<not> nf then (Inl (Err ENOLCK), (pre @ D @ F) @ R @ post, p_woken v)
       else (Inr 0, finish_lock (pre @ D @ F) (R @ post) v))"
    using apply_lock_split [OF pre S q, of cmp] by (simp add: apply_lock_def Let_def l)
  show ?thesis
  proof (cases "\<not> p_added v \<and> fl_type (p_req v) = F_UNLCK")
    case True
    with exit have e: "\<not> p_right v" "\<forall>d \<in> set D. clear d (p_req v)" "\<forall>y \<in> set R. clear (p_req v) y"
      by (auto simp: loop_exit_def left_ok_def split: if_splits)
    from True loop_invD(5) [OF inv] have r: "F = []" "p_req v = req" "D @ R = S" by (auto simp: req_ok_def split: if_splits)
    have free: "\<forall>x t. fl_start req \<le> x \<and> x \<le> fl_end req \<longrightarrow> \<not> cover S x t"
      using e(2,3) unfolding r(2,3) [symmetric] by (auto simp: cover_def clear_def)
    have "updated own S req S (p_woken v)"
    proof (rule updated_refl [OF S(1)])
      show "paint req (cover S) x t \<longleftrightarrow> cover S x t" for x t
        using paint_unlock_nothing [OF e(2,3)] True r by simp
    qed
    have L: "(pre @ D @ F) @ R @ post = pre @ S @ post" using r(1) r(3) [symmetric] by simp
    have t: "fl_type req = F_UNLCK" using True type by simp
    obtain r' where r': "r' = Inr 0 \<or> r' = Inl (Err ENOENT)" and
      res: "apply_lock cmp nf nf2 req (pre @ S @ post) = (r', pre @ S @ post, p_woken v)"
      using True e(1) unfolding eq L by (cases "fl_flags (p_req v) AND FL_EXISTS \<noteq> 0") simp_all
    from r' t free have "r' = Inr 0 \<or> r' = Inl (Err ENOENT) \<and> fl_type req = F_UNLCK \<and>
      (\<forall>x t. fl_start req \<le> x \<and> x \<le> fl_end req \<longrightarrow> \<not> cover S x t)" by blast
    with \<open>updated own S req S (p_woken v)\<close> show ?thesis unfolding res by (rule appliedI)
  next
    case False
    then have "p_added v \<or> fl_type req \<noteq> F_UNLCK" using type by simp
    then obtain G ws where fin: "finish_lock (pre @ D @ F) (R @ post) v = (pre @ G @ post, ws)"
      and upd: "updated own S req G ws" using finish_updated [OF inv exit, of post] by blast
    show ?thesis
    proof (cases "p_right v \<and> p_left v = Some (length (pre @ D @ F)) \<and> \<not> nf2 \<or> \<not> p_added v \<and> \<not> nf")
      case True
      then have "fst (apply_lock cmp nf nf2 req (pre @ S @ post)) = Inl (Err ENOLCK) \<and> \<not> (nf \<and> nf2)"
        using False unfolding eq by auto
      moreover have "fst (snd (apply_lock cmp nf nf2 req (pre @ S @ post))) = pre @ (D @ F @ R) @ post"
        using True False unfolding eq by auto
      moreover have "F = []" using True inv exit by (auto simp: loop_exit_def loop_inv_def req_ok_def left_ok_def split: if_splits)
      then have "own_locks own (D @ F @ R)" "set (D @ F @ R) \<subseteq> set S"
        using loop_invD(1,2,9) [OF inv] by (auto simp: own_locks_def)
      moreover have "fl_end req < OFFSET_MAX" if "fl_type req = F_UNLCK"
      proof -
        have "p_req v = req" using loop_invD(5) [OF inv] that by (auto simp: req_ok_def split: if_splits)
        moreover have "\<exists>x \<in> set R. fl_end (p_req v) < fl_end x"
          using exit True that False type by (auto simp: loop_exit_def split: if_splits)
        then obtain x where "x \<in> set R" "fl_end (p_req v) < fl_end x" by blast
        moreover from this(1) have "good own x" using loop_invD(2) [OF inv] by simp
        ultimately show ?thesis by (simp add: good_def plain_def)
      qed
      ultimately have "fst (apply_lock cmp nf nf2 req (pre @ S @ post)) = Inl (Err ENOLCK) \<and> \<not> (nf \<and> nf2) \<and>
        (fl_type req \<noteq> F_UNLCK \<or> fl_end req < OFFSET_MAX) \<and>
        (\<exists>G. fst (snd (apply_lock cmp nf nf2 req (pre @ S @ post))) = pre @ G @ post \<and> own_locks own G \<and> set G \<subseteq> set S)"
        by blast
      then show ?thesis by (auto simp: applied_def split: prod.split)
    next
      case mem: False
      then have "apply_lock cmp nf nf2 req (pre @ S @ post) = (Inr 0, pre @ G @ post, ws)"
        using False unfolding eq fin by (simp only: if_False) (simp split: if_splits)
      with upd show ?thesis by (auto simp: applied_def)
    qed
  qed
qed

section \<open>Who holds which byte\<close>

definition holds :: "held_lock list \<Rightarrow> nat \<Rightarrow> int \<Rightarrow> u8 \<Rightarrow> bool" where
  "holds L own x t \<longleftrightarrow> (\<exists>l \<in> set L. IS_POSIX l \<and> fl_owner l = own \<and> fl_type l = t \<and> fl_start l \<le> x \<and> x \<le> fl_end l)"

lemma holds_split:
  assumes "\<forall>l \<in> set pre. other_lock own l" "own_locks own S" "\<forall>l \<in> set post. fl_owner l \<noteq> own"
  shows "holds (pre @ S @ post) o' x t \<longleftrightarrow> (if o' = own then cover S x t else holds (pre @ post) o' x t)"
proof (cases "o' = own")
  case True
  have "\<forall>l \<in> set S. IS_POSIX l \<and> fl_owner l = own" using assms(2) by (simp add: own_locks_def good_def plain_def)
  with True assms(1,3) show ?thesis by (auto simp: holds_def cover_def other_lock_def)
next
  case False
  have "\<forall>l \<in> set S. fl_owner l = own" using assms(2) by (simp add: own_locks_def good_def plain_def)
  with False show ?thesis by (auto simp: holds_def)
qed

text \<open>The bytes after a request of an owner.\<close>

definition granted :: "nat \<Rightarrow> file_lock \<Rightarrow> held_lock list \<Rightarrow> held_lock list \<Rightarrow> bool" where
  "granted own req L L' \<longleftrightarrow> (\<forall>o' x t. holds L' o' x t \<longleftrightarrow>
     (if o' = own \<and> fl_start req \<le> x \<and> x \<le> fl_end req then t = fl_type req \<and> t \<noteq> F_UNLCK else holds L o' x t))"

lemma updated_granted:
  assumes pre: "\<forall>l \<in> set pre. other_lock own l" and S: "own_locks own S"
    and post: "\<forall>l \<in> set post. fl_owner l \<noteq> own" and upd: "updated own S req G ws"
  shows "granted own req (pre @ S @ post) (pre @ G @ post)"
proof -
  have G: "own_locks own G" using upd by (simp add: updated_def own_locks_def)
  show ?thesis
    unfolding granted_def holds_split [OF pre S post] holds_split [OF pre G post]
    using upd by (auto simp: updated_def paint_def)
qed

text \<open>Every queue was the queue of a lock of the same owner and type, inside the range.\<close>

definition queues_kept :: "held_lock list \<Rightarrow> held_lock list \<Rightarrow> bool" where
  "queues_kept L L' \<longleftrightarrow> (\<forall>l \<in> set L'. \<forall>w \<in> set (fl_block l). \<exists>l0 \<in> set L. w \<in> set (fl_block l0) \<and>
     IS_POSIX l0 = IS_POSIX l \<and> fl_owner l0 = fl_owner l \<and> fl_type l0 = fl_type l \<and>
     fl_start l \<le> fl_start l0 \<and> fl_end l0 \<le> fl_end l \<and> (IS_POSIX l \<or> l0 = l))"

lemma updated_queues:
  assumes S: "own_locks own S" and upd: "updated own S req G ws"
  shows "queues_kept (pre @ S @ post) (pre @ G @ post)"
  unfolding queues_kept_def
proof (intro ballI)
  fix l w assume l: "l \<in> set (pre @ G @ post)" and w: "w \<in> set (fl_block l)"
  show "\<exists>l0 \<in> set (pre @ S @ post). w \<in> set (fl_block l0) \<and> IS_POSIX l0 = IS_POSIX l \<and> fl_owner l0 = fl_owner l \<and>
    fl_type l0 = fl_type l \<and> fl_start l \<le> fl_start l0 \<and> fl_end l0 \<le> fl_end l \<and> (IS_POSIX l \<or> l0 = l)"
  proof (cases "l \<in> set G")
    case True
    then have "good own l" using upd by (simp add: updated_def)
    from True w upd obtain l0 where l0: "l0 \<in> set S" "w \<in> set (fl_block l0)" "fl_type l0 = fl_type l"
      "fl_start l \<le> fl_start l0" "fl_end l0 \<le> fl_end l"
      unfolding updated_def kept_def by blast
    moreover have "good own l0" using l0(1) S by (simp add: own_locks_def)
    ultimately show ?thesis using \<open>good own l\<close> by (intro bexI [of _ l0]) (simp_all add: good_def plain_def)
  next
    case False
    with l w show ?thesis by (intro bexI [of _ l]) auto
  qed
qed

lemma apply_lock_spec:
  assumes wf: "locks_wf L" and q: "plain own req" and res: "apply_lock cmp nf nf2 req L = (r, L', ws)"
  shows "r = Inl (Err ENOLCK) \<and> \<not> (nf \<and> nf2) \<and> (fl_type req \<noteq> F_UNLCK \<or> fl_end req < OFFSET_MAX) \<and>
      locks_wf L' \<and> set L' \<subseteq> set L \<or>
    locks_wf L' \<and> granted own req L L' \<and> queues_kept L L' \<and> waits L \<subseteq> waits L' \<union> set ws \<and>
    (\<forall>l \<in> set L'. IS_POSIX l \<or> l \<in> set L) \<and>
    (r = Inr 0 \<or> r = Inl (Err ENOENT) \<and> fl_type req = F_UNLCK \<and>
      (\<forall>x t. fl_start req \<le> x \<and> x \<le> fl_end req \<longrightarrow> \<not> holds L own x t))"
proof -
  obtain pre S post where L: "L = pre @ S @ post" and S: "own_locks own S" and pre: "\<forall>l \<in> set pre. other_lock own l"
    and post: "\<forall>l \<in> set post. fl_owner l \<noteq> own" "S = [] \<longrightarrow> post = []"
    and re: "\<forall>G. own_locks own G \<longrightarrow> locks_wf (pre @ G @ post)"
    using locks_wf_split [OF wf, of own] by blast
  have app: "applied own S req pre post (nf \<and> nf2) (r, L', ws)"
    using apply_lock_applied [OF pre S post(2,1) q, of nf nf2 cmp] res unfolding L by simp
  show ?thesis
  proof (cases "r = Inl (Err ENOLCK)")
    case True
    with app obtain G where G: "L' = pre @ G @ post" "own_locks own G" "set G \<subseteq> set S"
      and r: "\<not> (nf \<and> nf2)" "fl_type req \<noteq> F_UNLCK \<or> fl_end req < OFFSET_MAX" by (auto simp: applied_def)
    have "set L' \<subseteq> set L" unfolding L G(1) using G(3) by auto
    then show ?thesis using True G(1,2) r re by simp
  next
    case False
    with app obtain G where G: "L' = pre @ G @ post" "updated own S req G ws" and
      r: "r = Inr 0 \<or> r = Inl (Err ENOENT) \<and> fl_type req = F_UNLCK \<and>
        (\<forall>x t. fl_start req \<le> x \<and> x \<le> fl_end req \<longrightarrow> \<not> cover S x t)"
      by (auto simp: applied_def)
    have "own_locks own G" using G(2) by (simp add: updated_def own_locks_def)
    moreover have "queues_kept L L'" unfolding L G(1) by (rule updated_queues [OF S G(2)])
    moreover have "waits L \<subseteq> waits L' \<union> set ws" using G(2) unfolding updated_def L G(1) by auto
    moreover have "granted own req L L'" unfolding L G(1) by (rule updated_granted [OF pre S post(1) G(2)])
    moreover have "\<forall>l \<in> set L'. IS_POSIX l \<or> l \<in> set L"
      using \<open>own_locks own G\<close> unfolding L G(1) by (auto simp: own_locks_def good_def plain_def)
    moreover have "holds L own x t \<longleftrightarrow> cover S x t" for x t
      unfolding L holds_split [OF pre S post(1)] by simp
    ultimately show ?thesis using re r unfolding G(1) by blast
  qed
qed

section \<open>Conflicts\<close>

lemma first_index_None: "first_index P xs = None \<longleftrightarrow> (\<forall>x \<in> set xs. \<not> P x)"
  by (induction xs) auto

lemma first_index_Some:
  "first_index P xs = Some i \<Longrightarrow> i < length xs \<and> P (xs ! i) \<and> (\<forall>j < i. \<not> P (xs ! j))"
  by (induction xs arbitrary: i) (auto simp: less_Suc_eq_0_disj nth_Cons split: if_splits nat.split)

lemma posix_lock_good:
  assumes "locks_wf L" "l \<in> set L" "IS_POSIX l"
  shows "good (fl_owner l) l"
proof -
  from assms(1) obtain F gs where L: "L = F @ concat gs" "\<forall>f \<in> set F. \<not> IS_POSIX f" "groups_ok gs"
    unfolding locks_wf_def by (elim exE conjE)
  with assms(2,3) obtain g where "g \<in> set gs" "l \<in> set g" by auto
  then have "good (fl_owner (hd g)) l" using L(3) by (simp add: groups_ok_def own_locks_def)
  then show ?thesis by (simp add: good_def plain_def)
qed

definition conflicting :: "nat \<Rightarrow> file_lock \<Rightarrow> held_lock list \<Rightarrow> bool" where
  "conflicting own req L \<longleftrightarrow> (\<exists>o' x t. o' \<noteq> own \<and> holds L o' x t \<and> fl_start req \<le> x \<and> x \<le> fl_end req \<and>
     (t = F_WRLCK \<or> fl_type req = F_WRLCK))"

lemma conflict_iff:
  assumes "locks_wf L" "plain own req"
  shows "(\<exists>l \<in> set L. IS_POSIX l \<and> posix_locks_conflict cmp req l) \<longleftrightarrow> conflicting own req L"
proof
  assume "\<exists>l \<in> set L. IS_POSIX l \<and> posix_locks_conflict cmp req l"
  then obtain l where l: "l \<in> set L" "IS_POSIX l" "posix_locks_conflict cmp req l" by blast
  have "good (fl_owner l) l" using posix_lock_good [OF assms(1) l(1,2)] .
  then have "holds L (fl_owner l) (max (fl_start l) (fl_start req)) (fl_type l)"
    using l assms(2) by (auto simp: holds_def posix_locks_conflict_def locks_overlap_def plain_def good_def)
  moreover have "fl_owner l \<noteq> own" using l(3) assms(2) by (auto simp: posix_locks_conflict_def same_owner_plain plain_def)
  ultimately show "conflicting own req L" unfolding conflicting_def
    using l(3) assms(2)
    by (intro exI [of _ "fl_owner l"] exI [of _ "max (fl_start l) (fl_start req)"] exI [of _ "fl_type l"])
      (auto simp: posix_locks_conflict_def locks_overlap_def locks_conflict_def plain_def)
next
  assume "conflicting own req L"
  then obtain l x where "l \<in> set L" "IS_POSIX l" "fl_owner l \<noteq> own" "fl_start l \<le> x" "x \<le> fl_end l"
    "fl_start req \<le> x" "x \<le> fl_end req" "fl_type l = F_WRLCK \<or> fl_type req = F_WRLCK"
    by (auto simp: conflicting_def holds_def)
  then show "\<exists>l \<in> set L. IS_POSIX l \<and> posix_locks_conflict cmp req l" using assms(2)
    by (intro bexI [of _ l]) (auto simp: posix_locks_conflict_def locks_overlap_def locks_conflict_def same_owner_plain plain_def)
qed

section \<open>Queues do not matter to the locks\<close>

abbreviation (input) strip :: "held_lock list \<Rightarrow> file_lock list" where
  "strip \<equiv> map file_lock.truncate"

lemma truncate_clear [simp]:
  "clear (file_lock.truncate a) b = clear a b" "clear a (file_lock.truncate b) = clear a b"
  "plain own (file_lock.truncate a) = plain own a"
  by (simp_all add: clear_def plain_def)

lemma own_locks_strip:
  "own_locks own g \<longleftrightarrow> sorted_wrt clear (strip g) \<and> (\<forall>f \<in> set (strip g). plain own f \<and> fl_type f \<noteq> F_UNLCK)"
  by (simp add: own_locks_def good_def sorted_wrt_map)

lemma holds_strip:
  "holds L own x t \<longleftrightarrow> (\<exists>f \<in> set (strip L). IS_POSIX f \<and> fl_owner f = own \<and> fl_type f = t \<and> fl_start f \<le> x \<and> x \<le> fl_end f)"
  by (auto simp: holds_def)

lemma strip_concat:
  "strip R = strip (concat gs) \<Longrightarrow> \<exists>gs'. R = concat gs' \<and> map strip gs' = map strip gs"
proof (induction gs arbitrary: R)
  case (Cons g gs)
  from Cons.prems have "strip R = strip g @ strip (concat gs)" by simp
  then obtain g' R' where R: "R = g' @ R'" "strip g' = strip g" "strip R' = strip (concat gs)"
    by (auto simp: map_eq_append_conv)
  from Cons.IH [OF R(3)] obtain gs' where "R' = concat gs'" "map strip gs' = map strip gs" by blast
  with R show ?case by (intro exI [of _ "g' # gs'"]) simp
qed simp

lemma groups_ok_strip:
  assumes "groups_ok gs" "map strip gs' = map strip gs"
  shows "groups_ok gs'"
proof -
  have own: "fl_owner (hd g') = fl_owner (hd g)" if "strip g' = strip g" "g \<noteq> []" for g g' :: "held_lock list"
  proof -
    have "g' \<noteq> []" using that by auto
    then have "fl_owner (hd g') = fl_owner (hd (strip g'))" by (simp add: hd_map)
    also have "\<dots> = fl_owner (hd g)" unfolding that(1) using that(2) by (simp add: hd_map)
    finally show ?thesis .
  qed
  have ne: "\<forall>g \<in> set gs. g \<noteq> []" using assms(1) by (simp add: groups_ok_def)
  have len: "length gs' = length gs" using assms(2) by (rule map_eq_imp_length_eq)
  have nth: "strip (gs' ! i) = strip (gs ! i)" if "i < length gs" for i
    using arg_cong [OF assms(2), of "\<lambda>xs. xs ! i"] that len by simp
  have "g' \<noteq> [] \<and> own_locks (fl_owner (hd g')) g'" if "g' \<in> set gs'" for g'
  proof -
    from that len obtain i where i: "i < length gs" "g' = gs' ! i" by (auto simp: in_set_conv_nth)
    then have g: "strip g' = strip (gs ! i)" "gs ! i \<in> set gs" using nth by simp_all
    from g(2) assms(1) have "gs ! i \<noteq> []" "own_locks (fl_owner (hd (gs ! i))) (gs ! i)" by (simp_all add: groups_ok_def)
    moreover from this g(1) have "g' \<noteq> []" by (metis list.map_disc_iff)
    ultimately show ?thesis using own_locks_strip [of "fl_owner (hd g')" g'] own_locks_strip [of _ "gs ! i"] own [OF g(1)] g(1)
      by simp
  qed
  moreover have "map (fl_owner \<circ> hd) gs' = map (fl_owner \<circ> hd) gs"
  proof (rule nth_equalityI)
    fix i assume "i < length (map (fl_owner \<circ> hd) gs')"
    then have i: "i < length gs" using len by simp
    then have "gs ! i \<noteq> []" using ne nth_mem by blast
    from own [OF nth [OF i] this] i len show "map (fl_owner \<circ> hd) gs' ! i = map (fl_owner \<circ> hd) gs ! i" by simp
  qed (simp add: len)
  ultimately show ?thesis using assms(1) by (simp add: groups_ok_def)
qed

lemma locks_wf_strip:
  assumes "locks_wf L" "strip L' = strip L"
  shows "locks_wf L'"
proof -
  from assms(1) obtain F gs where L: "L = F @ concat gs" "\<forall>f \<in> set F. \<not> IS_POSIX f" "groups_ok gs"
    unfolding locks_wf_def by (elim exE conjE)
  from assms(2) have "strip L' = strip F @ strip (concat gs)" by (simp add: L(1))
  then obtain F' R' where L': "L' = F' @ R'" "strip F' = strip F" "strip R' = strip (concat gs)"
    by (auto simp: map_eq_append_conv)
  from strip_concat [OF L'(3)] obtain gs' where gs': "R' = concat gs'" "map strip gs' = map strip gs" by blast
  have "\<forall>f \<in> set (strip F'). \<not> IS_POSIX f" unfolding L'(2) using L(2) by simp
  then have "\<forall>f \<in> set F'. \<not> IS_POSIX f" by simp
  with groups_ok_strip [OF L(3) gs'(2)] L'(1) gs'(1) show ?thesis unfolding locks_wf_def by (intro exI conjI) simp
qed

lemma strip_insert_block:
  "i < length (i_flock s) \<Longrightarrow> strip (i_flock (locks_insert_block i w req s)) = strip (i_flock s)"
  by (simp add: locks_insert_block_def Let_def map_update file_lock.truncate_def list_update_same_conv)

end
