(* ===== verification/FileLockInv.thy ===== *)
theory FileLockInv imports FileLockSpec begin

text \<open>
  The locks of an inode under every order of calls: what \<open>posix_lock\<close> returns and leaves, and
  the invariant that POSIX locks and \<open>flock\<close> locks each exclude their conflicts and that
  every waiting request waits for a lock it conflicts with.
\<close>

section \<open>One POSIX request\<close>

lemma posix_lock_cases:
  assumes "posix_lock cmp alloc w req s = (r, conf, s', ws)"
  obtains (conflict) i where "fl_type req \<noteq> F_UNLCK" "i < length (i_flock s)"
      "IS_POSIX (i_flock s ! i)" "posix_locks_conflict cmp req (i_flock s ! i)" "conf = Some (locks_copy (i_flock s ! i))"
      "fl_flags req AND FL_SLEEP = 0 \<and> r = Inl (Err EAGAIN) \<and> s' = s \<or>
       fl_flags req AND FL_SLEEP \<noteq> 0 \<and> r = Inl (Err EDEADLK) \<and> s' = s \<or>
       fl_flags req AND FL_SLEEP \<noteq> 0 \<and> r = Inr FILE_LOCK_DEFERRED \<and> s' = locks_insert_block i w req s"
    | (test) "fl_flags req AND FL_ACCESS \<noteq> 0" "r = Inr 0" "s' = s"
      "fl_type req = F_UNLCK \<or> \<not> (\<exists>l \<in> set (i_flock s). IS_POSIX l \<and> posix_locks_conflict cmp req l)"
    | (change) need L' where "fl_flags req AND FL_ACCESS = 0"
      "fl_type req = F_UNLCK \<or> \<not> (\<exists>l \<in> set (i_flock s). IS_POSIX l \<and> posix_locks_conflict cmp req l)"
      "need \<longleftrightarrow> fl_type req \<noteq> F_UNLCK \<or> fl_start req \<noteq> 0 \<or> fl_end req \<noteq> OFFSET_MAX"
      "apply_lock cmp (need \<and> fst alloc) (need \<and> snd alloc) req (i_flock s) = (r, L', ws)"
      "s' = s\<lparr>i_flock := L', blocked_list := wake_up ws (blocked_list s)\<rparr>"
proof -
  let ?found = "if fl_type req \<noteq> F_UNLCK
    then first_index (\<lambda>fl. IS_POSIX fl \<and> posix_locks_conflict cmp req fl) (i_flock s) else None"
  show ?thesis
  proof (cases ?found)
    case (Some i)
    then have "fl_type req \<noteq> F_UNLCK" by (simp split: if_splits)
    moreover from this Some have "first_index (\<lambda>fl. IS_POSIX fl \<and> posix_locks_conflict cmp req fl) (i_flock s) = Some i" by simp
    note first_index_Some [OF this]
    ultimately show ?thesis using assms Some
      by (intro conflict [of i]) (auto simp: posix_lock_def Let_def split: if_splits)
  next
    case None
    then have free: "fl_type req = F_UNLCK \<or> \<not> (\<exists>l \<in> set (i_flock s). IS_POSIX l \<and> posix_locks_conflict cmp req l)"
      by (simp add: first_index_None split: if_splits)
    show ?thesis
    proof (cases "fl_flags req AND FL_ACCESS \<noteq> 0")
      case True
      with assms None show ?thesis by (intro test free) (simp_all add: posix_lock_def Let_def)
    next
      case False
      define need where "need \<longleftrightarrow> fl_type req \<noteq> F_UNLCK \<or> fl_start req \<noteq> 0 \<or> fl_end req \<noteq> OFFSET_MAX"
      obtain r1 L' ws1 where app: "apply_lock cmp (need \<and> fst alloc) (need \<and> snd alloc) req (i_flock s) = (r1, L', ws1)"
        by (cases "apply_lock cmp (need \<and> fst alloc) (need \<and> snd alloc) req (i_flock s)")
      have "posix_lock cmp alloc w req s = (r1, None, s\<lparr>i_flock := L', blocked_list := wake_up ws1 (blocked_list s)\<rparr>, ws1)"
        using None False app by (simp add: posix_lock_def Let_def need_def)
      with assms have "r = r1" "s' = s\<lparr>i_flock := L', blocked_list := wake_up ws1 (blocked_list s)\<rparr>" "ws = ws1" by auto
      with app False show ?thesis by (intro change [of need L'] free need_def) simp_all
    qed
  qed
qed

lemma block_update_split:
  "i < length L \<Longrightarrow> \<exists>A l B. L = A @ l # B \<and> L ! i = l \<and> length A = i"
  by (metis id_take_nth_drop length_take less_imp_le_nat min.absorb4)

lemma insert_block_split:
  assumes "i < length (i_flock s)"
  obtains A l B where "i_flock s = A @ l # B" "i_flock s ! i = l"
    "i_flock (locks_insert_block i w req s) = A @ l\<lparr>fl_block := fl_block l @ [(w, req)]\<rparr> # B"
proof -
  from block_update_split [OF assms] obtain A l B where "i_flock s = A @ l # B" "i_flock s ! i = l" "length A = i"
    by blast
  then show ?thesis by (intro that [of A l B]) (simp_all add: locks_insert_block_def Let_def list_update_append)
qed

lemma waits_insert_block:
  assumes "i < length (i_flock s)"
  shows "waits (i_flock (locks_insert_block i w req s)) = insert (w, req) (waits (i_flock s))"
proof (rule insert_block_split [OF assms, of w req])
  fix A l B
  assume *: "i_flock s = A @ l # B"
    "i_flock (locks_insert_block i w req s) = A @ l\<lparr>fl_block := fl_block l @ [(w, req)]\<rparr> # B"
  show ?thesis unfolding * by simp
qed

lemma holds_insert_block:
  "i < length (i_flock s) \<Longrightarrow> holds (i_flock (locks_insert_block i w req s)) own x t \<longleftrightarrow> holds (i_flock s) own x t"
  unfolding holds_strip by (simp only: strip_insert_block)

text \<open>
  C8: a call of \<open>posix_lock\<close> without \<open>FL_ACCESS\<close> that finds memory either grants the request, and then every byte
  of the range is held by the owner with exactly the requested type (or not at all after an
  unlock), every other byte of every owner is as before, the list is again sorted and
  merged, each waiting request still waits or has been woken, and no other owner held a
  conflicting byte; or it says that nothing was there to unlock; or another owner holds a
  conflicting byte and the locks of everybody are as before.
\<close>

theorem posix_lock_bytes:
  assumes wf: "locks_wf (i_flock s)" and q: "plain own req" and chg: "fl_flags req AND FL_ACCESS = 0"
    and res: "posix_lock cmp (True, True) w req s = (r, conf, s', ws)"
  shows "locks_wf (i_flock s') \<and>
    (case r of
       Inr n \<Rightarrow>
         if n = 0
         then granted own req (i_flock s) (i_flock s') \<and> waits (i_flock s) \<subseteq> waits (i_flock s') \<union> set ws \<and>
           (fl_type req = F_UNLCK \<or> \<not> conflicting own req (i_flock s))
         else n = FILE_LOCK_DEFERRED \<and> fl_flags req AND FL_SLEEP \<noteq> 0 \<and> conflicting own req (i_flock s) \<and>
           (\<forall>own' x t. holds (i_flock s') own' x t \<longleftrightarrow> holds (i_flock s) own' x t) \<and>
           waits (i_flock s') = insert (w, req) (waits (i_flock s))
     | Inl e \<Rightarrow>
         if e = Err ENOENT
         then fl_type req = F_UNLCK \<and> granted own req (i_flock s) (i_flock s') \<and>
           waits (i_flock s) \<subseteq> waits (i_flock s') \<union> set ws \<and>
           (\<forall>x t. fl_start req \<le> x \<and> x \<le> fl_end req \<longrightarrow> \<not> holds (i_flock s) own x t)
         else e = Err (if fl_flags req AND FL_SLEEP = 0 then EAGAIN else EDEADLK) \<and> s' = s \<and>
           fl_type req \<noteq> F_UNLCK \<and> conflicting own req (i_flock s))"
  using res
proof (cases rule: posix_lock_cases)
  case (conflict i)
  have "conflicting own req (i_flock s)" using conflict(2-4) by (intro conflict_iff [OF wf q, THEN iffD1]) (auto intro: nth_mem)
  with conflict(1,2,6) wf show ?thesis
    by (auto simp: FILE_LOCK_DEFERRED_def strip_insert_block waits_insert_block holds_insert_block
        intro: locks_wf_strip [OF wf])
next
  case test
  with chg show ?thesis by simp
next
  case (change need L')
  have s': "i_flock s' = L'" using change(5) by simp
  have "\<not> (need \<and> True \<and> (need \<and> True)) \<Longrightarrow> \<not> (fl_type req \<noteq> F_UNLCK \<or> fl_end req < OFFSET_MAX)"
    using change(3) by auto
  moreover have "fl_type req = F_UNLCK \<or> \<not> conflicting own req (i_flock s)"
    using change(2) conflict_iff [OF wf q] by blast
  ultimately show ?thesis
    using apply_lock_spec [OF wf q change(4)] unfolding s' by auto
qed

section \<open>Taking locks off the list and putting them on\<close>

lemma own_locks_drop: "own_locks own (A @ x # B) \<Longrightarrow> own_locks own (A @ B)"
  by (auto simp: own_locks_def sorted_wrt_append)

lemma concat_split:
  "concat gs = A @ x # B \<Longrightarrow> \<exists>g1 h1 h2 g2. gs = g1 @ (h1 @ x # h2) # g2 \<and> A = concat g1 @ h1 \<and> B = h2 @ concat g2"
proof (induction gs arbitrary: A)
  case (Cons g gs)
  from Cons.prems have "g @ concat gs = A @ x # B" by simp
  then consider us where "g = A @ us" "us @ concat gs = x # B" | us where "A = g @ us" "concat gs = us @ x # B"
    by (auto simp: append_eq_append_conv2)
  then show ?case
  proof cases
    case (1 us)
    show ?thesis
    proof (cases us)
      case Nil
      with 1 have "concat gs = [] @ x # B" by simp
      from Cons.IH [OF this] obtain g1 h1 h2 g2 where
        "gs = g1 @ (h1 @ x # h2) # g2" "[] = concat g1 @ h1" "B = h2 @ concat g2" by blast
      with 1 Nil show ?thesis by (intro exI [of _ "g # g1"] exI [of _ h1] exI [of _ h2] exI [of _ g2]) simp
    next
      case (Cons y ys)
      with 1 show ?thesis by (intro exI [of _ "[]"] exI [of _ A] exI [of _ ys] exI [of _ gs]) simp
    qed
  next
    case (2 us)
    from Cons.IH [OF 2(2)] obtain g1 h1 h2 g2 where
      "gs = g1 @ (h1 @ x # h2) # g2" "us = concat g1 @ h1" "B = h2 @ concat g2" by blast
    with 2(1) show ?thesis by (intro exI [of _ "g # g1"] exI [of _ h1] exI [of _ h2] exI [of _ g2]) simp
  qed
qed simp

lemma locks_wf_drop:
  assumes "locks_wf (A @ x # B)"
  shows "locks_wf (A @ B)"
proof -
  from assms obtain F gs where L: "A @ x # B = F @ concat gs" "\<forall>f \<in> set F. \<not> IS_POSIX f" "groups_ok gs"
    unfolding locks_wf_def by (elim exE conjE)
  consider us where "F = A @ x # us" "B = us @ concat gs" | us where "A = F @ us" "concat gs = us @ x # B"
    using L(1) by (auto simp: append_eq_append_conv2 Cons_eq_append_conv)
  then show ?thesis
  proof cases
    case (1 us)
    have "A @ B = (A @ us) @ concat gs" using 1 by simp
    moreover have "\<forall>f \<in> set (A @ us). \<not> IS_POSIX f" using L(2) 1(1) by simp
    ultimately show ?thesis using L(3) unfolding locks_wf_def by (intro exI conjI)
  next
    case (2 us)
    from concat_split [OF 2(2)] obtain g1 h1 h2 g2 where
      g: "gs = g1 @ (h1 @ x # h2) # g2" "us = concat g1 @ h1" "B = h2 @ concat g2" by blast
    let ?own = "fl_owner (hd (h1 @ x # h2))"
    have eq: "A @ B = (F @ concat g1) @ (h1 @ h2) @ concat g2" using 2(1) g by simp
    have ok: "groups_ok (g1 @ g2)" "?own \<notin> set (map (fl_owner \<circ> hd) (g1 @ g2))" "own_locks ?own (h1 @ x # h2)"
      using L(3) unfolding g(1) groups_ok_def by (auto simp del: hd_append2)
    show ?thesis unfolding eq by (rule locks_wf_replace [OF L(2) ok(1,2) own_locks_drop [OF ok(3)]])
  qed
qed

lemma locks_wf_filter: "locks_wf (A @ L) \<Longrightarrow> locks_wf (A @ filter P L)"
proof (induction L arbitrary: A)
  case (Cons x L)
  show ?case
  proof (cases "P x")
    case True
    with Cons.IH [of "A @ [x]"] Cons.prems show ?thesis by simp
  next
    case False
    with Cons.IH [OF locks_wf_drop [OF Cons.prems]] show ?thesis by simp
  qed
qed simp

lemma locks_wf_tail:
  assumes "locks_wf (A @ B)" "B = [] \<or> IS_POSIX (hd B)"
  shows "\<forall>l \<in> set B. IS_POSIX l"
proof (cases B)
  case (Cons b B')
  from assms(1) obtain F gs where L: "A @ B = F @ concat gs" "\<forall>f \<in> set F. \<not> IS_POSIX f" "groups_ok gs"
    unfolding locks_wf_def by (elim exE conjE)
  have G: "\<forall>l \<in> set (concat gs). IS_POSIX l"
    using L(3) by (auto simp: groups_ok_def own_locks_def good_def plain_def)
  have "IS_POSIX b" using assms(2) Cons by simp
  consider us where "F = A @ us" "B = us @ concat gs" | us where "A = F @ us" "concat gs = us @ B"
    using L(1) by (auto simp: append_eq_append_conv2)
  then show ?thesis
  proof cases
    case (1 us)
    have "us = []" using 1 L(2) Cons \<open>IS_POSIX b\<close> by (cases us) auto
    then show ?thesis using 1(2) G by simp
  next
    case (2 us)
    then show ?thesis using G by simp
  qed
qed simp

lemma locks_wf_insert:
  assumes wf: "locks_wf (A @ B)" and A: "\<forall>a \<in> set A. \<not> IS_POSIX a" and B: "B = [] \<or> IS_POSIX (hd B)"
    and x: "\<not> IS_POSIX x"
  shows "locks_wf (A @ x # B)"
proof -
  from wf obtain F gs where L: "A @ B = F @ concat gs" "\<forall>f \<in> set F. \<not> IS_POSIX f" "groups_ok gs"
    unfolding locks_wf_def by (elim exE conjE)
  have G: "\<forall>l \<in> set (concat gs). IS_POSIX l"
    using L(3) by (auto simp: groups_ok_def own_locks_def good_def plain_def)
  let ?np = "\<lambda>l. \<not> IS_POSIX l"
  have "takeWhile ?np (A @ B) = A" using A B by (cases B) simp_all
  moreover have "takeWhile ?np (F @ concat gs) = F" using L(2) G by (cases "concat gs") (simp_all del: concat_eq_Nil_conv)
  ultimately have "A = F" using L(1) by simp
  with L(1) have "A @ x # B = (A @ [x]) @ concat gs" by simp
  moreover have "\<forall>f \<in> set (A @ [x]). \<not> IS_POSIX f" using A x by simp
  ultimately show ?thesis using L(3) unfolding locks_wf_def by (intro exI conjI)
qed

section \<open>The invariant\<close>

definition exclusive :: "held_lock list \<Rightarrow> bool" where
  "exclusive L \<longleftrightarrow> (\<forall>o1 o2 x t1 t2. o1 \<noteq> o2 \<and> holds L o1 x t1 \<and> holds L o2 x t2 \<longrightarrow> t1 \<noteq> F_WRLCK)"

definition flock_entry :: "'a file_lock_scheme \<Rightarrow> bool" where
  "flock_entry l \<longleftrightarrow> \<not> IS_POSIX l \<and> IS_FLOCK l"

definition flocks_ok :: "held_lock list \<Rightarrow> bool" where
  "flocks_ok L \<longleftrightarrow> (\<forall>a \<in> set L. flock_entry a \<longrightarrow> \<not> IS_LEASE a \<and>
     (\<forall>b \<in> set L. flock_entry b \<longrightarrow> \<not> flock_locks_conflict a b))"

definition waits_for :: "owner_cmp \<Rightarrow> file_lock \<Rightarrow> 'a file_lock_scheme \<Rightarrow> bool" where
  "waits_for cmp q l \<longleftrightarrow>
     (if IS_POSIX l then plain (fl_owner q) q \<and> posix_locks_conflict cmp q l
      else IS_LEASE l \<or> flock_locks_conflict q l)"

definition queues_ok :: "owner_cmp \<Rightarrow> held_lock list \<Rightarrow> bool" where
  "queues_ok cmp L \<longleftrightarrow> (\<forall>l \<in> set L. \<forall>(w, q) \<in> set (fl_block l). waits_for cmp q l)"

definition lock_inv :: "owner_cmp \<Rightarrow> lock_state \<Rightarrow> bool" where
  "lock_inv cmp s \<longleftrightarrow> locks_wf (i_flock s) \<and> exclusive (i_flock s) \<and> flocks_ok (i_flock s) \<and> queues_ok cmp (i_flock s)"

text \<open>Requests of \<open>flock\<close>, as \<open>flock_make_lock\<close> builds them.\<close>

definition flock_request :: "file_lock \<Rightarrow> bool" where
  "flock_request q \<longleftrightarrow> flock_entry q \<and> \<not> IS_LEASE q"

text \<open>
  Every call on the inode. A \<open>flock\<close> call is two steps, as other calls may run between its
  two halves; each request may find memory or not.
\<close>

inductive lock_step :: "owner_cmp \<Rightarrow> lock_state \<Rightarrow> lock_state \<Rightarrow> bool" for cmp where
  posix: "lock_step cmp s s'" if "plain own req" "posix_lock cmp alloc w req s = (r, conf, s', ws)"
| close_posix: "lock_step cmp s (locks_remove_posix cmp w filp own s)"
| unblock: "lock_step cmp s s'" if "posix_unblock_lock w s = (u, s')"
| flock_off: "lock_step cmp s s'" if "flock_delete mem filp req s = (found, s', ws)"
| flock_on: "lock_step cmp s s'" if "flock_request req" "flock_insert w req s = (r, s')"
| close_flock: "lock_step cmp s s'" if "locks_remove_flock filp s = Inr s'"

lemma flock_strip [simp]:
  "IS_FLOCK (file_lock.truncate a) = IS_FLOCK a" "IS_LEASE (file_lock.truncate a) = IS_LEASE a"
  "flock_entry (file_lock.truncate a) = flock_entry a"
  "flock_locks_conflict (file_lock.truncate a) b = flock_locks_conflict a b"
  "flock_locks_conflict a (file_lock.truncate b) = flock_locks_conflict a b"
  by (simp_all add: IS_FLOCK_def IS_LEASE_def flock_entry_def flock_locks_conflict_def locks_conflict_def)

lemma posix_conflict_strip [simp]:
  "posix_locks_conflict cmp (file_lock.truncate a) b = posix_locks_conflict cmp a b"
  by (simp add: posix_locks_conflict_def locks_overlap_def locks_conflict_def posix_same_owner_def file_lock.truncate_def
      split: option.split)

lemma exclusive_holds: "exclusive L \<Longrightarrow> (\<And>own x t. holds L' own x t \<Longrightarrow> holds L own x t) \<Longrightarrow> exclusive L'"
  unfolding exclusive_def by blast

lemma holds_mono: "set L' \<subseteq> set L \<Longrightarrow> holds L' own x t \<Longrightarrow> holds L own x t"
  by (auto simp: holds_def)

lemma flocks_ok_strip: "flocks_ok L \<Longrightarrow> strip L' = strip L \<Longrightarrow> flocks_ok L'"
proof -
  have "flocks_ok K \<longleftrightarrow> (\<forall>a \<in> set (strip K). flock_entry a \<longrightarrow> \<not> IS_LEASE a \<and>
     (\<forall>b \<in> set (strip K). flock_entry b \<longrightarrow> \<not> flock_locks_conflict a b))" for K
    by (simp add: flocks_ok_def)
  then show "flocks_ok L \<Longrightarrow> strip L' = strip L \<Longrightarrow> flocks_ok L'" by (simp only:)
qed

lemma flocks_ok_sub: "flocks_ok L \<Longrightarrow> \<forall>l \<in> set L'. IS_POSIX l \<or> l \<in> set L \<Longrightarrow> flocks_ok L'"
  by (auto simp: flocks_ok_def flock_entry_def)

lemma queues_ok_sub: "queues_ok cmp L \<Longrightarrow> set L' \<subseteq> set L \<Longrightarrow> queues_ok cmp L'"
  by (auto simp: queues_ok_def)

text \<open>Taking locks off the list keeps the invariant.\<close>

lemma lock_inv_sub:
  assumes "lock_inv cmp s" "locks_wf (i_flock s')" "set (i_flock s') \<subseteq> set (i_flock s)"
  shows "lock_inv cmp s'"
  using assms(1,2) exclusive_holds [OF _ holds_mono [OF assms(3)]] flocks_ok_sub [of "i_flock s" "i_flock s'"]
    queues_ok_sub [OF _ assms(3)] assms(3)
  unfolding lock_inv_def by blast

text \<open>So does changing the queues, if each request waits for what it conflicts with.\<close>

lemma lock_inv_strip:
  assumes "lock_inv cmp s" "strip (i_flock s') = strip (i_flock s)" "queues_ok cmp (i_flock s')"
  shows "lock_inv cmp s'"
proof -
  have "holds (i_flock s') own x t \<Longrightarrow> holds (i_flock s) own x t" for own x t
    unfolding holds_strip assms(2) .
  then show ?thesis
    using assms(1,3) locks_wf_strip [OF _ assms(2)] exclusive_holds flocks_ok_strip [OF _ assms(2)]
    unfolding lock_inv_def by blast
qed

lemma waits_for_block [simp]: "waits_for cmp p (l\<lparr>fl_block := b\<rparr>) = waits_for cmp p l"
  by (simp add: waits_for_def IS_POSIX_def IS_LEASE_def IS_FLOCK_def posix_locks_conflict_def flock_locks_conflict_def
      locks_overlap_def locks_conflict_def posix_same_owner_def file_lock.truncate_def split: option.split)

lemma lock_inv_wait:
  assumes inv: "lock_inv cmp s" and i: "i < length (i_flock s)" and q: "waits_for cmp req (i_flock s ! i)"
  shows "lock_inv cmp (locks_insert_block i w req s)"
proof (rule lock_inv_strip [OF inv strip_insert_block [OF i]], rule insert_block_split [OF i, of w req])
  fix A l B
  assume *: "i_flock s = A @ l # B" "i_flock s ! i = l"
    "i_flock (locks_insert_block i w req s) = A @ l\<lparr>fl_block := fl_block l @ [(w, req)]\<rparr> # B"
  have "queues_ok cmp (A @ l # B)" using inv *(1) by (simp add: lock_inv_def)
  then show "queues_ok cmp (i_flock (locks_insert_block i w req s))"
    unfolding *(3) using q *(2) by (auto simp: queues_ok_def)
qed

section \<open>Every step keeps it\<close>

lemma granted_exclusive:
  assumes "granted own req L L'" "exclusive L" "fl_type req = F_UNLCK \<or> \<not> conflicting own req L"
  shows "exclusive L'"
  unfolding exclusive_def
proof (intro allI impI)
  fix o1 o2 x t1 t2
  assume *: "o1 \<noteq> o2 \<and> holds L' o1 x t1 \<and> holds L' o2 x t2"
  have h: "holds L' o' x t \<longleftrightarrow> (if o' = own \<and> fl_start req \<le> x \<and> x \<le> fl_end req
     then t = fl_type req \<and> t \<noteq> F_UNLCK else holds L o' x t)" for o' t
    using assms(1) by (simp add: granted_def)
  show "t1 \<noteq> F_WRLCK"
  proof (cases "fl_start req \<le> x \<and> x \<le> fl_end req \<and> (o1 = own \<or> o2 = own)")
    case True
    then have in_range: "fl_start req \<le> x" "x \<le> fl_end req" by simp_all
    have nc: "t \<noteq> F_WRLCK \<and> fl_type req \<noteq> F_WRLCK" if "holds L o' x t" "o' \<noteq> own" "fl_type req \<noteq> F_UNLCK" for o' t
      using assms(3) that in_range unfolding conflicting_def by blast
    show ?thesis
    proof (cases "o1 = own")
      case True
      with * h [of o1] h [of o2] in_range have "t1 = fl_type req" "fl_type req \<noteq> F_UNLCK" "holds L o2 x t2" "o2 \<noteq> own"
        by auto
      with nc [of o2 t2] show ?thesis by simp
    next
      case False
      with True * h [of o1] h [of o2] in_range have "fl_type req \<noteq> F_UNLCK" "holds L o1 x t1" by auto
      with nc False show ?thesis by blast
    qed
  next
    case False
    with * h have "holds L o1 x t1" "holds L o2 x t2" by (auto split: if_splits)
    with * assms(2) show ?thesis unfolding exclusive_def by blast
  qed
qed

lemma waits_for_wider:
  assumes "waits_for cmp q l0" "IS_POSIX l0 = IS_POSIX l" "fl_owner l0 = fl_owner l" "fl_type l0 = fl_type l"
    and "fl_start l \<le> fl_start l0" "fl_end l0 \<le> fl_end l" "IS_POSIX l \<or> l0 = l"
  shows "waits_for cmp q l"
proof (cases "IS_POSIX l")
  case True
  with assms show ?thesis
    by (auto simp: waits_for_def posix_locks_conflict_def locks_overlap_def locks_conflict_def same_owner_plain plain_def)
next
  case False
  with assms show ?thesis by simp
qed

lemma queues_kept_ok:
  assumes "queues_kept L L'" "queues_ok cmp L"
  shows "queues_ok cmp L'"
  unfolding queues_ok_def
proof (intro ballI, clarify)
  fix l w q assume "l \<in> set L'" "(w, q) \<in> set (fl_block l)"
  with assms(1) obtain l0 where l0: "l0 \<in> set L" "(w, q) \<in> set (fl_block l0)" "IS_POSIX l0 = IS_POSIX l"
    "fl_owner l0 = fl_owner l" "fl_type l0 = fl_type l" "fl_start l \<le> fl_start l0" "fl_end l0 \<le> fl_end l"
    "IS_POSIX l \<or> l0 = l" unfolding queues_kept_def by blast
  with assms(2) have "waits_for cmp q l0" unfolding queues_ok_def by blast
  then show "waits_for cmp q l" using l0(3-8) by (rule waits_for_wider)
qed

lemma posix_step:
  assumes inv: "lock_inv cmp s" and q: "plain own req" and res: "posix_lock cmp alloc w req s = (r, conf, s', ws)"
  shows "lock_inv cmp s'"
  using res
proof (cases rule: posix_lock_cases)
  case (conflict i)
  have "waits_for cmp req (i_flock s ! i)" using q conflict(3,4) by (simp add: waits_for_def plain_def)
  with lock_inv_wait [OF inv conflict(2)] conflict(6) inv show ?thesis by auto
next
  case test
  with inv show ?thesis by simp
next
  case (change need L')
  have s': "i_flock s' = L'" using change(5) by simp
  have wf: "locks_wf (i_flock s)" using inv by (simp add: lock_inv_def)
  from apply_lock_spec [OF wf q change(4)] show ?thesis
  proof (elim disjE conjE, goal_cases)
    case 1
    then show ?case using lock_inv_sub [OF inv, of s'] s' by simp
  next
    case 2
    then show ?case using lock_inv_sub [OF inv, of s'] s' by simp
  qed (use inv change(2) conflict_iff [OF wf q] granted_exclusive flocks_ok_sub queues_kept_ok s' in
      \<open>unfold lock_inv_def, blast\<close>)+
qed

lemma close_posix_step: "lock_inv cmp s \<Longrightarrow> lock_inv cmp (locks_remove_posix cmp w filp own s)"
proof -
  assume inv: "lock_inv cmp s"
  let ?lock = "\<lparr>fl_owner = own, fl_flags = FL_POSIX OR FL_CLOSE, fl_type = F_UNLCK, fl_file = Some filp,
                       fl_start = 0, fl_end = OFFSET_MAX, fl_lmops = None\<rparr>"
  obtain r c s' ws where res: "posix_lock cmp (False, False) w ?lock s = (r, c, s', ws)"
    by (cases "posix_lock cmp (False, False) w ?lock s")
  have "plain own ?lock" by (simp add: plain_def IS_POSIX_def OFFSET_MAX_def)
  from posix_step [OF inv this res] inv res show ?thesis by (simp add: locks_remove_posix_def)
qed

lemma unblock_step:
  assumes inv: "lock_inv cmp s" and res: "posix_unblock_lock w s = (u, s')"
  shows "lock_inv cmp s'"
proof (cases "\<exists>fl \<in> set (i_flock s). w \<in> fst ` set (fl_block fl)")
  case False
  with inv res show ?thesis by (simp add: posix_unblock_lock_def)
next
  case True
  then have s': "i_flock s' = map (\<lambda>fl. fl\<lparr>fl_block := filter (\<lambda>(v, _). v \<noteq> w) (fl_block fl)\<rparr>) (i_flock s)"
    using res by (auto simp: posix_unblock_lock_def)
  have "queues_ok cmp (i_flock s)" using inv by (simp add: lock_inv_def)
  then have "queues_ok cmp (i_flock s')" unfolding s' by (auto simp: queues_ok_def)
  moreover have "strip (i_flock s') = strip (i_flock s)" unfolding s' by (simp add: file_lock.truncate_def)
  ultimately show ?thesis using lock_inv_strip [OF inv] by simp
qed

lemma remove_at_split: "i < length L \<Longrightarrow> \<exists>A l B. L = A @ l # B \<and> L ! i = l \<and> remove_at i L = A @ B"
  by (intro exI [of _ "take i L"] exI [of _ "L ! i"] exI [of _ "drop (Suc i) L"]) (simp add: remove_at_def id_take_nth_drop)

lemma flock_off_step:
  assumes inv: "lock_inv cmp s" and res: "flock_delete mem filp req s = (found, s', ws)"
  shows "lock_inv cmp s'"
proof -
  let ?P = "\<lambda>fl. IS_POSIX fl \<or> \<not> IS_LEASE fl \<and> fl_file fl = Some filp"
  have "s' = s \<or> (\<exists>i. first_index ?P (i_flock s) = Some i \<and> i_flock s' = remove_at i (i_flock s))"
    using res by (auto simp: flock_delete_def Let_def split: if_splits option.splits)
  then show ?thesis
  proof (elim disjE exE conjE)
    fix i assume i: "first_index ?P (i_flock s) = Some i" and s': "i_flock s' = remove_at i (i_flock s)"
    from first_index_Some [OF i] have "i < length (i_flock s)" by blast
    from remove_at_split [OF this] obtain A l B where L: "i_flock s = A @ l # B" "remove_at i (i_flock s) = A @ B" by blast
    have "locks_wf (A @ l # B)" using inv L(1) by (simp add: lock_inv_def)
    then have "locks_wf (i_flock s')" unfolding s' L(2) by (rule locks_wf_drop)
    moreover have "set (i_flock s') \<subseteq> set (i_flock s)" unfolding s' L(2) unfolding L(1) by auto
    ultimately show ?thesis by (rule lock_inv_sub [OF inv])
  qed (use inv in simp)
qed

lemma remove_flock_filter: "remove_flock filp L = Inr (L', ws) \<Longrightarrow> L' = filter (\<lambda>l. fl_file l \<noteq> Some filp) L"
  by (induction L arbitrary: L' ws) (auto split: if_splits sum.splits prod.splits)

lemma close_flock_step:
  assumes inv: "lock_inv cmp s" and res: "locks_remove_flock filp s = Inr s'"
  shows "lock_inv cmp s'"
proof -
  have s': "i_flock s' = filter (\<lambda>l. fl_file l \<noteq> Some filp) (i_flock s)"
    using res by (auto simp: locks_remove_flock_def dest: remove_flock_filter split: sum.splits prod.splits)
  have "locks_wf ([] @ i_flock s)" using inv by (simp add: lock_inv_def)
  from locks_wf_filter [OF this] have "locks_wf (i_flock s')" unfolding s' by simp
  then show ?thesis by (rule lock_inv_sub [OF inv]) (simp add: s')
qed

text \<open>A new \<open>flock\<close> lock is put before the first POSIX lock, after looking at all others.\<close>

lemma flock_conflict_sym:
  "IS_FLOCK a \<Longrightarrow> IS_FLOCK b \<Longrightarrow> flock_locks_conflict a b \<longleftrightarrow> flock_locks_conflict b a"
  by (auto simp: flock_locks_conflict_def locks_conflict_def)

lemma lock_inv_insert:
  assumes inv: "lock_inv cmp s" and q: "flock_request req" and L: "i_flock s = A @ B"
    and A: "\<forall>a \<in> set A. \<not> IS_POSIX a \<and> (IS_LEASE a \<or> \<not> flock_locks_conflict req a)" and B: "B = [] \<or> IS_POSIX (hd B)"
    and s': "i_flock s' = A @ held req # B"
  shows "lock_inv cmp s'"
proof -
  have np: "\<not> IS_POSIX (held req)" using q by (simp add: flock_request_def flock_entry_def)
  have wf: "locks_wf (A @ B)" and fo: "flocks_ok (A @ B)" and qo: "queues_ok cmp (A @ B)" and ex: "exclusive (A @ B)"
    using inv L by (simp_all add: lock_inv_def)
  have BP: "\<forall>l \<in> set B. IS_POSIX l" using locks_wf_tail [OF wf B] .
  have same [simp]: "IS_FLOCK (held req) = IS_FLOCK req" "IS_LEASE (held req) = IS_LEASE req"
    "flock_entry (held req) = flock_entry req" "\<And>l :: held_lock. flock_locks_conflict (held req) l = flock_locks_conflict req l"
    "\<And>l :: held_lock. flock_locks_conflict l (held req) = flock_locks_conflict l req"
    "flock_locks_conflict req (held req) = flock_locks_conflict req req"
    "flock_locks_conflict (held req) req = flock_locks_conflict req req"
    by (simp_all add: IS_FLOCK_def IS_LEASE_def flock_entry_def flock_locks_conflict_def locks_conflict_def)
  have "locks_wf (i_flock s')" unfolding s' using A by (intro locks_wf_insert [OF wf _ B np]) blast
  moreover have "exclusive (i_flock s')"
    by (rule exclusive_holds [OF ex]) (use np s' in \<open>auto simp: holds_def\<close>)
  moreover have "flocks_ok (i_flock s')"
  proof -
    have ok: "\<not> flock_locks_conflict req a \<and> \<not> flock_locks_conflict a req" if "a \<in> set (A @ B)" "flock_entry a" for a
    proof -
      have "a \<in> set A" "IS_FLOCK a" "\<not> IS_LEASE a" using that BP fo by (auto simp: flock_entry_def flocks_ok_def)
      then have "\<not> flock_locks_conflict req a" using A by blast
      moreover have "IS_FLOCK req" using q by (simp add: flock_request_def flock_entry_def)
      ultimately show ?thesis using flock_conflict_sym [of req a] \<open>IS_FLOCK a\<close> by simp
    qed
    moreover have "\<not> flock_locks_conflict req req" by (simp add: flock_locks_conflict_def)
    ultimately show ?thesis using fo q unfolding s' flocks_ok_def by (auto simp: flock_request_def)
  qed
  moreover have "queues_ok cmp (i_flock s')" using qo unfolding s' by (auto simp: queues_ok_def)
  ultimately show ?thesis by (simp add: lock_inv_def)
qed

lemma flock_on_step:
  assumes inv: "lock_inv cmp s" and q: "flock_request req" and res: "flock_insert w req s = (r, s')"
  shows "lock_inv cmp s'"
proof -
  let ?P = "\<lambda>fl. IS_POSIX fl \<or> \<not> IS_LEASE fl \<and> flock_locks_conflict req fl"
  let ?L = "i_flock s"
  have put: ?thesis if L: "?L = A @ B" and A: "\<forall>a \<in> set A. \<not> ?P a" and B: "B = [] \<or> IS_POSIX (hd B)"
    and s': "s' = s \<or> i_flock s' = A @ held req # B" for A B
    using s'
  proof
    assume "i_flock s' = A @ held req # B"
    from lock_inv_insert [OF inv q L _ B this] A show ?thesis by blast
  qed (simp add: inv)
  show ?thesis
  proof (cases "first_index ?P ?L")
    case None
    then have "\<forall>a \<in> set ?L. \<not> ?P a" by (simp only: first_index_None)
    moreover have "s' = s \<or> i_flock s' = ?L @ held req # []"
      using res None by (auto simp: flock_insert_def Let_def insert_at_def split: if_splits)
    ultimately show ?thesis using put [of ?L "[]"] by simp
  next
    case (Some i)
    note i = first_index_Some [OF this]
    then have len: "i < length ?L" by blast
    show ?thesis
    proof (cases "IS_POSIX (?L ! i)")
      case True
      have "\<not> ?P a" if "a \<in> set (take i ?L)" for a
      proof -
        from that obtain j where "j < i" "a = ?L ! j" by (auto simp: in_set_conv_nth)
        with i show ?thesis by blast
      qed
      then have "\<forall>a \<in> set (take i ?L). \<not> ?P a" by blast
      moreover have "s' = s \<or> i_flock s' = take i ?L @ held req # drop i ?L"
        using res Some True by (auto simp: flock_insert_def Let_def insert_at_def split: if_splits)
      ultimately show ?thesis using put [of "take i ?L" "drop i ?L"] True len by (simp add: hd_drop_conv_nth)
    next
      case False
      then have "waits_for cmp req (?L ! i)" using i by (simp add: waits_for_def)
      from lock_inv_wait [OF inv len this] inv res Some False show ?thesis
        by (auto simp: flock_insert_def Let_def split: if_splits)
    qed
  qed
qed

interpretation file_locks: step_invariant "lock_step cmp" "lock_inv cmp" for cmp
proof
  fix s t assume inv: "lock_inv cmp s" and "lock_step cmp s t"
  from this(2) show "lock_inv cmp t"
    by cases (auto intro: posix_step [OF inv] close_posix_step [OF inv] unblock_step [OF inv] flock_off_step [OF inv]
        flock_on_step [OF inv] close_flock_step [OF inv])
qed

lemma lock_inv_new: "lock_inv cmp \<lparr>i_flock = [], blocked_list = bl\<rparr>"
proof -
  have "locks_wf []" unfolding locks_wf_def
    by (rule exI [of _ "[]"], rule exI [of _ "[]"]) (simp add: groups_ok_def)
  then show ?thesis by (simp add: lock_inv_def exclusive_def holds_def flocks_ok_def queues_ok_def)
qed

text \<open>
  C10: Whatever calls are made on the locks of an inode, in whatever order and with or without
  memory, no byte that one owner has locked for writing is locked by another owner, two
  \<open>flock\<close> locks of different open files never conflict, and every request in the queue of a
  lock conflicts with that lock, so that it never waits for a lock that does not stand in
  its way.
\<close>

theorem file_locks_exclude:
  assumes "(lock_step cmp)\<^sup>*\<^sup>* \<lparr>i_flock = [], blocked_list = bl\<rparr> s"
  shows "(\<forall>own own' x t. own \<noteq> own' \<and> holds (i_flock s) own x F_WRLCK \<longrightarrow> \<not> holds (i_flock s) own' x t) \<and>
    (\<forall>a \<in> set (i_flock s). \<forall>b \<in> set (i_flock s). flock_entry a \<and> flock_entry b \<longrightarrow> \<not> flock_locks_conflict a b) \<and>
    (\<forall>l \<in> set (i_flock s). \<forall>(w, q) \<in> set (fl_block l). IS_LEASE l \<or>
       posix_locks_conflict cmp q l \<or> flock_locks_conflict q l)"
proof -
  have inv: "lock_inv cmp s" using file_locks.run_keeps [OF assms lock_inv_new] .
  then have "exclusive (i_flock s)" "flocks_ok (i_flock s)" "queues_ok cmp (i_flock s)" by (simp_all add: lock_inv_def)
  moreover have "waits_for cmp q l \<Longrightarrow> IS_LEASE l \<or> posix_locks_conflict cmp q l \<or> flock_locks_conflict q l" for q and l :: held_lock
    by (auto simp: waits_for_def split: if_splits)
  ultimately show ?thesis unfolding exclusive_def flocks_ok_def queues_ok_def by blast
qed

section \<open>Examples\<close>

definition ex_cmp :: owner_cmp where "ex_cmp = (\<lambda>_. None)"

definition ex_lock :: "nat \<Rightarrow> u8 \<Rightarrow> int \<Rightarrow> int \<Rightarrow> file_lock" where
  "ex_lock own type lo hi = \<lparr>fl_owner = own, fl_flags = FL_POSIX OR FL_SLEEP, fl_type = type, fl_file = Some own,
     fl_start = lo, fl_end = hi, fl_lmops = None\<rparr>"

lemma ex_lock_plain: "0 \<le> lo \<Longrightarrow> lo \<le> hi \<Longrightarrow> hi \<le> OFFSET_MAX \<Longrightarrow> plain own (ex_lock own type lo hi)"
  by (simp add: plain_def ex_lock_def IS_POSIX_def)

lemma ex_single_wf:
  assumes "0 \<le> lo" "lo \<le> hi" "hi \<le> OFFSET_MAX" "type \<noteq> F_UNLCK"
  shows "locks_wf [held (ex_lock own type lo hi)]"
  using locks_wf_replace [of "[]" "[]" "[]" own "[held (ex_lock own type lo hi)]"] assms ex_lock_plain [OF assms(1-3), of own type]
  by (simp add: groups_ok_def own_locks_def good_def plain_def ex_lock_def)

text \<open>Unlocking in the middle of a lock splits it.\<close>

definition ex_before :: lock_state where
  "ex_before = \<lparr>i_flock = [held (ex_lock 1 F_WRLCK 0 9)], blocked_list = []\<rparr>"

definition ex_after :: lock_state where
  "ex_after = \<lparr>i_flock = [held (ex_lock 1 F_WRLCK 0 2), held (ex_lock 1 F_WRLCK 6 9)], blocked_list = []\<rparr>"

lemma ex_split: "posix_lock ex_cmp (True, True) 7 (ex_lock 1 F_UNLCK 3 5) ex_before = (Inr 0, None, ex_after, [])"
  by (simp add: posix_lock_def apply_lock_def finish_lock_def ex_before_def ex_after_def ex_lock_def ex_cmp_def OFFSET_MAX_def
      posix_same_owner_def IS_POSIX_def wake_up_def trim_left_def trim_right_def held_def file_lock.defs held_lock.defs)

theorem posix_lock_bytes_witness:
  "locks_wf (i_flock ex_after) \<and> granted 1 (ex_lock 1 F_UNLCK 3 5) (i_flock ex_before) (i_flock ex_after)"
proof -
  have "locks_wf (i_flock ex_before)" by (simp add: ex_before_def ex_single_wf OFFSET_MAX_def)
  moreover have "plain 1 (ex_lock 1 F_UNLCK 3 5)" by (rule ex_lock_plain) (simp_all add: OFFSET_MAX_def)
  moreover have "fl_flags (ex_lock 1 F_UNLCK 3 5) AND FL_ACCESS = 0" by (simp add: ex_lock_def)
  ultimately show ?thesis using posix_lock_bytes [OF _ _ _ ex_split] by simp
qed

text \<open>A second owner waits for the first.\<close>

definition ex_waiting :: lock_state where
  "ex_waiting = \<lparr>i_flock = [(held (ex_lock 1 F_WRLCK 0 9))\<lparr>fl_block := [(7, ex_lock 2 F_RDLCK 5 20)]\<rparr>],
     blocked_list = [(7, ex_lock 2 F_RDLCK 5 20, ex_lock 1 F_WRLCK 0 9)]\<rparr>"

lemma deadlock_nobody: "\<not> deadlock_loop n cmp [] caller_fl block_fl"
  by (cases n) simp_all

lemma ex_run: "(lock_step ex_cmp)\<^sup>*\<^sup>* \<lparr>i_flock = [], blocked_list = []\<rparr> ex_waiting"
proof -
  have "posix_lock ex_cmp (True, True) 6 (ex_lock 1 F_WRLCK 0 9) \<lparr>i_flock = [], blocked_list = []\<rparr> = (Inr 0, None, ex_before, [])"
    by (simp add: posix_lock_def apply_lock_def finish_lock_def ex_before_def ex_lock_def wake_up_def)
  then have "lock_step ex_cmp \<lparr>i_flock = [], blocked_list = []\<rparr> ex_before"
    by (rule lock_step.posix [OF ex_lock_plain, rotated 3]) (simp_all add: OFFSET_MAX_def)
  moreover have "posix_lock ex_cmp (True, True) 7 (ex_lock 2 F_RDLCK 5 20) ex_before =
      (Inr FILE_LOCK_DEFERRED, Some (locks_copy (held (ex_lock 1 F_WRLCK 0 9))), ex_waiting, [])"
    by (simp add: posix_lock_def ex_before_def ex_waiting_def ex_lock_def ex_cmp_def posix_locks_conflict_def locks_overlap_def
        locks_conflict_def posix_locks_deadlock_def deadlock_nobody Let_def locks_insert_block_def
        posix_same_owner_def IS_POSIX_def held_def file_lock.defs held_lock.defs)
  then have "lock_step ex_cmp ex_before ex_waiting"
    by (rule lock_step.posix [OF ex_lock_plain, rotated 3]) (simp_all add: OFFSET_MAX_def)
  ultimately show ?thesis by auto
qed

theorem file_locks_exclude_witness:
  "\<not> holds (i_flock ex_waiting) 2 7 F_RDLCK \<and>
   posix_locks_conflict ex_cmp (ex_lock 2 F_RDLCK 5 20) (hd (i_flock ex_waiting))"
proof -
  let ?L = "i_flock ex_waiting"
  note truth = file_locks_exclude [OF ex_run]
  have w: "holds ?L 1 7 F_WRLCK" by (simp add: holds_def ex_waiting_def ex_lock_def IS_POSIX_def)
  have one: "\<not> holds ?L 2 7 F_RDLCK"
    using truth [THEN conjunct1, rule_format, of 1 2 7 F_RDLCK] w by simp
  have "\<not> IS_LEASE (hd ?L)" "\<not> flock_locks_conflict (ex_lock 2 F_RDLCK 5 20) (hd ?L)"
    by (simp_all add: ex_waiting_def ex_lock_def IS_LEASE_def IS_FLOCK_def flock_locks_conflict_def)
  moreover have "hd ?L \<in> set ?L" "(7, ex_lock 2 F_RDLCK 5 20) \<in> set (fl_block (hd ?L))" by (simp_all add: ex_waiting_def)
  ultimately show ?thesis using truth [THEN conjunct2, THEN conjunct2] one by blast
qed

end
