(* ===== verification/FileLockReq.thy ===== *)
theory FileLockReq imports FileLockInv begin

text \<open>
  Requests of programs: the range of a \<open>struct flock64\<close> computed with wrapping offsets is the
  range in unbounded integers, and what \<open>fcntl (F_GETLK64)\<close> tells about the locks of others.
\<close>

section \<open>The range of a request\<close>

text \<open>The range in unbounded integers, counted from \<open>base\<close>.\<close>

definition ideal_range :: "int \<Rightarrow> int \<Rightarrow> int \<Rightarrow> (int \<times> int) result" where
  "ideal_range base start len =
     (let s = base + start;
          lo = (if len < 0 then s + len else s);
          hi = (if len > 0 then s + len - 1 else if len < 0 then s - 1 else OFFSET_MAX) in
      if s < 0 \<or> s > OFFSET_MAX \<or> lo < 0 then Inl (Err EINVAL)
      else if hi > OFFSET_MAX then Inl (Err EOVERFLOW)
      else Inr (lo, hi))"

lemma sint64_range: "- (2 ^ 63) \<le> sint (x :: u64) \<and> sint x \<le> 2 ^ 63 - 1"
  using sint_range_size [of x] by (simp add: word_size)

text \<open>The signed value of a sum or a difference that is off by less than one turn.\<close>

definition wrap64 :: "int \<Rightarrow> int" where
  "wrap64 k = (if k < - (2 ^ 63) then k + 2 ^ 64 else if k < 2 ^ 63 then k else k - 2 ^ 64)"

lemma wrap64_signed:
  assumes "- (2 ^ 64) \<le> k" "k < 2 ^ 64"
  shows "signed_take_bit 63 k = wrap64 k"
proof -
  have eq: "signed_take_bit 63 k = (k + 2 ^ 63) mod 2 ^ 64 - 2 ^ 63"
    by (simp add: signed_take_bit_eq_take_bit_shift take_bit_eq_mod)
  consider "k < - (2 ^ 63)" | "- (2 ^ 63) \<le> k" "k < 2 ^ 63" | "2 ^ 63 \<le> k" by linarith
  then show ?thesis
  proof cases
    case 1
    have "(k + 2 ^ 63) mod 2 ^ 64 = (k + 2 ^ 63 + 2 ^ 64) mod 2 ^ 64" by (simp only: mod_add_self2)
    also have "\<dots> = k + 2 ^ 63 + 2 ^ 64" using 1 assms by (intro mod_pos_pos_trivial) simp_all
    finally show ?thesis using 1 unfolding eq wrap64_def by simp
  next
    case 2
    then have "(k + 2 ^ 63) mod 2 ^ 64 = k + 2 ^ 63" by (intro mod_pos_pos_trivial) simp_all
    then show ?thesis using 2 unfolding eq wrap64_def by simp
  next
    case 3
    have "(k + 2 ^ 63) mod 2 ^ 64 = (k + 2 ^ 63 - 2 ^ 64) mod 2 ^ 64" by (simp only: minus_mod_self2)
    also have "\<dots> = k + 2 ^ 63 - 2 ^ 64" using 3 assms by (intro mod_pos_pos_trivial) simp_all
    finally show ?thesis using 3 unfolding eq wrap64_def by simp
  qed
qed

lemma sint64_plus: "sint (x + y :: u64) = wrap64 (sint x + sint y)"
proof -
  have "sint (x + y) = signed_take_bit 63 (sint x + sint y)" by (simp add: sint_word_ariths)
  also have "\<dots> = wrap64 (sint x + sint y)"
    using sint64_range [of x] sint64_range [of y] by (intro wrap64_signed) simp_all
  finally show ?thesis .
qed

lemma sint64_dec: "sint (x - 1 :: u64) = wrap64 (sint x - 1)"
proof -
  have "sint (x - 1) = signed_take_bit 63 (sint x - 1)" by (simp add: sint_word_ariths)
  also have "\<dots> = wrap64 (sint x - 1)" using sint64_range [of x] by (intro wrap64_signed) simp_all
  finally show ?thesis .
qed

lemma flock_range_ideal:
  fixes base start len :: u64
  assumes "0 \<le> sint base"
  shows "flock_range base start len = ideal_range (sint base) (sint start) (sint len)"
  using assms sint64_range [of base] sint64_range [of start] sint64_range [of len]
  unfolding flock_range_def ideal_range_def Let_def sint64_plus sint64_dec
  by (auto simp: wrap64_def OFFSET_MAX_def)

lemma flock64_ideal:
  assumes "0 \<le> sint (f_pos filp)" "0 \<le> sint (i_size filp)"
  shows "flock64_to_posix_lock files filp l =
     (case flock_base filp (l_whence l) of
        None \<Rightarrow> Inl (Err EINVAL)
      | Some base \<Rightarrow> to_posix_lock files (f_addr filp) (l_type l) (ideal_range (sint base) (sint (l_start l)) (sint (l_len l)))) \<and>
    (\<forall>fl. flock64_to_posix_lock files filp l = Inr fl \<longrightarrow>
       plain files fl \<and> (fl_type fl = F_RDLCK \<or> fl_type fl = F_WRLCK \<or> fl_type fl = F_UNLCK))"
proof -
  have base: "flock_base filp (l_whence l) = Some b \<Longrightarrow> 0 \<le> sint b" for b
    using assms by (auto simp: flock_base_def split: if_splits)
  have eq: "flock64_to_posix_lock files filp l =
     (case flock_base filp (l_whence l) of
        None \<Rightarrow> Inl (Err EINVAL)
      | Some base \<Rightarrow> to_posix_lock files (f_addr filp) (l_type l) (ideal_range (sint base) (sint (l_start l)) (sint (l_len l))))"
    using base flock_range_ideal by (simp add: flock64_to_posix_lock_def split: option.split)
  have rng: "ideal_range b s n = Inr (lo, hi) \<Longrightarrow> 0 \<le> lo \<and> lo \<le> hi \<and> hi \<le> OFFSET_MAX" for b s n lo hi
    by (auto simp: ideal_range_def Let_def split: if_splits)
  have ok: "to_posix_lock files a t r = Inr fl \<Longrightarrow> \<exists>lo hi. r = Inr (lo, hi) \<and>
      fl_start fl = lo \<and> fl_end fl = hi \<and> IS_POSIX fl \<and> fl_owner fl = files \<and> fl_lmops fl = None \<and>
      (fl_type fl = F_RDLCK \<or> fl_type fl = F_WRLCK \<or> fl_type fl = F_UNLCK)" for a t r fl
    by (auto simp: to_posix_lock_def assign_type_def IS_POSIX_def split: sum.splits if_splits prod.splits)
  have "plain files fl \<and> (fl_type fl = F_RDLCK \<or> fl_type fl = F_WRLCK \<or> fl_type fl = F_UNLCK)"
    if "flock64_to_posix_lock files filp l = Inr fl" for fl
  proof -
    from that have "flock_base filp (l_whence l) \<noteq> None" unfolding eq by (auto split: option.splits)
    then obtain b where b: "flock_base filp (l_whence l) = Some b" by blast
    from that have "to_posix_lock files (f_addr filp) (l_type l)
        (ideal_range (sint b) (sint (l_start l)) (sint (l_len l))) = Inr fl" unfolding eq b by simp
    from ok [OF this] rng show ?thesis by (auto simp: plain_def)
  qed
  then show ?thesis using eq by blast
qed

text \<open>
  C35: For a file whose position and size are not negative, the range that
  \<open>flock64_to_posix_lock\<close> computes with 64-bit offsets is the one that unbounded integers give,
  whatever the request: a start or an end before the file or a start past the last offset is
  \<open>EINVAL\<close>, an end past the last offset \<open>EOVERFLOW\<close>, and a lock that is built lies in
  \<open>0 \<le> start \<le> end \<le> OFFSET_MAX\<close>.
\<close>

theorem flock64_range:
  assumes "0 \<le> sint (f_pos filp)" "0 \<le> sint (i_size filp)"
  shows "flock64_to_posix_lock files filp l =
     (case flock_base filp (l_whence l) of
        None \<Rightarrow> Inl (Err EINVAL)
      | Some base \<Rightarrow> to_posix_lock files (f_addr filp) (l_type l) (ideal_range (sint base) (sint (l_start l)) (sint (l_len l)))) \<and>
    (\<forall>fl. flock64_to_posix_lock files filp l = Inr fl \<longrightarrow>
       plain files fl \<and> (fl_type fl = F_RDLCK \<or> fl_type fl = F_WRLCK \<or> fl_type fl = F_UNLCK))"
  using flock64_ideal [OF assms] by blast

definition ex_file :: open_file where "ex_file = \<lparr>f_addr = 5, f_pos = 100, i_size = 4096\<rparr>"

theorem flock64_range_witness:
  "flock64_to_posix_lock 3 ex_file \<lparr>l_type = F_WRLCK, l_whence = 2, l_start = - 96, l_len = - 1000\<rparr> =
     Inr \<lparr>fl_owner = 3, fl_flags = FL_POSIX, fl_type = F_WRLCK, fl_file = Some 5, fl_start = 3000, fl_end = 3999, fl_lmops = None\<rparr>"
proof -
  have "0 \<le> sint (f_pos ex_file)" "0 \<le> sint (i_size ex_file)" by (simp_all add: ex_file_def)
  from flock64_range [OF this, of 3 "\<lparr>l_type = F_WRLCK, l_whence = 2, l_start = - 96, l_len = - 1000\<rparr>", THEN conjunct1]
  show ?thesis by (simp add: ex_file_def flock_base_def ideal_range_def to_posix_lock_def assign_type_def OFFSET_MAX_def)
qed

section \<open>What a lock looks like to a program\<close>

lemma flock64_fields:
  assumes "plain own fl"
  shows "sint (l_start (posix_lock_to_flock64 fl)) = fl_start fl"
    "sint (l_len (posix_lock_to_flock64 fl)) = (if fl_end fl = OFFSET_MAX then 0 else fl_end fl - fl_start fl + 1)"
proof -
  have p: "0 \<le> fl_start fl" "fl_start fl \<le> fl_end fl" "fl_end fl \<le> OFFSET_MAX" using assms by (simp_all add: plain_def)
  have s: "sint (word_of_int k :: u64) = k" if "0 \<le> k" "k \<le> OFFSET_MAX" for k
    using that by (simp add: sint_sbintrunc' signed_take_bit_int_eq_self OFFSET_MAX_def)
  show "sint (l_start (posix_lock_to_flock64 fl)) = fl_start fl" using p by (simp add: posix_lock_to_flock64_def s)
  show "sint (l_len (posix_lock_to_flock64 fl)) = (if fl_end fl = OFFSET_MAX then 0 else fl_end fl - fl_start fl + 1)"
    using p s [of "fl_end fl - fl_start fl + 1"] by (simp add: posix_lock_to_flock64_def)
qed

text \<open>
  A lock of a program survives the way out and back in: the \<open>struct flock64\<close> that
  \<open>posix_lock_to_flock64\<close> makes of a lock is one that \<open>flock64_to_posix_lock\<close> reads as the same
  range and type, whatever the position and size of the file it is given with.
\<close>

theorem flock64_roundtrip:
  assumes "plain own fl" "fl_type fl = F_RDLCK \<or> fl_type fl = F_WRLCK \<or> fl_type fl = F_UNLCK"
  shows "\<exists>fl'. flock64_to_posix_lock own filp (posix_lock_to_flock64 fl) = Inr fl' \<and> plain own fl' \<and>
    fl_type fl' = fl_type fl \<and> fl_start fl' = fl_start fl \<and> fl_end fl' = fl_end fl"
proof -
  let ?l = "posix_lock_to_flock64 fl"
  have p: "0 \<le> fl_start fl" "fl_start fl \<le> fl_end fl" "fl_end fl \<le> OFFSET_MAX" using assms(1) by (simp_all add: plain_def)
  note start = flock64_fields(1) [OF assms(1)] and len = flock64_fields(2) [OF assms(1)]
  have "ideal_range 0 (sint (l_start ?l)) (sint (l_len ?l)) = Inr (fl_start fl, fl_end fl)"
    unfolding start len using p by (auto simp: ideal_range_def Let_def)
  moreover have "flock_base filp (l_whence ?l) = Some 0" by (simp add: posix_lock_to_flock64_def flock_base_def)
  ultimately have "flock64_to_posix_lock own filp ?l =
      to_posix_lock own (f_addr filp) (l_type ?l) (Inr (fl_start fl, fl_end fl))"
    using flock_range_ideal [of 0] by (simp add: flock64_to_posix_lock_def)
  also have "\<dots> = Inr \<lparr>fl_owner = own, fl_flags = FL_POSIX, fl_type = fl_type fl, fl_file = Some (f_addr filp),
      fl_start = fl_start fl, fl_end = fl_end fl, fl_lmops = None\<rparr>"
    using assms(2) by (auto simp: to_posix_lock_def assign_type_def posix_lock_to_flock64_def)
  finally show ?thesis using p by (simp add: plain_def IS_POSIX_def)
qed

lemma type_cast: "(ucast (t :: u8) :: u16) = 2 \<Longrightarrow> t = 2"
proof -
  assume "(ucast t :: u16) = 2"
  then have "(ucast (ucast t :: u16) :: u8) = 2" by simp
  moreover have "(ucast (ucast t :: u16) :: u8) = t" by (intro bit_word_eqI) (auto simp: bit_ucast_iff)
  ultimately show "t = 2" by simp
qed

text \<open>
  C34: \<open>fcntl (F_GETLK64)\<close> tells the truth about the locks of others, for a request that
  \<open>flock64_to_posix_lock\<close> accepts on a file whose position and size are not negative. When it answers
  \<open>F_UNLCK\<close> it leaves the rest of the request as it was, and no other owner holds a byte of the
  requested range in a conflicting way. Otherwise the answer is a range from the start of
  the file on; some byte in it and in the requested range is held by another owner with the
  type of the answer, and it conflicts with the request.
\<close>

theorem getlk64_truth:
  assumes wf: "locks_wf (i_flock s)" and pos: "0 \<le> sint (f_pos filp)" "0 \<le> sint (i_size filp)"
    and conv: "flock64_to_posix_lock files filp l = Inr req"
    and res: "fcntl_getlk64 cmp files filp (Some l) s = Inr out"
  shows "if l_type out = F_UNLCK
    then out = l\<lparr>l_type := F_UNLCK\<rparr> \<and> \<not> conflicting files req (i_flock s)
    else l_whence out = 0 \<and> (\<exists>own' x t. own' \<noteq> files \<and> holds (i_flock s) own' x t \<and> l_type out = ucast t \<and>
      fl_start req \<le> x \<and> x \<le> fl_end req \<and> (t = F_WRLCK \<or> fl_type req = F_WRLCK) \<and>
      sint (l_start out) \<le> x \<and> (l_len out \<noteq> 0 \<longrightarrow> x < sint (l_start out) + sint (l_len out)))"
proof -
  let ?fl = "posix_test_lock cmp req s"
  have q: "plain files req" using flock64_ideal [OF pos, of files l] conv by blast
  have out: "out = (if fl_type ?fl = F_UNLCK then l\<lparr>l_type := ucast (fl_type ?fl)\<rparr> else posix_lock_to_flock64 ?fl)"
    using res conv by (auto simp: fcntl_getlk64_def Let_def split: if_splits)
  show ?thesis
  proof (cases "first_index (\<lambda>cfl. IS_POSIX cfl \<and> posix_locks_conflict cmp req cfl) (i_flock s)")
    case None
    then have "\<not> conflicting files req (i_flock s)"
      unfolding first_index_None using conflict_iff [OF wf q] by blast
    moreover have "?fl = req\<lparr>fl_type := F_UNLCK\<rparr>" using None by (simp add: posix_test_lock_def)
    ultimately show ?thesis by (simp add: out)
  next
    case (Some i)
    let ?l = "i_flock s ! i"
    from first_index_Some [OF Some] have i: "i < length (i_flock s)" "IS_POSIX ?l" "posix_locks_conflict cmp req ?l"
      by blast+
    then have mem: "?l \<in> set (i_flock s)" by simp
    from posix_lock_good [OF wf mem i(2)] have g: "good (fl_owner ?l) ?l" .
    have fl: "?fl = locks_copy ?l" using Some by (simp add: posix_test_lock_def)
    have type: "fl_type ?fl \<noteq> F_UNLCK" using g by (simp add: fl locks_copy_def good_def)
    have "l_type out \<noteq> F_UNLCK"
    proof
      assume "l_type out = F_UNLCK"
      then have "ucast (fl_type ?fl) = (2 :: u16)" using type by (simp add: out posix_lock_to_flock64_def)
      then have "fl_type ?fl = 2" by (rule type_cast)
      then show False using type by simp
    qed
    moreover let ?x = "max (fl_start req) (fl_start ?l)"
    have c: "fl_owner ?l \<noteq> files" "fl_start ?l \<le> ?x" "?x \<le> fl_end ?l" "fl_start req \<le> ?x" "?x \<le> fl_end req"
      "fl_type ?l = F_WRLCK \<or> fl_type req = F_WRLCK"
      using i(3) q g by (auto simp: posix_locks_conflict_def locks_overlap_def locks_conflict_def same_owner_plain plain_def good_def)
    moreover have "holds (i_flock s) (fl_owner ?l) ?x (fl_type ?l)"
      using mem i(2) c(2,3) unfolding holds_def by blast
    moreover have "l_whence out = 0" "l_type out = ucast (fl_type ?l)"
      using type by (simp_all add: out fl posix_lock_to_flock64_def locks_copy_def)
    moreover have "sint (l_start out) = fl_start ?l"
      "l_len out \<noteq> 0 \<longrightarrow> sint (l_len out) = fl_end ?l - fl_start ?l + 1"
    proof -
      have e: "out = posix_lock_to_flock64 (locks_copy ?l)" using type unfolding out fl by simp
      have "plain (fl_owner ?l) (locks_copy ?l)" using g by (simp add: plain_def good_def locks_copy_def IS_POSIX_def)
      from flock64_fields [OF this] show "sint (l_start out) = fl_start ?l"
        "l_len out \<noteq> 0 \<longrightarrow> sint (l_len out) = fl_end ?l - fl_start ?l + 1"
        unfolding e by (auto simp: locks_copy_def posix_lock_to_flock64_def split: if_splits)
    qed
    ultimately show ?thesis by (auto intro!: exI [of _ "fl_owner ?l"] exI [of _ ?x] exI [of _ "fl_type ?l"])
  qed
qed

text \<open>Owner 1 has locked the bytes from 3500 on; owner 3 asks about 3000 to 3999.\<close>

definition ex_others :: lock_state where
  "ex_others = \<lparr>i_flock = [held (ex_lock 1 F_WRLCK 3500 9999)], blocked_list = []\<rparr>"

definition ex_ask :: "u64 flock" where
  "ex_ask = \<lparr>l_type = F_RDLCK, l_whence = 2, l_start = - 96, l_len = - 1000\<rparr>"

definition ex_req :: file_lock where
  "ex_req = \<lparr>fl_owner = 3, fl_flags = FL_POSIX, fl_type = F_RDLCK, fl_file = Some 5, fl_start = 3000, fl_end = 3999, fl_lmops = None\<rparr>"

lemma ex_ask_req: "flock64_to_posix_lock 3 ex_file ex_ask = Inr ex_req"
proof -
  have "0 \<le> sint (f_pos ex_file)" "0 \<le> sint (i_size ex_file)" by (simp_all add: ex_file_def)
  from flock64_ideal [OF this, of 3 ex_ask, THEN conjunct1] show ?thesis
    by (simp add: ex_ask_def ex_req_def ex_file_def flock_base_def ideal_range_def to_posix_lock_def assign_type_def OFFSET_MAX_def)
qed

lemma ex_answer:
  "fcntl_getlk64 ex_cmp 3 ex_file (Some ex_ask) ex_others =
     Inr \<lparr>l_type = F_WRLCK, l_whence = 0, l_start = 3500, l_len = 6500\<rparr>"
proof -
  have "l_type ex_ask = F_RDLCK" by (simp add: ex_ask_def)
  moreover have "posix_test_lock ex_cmp ex_req ex_others = locks_copy (held (ex_lock 1 F_WRLCK 3500 9999))"
    by (simp add: posix_test_lock_def ex_others_def ex_req_def ex_lock_def ex_cmp_def posix_locks_conflict_def locks_overlap_def
        locks_conflict_def posix_same_owner_def IS_POSIX_def)
  ultimately show ?thesis
    by (simp add: fcntl_getlk64_def ex_ask_req Let_def locks_copy_def ex_lock_def posix_lock_to_flock64_def OFFSET_MAX_def)
qed

theorem getlk64_truth_witness:
  "\<exists>own x. own \<noteq> 3 \<and> holds (i_flock ex_others) own x F_WRLCK \<and> 3500 \<le> x \<and> x \<le> 3999"
proof -
  have "locks_wf (i_flock ex_others)" by (simp add: ex_others_def ex_single_wf OFFSET_MAX_def)
  moreover have "0 \<le> sint (f_pos ex_file)" "0 \<le> sint (i_size ex_file)" by (simp_all add: ex_file_def)
  ultimately show ?thesis
    using getlk64_truth [OF _ _ _ ex_ask_req ex_answer] by (auto simp: ex_req_def)
qed

definition ex_mine :: file_lock where "ex_mine = ex_lock 3 F_WRLCK 10 OFFSET_MAX"

theorem flock64_roundtrip_witness:
  "\<exists>fl'. flock64_to_posix_lock 3 ex_file (posix_lock_to_flock64 ex_mine) = Inr fl' \<and>
     fl_start fl' = 10 \<and> fl_end fl' = OFFSET_MAX"
proof -
  have "plain 3 ex_mine" unfolding ex_mine_def by (rule ex_lock_plain) (simp_all add: OFFSET_MAX_def)
  from flock64_roundtrip [OF this, of ex_file] show ?thesis by (auto simp: ex_mine_def ex_lock_def)
qed

end
