(* ===== verification/SemSet.thy ===== *)
theory SemSet imports Prelude begin

text \<open>
  System V semaphore sets (\<open>ipc/sem.c\<close>): one set with its undo structures, its queue of
  pending operations, and the tasks that call \<open>semop\<close> on it. Everything done under the lock
  of the set is one function; \<open>semtimedop\<close> is cut where it sleeps. Times are left out. A
  semaphore value (\<open>int\<close> in C) is an integer: the theorems show that it stays within
  0 and \<open>SEMVMX\<close>, so no sum overflows. An adjustment is a \<open>short\<close> and does wrap around.
\<close>

section \<open>The set\<close>

definition SEMVMX :: int where "SEMVMX = 32767"
definition SEMAEM :: int where "SEMAEM = SEMVMX"

abbreviation (input) SEM_UNDO :: u16 where "SEM_UNDO \<equiv> 0x1000"
abbreviation (input) IPC_NOWAIT :: u16 where "IPC_NOWAIT \<equiv> 0x800"

record sembuf =
  sem_num :: u16
  sem_op :: u16
  sem_flg :: u16

definition undoes :: "sembuf \<Rightarrow> bool" where "undoes sop \<longleftrightarrow> sem_flg sop AND SEM_UNDO \<noteq> 0"
definition nowait :: "sembuf \<Rightarrow> bool" where "nowait sop \<longleftrightarrow> sem_flg sop AND IPC_NOWAIT \<noteq> 0"

abbreviation snum :: "sembuf \<Rightarrow> nat" where "snum sop \<equiv> unat (sem_num sop)"
abbreviation sop_val :: "sembuf \<Rightarrow> int" where "sop_val sop \<equiv> sint (sem_op sop)"

record semval_pid =
  semval :: int
  sempid :: int

text \<open>
  An undo structure of the set belongs to the undo list of a task (or of tasks that share
  one); the number of that list names it. A pending operation names its task, its undo
  structure if it has one, and whether it alters the set.
\<close>

record sem_queue =
  sleeper :: nat
  q_undo :: "nat option"
  q_pid :: int
  q_sops :: "sembuf list"
  q_alter :: bool

record sem_array =
  sem_base :: "semval_pid list"
  sem_undos :: "(nat \<times> u16 list) list"
  sem_pending :: "sem_queue list"

section \<open>Trying an operation\<close>

text \<open>
  The loop of \<open>try_atomic_semop\<close>. The second component is the operations done, the last one
  first. The result 0 is success, 1 means to sleep.
\<close>

fun semop_forward :: "u16 list option \<Rightarrow> sembuf list \<Rightarrow> sembuf list \<Rightarrow> semval_pid list \<Rightarrow>
    nat result \<times> sembuf list \<times> semval_pid list" where
  "semop_forward adj finished [] sems = (Inr 0, finished, sems)"
| "semop_forward adj finished (sop # sops) sems =
     (let n = snum sop; curr = sems ! n; result = semval curr + sop_val sop;
          would_block = (if nowait sop then Inl (Err EAGAIN) else Inr 1) in
      if sop_val sop = 0 \<and> semval curr \<noteq> 0 then (would_block, finished, sems)
      else if result < 0 then (would_block, finished, sems)
      else if result > SEMVMX then (Inl (Err ERANGE), finished, sems)
      else if undoes sop \<and> adj = None then (Inl Fault, finished, sems)
      else if undoes sop \<and> (let undo = sint (the adj ! n) - sop_val sop in undo < - SEMAEM - 1 \<or> undo > SEMAEM)
      then (Inl (Err ERANGE), finished, sems)
      else semop_forward adj (sop # finished) sops (sems[n := curr\<lparr>semval := result\<rparr>]))"

text \<open>The loop at the label \<open>undo\<close>.\<close>

fun semop_back :: "sembuf list \<Rightarrow> semval_pid list \<Rightarrow> semval_pid list" where
  "semop_back [] sems = sems"
| "semop_back (sop # finished) sems =
     (let n = snum sop in semop_back finished (sems[n := (sems ! n)\<lparr>semval := semval (sems ! n) - sop_val sop\<rparr>]))"

text \<open>The loop over a successful operation.\<close>

fun semop_commit :: "int \<Rightarrow> sembuf list \<Rightarrow> semval_pid list \<times> u16 list option \<Rightarrow> semval_pid list \<times> u16 list option" where
  "semop_commit pid [] (sems, adj) = (sems, adj)"
| "semop_commit pid (sop # finished) (sems, adj) =
     (let n = snum sop in
      semop_commit pid finished
        (sems[n := (sems ! n)\<lparr>sempid := pid\<rparr>],
         if undoes sop then map_option (\<lambda>a. a[n := a ! n - sem_op sop]) adj else adj))"

definition set_undo :: "nat option \<Rightarrow> u16 list option \<Rightarrow> (nat \<times> u16 list) list \<Rightarrow> (nat \<times> u16 list) list" where
  "set_undo un adj = map (\<lambda>(u, a). if un = Some u then (u, case adj of None \<Rightarrow> a | Some a' \<Rightarrow> a') else (u, a))"

definition semadj :: "nat option \<Rightarrow> sem_array \<Rightarrow> u16 list option" where
  "semadj un sma = (case un of None \<Rightarrow> None | Some u \<Rightarrow> map_of (sem_undos sma) u)"

definition try_atomic_semop :: "sem_array \<Rightarrow> sembuf list \<Rightarrow> nat option \<Rightarrow> int \<Rightarrow> nat result \<times> sem_array" where
  "try_atomic_semop sma sops un pid =
     (case semop_forward (semadj un sma) [] sops (sem_base sma) of
        (r, finished, sems) \<Rightarrow>
          if r = Inr 0 then
            (case semop_commit pid finished (sems, semadj un sma) of
               (sems, adj) \<Rightarrow> (Inr 0, sma\<lparr>sem_base := sems, sem_undos := set_undo un adj (sem_undos sma)\<rparr>))
          else (r, sma\<lparr>sem_base := semop_back finished sems\<rparr>))"

section \<open>The pending operations\<close>

text \<open>
  The loop of \<open>update_queue\<close>; the entries before the current one are passed along, the last
  component is the tasks woken with their results.
\<close>

function (sequential) update_loop :: "sem_array \<Rightarrow> sem_queue list \<Rightarrow> sem_queue list \<Rightarrow>
    sem_array \<times> sem_queue list \<times> (nat \<times> nat result) list" where
  "update_loop sma bef [] = (sma, bef, [])"
| "update_loop sma bef (q # rest) =
     (case try_atomic_semop sma (q_sops q) (q_undo q) (q_pid q) of
        (error, sma) \<Rightarrow>
          if error \<noteq> Inr 1 then
            (case (if q_alter q then update_loop sma [] (bef @ rest) else update_loop sma bef rest) of
               (sma, pending, woken) \<Rightarrow> (sma, pending, (sleeper q, error) # woken))
          else update_loop sma (bef @ [q]) rest)"
  by pat_completeness auto
termination
  by (relation "measures [\<lambda>(sma, bef, rest). length bef + length rest, \<lambda>(sma, bef, rest). length rest]") auto

definition update_queue :: "sem_array \<Rightarrow> sem_array \<times> (nat \<times> nat result) list" where
  "update_queue sma =
     (case update_loop sma [] (sem_pending sma) of
        (sma, pending, woken) \<Rightarrow> (sma\<lparr>sem_pending := pending\<rparr>, woken))"

definition waits_nonzero :: "nat \<Rightarrow> sembuf \<Rightarrow> bool" where
  "waits_nonzero semnum sop \<longleftrightarrow> snum sop = semnum \<and> sop_val sop < 0 \<and> \<not> nowait sop"

definition count_semncnt :: "sem_array \<Rightarrow> nat \<Rightarrow> nat" where
  "count_semncnt sma semnum = (\<Sum>q\<leftarrow>sem_pending sma. length (filter (waits_nonzero semnum) (q_sops q)))"

definition waits_zero :: "nat \<Rightarrow> sembuf \<Rightarrow> bool" where
  "waits_zero semnum sop \<longleftrightarrow> snum sop = semnum \<and> sop_val sop = 0 \<and> \<not> nowait sop"

definition count_semzcnt :: "sem_array \<Rightarrow> nat \<Rightarrow> nat" where
  "count_semzcnt sma semnum = (\<Sum>q\<leftarrow>sem_pending sma. length (filter (waits_zero semnum) (q_sops q)))"

section \<open>The set and its tasks\<close>

text \<open>
  A task is away, asleep in \<open>semtimedop\<close>, or awake again after it has read the status
  \<open>- EINTR\<close> and before it takes the lock. The status of a sleeping task is \<open>None\<close> for \<open>- EINTR\<close>.
  The set is gone after its removal.
\<close>

datatype sem_pc = Idle | Sleeping "nat result option" | Checking "nat result option"

record semset =
  set_array :: "sem_array option"
  sem_pcs :: "nat \<Rightarrow> sem_pc"

fun set_status :: "nat result \<Rightarrow> sem_pc \<Rightarrow> sem_pc" where
  "set_status r Idle = Idle"
| "set_status r (Sleeping _) = Sleeping (Some r)"
| "set_status r (Checking _) = Checking (Some r)"

fun wake_up_all :: "(nat \<times> nat result) list \<Rightarrow> (nat \<Rightarrow> sem_pc) \<Rightarrow> nat \<Rightarrow> sem_pc" where
  "wake_up_all [] pcs = pcs"
| "wake_up_all ((t, r) # woken) pcs = wake_up_all woken (pcs(t := set_status r (pcs t)))"

text \<open>A changed set whose pending operations are tried again.\<close>

definition updated_set :: "sem_array \<Rightarrow> semset \<Rightarrow> semset" where
  "updated_set sma s =
     (case update_queue sma of
        (sma, woken) \<Rightarrow> s\<lparr>set_array := Some sma, sem_pcs := wake_up_all woken (sem_pcs s)\<rparr>)"

record sem_ns =
  sc_semmsl :: int
  sc_semmns :: int
  sc_semopm :: nat
  used_sems :: int

text \<open>\<open>newary\<close> without keys and permissions; \<open>alloc\<close>: whether memory and an id are found.\<close>

definition newary :: "bool \<Rightarrow> int \<Rightarrow> sem_ns \<Rightarrow> sem_array result \<times> sem_ns" where
  "newary alloc nsems ns =
     (if nsems = 0 then (Inl (Err EINVAL), ns)
      else if used_sems ns + nsems > sc_semmns ns then (Inl (Err ENOSPC), ns)
      else if \<not> alloc then (Inl (Err ENOMEM), ns)
      else (Inr \<lparr>sem_base = replicate (nat nsems) \<lparr>semval = 0, sempid = 0\<rparr>, sem_undos = [], sem_pending = []\<rparr>,
            ns\<lparr>used_sems := used_sems ns + nsems\<rparr>))"

definition semget_new :: "bool \<Rightarrow> int \<Rightarrow> sem_ns \<Rightarrow> sem_array result \<times> sem_ns" where
  "semget_new alloc nsems ns =
     (if nsems < 0 \<or> nsems > sc_semmsl ns then (Inl (Err EINVAL), ns) else newary alloc nsems ns)"

text \<open>\<open>freeary\<close>: the pending operations fail with \<open>EIDRM\<close>.\<close>

definition freeary :: "semset \<Rightarrow> sem_ns \<Rightarrow> semset \<times> sem_ns" where
  "freeary s ns =
     (case set_array s of
        None \<Rightarrow> (s, ns)
      | Some sma \<Rightarrow>
          (s\<lparr>set_array := None,
             sem_pcs := wake_up_all (map (\<lambda>q. (sleeper q, Inl (Err EIDRM))) (sem_pending sma)) (sem_pcs s)\<rparr>,
           ns\<lparr>used_sems := used_sems ns - int (length (sem_base sma))\<rparr>))"

text \<open>
  \<open>find_alloc_undo\<close> for the undo list \<open>ulp\<close>. The set may go and another may come while memory
  is allocated; a set that is gone is \<open>EINVAL\<close> (\<open>ipc_lock\<close>).
\<close>

definition find_alloc_undo :: "bool \<Rightarrow> nat \<Rightarrow> semset \<Rightarrow> unit result \<times> semset" where
  "find_alloc_undo alloc ulp s =
     (case set_array s of
        None \<Rightarrow> (Inl (Err EINVAL), s)
      | Some sma \<Rightarrow>
          if map_of (sem_undos sma) ulp \<noteq> None then (Inr (), s)
          else if \<not> alloc then (Inl (Err ENOMEM), s)
          else (Inr (), s\<lparr>set_array := Some (sma\<lparr>sem_undos := (ulp, replicate (length (sem_base sma)) 0) # sem_undos sma\<rparr>)\<rparr>))"

section \<open>\<open>semtimedop\<close>\<close>

text \<open>
  The checks before the set is locked, on the arguments as copied from the program (\<open>None\<close>
  when that fails): the number of operations, the operations, and the timeout if there is
  one.
\<close>

definition semop_args :: "nat \<Rightarrow> bool \<Rightarrow> nat \<Rightarrow> sembuf list option \<Rightarrow> (int \<times> int) option option \<Rightarrow> sembuf list result" where
  "semop_args semopm alloc nsops user timeout =
     (if nsops < 1 then Inl (Err EINVAL)
      else if nsops > semopm then Inl (Err E2BIG)
      else if nsops > 64 \<and> \<not> alloc then Inl (Err ENOMEM)
      else case user of
        None \<Rightarrow> Inl (Err EFAULT)
      | Some sops \<Rightarrow>
          (case timeout of
             None \<Rightarrow> Inr sops
           | Some None \<Rightarrow> Inl (Err EFAULT)
           | Some (Some (sec, nsec)) \<Rightarrow>
               if sec < 0 \<or> nsec < 0 \<or> nsec \<ge> 1000000000 then Inl (Err EINVAL) else Inr sops))"

definition alters :: "sembuf list \<Rightarrow> bool" where
  "alters sops \<longleftrightarrow> (\<exists>sop \<in> set sops. sem_op sop \<noteq> 0)"

definition max_semnum :: "sembuf list \<Rightarrow> nat" where
  "max_semnum sops = fold max (map snum sops) 0"

definition enqueue :: "sem_queue \<Rightarrow> sem_queue list \<Rightarrow> sem_queue list" where
  "enqueue q pending = (if q_alter q then pending @ [q] else q # pending)"

text \<open>
  From the lock to the return or the sleep, which is \<open>None\<close>. \<open>un\<close> is the undo structure that
  \<open>find_alloc_undo\<close> has found for operations with \<open>SEM_UNDO\<close>; it is gone if the set has been
  removed since. \<open>perms\<close> is the answer of \<open>ipcperms\<close> for reading and for writing.
\<close>

definition semop_locked :: "nat \<Rightarrow> int \<Rightarrow> nat option \<Rightarrow> (bool \<Rightarrow> bool) \<Rightarrow> sembuf list \<Rightarrow> semset \<Rightarrow> nat result option \<times> semset" where
  "semop_locked t pid un perms sops s =
     (case set_array s of
        None \<Rightarrow> (Some (Inl (Err EINVAL)), s)
      | Some sma \<Rightarrow>
          if un \<noteq> None \<and> semadj un sma = None then (Some (Inl (Err EIDRM)), s)
          else if max_semnum sops \<ge> length (sem_base sma) then (Some (Inl (Err EFBIG)), s)
          else if \<not> perms (alters sops) then (Some (Inl (Err EACCES)), s)
          else (case try_atomic_semop sma sops un pid of
            (error, sma) \<Rightarrow>
              if error \<noteq> Inr 1 then
                (Some error, if alters sops \<and> error = Inr 0 then updated_set sma s else s\<lparr>set_array := Some sma\<rparr>)
              else
                let q = \<lparr>sleeper = t, q_undo = un, q_pid = pid, q_sops = sops, q_alter = alters sops\<rparr> in
                (None, s\<lparr>set_array := Some (sma\<lparr>sem_pending := enqueue q (sem_pending sma)\<rparr>),
                         sem_pcs := (sem_pcs s)(t := Sleeping None)\<rparr>)))"

text \<open>After the sleep: the first look at the status, without the lock.\<close>

definition semop_woken :: "nat \<Rightarrow> semset \<Rightarrow> nat result option \<times> semset" where
  "semop_woken t s =
     (case sem_pcs s t of
        Sleeping (Some r) \<Rightarrow> (Some r, s\<lparr>sem_pcs := (sem_pcs s)(t := Idle)\<rparr>)
      | Sleeping None \<Rightarrow> (None, s\<lparr>sem_pcs := (sem_pcs s)(t := Checking None)\<rparr>)
      | _ \<Rightarrow> (None, s))"

text \<open>The second look, with the lock; \<open>expired\<close>: the timeout has passed.\<close>

definition semop_recheck :: "nat \<Rightarrow> bool \<Rightarrow> semset \<Rightarrow> nat result option \<times> semset" where
  "semop_recheck t expired s =
     (case sem_pcs s t of
        Checking status \<Rightarrow>
          (case set_array s of
             None \<Rightarrow> (Some (Inl (Err EIDRM)), s\<lparr>sem_pcs := (sem_pcs s)(t := Idle)\<rparr>)
           | Some sma \<Rightarrow>
               (case status of
                  Some r \<Rightarrow> (Some r, s\<lparr>sem_pcs := (sem_pcs s)(t := Idle)\<rparr>)
                | None \<Rightarrow>
                    (Some (Inl (Err (if expired then EAGAIN else EINTR))),
                     s\<lparr>set_array := Some (sma\<lparr>sem_pending := filter (\<lambda>q. sleeper q \<noteq> t) (sem_pending sma)\<rparr>),
                       sem_pcs := (sem_pcs s)(t := Idle)\<rparr>)))
      | _ \<Rightarrow> (None, s))"

section \<open>\<open>exit_sem\<close> and \<open>semctl\<close>\<close>

text \<open>The adjustments of an undo structure, capped at 0 and \<open>SEMVMX\<close>.\<close>

definition adjust_sem :: "int \<Rightarrow> u16 \<Rightarrow> semval_pid \<Rightarrow> semval_pid" where
  "adjust_sem pid adj sem =
     (if adj \<noteq> 0 then
        let v = semval sem + sint adj;
            v = (if v < 0 then 0 else v);
            v = (if v > SEMVMX then SEMVMX else v) in
        \<lparr>semval = v, sempid = pid\<rparr>
      else sem)"

text \<open>\<open>exit_sem\<close> by the last task that uses the undo list \<open>ulp\<close>, as far as this set goes.\<close>

definition exit_sem :: "int \<Rightarrow> nat \<Rightarrow> semset \<Rightarrow> semset" where
  "exit_sem pid ulp s =
     (case set_array s of
        None \<Rightarrow> s
      | Some sma \<Rightarrow>
          (case map_of (sem_undos sma) ulp of
             None \<Rightarrow> s
           | Some adj \<Rightarrow>
               updated_set (sma\<lparr>sem_undos := filter (\<lambda>(u, _). u \<noteq> ulp) (sem_undos sma),
                                sem_base := map2 (adjust_sem pid) adj (sem_base sma)\<rparr>) s))"

datatype semctl_cmd = GETALL | GETVAL | GETPID | GETNCNT | GETZCNT | SETVAL int | SETALL "u16 list option"

datatype semctl_value = Number int | Values "u16 list"

definition setall :: "u16 list \<Rightarrow> sem_array \<Rightarrow> sem_array" where
  "setall vals sma = sma\<lparr>sem_base := map2 (\<lambda>v sem. sem\<lparr>semval := uint v\<rparr>) vals (sem_base sma),
     sem_undos := map (\<lambda>(u, a). (u, map (\<lambda>_. 0) a)) (sem_undos sma)\<rparr>"

definition setval :: "int \<Rightarrow> nat \<Rightarrow> int \<Rightarrow> sem_array \<Rightarrow> sem_array" where
  "setval pid n val sma = sma\<lparr>sem_base := (sem_base sma)[n := \<lparr>semval = val, sempid = pid\<rparr>],
     sem_undos := map (\<lambda>(u, a). (u, a[n := 0])) (sem_undos sma)\<rparr>"

text \<open>
  \<open>semctl_main\<close>; the array of \<open>SETALL\<close> is as copied from the program, and the copy of
  \<open>GETALL\<close> back to it succeeds.
\<close>

definition semctl_main :: "bool \<Rightarrow> (bool \<Rightarrow> bool) \<Rightarrow> int \<Rightarrow> int \<Rightarrow> semctl_cmd \<Rightarrow> semset \<Rightarrow> semctl_value result \<times> semset" where
  "semctl_main alloc perms pid semnum cmd s =
     (case set_array s of
        None \<Rightarrow> (Inl (Err EINVAL), s)
      | Some sma \<Rightarrow>
          let nsems = length (sem_base sma); n = nat semnum; curr = sem_base sma ! n in
          if \<not> perms (case cmd of SETVAL _ \<Rightarrow> True | SETALL _ \<Rightarrow> True | _ \<Rightarrow> False) then (Inl (Err EACCES), s)
          else (case cmd of
            GETALL \<Rightarrow>
              if nsems > 256 \<and> \<not> alloc then (Inl (Err ENOMEM), s)
              else (Inr (Values (map (\<lambda>sem. word_of_int (semval sem)) (sem_base sma))), s)
          | SETALL user \<Rightarrow>
              if nsems > 256 \<and> \<not> alloc then (Inl (Err ENOMEM), s)
              else (case user of
                None \<Rightarrow> (Inl (Err EFAULT), s)
              | Some vals \<Rightarrow>
                  if \<exists>v \<in> set vals. uint v > SEMVMX then (Inl (Err ERANGE), s)
                  else (Inr (Number 0), updated_set (setall vals sma) s))
          | _ \<Rightarrow>
              if semnum < 0 \<or> semnum \<ge> int nsems then (Inl (Err EINVAL), s)
              else (case cmd of
                GETVAL \<Rightarrow> (Inr (Number (semval curr)), s)
              | GETPID \<Rightarrow> (Inr (Number (sempid curr)), s)
              | GETNCNT \<Rightarrow> (Inr (Number (int (count_semncnt sma n))), s)
              | GETZCNT \<Rightarrow> (Inr (Number (int (count_semzcnt sma n))), s)
              | SETVAL val \<Rightarrow>
                  if val > SEMVMX \<or> val < 0 then (Inl (Err ERANGE), s)
                  else (Inr (Number 0), updated_set (setval pid n val sma) s)
              | _ \<Rightarrow> (Inl (Err EINVAL), s))))"

end
