(* ===== verification/SemSetSpec.thy ===== *)
theory SemSetSpec imports SemSet begin

text \<open>
  What semaphore sets promise: an operation takes place as a whole or not at all, an
  operation that can take place does not stay in the queue, and a process that exits leaves
  the values as if its operations with \<open>SEM_UNDO\<close> had not been.
\<close>

section \<open>All or nothing\<close>

text \<open>The value of a semaphore after some operations, and when one more can be done.\<close>

definition val_after :: "int list \<Rightarrow> sembuf list \<Rightarrow> nat \<Rightarrow> int" where
  "val_after vals sops n = vals ! n + (\<Sum>sop\<leftarrow>filter (\<lambda>sop. snum sop = n) sops. sop_val sop)"

definition blocks :: "int \<Rightarrow> sembuf \<Rightarrow> bool" where
  "blocks v sop \<longleftrightarrow> sop_val sop = 0 \<and> v \<noteq> 0 \<or> v + sop_val sop < 0"

definition exceeds :: "u16 list option \<Rightarrow> int \<Rightarrow> sembuf \<Rightarrow> bool" where
  "exceeds adj v sop \<longleftrightarrow> v + sop_val sop > SEMVMX \<or>
     undoes sop \<and> \<not> (- SEMAEM - 1 \<le> sint (the adj ! snum sop) - sop_val sop \<and> sint (the adj ! snum sop) - sop_val sop \<le> SEMAEM)"

definition refusal :: "int \<Rightarrow> sembuf \<Rightarrow> nat result" where
  "refusal v sop = (if blocks v sop then (if nowait sop then Inl (Err EAGAIN) else Inr 1) else Inl (Err ERANGE))"

text \<open>The result, by the values alone.\<close>

fun verdict :: "u16 list option \<Rightarrow> sembuf list \<Rightarrow> int list \<Rightarrow> nat result" where
  "verdict adj [] vals = Inr 0"
| "verdict adj (sop # sops) vals =
     (let v = vals ! snum sop in
      if blocks v sop \<or> exceeds adj v sop then refusal v sop
      else verdict adj sops (vals[snum sop := v + sop_val sop]))"

definition in_set :: "sem_array \<Rightarrow> sembuf list \<Rightarrow> bool" where
  "in_set sma sops \<longleftrightarrow> (\<forall>sop \<in> set sops. snum sop < length (sem_base sma))"

text \<open>The undo structure is there when an operation needs it, and has the right length.\<close>

definition undo_ok :: "u16 list option \<Rightarrow> nat \<Rightarrow> sembuf list \<Rightarrow> bool" where
  "undo_ok adj n sops \<longleftrightarrow> (case adj of None \<Rightarrow> \<forall>sop \<in> set sops. \<not> undoes sop | Some a \<Rightarrow> length a = n)"

abbreviation (input) vals_of :: "semval_pid list \<Rightarrow> int list" where "vals_of \<equiv> map semval"

lemma forward_back:
  assumes "semop_forward adj finished sops sems = (r, finished', sems')"
    and "\<forall>sop \<in> set sops. snum sop < length sems"
  shows "semop_back finished' sems' = semop_back finished sems \<and> length sems' = length sems"
  using assms
proof (induction adj finished sops sems rule: semop_forward.induct)
  case (2 adj finished sop sops sems)
  then show ?case by (auto simp: Let_def split: if_splits)
qed simp

lemma forward_verdict:
  assumes "semop_forward adj finished sops sems = (r, finished', sems')"
    and "\<forall>sop \<in> set sops. snum sop < length sems" "undo_ok adj n sops"
  shows "r = verdict adj sops (vals_of sems)"
  using assms
proof (induction adj finished sops sems rule: semop_forward.induct)
  case (2 adj finished sop sops sems)
  have u: "undoes sop \<Longrightarrow> adj \<noteq> None" "undo_ok adj n sops" using 2(4) by (auto simp: undo_ok_def split: option.splits)
  have n: "snum sop < length sems" using 2(3) by simp
  from 2(2) show ?case
    using 2(1)[OF refl refl refl refl] 2(3) u n
    by (auto simp: Let_def blocks_def exceeds_def refusal_def map_update split: if_splits)
qed simp

lemma forward_done:
  assumes "semop_forward adj finished sops sems = (Inr 0, finished', sems')"
    and "\<forall>sop \<in> set sops. snum sop < length sems"
  shows "finished' = rev sops @ finished \<and> length sems' = length sems \<and>
    (\<forall>n < length sems. semval (sems' ! n) = val_after (vals_of sems) sops n \<and> sempid (sems' ! n) = sempid (sems ! n))"
  using assms
proof (induction adj finished sops sems rule: semop_forward.induct)
  case (2 adj finished sop sops sems)
  have n: "snum sop < length sems" using 2(3) by simp
  have *: "finished' = rev sops @ sop # finished" "length sems' = length sems"
    "\<forall>n < length sems. semval (sems' ! n) = val_after (vals_of (sems[snum sop := (sems ! snum sop)\<lparr>semval := semval (sems ! snum sop) + sop_val sop\<rparr>])) sops n \<and>
       sempid (sems' ! n) = sempid (sems[snum sop := (sems ! snum sop)\<lparr>semval := semval (sems ! snum sop) + sop_val sop\<rparr>] ! n)"
    using 2(1)[OF refl refl refl refl] 2(2,3) by (auto simp: Let_def split: if_splits)
  then show ?case using n by (auto simp: val_after_def nth_list_update map_update)
qed (simp add: val_after_def)

definition undo_after :: "u16 list \<Rightarrow> sembuf list \<Rightarrow> nat \<Rightarrow> u16" where
  "undo_after a sops n = a ! n - (\<Sum>sop\<leftarrow>filter (\<lambda>sop. snum sop = n \<and> undoes sop) sops. sem_op sop)"

lemma commit_sems:
  assumes "semop_commit pid sops (sems, adj) = (sems', adj')" "\<forall>sop \<in> set sops. snum sop < length sems"
  shows "length sems' = length sems \<and> (\<forall>n < length sems. sems' ! n =
    (if n \<in> snum ` set sops then (sems ! n)\<lparr>sempid := pid\<rparr> else sems ! n))"
  using assms
proof (induction pid sops "(sems, adj)" arbitrary: sems adj rule: semop_commit.induct)
  case (2 pid sop sops sems adj)
  have *: "length sems' = length sems" "\<forall>n < length sems. sems' ! n =
    (if n \<in> snum ` set sops then (sems[snum sop := (sems ! snum sop)\<lparr>sempid := pid\<rparr>] ! n)\<lparr>sempid := pid\<rparr>
     else sems[snum sop := (sems ! snum sop)\<lparr>sempid := pid\<rparr>] ! n)"
    using 2(1)[OF refl] 2(2,3) by (simp_all add: Let_def)
  then show ?case using 2(3) by (auto simp: nth_list_update)
qed simp

lemma commit_adj:
  assumes "semop_commit pid sops (sems, adj) = (sems', adj')" "\<forall>sop \<in> set sops. snum sop < n"
  shows "case adj of None \<Rightarrow> adj' = None
    | Some a \<Rightarrow> length a = n \<longrightarrow> (\<exists>a'. adj' = Some a' \<and> length a' = n \<and> (\<forall>i < n. a' ! i = undo_after a sops i))"
  using assms
proof (induction pid sops "(sems, adj)" arbitrary: sems adj rule: semop_commit.induct)
  case (2 pid sop sops sems adj)
  let ?adj = "if undoes sop then map_option (\<lambda>a. a[snum sop := a ! snum sop - sem_op sop]) adj else adj"
  have IH: "case ?adj of None \<Rightarrow> adj' = None
    | Some a \<Rightarrow> length a = n \<longrightarrow> (\<exists>a'. adj' = Some a' \<and> length a' = n \<and> (\<forall>i < n. a' ! i = undo_after a sops i))"
    using 2(1)[OF refl] 2(2,3) by (simp add: Let_def)
  show ?case
  proof (cases adj)
    case None
    with IH show ?thesis by (simp split: if_splits)
  next
    case (Some a)
    show ?thesis
    proof (cases "undoes sop")
      case True
      with IH Some show ?thesis by (auto simp: undo_after_def nth_list_update)
    next
      case False
      with IH Some show ?thesis by (auto simp: undo_after_def)
    qed
  qed
qed (auto simp: undo_after_def split: option.split)

text \<open>The lists of a set fit together.\<close>

definition set_shape :: "sem_array \<Rightarrow> bool" where
  "set_shape sma \<longleftrightarrow> (\<forall>(u, a) \<in> set (sem_undos sma). length a = length (sem_base sma)) \<and>
     distinct (map fst (sem_undos sma)) \<and> (\<forall>sem \<in> set (sem_base sma). 0 \<le> semval sem \<and> semval sem \<le> SEMVMX)"

text \<open>An operation that may be tried: its semaphores exist, and its undo structure if it has to undo.\<close>

definition may_try :: "sem_array \<Rightarrow> sembuf list \<Rightarrow> nat option \<Rightarrow> bool" where
  "may_try sma sops un \<longleftrightarrow> in_set sma sops \<and> ((\<exists>sop \<in> set sops. undoes sop) \<longrightarrow> semadj un sma \<noteq> None)"

lemma may_try_undo:
  assumes "set_shape sma" "may_try sma sops un"
  shows "undo_ok (semadj un sma) (length (sem_base sma)) sops"
  using assms by (auto simp: undo_ok_def may_try_def set_shape_def semadj_def split: option.splits dest: map_of_SomeD)

lemma semadj_set_undo:
  "semadj u (sma\<lparr>sem_base := b, sem_undos := set_undo un adj (sem_undos sma)\<rparr>) =
    (if u = un \<and> adj \<noteq> None \<and> semadj un sma \<noteq> None then adj else semadj u sma)"
proof (cases u)
  case (Some v)
  have "map_of (set_undo un adj us) v = (if un = Some v \<and> adj \<noteq> None \<and> map_of us v \<noteq> None then adj else map_of us v)" for us
    by (induction us) (auto simp: set_undo_def split: option.splits if_splits)
  with Some show ?thesis by (auto simp: semadj_def split: option.splits)
qed (auto simp: semadj_def)

lemma set_undo_length [simp]: "map fst (set_undo un adj us) = map fst us"
  by (auto simp: set_undo_def split: option.splits)

text \<open>What a call of \<open>try_atomic_semop\<close> leaves.\<close>

lemma try_atomic_cases:
  assumes "set_shape sma" "may_try sma sops un"
  obtains (refused) "verdict (semadj un sma) sops (vals_of (sem_base sma)) \<noteq> Inr 0"
      "try_atomic_semop sma sops un pid = (verdict (semadj un sma) sops (vals_of (sem_base sma)), sma)"
    | (accepted) sma' where "verdict (semadj un sma) sops (vals_of (sem_base sma)) = Inr 0"
      "try_atomic_semop sma sops un pid = (Inr 0, sma')"
      "length (sem_base sma') = length (sem_base sma)" "sem_pending sma' = sem_pending sma"
      "\<forall>n < length (sem_base sma). semval (sem_base sma' ! n) = val_after (vals_of (sem_base sma)) sops n \<and>
         sempid (sem_base sma' ! n) = (if n \<in> snum ` set sops then pid else sempid (sem_base sma ! n))"
      "map fst (sem_undos sma') = map fst (sem_undos sma)"
      "\<forall>u. u \<noteq> un \<longrightarrow> semadj u sma' = semadj u sma"
      "case semadj un sma of None \<Rightarrow> semadj un sma' = None
       | Some a \<Rightarrow> \<exists>a'. semadj un sma' = Some a' \<and> length a' = length (sem_base sma) \<and>
           (\<forall>i < length (sem_base sma). a' ! i = undo_after a sops i)"
proof -
  let ?adj = "semadj un sma" and ?sems = "sem_base sma"
  have rng: "\<forall>sop \<in> set sops. snum sop < length ?sems" using assms(2) by (simp add: may_try_def in_set_def)
  note u = may_try_undo [OF assms]
  obtain r fin sems' where f: "semop_forward ?adj [] sops ?sems = (r, fin, sems')"
    by (cases "semop_forward ?adj [] sops ?sems")
  have r: "r = verdict ?adj sops (vals_of ?sems)" by (rule forward_verdict [OF f rng u])
  show ?thesis
  proof (cases "r = Inr 0")
    case False
    from forward_back [OF f rng] have "semop_back fin sems' = ?sems" by simp
    with False f r show ?thesis by (intro refused) (auto simp: try_atomic_semop_def)
  next
    case True
    from forward_done [OF f [unfolded True] rng] have fin: "fin = rev sops" "length sems' = length ?sems"
      and val: "\<forall>n < length ?sems. semval (sems' ! n) = val_after (vals_of ?sems) sops n \<and> sempid (sems' ! n) = sempid (?sems ! n)"
      by simp_all
    obtain sems2 adj2 where c: "semop_commit pid (rev sops) (sems', ?adj) = (sems2, adj2)"
      by (cases "semop_commit pid (rev sops) (sems', ?adj)")
    have rng': "\<forall>sop \<in> set (rev sops). snum sop < length sems'" using rng fin(2) by simp
    note cs = commit_sems [OF c rng']
    have ca: "case ?adj of None \<Rightarrow> adj2 = None
      | Some a \<Rightarrow> \<exists>a'. adj2 = Some a' \<and> length a' = length ?sems \<and> (\<forall>i < length ?sems. a' ! i = undo_after a sops i)"
    proof -
      have "undo_after a (rev sops) i = undo_after a sops i" for a i
        by (simp add: undo_after_def sum_list_rev flip: rev_filter rev_map)
      with commit_adj [OF c, of "length ?sems"] rng u show ?thesis
        by (auto simp: undo_ok_def split: option.splits)
    qed
    let ?sma = "sma\<lparr>sem_base := sems2, sem_undos := set_undo un adj2 (sem_undos sma)\<rparr>"
    show ?thesis
    proof (rule accepted [of ?sma])
      show "verdict ?adj sops (vals_of ?sems) = Inr 0" using True r by simp
      show "try_atomic_semop sma sops un pid = (Inr 0, ?sma)" using f True c fin by (simp add: try_atomic_semop_def)
      show "\<forall>u. u \<noteq> un \<longrightarrow> semadj u ?sma = semadj u sma" by (simp add: semadj_set_undo)
      show "case ?adj of None \<Rightarrow> semadj un ?sma = None
       | Some a \<Rightarrow> \<exists>a'. semadj un ?sma = Some a' \<and> length a' = length ?sems \<and> (\<forall>i < length ?sems. a' ! i = undo_after a sops i)"
        using ca by (auto simp: semadj_set_undo split: option.splits)
    qed (use cs fin val in \<open>auto simp: image_iff\<close>)
  qed
qed

text \<open>The verdict in terms of the values a semaphore has when its turn comes.\<close>

definition refused_at :: "u16 list option \<Rightarrow> int list \<Rightarrow> sembuf list \<Rightarrow> nat \<Rightarrow> bool" where
  "refused_at adj vals sops k \<longleftrightarrow>
     (let v = val_after vals (take k sops) (snum (sops ! k)) in blocks v (sops ! k) \<or> exceeds adj v (sops ! k))"

lemma val_after_Cons:
  "snum sop < length vals \<Longrightarrow> n < length vals \<Longrightarrow>
    val_after vals (sop # sops) n = val_after (vals[snum sop := vals ! snum sop + sop_val sop]) sops n"
  by (auto simp: val_after_def nth_list_update)

lemma verdict_refused:
  assumes "\<forall>sop \<in> set sops. snum sop < length vals"
  shows "(verdict adj sops vals = Inr 0 \<and> (\<forall>k < length sops. \<not> refused_at adj vals sops k)) \<or>
    (\<exists>k < length sops. refused_at adj vals sops k \<and> (\<forall>j < k. \<not> refused_at adj vals sops j) \<and>
       verdict adj sops vals = refusal (val_after vals (take k sops) (snum (sops ! k))) (sops ! k) \<and>
       verdict adj sops vals \<noteq> Inr 0)"
  using assms
proof (induction sops arbitrary: vals)
  case (Cons sop sops)
  let ?vals = "vals[snum sop := vals ! snum sop + sop_val sop]"
  have n: "snum sop < length vals" using Cons.prems by simp
  have first: "refused_at adj vals (sop # sops) 0 \<longleftrightarrow> blocks (vals ! snum sop) sop \<or> exceeds adj (vals ! snum sop) sop"
    by (simp add: refused_at_def val_after_def Let_def)
  have later: "refused_at adj vals (sop # sops) (Suc k) \<longleftrightarrow> refused_at adj ?vals sops k"
    and after: "val_after vals (take (Suc k) (sop # sops)) (snum ((sop # sops) ! Suc k)) = val_after ?vals (take k sops) (snum (sops ! k))"
    if "k < length sops" for k
    using that Cons.prems n by (simp_all add: refused_at_def val_after_Cons)
  show ?case
  proof (cases "blocks (vals ! snum sop) sop \<or> exceeds adj (vals ! snum sop) sop")
    case True
    then have "verdict adj (sop # sops) vals = refusal (vals ! snum sop) sop" by (simp add: Let_def)
    moreover have "refusal (vals ! snum sop) sop \<noteq> Inr 0" by (simp add: refusal_def)
    ultimately show ?thesis using True first by (intro disjI2 exI [of _ 0]) (simp add: val_after_def)
  next
    case False
    then have v: "verdict adj (sop # sops) vals = verdict adj sops ?vals" by (simp add: Let_def)
    have "\<forall>sop \<in> set sops. snum sop < length ?vals" using Cons.prems by simp
    from Cons.IH [OF this] show ?thesis
    proof (elim disjE conjE exE)
      assume "verdict adj sops ?vals = Inr 0" "\<forall>k < length sops. \<not> refused_at adj ?vals sops k"
      then show ?thesis using v False first later by (auto simp: less_Suc_eq_0_disj)
    next
      fix k assume k: "k < length sops" "refused_at adj ?vals sops k" "\<forall>j < k. \<not> refused_at adj ?vals sops j"
        "verdict adj sops ?vals = refusal (val_after ?vals (take k sops) (snum (sops ! k))) (sops ! k)"
        "verdict adj sops ?vals \<noteq> Inr 0"
      have "\<forall>j < Suc k. \<not> refused_at adj vals (sop # sops) j"
        using k(1,3) False first later by (auto simp: less_Suc_eq_0_disj)
      with k v later [OF k(1)] after [OF k(1)] show ?thesis by (intro disjI2 exI [of _ "Suc k"]) simp
    qed
  qed
qed simp

lemma forward_range:
  assumes "semop_forward adj finished sops sems = (r, finished', sems')" "\<forall>sop \<in> set sops. snum sop < length sems"
    and "\<forall>sem \<in> set sems. 0 \<le> semval sem \<and> semval sem \<le> SEMVMX"
  shows "\<forall>sem \<in> set sems'. 0 \<le> semval sem \<and> semval sem \<le> SEMVMX"
  using assms
proof (induction adj finished sops sems rule: semop_forward.induct)
  case (2 adj finished sop sops sems)
  let ?sems = "sems[snum sop := (sems ! snum sop)\<lparr>semval := semval (sems ! snum sop) + sop_val sop\<rparr>]"
  let ?go = "\<not> (sop_val sop = 0 \<and> semval (sems ! snum sop) \<noteq> 0) \<and> 0 \<le> semval (sems ! snum sop) + sop_val sop \<and>
    semval (sems ! snum sop) + sop_val sop \<le> SEMVMX \<and> \<not> (undoes sop \<and> adj = None) \<and>
    \<not> (undoes sop \<and> (let undo = sint (the adj ! snum sop) - sop_val sop in undo < - SEMAEM - 1 \<or> undo > SEMAEM))"
  show ?case
  proof (cases ?go)
    case False
    then have "sems' = sems" using 2(2) by (auto simp: Let_def split: if_splits)
    with 2(4) show ?thesis by simp
  next
    case True
    then have "semop_forward adj finished (sop # sops) sems = semop_forward adj (sop # finished) sops ?sems"
      by (auto simp: Let_def)
    then have f: "semop_forward adj (sop # finished) sops ?sems = (r, finished', sems')" using 2(2) by simp
    have "\<forall>sem \<in> set ?sems. 0 \<le> semval sem \<and> semval sem \<le> SEMVMX"
      using 2(4) True by (auto dest!: subsetD [OF set_update_subset_insert])
    moreover have "\<forall>sop \<in> set sops. snum sop < length ?sems" using 2(3) by simp
    ultimately show ?thesis
      using 2(1) [OF refl refl refl refl, OF _ _ _ _ _ f] True by (auto simp: Let_def)
  qed
qed simp

lemma try_result:
  assumes "set_shape sma" "may_try sma sops un"
  shows "fst (try_atomic_semop sma sops un pid) = verdict (semadj un sma) sops (vals_of (sem_base sma))"
  using assms by (cases rule: try_atomic_cases [where pid = pid]) simp_all

lemma try_range:
  assumes "set_shape sma" "may_try sma sops un"
  shows "\<forall>sem \<in> set (sem_base (snd (try_atomic_semop sma sops un pid))). 0 \<le> semval sem \<and> semval sem \<le> SEMVMX"
proof -
  have rng: "\<forall>sop \<in> set sops. snum sop < length (sem_base sma)" using assms(2) by (simp add: may_try_def in_set_def)
  obtain r fin sems' where f: "semop_forward (semadj un sma) [] sops (sem_base sma) = (r, fin, sems')"
    by (cases "semop_forward (semadj un sma) [] sops (sem_base sma)")
  from assms(1) have "\<forall>sem \<in> set (sem_base sma). 0 \<le> semval sem \<and> semval sem \<le> SEMVMX" by (simp add: set_shape_def)
  note r1 = forward_range [OF f rng this]
  show ?thesis
  proof (cases rule: try_atomic_cases [OF assms, of pid])
    case 1
    then show ?thesis using assms(1) by (simp add: set_shape_def)
  next
    case (2 sma')
    then have "r = Inr 0" using f by (auto simp: try_atomic_semop_def split: if_splits)
    with f rng have "length sems' = length (sem_base sma)"
      "\<forall>n < length (sem_base sma). semval (sems' ! n) = val_after (vals_of (sem_base sma)) sops n"
      using forward_done by fastforce+
    with 2(2,3,5) r1 show ?thesis by (auto simp: in_set_conv_nth all_set_conv_all_nth)
  qed
qed

definition same_frame :: "sem_array \<Rightarrow> sem_array \<Rightarrow> bool" where
  "same_frame sma sma' \<longleftrightarrow> length (sem_base sma') = length (sem_base sma) \<and> map fst (sem_undos sma') = map fst (sem_undos sma) \<and>
     sem_pending sma' = sem_pending sma"

lemma semadj_None: "semadj un sma = None \<longleftrightarrow> (case un of None \<Rightarrow> True | Some u \<Rightarrow> u \<notin> set (map fst (sem_undos sma)))"
  by (auto simp: semadj_def map_of_eq_None_iff split: option.splits)

lemma may_try_frame: "same_frame sma sma' \<Longrightarrow> may_try sma' sops un \<longleftrightarrow> may_try sma sops un"
  unfolding same_frame_def may_try_def in_set_def semadj_None by (simp cong: option.case_cong)

lemma try_frame:
  assumes "set_shape sma" "may_try sma sops un"
  shows "same_frame sma (snd (try_atomic_semop sma sops un pid)) \<and> set_shape (snd (try_atomic_semop sma sops un pid))"
  using assms
proof (cases rule: try_atomic_cases [where pid = pid])
  case refused
  then show ?thesis using assms by (simp add: same_frame_def)
next
  case (accepted sma')
  note 2 = accepted
  have d: "distinct (map fst (sem_undos sma'))" "distinct (map fst (sem_undos sma))" using 2(6) assms(1) by (simp_all add: set_shape_def)
  have "length a = length (sem_base sma')" if "(u, a) \<in> set (sem_undos sma')" for u a
  proof -
    from that d(1) have a: "semadj (Some u) sma' = Some a" by (simp add: semadj_def)
    show ?thesis
    proof (cases "Some u = un")
      case True
      with 2(8) a 2(3) show ?thesis by (auto split: option.splits)
    next
      case False
      with 2(7) a have "semadj (Some u) sma = Some a" by simp
      then have "(u, a) \<in> set (sem_undos sma)" by (simp add: semadj_def map_of_SomeD)
      with assms(1) 2(3) show ?thesis by (auto simp: set_shape_def)
    qed
  qed
  with d(1) try_range [OF assms, of pid] 2(2,3,4,6) show ?thesis by (auto simp: same_frame_def set_shape_def)
qed

lemma sum_list_0_iff_all: "\<forall>x \<in> set xs. f x = 0 \<Longrightarrow> sum_list (map f (filter P xs)) = (0 :: 'b::comm_monoid_add)"
  by (induction xs) auto

text \<open>
  C13: \<open>semop\<close> is atomic, on a set with values in range, for operations on its semaphores and
  with the undo structure that those with \<open>SEM_UNDO\<close> need. When each operation of the list, in its turn, finds a value on which
  it neither blocks nor leaves the range of values or of adjustments, the call succeeds: each
  semaphore has received the sum of its operations and is within 0 and \<open>SEMVMX\<close>, those
  named have the caller as their last process, and each adjustment is reduced by the sum of
  the operations to undo. Otherwise the set is exactly as before, and the first operation
  that cannot be done decides between \<open>ERANGE\<close>, \<open>EAGAIN\<close> and going to sleep.
\<close>

theorem semop_atomic:
  assumes "set_shape sma" "may_try sma sops un"
  shows "case try_atomic_semop sma sops un pid of (r, sma') \<Rightarrow>
    if \<forall>k < length sops. \<not> refused_at (semadj un sma) (vals_of (sem_base sma)) sops k
    then r = Inr 0 \<and> length (sem_base sma') = length (sem_base sma) \<and>
      (\<forall>n < length (sem_base sma).
         semval (sem_base sma' ! n) = val_after (vals_of (sem_base sma)) sops n \<and>
         0 \<le> semval (sem_base sma' ! n) \<and> semval (sem_base sma' ! n) \<le> SEMVMX \<and>
         sempid (sem_base sma' ! n) = (if n \<in> snum ` set sops then pid else sempid (sem_base sma ! n))) \<and>
      (\<forall>u. u \<noteq> un \<longrightarrow> semadj u sma' = semadj u sma) \<and>
      (\<forall>a. semadj un sma = Some a \<longrightarrow> (\<exists>a'. semadj un sma' = Some a' \<and>
         (\<forall>n < length (sem_base sma). a' ! n = undo_after a sops n)))
    else sma' = sma \<and> (\<exists>k < length sops. refused_at (semadj un sma) (vals_of (sem_base sma)) sops k \<and>
      (\<forall>j < k. \<not> refused_at (semadj un sma) (vals_of (sem_base sma)) sops j) \<and>
      r = refusal (val_after (vals_of (sem_base sma)) (take k sops) (snum (sops ! k))) (sops ! k))"
proof -
  let ?adj = "semadj un sma" and ?vals = "vals_of (sem_base sma)"
  have "\<forall>sop \<in> set sops. snum sop < length ?vals" using assms(2) by (simp add: may_try_def in_set_def)
  note v = verdict_refused [OF this, of ?adj]
  show ?thesis
  proof (cases rule: try_atomic_cases [OF assms, of pid])
    case 1
    with v show ?thesis by auto
  next
    case (2 sma')
    have "\<forall>n < length (sem_base sma). 0 \<le> semval (sem_base sma' ! n) \<and> semval (sem_base sma' ! n) \<le> SEMVMX"
      using try_range [OF assms, of pid] 2(2,3) by simp
    moreover have "\<forall>k < length sops. \<not> refused_at ?adj ?vals sops k" using v 2(1) by auto
    ultimately show ?thesis using 2 by auto
  qed
qed

section \<open>The pending operations\<close>

text \<open>A pending operation that is in order, and one that has to wait.\<close>

definition queue_ok :: "sem_array \<Rightarrow> sem_queue \<Rightarrow> bool" where
  "queue_ok sma q \<longleftrightarrow> may_try sma (q_sops q) (q_undo q) \<and> q_alter q = alters (q_sops q)"

definition has_to_wait :: "sem_array \<Rightarrow> sem_queue \<Rightarrow> bool" where
  "has_to_wait sma q \<longleftrightarrow> verdict (semadj (q_undo q) sma) (q_sops q) (vals_of (sem_base sma)) = Inr 1"

lemma queue_ok_frame: "same_frame sma sma' \<Longrightarrow> queue_ok sma' q \<longleftrightarrow> queue_ok sma q"
  by (simp add: queue_ok_def may_try_frame)

lemma same_frame_trans: "same_frame a b \<Longrightarrow> same_frame b c \<Longrightarrow> same_frame a c"
  by (simp add: same_frame_def)

text \<open>An operation that alters nothing leaves every verdict as it is.\<close>

lemma no_alter_verdict:
  assumes "set_shape sma" "may_try sma sops un" "\<not> alters sops"
  shows "has_to_wait (snd (try_atomic_semop sma sops un pid)) q \<longleftrightarrow> has_to_wait sma q"
proof (cases rule: try_atomic_cases [OF assms(1,2), of pid])
  case 1
  then show ?thesis by simp
next
  case (2 sma')
  have z: "\<forall>sop \<in> set sops. sem_op sop = 0" using assms(3) by (simp add: alters_def)
  have vals: "val_after vals sops n = vals ! n" for vals n
    using z by (simp add: val_after_def sum_list_0_iff_all) 
  have adj: "undo_after a sops n = a ! n" for a n
    using z by (simp add: undo_after_def sum_list_0_iff_all)
  have "vals_of (sem_base sma') = vals_of (sem_base sma)"
    using 2(3,5) vals by (intro nth_equalityI) simp_all
  moreover have "semadj un sma' = semadj un sma"
  proof (cases "semadj un sma")
    case (Some a)
    with 2(8) obtain a' where "semadj un sma' = Some a'" "length a' = length (sem_base sma)"
      "\<forall>i < length (sem_base sma). a' ! i = a ! i" using adj by auto
    moreover have "length a = length (sem_base sma)" using may_try_undo [OF assms(1,2)] Some by (simp add: undo_ok_def)
    ultimately show ?thesis using Some by (simp add: list_eq_iff_nth_eq)
  qed (use 2(8) in simp)
  then have "semadj u sma' = semadj u sma" for u using 2(7) by (cases "u = un") simp_all
  ultimately show ?thesis using 2(2) by (simp add: has_to_wait_def)
qed

lemma update_loop_spec:
  assumes "update_loop sma bef rest = (sma', pending, woken)" "set_shape sma"
    and "\<forall>q \<in> set (bef @ rest). queue_ok sma q" "\<forall>q \<in> set bef. has_to_wait sma q"
  shows "set_shape sma' \<and> same_frame sma sma' \<and> set pending \<subseteq> set (bef @ rest) \<and> (\<forall>q \<in> set pending. has_to_wait sma' q) \<and>
    mset (map sleeper (bef @ rest)) = mset (map sleeper pending) + mset (map fst woken) \<and> (\<forall>(t, r) \<in> set woken. r \<noteq> Inr 1)"
  using assms
proof (induction sma bef rest arbitrary: sma' pending woken rule: update_loop.induct)
  case (1 sma bef)
  then show ?case by (simp add: same_frame_def)
next
  case (2 sma bef q rest)
  obtain error s where attempt: "try_atomic_semop sma (q_sops q) (q_undo q) (q_pid q) = (error, s)"
    by (cases "try_atomic_semop sma (q_sops q) (q_undo q) (q_pid q)")
  have q: "may_try sma (q_sops q) (q_undo q)" "q_alter q = alters (q_sops q)" using 2(6) by (simp_all add: queue_ok_def)
  note fr = try_frame [OF 2(5) q(1), of "q_pid q", unfolded attempt snd_conv]
  have ok: "\<forall>p \<in> set (bef @ q # rest). queue_ok s p" using 2(6) fr queue_ok_frame by blast
  have e: "error = verdict (semadj (q_undo q) sma) (q_sops q) (vals_of (sem_base sma))"
    using try_result [OF 2(5) q(1), of "q_pid q"] attempt by simp
  show ?case
  proof (cases "error = Inr 1")
    case True
    have "s = sma" using try_atomic_cases [OF 2(5) q(1), of "q_pid q" ?thesis] attempt True e
      by (metis Inr_inject Pair_inject zero_neq_one)
    with 2(4) attempt True have "update_loop sma (bef @ [q]) rest = (sma', pending, woken)" by simp
    moreover have "\<forall>p \<in> set (bef @ [q]). has_to_wait sma p" using 2(7) True e by (simp add: has_to_wait_def)
    ultimately show ?thesis using 2(3) [OF attempt [symmetric], of sma' pending woken] True 2(5,6) \<open>s = sma\<close> by simp
  next
    case False
    let ?b = "if q_alter q then [] else bef" and ?r = "if q_alter q then bef @ rest else rest"
    obtain sa pa wa where loop: "update_loop s ?b ?r = (sa, pa, wa)" by (cases "update_loop s ?b ?r")
    with 2(4) attempt False have out: "sma' = sa" "pending = pa" "woken = (sleeper q, error) # wa" by (auto split: if_splits)
    have "\<forall>p \<in> set bef. has_to_wait s p" if "\<not> q_alter q"
      using no_alter_verdict [OF 2(5) q(1), of "q_pid q"] q(2) that 2(7) attempt by simp
    then have wait: "\<forall>p \<in> set ?b. has_to_wait s p" by simp
    have okb: "\<forall>p \<in> set (?b @ ?r). queue_ok s p" using ok by auto
    have IH: "set_shape sa \<and> same_frame s sa \<and> set pa \<subseteq> set (?b @ ?r) \<and> (\<forall>q \<in> set pa. has_to_wait sa q) \<and>
      mset (map sleeper (?b @ ?r)) = mset (map sleeper pa) + mset (map fst wa) \<and> (\<forall>(t, r) \<in> set wa. r \<noteq> Inr 1)"
    proof (cases "q_alter q")
      case True
      with loop okb wait fr show ?thesis using 2(1) [OF attempt [symmetric] False True, of sa pa wa] by simp
    next
      case noalt: False
      with loop okb wait fr show ?thesis using 2(2) [OF attempt [symmetric] False noalt, of sa pa wa] by simp
    qed
    have m: "mset (map sleeper (?b @ ?r)) = mset (map sleeper (bef @ rest))" "set (?b @ ?r) = set (bef @ rest)" by simp_all
    from IH fr False show ?thesis unfolding out m by (auto dest: same_frame_trans)
  qed
qed

section \<open>The set and its tasks\<close>

fun undecided :: "sem_pc \<Rightarrow> bool" where
  "undecided (Sleeping None) = True"
| "undecided (Checking None) = True"
| "undecided _ = False"

definition queue_matches :: "sem_queue list \<Rightarrow> (nat \<Rightarrow> sem_pc) \<Rightarrow> bool" where
  "queue_matches pending pcs \<longleftrightarrow> distinct (map sleeper pending) \<and> (\<forall>t. t \<in> sleeper ` set pending \<longleftrightarrow> undecided (pcs t))"

definition semset_inv :: "semset \<Rightarrow> bool" where
  "semset_inv s \<longleftrightarrow> (case set_array s of
     None \<Rightarrow> queue_matches [] (sem_pcs s)
   | Some sma \<Rightarrow> set_shape sma \<and> (\<forall>q \<in> set (sem_pending sma). queue_ok sma q \<and> has_to_wait sma q) \<and>
       queue_matches (sem_pending sma) (sem_pcs s))"

text \<open>
  The steps of the tasks. A task that calls \<open>semop\<close> with \<open>SEM_UNDO\<close> has looked for its undo
  structure before. A task exits when none of the tasks that share its undo list is
  waiting.
\<close>

inductive semset_step :: "semset \<Rightarrow> semset \<Rightarrow> bool" where
  find_undo: "semset_step s s'" if "find_alloc_undo alloc ulp s = (r, s')"
| enter: "semset_step s s'" if "sem_pcs s t = Idle" "(\<exists>sop \<in> set sops. undoes sop) \<longrightarrow> un \<noteq> None"
    "semop_locked t pid un perms sops s = (r, s')"
| woken: "semset_step s s'" if "semop_woken t s = (r, s')"
| recheck: "semset_step s s'" if "semop_recheck t expired s = (r, s')"
| exits: "semset_step s (exit_sem pid ulp s)"
    if "\<forall>sma. set_array s = Some sma \<longrightarrow> (\<forall>q \<in> set (sem_pending sma). q_undo q \<noteq> Some ulp)"
| control: "semset_step s s'" if "semctl_main alloc perms pid semnum cmd s = (v, s')"
    "\<forall>vals sma. cmd = SETALL (Some vals) \<and> set_array s = Some sma \<longrightarrow> length vals = length (sem_base sma)"
| remove: "semset_step s s'" if "freeary s ns = (s', ns')"

lemma undecided_status [simp]: "\<not> undecided (set_status r pc)"
  by (cases pc) auto

lemma undecided_wake: "undecided (wake_up_all woken pcs t) \<longleftrightarrow> undecided (pcs t) \<and> t \<notin> fst ` set woken"
  by (induction woken arbitrary: pcs) (force split: if_splits)+

lemma semadj_pending [simp]: "semadj u (sma\<lparr>sem_pending := p\<rparr>) = semadj u sma"
  by (cases u) (simp_all add: semadj_def)

lemma updated_set_inv:
  assumes "set_shape sma" "\<forall>q \<in> set (sem_pending sma). queue_ok sma q" "queue_matches (sem_pending sma) (sem_pcs s)"
  shows "semset_inv (updated_set sma s)"
proof -
  obtain sma' pending woken where l: "update_loop sma [] (sem_pending sma) = (sma', pending, woken)"
    by (cases "update_loop sma [] (sem_pending sma)")
  have sp: "set_shape sma'" "same_frame sma sma'" "set pending \<subseteq> set (sem_pending sma)" "\<forall>q \<in> set pending. has_to_wait sma' q"
    and m: "mset (map sleeper (sem_pending sma)) = mset (map sleeper pending) + mset (map fst woken)"
    using update_loop_spec [OF l assms(1)] assms(2) by simp_all
  have "mset (map sleeper (sem_pending sma)) = mset (map sleeper pending @ map fst woken)" using m by simp
  then have d: "distinct (map sleeper pending @ map fst woken)"
    using assms(3) mset_eq_imp_distinct_iff unfolding queue_matches_def by blast
  have "set (map sleeper (sem_pending sma)) = set (map sleeper pending @ map fst woken)"
    using m by (metis mset_append set_mset_mset)
  then have st: "sleeper ` set (sem_pending sma) = sleeper ` set pending \<union> fst ` set woken" by simp
  have "queue_matches pending (wake_up_all woken (sem_pcs s))"
    using d st assms(3) by (auto simp: queue_matches_def undecided_wake)
  moreover have "\<forall>q \<in> set pending. queue_ok sma' q" using assms(2) sp(2,3) queue_ok_frame by blast
  moreover have "set_shape (sma'\<lparr>sem_pending := pending\<rparr>)" using sp(1) by (simp add: set_shape_def)
  moreover have "queue_ok (sma'\<lparr>sem_pending := pending\<rparr>) q = queue_ok sma' q"
    "has_to_wait (sma'\<lparr>sem_pending := pending\<rparr>) q = has_to_wait sma' q" for q
    by (simp_all add: queue_ok_def may_try_def in_set_def has_to_wait_def)
  ultimately show ?thesis using sp(4) l by (simp add: semset_inv_def updated_set_def update_queue_def)
qed

lemma undo_frame:
  assumes "length (sem_base sma') = length (sem_base sma)"
    and "\<And>u. semadj u sma' = None \<longleftrightarrow> semadj u sma = None"
  shows "queue_ok sma' q \<longleftrightarrow> queue_ok sma q"
  using assms by (simp add: queue_ok_def may_try_def in_set_def)

lemma find_undo_step:
  assumes "semset_inv s" "find_alloc_undo alloc ulp s = (r, s')"
  shows "semset_inv s'"
proof (cases "set_array s")
  case (Some sma)
  show ?thesis
  proof (cases "map_of (sem_undos sma) ulp \<noteq> None \<or> \<not> alloc")
    case False
    let ?sma = "sma\<lparr>sem_undos := (ulp, replicate (length (sem_base sma)) 0) # sem_undos sma\<rparr>"
    have s': "s' = s\<lparr>set_array := Some ?sma\<rparr>" using assms(2) Some False by (simp add: find_alloc_undo_def)
    have inv: "set_shape sma" "\<forall>q \<in> set (sem_pending sma). queue_ok sma q \<and> has_to_wait sma q"
      "queue_matches (sem_pending sma) (sem_pcs s)" using assms(1) Some by (simp_all add: semset_inv_def)
    have new: "ulp \<notin> fst ` set (sem_undos sma)" using False by (simp add: map_of_eq_None_iff)
    have "set_shape ?sma" using inv(1) new by (auto simp: set_shape_def)
    moreover have "queue_ok ?sma q \<and> has_to_wait ?sma q" if "q \<in> set (sem_pending sma)" for q
    proof (cases "q_undo q = Some ulp")
      case True
      then have adj: "semadj (q_undo q) sma = None" "semadj (q_undo q) ?sma = Some (replicate (length (sem_base sma)) 0)"
        using False by (simp_all add: semadj_def)
      have ok: "queue_ok sma q" "has_to_wait sma q" using inv(2) that by simp_all
      then have no: "\<forall>sop \<in> set (q_sops q). \<not> undoes sop" using adj(1) by (auto simp: queue_ok_def may_try_def)
      have "verdict adj sops vals = verdict adj' sops vals" if "\<forall>sop \<in> set sops. \<not> undoes sop" for adj adj' sops vals
        using that by (induction adj sops vals rule: verdict.induct) (auto simp: exceeds_def Let_def)
      from this [OF no, of "semadj (q_undo q) ?sma" "vals_of (sem_base sma)" "semadj (q_undo q) sma"] ok no show ?thesis
        by (auto simp: queue_ok_def may_try_def in_set_def has_to_wait_def)
    next
      case False
      then have "semadj (q_undo q) ?sma = semadj (q_undo q) sma" by (auto simp: semadj_def split: option.split)
      with inv(2) that show ?thesis by (simp add: queue_ok_def may_try_def in_set_def has_to_wait_def)
    qed
    ultimately show ?thesis using inv(3) s' by (simp add: semset_inv_def)
  qed (use assms Some in \<open>auto simp: find_alloc_undo_def split: if_splits\<close>)
qed (use assms in \<open>simp add: find_alloc_undo_def\<close>)

lemma max_semnum_bound:
  assumes "max_semnum sops < n" "sop \<in> set sops"
  shows "snum sop < n"
proof -
  have "max_semnum sops = Max (set (0 # map snum sops))" unfolding max_semnum_def by (simp only: Max.set_eq_fold)
  moreover have "snum sop \<le> Max (set (0 # map snum sops))" using assms(2) by (intro Max_ge) auto
  ultimately show ?thesis using assms(1) by (metis le_less_trans)
qed

lemma enqueue_set [simp]: "set (enqueue q p) = insert q (set p)"
  by (simp add: enqueue_def)

lemma enqueue_matches:
  assumes "queue_matches p pcs" "pcs t = Idle" "sleeper q = t"
  shows "queue_matches (enqueue q p) (pcs(t := Sleeping None))"
proof -
  have "t \<notin> sleeper ` set p" using assms(1,2) by (simp add: queue_matches_def)
  with assms show ?thesis by (auto simp: queue_matches_def enqueue_def)
qed

lemma idle_matches: "queue_matches p pcs \<Longrightarrow> \<not> undecided (pcs t) \<Longrightarrow> \<not> undecided pc \<Longrightarrow> queue_matches p (pcs(t := pc))"
  by (auto simp: queue_matches_def)

lemma enter_step:
  assumes inv: "semset_inv s" and t: "sem_pcs s t = Idle" and u: "(\<exists>sop \<in> set sops. undoes sop) \<longrightarrow> un \<noteq> None"
    and res: "semop_locked t pid un perms sops s = (r, s')"
  shows "semset_inv s'"
proof (cases "set_array s")
  case (Some sma)
  have I: "set_shape sma" "\<forall>q \<in> set (sem_pending sma). queue_ok sma q \<and> has_to_wait sma q"
    "queue_matches (sem_pending sma) (sem_pcs s)" using inv Some by (simp_all add: semset_inv_def)
  show ?thesis
  proof (cases "un \<noteq> None \<and> semadj un sma = None \<or> max_semnum sops \<ge> length (sem_base sma) \<or> \<not> perms (alters sops)")
    case True
    with res Some have "s' = s" by (auto simp: semop_locked_def split: if_splits)
    with inv show ?thesis by simp
  next
    case False
    then have ok: "may_try sma sops un"
      using u max_semnum_bound unfolding may_try_def in_set_def by (metis not_le)
    obtain error sm where attempt: "try_atomic_semop sma sops un pid = (error, sm)" by (cases "try_atomic_semop sma sops un pid")
    note fr = try_frame [OF I(1) ok, of pid, unfolded attempt snd_conv]
    then have p: "sem_pending sm = sem_pending sma" by (simp add: same_frame_def)
    have okq: "\<forall>q \<in> set (sem_pending sm). queue_ok sm q" using I(2) fr p queue_ok_frame [of sma sm] by simp
    have e: "error = verdict (semadj un sma) sops (vals_of (sem_base sma))"
      using try_result [OF I(1) ok, of pid] attempt by simp
    have same: "sm = sma" if "error \<noteq> Inr 0"
      using try_atomic_cases [OF I(1) ok, of pid "sm = sma"] attempt that by auto
    consider (wait) "error = Inr 1" | (altered) "error = Inr 0" "alters sops" | (read) "error \<noteq> Inr 1" "\<not> (alters sops \<and> error = Inr 0)" by fastforce
    then show ?thesis
    proof (cases)
      case wait
      let ?q = "\<lparr>sleeper = t, q_undo = un, q_pid = pid, q_sops = sops, q_alter = alters sops\<rparr>"
      have s': "s' = s\<lparr>set_array := Some (sma\<lparr>sem_pending := enqueue ?q (sem_pending sma)\<rparr>), sem_pcs := (sem_pcs s)(t := Sleeping None)\<rparr>"
        using res Some False attempt wait same by (auto simp: semop_locked_def Let_def split: if_splits)
      have "queue_ok sma ?q" "has_to_wait sma ?q" using ok e wait by (simp_all add: queue_ok_def has_to_wait_def)
      then show ?thesis using I enqueue_matches [OF I(3) t, of ?q]
        by (auto simp: s' semset_inv_def set_shape_def queue_ok_def may_try_def in_set_def has_to_wait_def)
    next
      case altered
      then have s': "s' = updated_set sm s" using res Some False attempt by (auto simp: semop_locked_def split: if_splits)
      show ?thesis unfolding s' using updated_set_inv [of sm s] fr okq I(3) p by simp
    next
      case read
      then have s': "s' = s\<lparr>set_array := Some sm\<rparr>" using res Some False attempt by (auto simp: semop_locked_def split: if_splits)
      have "has_to_wait sm q \<longleftrightarrow> has_to_wait sma q" for q
        using same read no_alter_verdict [OF I(1) ok, of pid q] attempt by (cases "error = Inr 0") auto
      then show ?thesis using I p fr okq by (simp add: s' semset_inv_def)
    qed
  qed
qed (use assms in \<open>simp add: semop_locked_def\<close>)

lemma woken_step:
  assumes "semset_inv s" "semop_woken t s = (r, s')"
  shows "semset_inv s'"
proof -
  have "set_array s' = set_array s \<and> (\<forall>v. undecided (sem_pcs s' v) = undecided (sem_pcs s v))"
    using assms(2) by (auto simp: semop_woken_def split: sem_pc.splits option.splits if_splits)
  with assms(1) show ?thesis by (auto simp: semset_inv_def queue_matches_def split: option.splits)
qed

lemma recheck_step:
  assumes inv: "semset_inv s" and res: "semop_recheck t expired s = (r, s')"
  shows "semset_inv s'"
proof (cases "sem_pcs s t")
  case (Checking status)
  show ?thesis
  proof (cases "set_array s")
    case None
    with res Checking have "s' = s\<lparr>sem_pcs := (sem_pcs s)(t := Idle)\<rparr>" by (simp add: semop_recheck_def)
    with inv None show ?thesis by (simp add: semset_inv_def queue_matches_def)
  next
    case (Some sma)
    have I: "set_shape sma" "\<forall>q \<in> set (sem_pending sma). queue_ok sma q \<and> has_to_wait sma q"
      "queue_matches (sem_pending sma) (sem_pcs s)" using inv Some by (simp_all add: semset_inv_def)
    show ?thesis
    proof (cases status)
      case None
      let ?p = "filter (\<lambda>q. sleeper q \<noteq> t) (sem_pending sma)"
      have s': "s' = s\<lparr>set_array := Some (sma\<lparr>sem_pending := ?p\<rparr>), sem_pcs := (sem_pcs s)(t := Idle)\<rparr>"
        using res Checking Some None by (simp add: semop_recheck_def)
      have "queue_matches ?p ((sem_pcs s)(t := Idle))"
        using I(3) by (auto simp: queue_matches_def distinct_map_filter)
      with I(1,2) show ?thesis
        by (auto simp: s' semset_inv_def set_shape_def queue_ok_def may_try_def in_set_def has_to_wait_def)
    next
      case status: (Some v)
      then have "s' = s\<lparr>sem_pcs := (sem_pcs s)(t := Idle)\<rparr>" using res Checking Some by (simp add: semop_recheck_def)
      with I Some Checking status show ?thesis by (simp add: semset_inv_def idle_matches)
    qed
  qed
qed (use assms in \<open>simp_all add: semop_recheck_def\<close>)

text \<open>A change of values and adjustments that keeps the frame, followed by a new look at the queue.\<close>

lemma change_step:
  assumes inv: "semset_inv s" and sma: "set_array s = Some sma" and shape: "set_shape sma'"
    and same: "length (sem_base sma') = length (sem_base sma)" "sem_pending sma' = sem_pending sma"
    and undo: "\<forall>q \<in> set (sem_pending sma). semadj (q_undo q) sma \<noteq> None \<longrightarrow> semadj (q_undo q) sma' \<noteq> None"
  shows "semset_inv (updated_set sma' s)"
proof (rule updated_set_inv [OF shape])
  have I: "\<forall>q \<in> set (sem_pending sma). queue_ok sma q" "queue_matches (sem_pending sma) (sem_pcs s)"
    using inv sma by (simp_all add: semset_inv_def)
  show "\<forall>q \<in> set (sem_pending sma'). queue_ok sma' q"
    using I(1) same undo by (auto simp: queue_ok_def may_try_def in_set_def)
  show "queue_matches (sem_pending sma') (sem_pcs s)" using I(2) same(2) by simp
qed

lemma adjust_range: "0 \<le> semval sem \<Longrightarrow> semval sem \<le> SEMVMX \<Longrightarrow> 0 \<le> semval (adjust_sem pid adj sem) \<and> semval (adjust_sem pid adj sem) \<le> SEMVMX"
  by (simp add: adjust_sem_def Let_def SEMVMX_def)

lemma map_of_filter_other: "u \<noteq> v \<Longrightarrow> map_of (filter (\<lambda>(k, _). k \<noteq> v) us) u = map_of us u"
  by (induction us) auto

lemma exits_step:
  assumes inv: "semset_inv s"
    and free: "\<forall>sma. set_array s = Some sma \<longrightarrow> (\<forall>q \<in> set (sem_pending sma). q_undo q \<noteq> Some ulp)"
  shows "semset_inv (exit_sem pid ulp s)"
proof (cases "set_array s")
  case (Some sma)
  show ?thesis
  proof (cases "map_of (sem_undos sma) ulp")
    case adj: (Some adj)
    let ?sma = "sma\<lparr>sem_undos := filter (\<lambda>(u, _). u \<noteq> ulp) (sem_undos sma), sem_base := map2 (adjust_sem pid) adj (sem_base sma)\<rparr>"
    have shape: "set_shape sma" using inv Some by (simp add: semset_inv_def)
    then have len: "length adj = length (sem_base sma)" using adj by (auto simp: set_shape_def dest: map_of_SomeD)
    have "set_shape ?sma" unfolding set_shape_def
    proof (intro conjI)
      show "\<forall>sem \<in> set (sem_base ?sma). 0 \<le> semval sem \<and> semval sem \<le> SEMVMX"
        using shape adjust_range by (auto simp: set_shape_def dest!: set_zip_rightD)
    qed (use shape len in \<open>auto simp: set_shape_def distinct_map_filter\<close>)
    moreover have "semadj (q_undo q) ?sma = semadj (q_undo q) sma" if "q \<in> set (sem_pending sma)" for q
    proof -
      have "q_undo q \<noteq> Some ulp" using free Some that by blast
      then show ?thesis by (cases "q_undo q") (simp_all add: semadj_def map_of_filter_other)
    qed
    ultimately have "semset_inv (updated_set ?sma s)" using len by (intro change_step [OF inv Some]) simp_all
    then show ?thesis using Some adj by (simp add: exit_sem_def)
  qed (use inv Some in \<open>simp add: exit_sem_def\<close>)
qed (use inv in \<open>simp add: exit_sem_def\<close>)

lemma semadj_map:
  "semadj u (sma\<lparr>sem_base := b, sem_undos := map (\<lambda>(u, a). (u, f a)) (sem_undos sma)\<rparr>) = map_option f (semadj u sma)"
proof (cases u)
  case (Some v)
  have "map_of (map (\<lambda>(u, a). (u, f a)) us) v = map_option f (map_of us v)" for us by (induction us) auto
  with Some show ?thesis by (simp add: semadj_def)
qed (simp add: semadj_def)

lemma setval_step:
  assumes inv: "semset_inv s" and sma: "set_array s = Some sma" and v: "0 \<le> val" "val \<le> SEMVMX"
  shows "semset_inv (updated_set (setval pid n val sma) s)"
proof (rule change_step [OF inv sma])
  have shape: "set_shape sma" using inv sma by (simp add: semset_inv_def)
  then show "set_shape (setval pid n val sma)"
    using v by (auto simp: set_shape_def setval_def comp_def case_prod_unfold dest!: subsetD [OF set_update_subset_insert])
qed (simp_all add: setval_def semadj_map)

lemma setall_step:
  assumes inv: "semset_inv s" and sma: "set_array s = Some sma" and v: "\<forall>v \<in> set vals. uint v \<le> SEMVMX"
    and len: "length vals = length (sem_base sma)"
  shows "semset_inv (updated_set (setall vals sma) s)"
proof (rule change_step [OF inv sma])
  have shape: "set_shape sma" using inv sma by (simp add: semset_inv_def)
  have "\<forall>sem \<in> set (map2 (\<lambda>v sem. sem\<lparr>semval := uint v\<rparr>) vals (sem_base sma)). 0 \<le> semval sem \<and> semval sem \<le> SEMVMX"
    using v by (auto dest: set_zip_leftD)
  with shape len show "set_shape (setall vals sma)"
    by (auto simp: set_shape_def setall_def comp_def case_prod_unfold)
qed (simp_all add: setall_def semadj_map len)

lemma control_step:
  assumes inv: "semset_inv s" and res: "semctl_main alloc perms pid semnum cmd s = (v, s')"
    and len: "\<forall>vals sma. cmd = SETALL (Some vals) \<and> set_array s = Some sma \<longrightarrow> length vals = length (sem_base sma)"
  shows "semset_inv s'"
proof (cases "set_array s")
  case (Some sma)
  have "s' = s \<or> (\<exists>val. 0 \<le> val \<and> val \<le> SEMVMX \<and> s' = updated_set (setval pid (nat semnum) val sma) s) \<or>
    (\<exists>vals. cmd = SETALL (Some vals) \<and> (\<forall>v \<in> set vals. uint v \<le> SEMVMX) \<and> s' = updated_set (setall vals sma) s)"
    using res Some by (auto simp: semctl_main_def Let_def not_less split: if_splits semctl_cmd.splits option.splits)
  then show ?thesis using inv setval_step [OF inv Some] setall_step [OF inv Some] len Some by auto
qed (use inv res in \<open>simp add: semctl_main_def\<close>)

lemma remove_step:
  assumes inv: "semset_inv s" and res: "freeary s ns = (s', ns')"
  shows "semset_inv s'"
proof (cases "set_array s")
  case (Some sma)
  have "queue_matches (sem_pending sma) (sem_pcs s)" using inv Some by (simp add: semset_inv_def)
  then show ?thesis using res Some
    by (auto simp: freeary_def semset_inv_def queue_matches_def undecided_wake image_image)
qed (use assms in \<open>simp add: freeary_def\<close>)

interpretation semsets: step_invariant semset_step semset_inv
proof
  fix s s' assume inv: "semset_inv s" and "semset_step s s'"
  from this(2) show "semset_inv s'"
    by cases (auto intro: find_undo_step [OF inv] enter_step [OF inv] woken_step [OF inv] recheck_step [OF inv]
        exits_step [OF inv] remove_step [OF inv] elim: control_step [OF inv])
qed

lemma semset_start:
  assumes "semget_new alloc nsems ns = (Inr sma, ns')"
  shows "semset_inv \<lparr>set_array = Some sma, sem_pcs = (\<lambda>_. Idle)\<rparr>"
  using assms by (auto simp: semget_new_def newary_def semset_inv_def set_shape_def queue_matches_def SEMVMX_def split: if_splits)

text \<open>A blocked operation is counted for some semaphore.\<close>

lemma verdict_waits:
  assumes "verdict adj sops vals = Inr 1" "\<forall>v \<in> set vals. 0 \<le> v" "\<forall>sop \<in> set sops. snum sop < length vals"
  shows "\<exists>sop \<in> set sops. \<not> nowait sop \<and> sop_val sop \<le> 0"
  using assms
proof (induction adj sops vals rule: verdict.induct)
  case (2 adj sop sops vals)
  let ?v = "vals ! snum sop"
  have v: "0 \<le> ?v" using 2(3,4) by simp
  show ?case
  proof (cases "blocks ?v sop \<or> exceeds adj ?v sop")
    case True
    with 2(2) have "blocks ?v sop \<and> \<not> nowait sop" by (auto simp: refusal_def Let_def split: if_splits)
    with v show ?thesis by (auto simp: blocks_def)
  next
    case False
    then have "0 \<le> ?v + sop_val sop" by (simp add: blocks_def)
    then have "\<forall>v \<in> set (vals[snum sop := ?v + sop_val sop]). 0 \<le> v"
      using 2(3) by (auto dest!: subsetD [OF set_update_subset_insert])
    moreover have "verdict adj sops (vals[snum sop := ?v + sop_val sop]) = Inr 1" using 2(2) False by (simp add: Let_def)
    ultimately show ?thesis using 2(1) [OF refl False] 2(4) by auto
  qed
qed simp

lemma sum_list_pos: "x \<in> set xs \<Longrightarrow> 0 < f x \<Longrightarrow> 0 < (\<Sum>x\<leftarrow>xs. f x :: nat)"
  by (induction xs) auto

lemma pending_counted:
  assumes "set_shape sma" "q \<in> set (sem_pending sma)" "queue_ok sma q" "has_to_wait sma q"
  shows "\<exists>sop \<in> set (q_sops q). 0 < count_semncnt sma (snum sop) + count_semzcnt sma (snum sop)"
proof -
  obtain sop where sop: "sop \<in> set (q_sops q)" "\<not> nowait sop" "sop_val sop \<le> 0"
    using verdict_waits [of "semadj (q_undo q) sma" "q_sops q" "vals_of (sem_base sma)"] assms
    by (auto simp: has_to_wait_def queue_ok_def may_try_def in_set_def set_shape_def)
  have "0 < count_semncnt sma (snum sop) \<or> 0 < count_semzcnt sma (snum sop)"
  proof (cases "sop_val sop = 0")
    case True
    then have "0 < length (filter (waits_zero (snum sop)) (q_sops q))"
      using sop by (auto simp: waits_zero_def filter_empty_conv)
    then show ?thesis unfolding count_semzcnt_def using assms(2) by (intro disjI2 sum_list_pos)
  next
    case False
    then have "0 < length (filter (waits_nonzero (snum sop)) (q_sops q))"
      using sop by (auto simp: waits_nonzero_def filter_empty_conv intro!: bexI [of _ sop])
    then show ?thesis unfolding count_semncnt_def using assms(2) by (intro disjI1 sum_list_pos)
  qed
  then show ?thesis using sop(1) by auto
qed

text \<open>
  C14: No wake-up of a semaphore set is lost. Whatever the tasks do to a new set, in whatever
  order, each value stays within 0 and \<open>SEMVMX\<close>, and a task that sleeps without a result is
  one whose operation, tried on the set as it is, would have to wait; it is in the queue of
  the set, and \<open>GETNCNT\<close> or \<open>GETZCNT\<close> counts it for one of its semaphores.
\<close>

theorem semset_no_lost_wakeup:
  assumes "semget_new alloc nsems ns = (Inr sma0, ns')"
    and "semset_step\<^sup>*\<^sup>* \<lparr>set_array = Some sma0, sem_pcs = (\<lambda>_. Idle)\<rparr> s"
  shows "(\<forall>sma. set_array s = Some sma \<longrightarrow> (\<forall>sem \<in> set (sem_base sma). 0 \<le> semval sem \<and> semval sem \<le> SEMVMX)) \<and>
    (\<forall>t. sem_pcs s t = Sleeping None \<longrightarrow>
      (\<exists>sma q. set_array s = Some sma \<and> q \<in> set (sem_pending sma) \<and> sleeper q = t \<and>
         try_atomic_semop sma (q_sops q) (q_undo q) (q_pid q) = (Inr 1, sma) \<and>
         (\<exists>sop \<in> set (q_sops q). 0 < count_semncnt sma (snum sop) + count_semzcnt sma (snum sop))))"
proof -
  have inv: "semset_inv s" using semsets.run_keeps [OF assms(2) semset_start [OF assms(1)]] .
  show ?thesis
  proof (intro conjI allI impI)
    show "\<forall>sem \<in> set (sem_base sma). 0 \<le> semval sem \<and> semval sem \<le> SEMVMX" if "set_array s = Some sma" for sma
      using inv that by (simp add: semset_inv_def set_shape_def)
  next
    fix t assume t: "sem_pcs s t = Sleeping None"
    then have "undecided (sem_pcs s t)" by simp
    then obtain sma where sma: "set_array s = Some sma"
      using inv by (cases "set_array s") (auto simp: semset_inv_def queue_matches_def)
    have I: "set_shape sma" "\<forall>q \<in> set (sem_pending sma). queue_ok sma q \<and> has_to_wait sma q"
      "queue_matches (sem_pending sma) (sem_pcs s)" using inv sma by (simp_all add: semset_inv_def)
    have "t \<in> sleeper ` set (sem_pending sma)" using I(3) t by (simp add: queue_matches_def)
    then obtain q where q: "q \<in> set (sem_pending sma)" "sleeper q = t" by blast
    then have w: "may_try sma (q_sops q) (q_undo q)" "queue_ok sma q" "has_to_wait sma q" using I(2) by (simp_all add: queue_ok_def)
    have "try_atomic_semop sma (q_sops q) (q_undo q) (q_pid q) = (Inr 1, sma)"
    proof (cases rule: try_atomic_cases [OF I(1) w(1), of "q_pid q"])
      case 1
      then show ?thesis using w(3) by (simp add: has_to_wait_def)
    next
      case (2 sma')
      then show ?thesis using w(3) by (simp add: has_to_wait_def)
    qed
    with sma q pending_counted [OF I(1) q(1) w(2,3)] show
      "\<exists>sma q. set_array s = Some sma \<and> q \<in> set (sem_pending sma) \<and> sleeper q = t \<and>
         try_atomic_semop sma (q_sops q) (q_undo q) (q_pid q) = (Inr 1, sma) \<and>
         (\<exists>sop \<in> set (q_sops q). 0 < count_semncnt sma (snum sop) + count_semzcnt sma (snum sop))"
      by blast
  qed
qed

section \<open>Exit\<close>

lemma word_sum: "(\<Sum>sop\<leftarrow>sops. sem_op sop) = word_of_int (\<Sum>sop\<leftarrow>sops. sop_val sop)"
  by (induction sops) simp_all

lemma sint16: "- 32768 \<le> k \<Longrightarrow> k \<le> 32767 \<Longrightarrow> sint (word_of_int k :: u16) = k"
  by (simp add: sint_sbintrunc' signed_take_bit_int_eq_self)

text \<open>A walk through the queue that completes nothing changes nothing.\<close>

lemma update_loop_length:
  "update_loop sma bef rest = (sma', pending, woken) \<Longrightarrow> length pending \<le> length bef + length rest"
proof (induction sma bef rest arbitrary: sma' pending woken rule: update_loop.induct)
  case (2 sma bef q rest)
  obtain error s where attempt: "try_atomic_semop sma (q_sops q) (q_undo q) (q_pid q) = (error, s)"
    by (cases "try_atomic_semop sma (q_sops q) (q_undo q) (q_pid q)")
  show ?case
  proof (cases "error = Inr 1")
    case True
    with 2(3) [OF attempt [symmetric], of sma' pending woken] 2(4) attempt show ?thesis by simp
  next
    case False
    show ?thesis
    proof (cases "q_alter q")
      case True
      with 2(1) [OF attempt [symmetric]] 2(4) attempt False show ?thesis by (fastforce split: prod.splits)
    next
      case alt: False
      with 2(2) [OF attempt [symmetric]] 2(4) attempt False show ?thesis by (fastforce split: prod.splits)
    qed
  qed
qed simp

lemma update_loop_still:
  assumes "update_loop sma bef rest = (sma', pending, woken)" "set_shape sma"
    and "\<forall>q \<in> set rest. queue_ok sma q" "length pending = length bef + length rest"
  shows "sma' = sma"
  using assms
proof (induction rest arbitrary: bef)
  case (Cons q rest)
  obtain error s where attempt: "try_atomic_semop sma (q_sops q) (q_undo q) (q_pid q) = (error, s)"
    by (cases "try_atomic_semop sma (q_sops q) (q_undo q) (q_pid q)")
  have may: "may_try sma (q_sops q) (q_undo q)" using Cons.prems(3) by (simp add: queue_ok_def)
  have "error = Inr 1"
  proof (rule ccontr)
    assume "error \<noteq> Inr 1"
    with Cons.prems(1) attempt obtain woken' where
      "(if q_alter q then update_loop s [] (bef @ rest) else update_loop s bef rest) = (sma', pending, woken')"
      by (auto split: prod.splits)
    then have "length pending \<le> length bef + length rest"
      by (auto dest!: update_loop_length split: if_splits)
    with Cons.prems(4) show False by simp
  qed
  with attempt have "s = sma"
    by (cases rule: try_atomic_cases [OF Cons.prems(2) may, of "q_pid q"]) auto
  with Cons.IH [of "bef @ [q]"] Cons.prems attempt \<open>error = Inr 1\<close> show ?case by simp
qed simp

lemma update_loop_waiting:
  assumes "set_shape sma" "\<forall>q \<in> set rest. queue_ok sma q \<and> has_to_wait sma q"
  shows "update_loop sma bef rest = (sma, bef @ rest, [])"
  using assms(2)
proof (induction rest arbitrary: bef)
  case (Cons q rest)
  then have may: "may_try sma (q_sops q) (q_undo q)" and wait: "has_to_wait sma q" by (simp_all add: queue_ok_def)
  have "try_atomic_semop sma (q_sops q) (q_undo q) (q_pid q) = (Inr 1, sma)"
    by (cases rule: try_atomic_cases [OF assms(1) may, of "q_pid q"]) (use wait in \<open>simp_all add: has_to_wait_def\<close>)
  with Cons show ?case by simp
qed simp

text \<open>A call that succeeds and completes no pending operation is \<open>try_atomic_semop\<close> alone.\<close>

lemma semop_alone:
  assumes set: "set_array s = Some sma" and shape: "set_shape sma" and ok: "\<forall>q \<in> set (sem_pending sma). queue_ok sma q"
    and undo: "\<forall>sop \<in> set sops. undoes sop" and run: "semop_locked t pid (Some ulp) perms sops s = (Some (Inr 0), s1)"
    and set1: "set_array s1 = Some sma1" and quiet: "sem_pending sma1 = sem_pending sma"
  shows "may_try sma sops (Some ulp) \<and> try_atomic_semop sma sops (Some ulp) pid = (Inr 0, sma1)"
proof -
  obtain error sm where attempt: "try_atomic_semop sma sops (Some ulp) pid = (error, sm)"
    by (cases "try_atomic_semop sma sops (Some ulp) pid")
  have go: "semadj (Some ulp) sma \<noteq> None" "max_semnum sops < length (sem_base sma)" "perms (alters sops)"
    using run set by (auto simp: semop_locked_def split: if_splits)
  then have may: "may_try sma sops (Some ulp)" using max_semnum_bound by (auto simp: may_try_def in_set_def)
  have r: "error = Inr 0"
    and s1: "s1 = (if alters sops then updated_set sm s else s\<lparr>set_array := Some sm\<rparr>)"
    using run set attempt go by (auto simp: semop_locked_def Let_def split: if_splits)
  note fr = try_frame [OF shape may, of pid, unfolded attempt snd_conv]
  have "sm = sma1"
  proof (cases "alters sops")
    case True
    obtain sm' p w where l: "update_loop sm [] (sem_pending sm) = (sm', p, w)"
      by (cases "update_loop sm [] (sem_pending sm)")
    then have sma1: "sma1 = sm'\<lparr>sem_pending := p\<rparr>"
      using s1 set1 True by (simp add: updated_set_def update_queue_def)
    have pend: "sem_pending sm = sem_pending sma" using fr by (simp add: same_frame_def)
    then have "\<forall>q \<in> set (sem_pending sm). queue_ok sm q" using ok fr queue_ok_frame by auto
    moreover have "p = sem_pending sm" using sma1 quiet pend by simp
    ultimately have "sm' = sm" using update_loop_still [OF l] fr by simp
    with sma1 \<open>p = sem_pending sm\<close> show ?thesis by simp
  qed (use s1 set1 in simp)
  with may attempt r show ?thesis by simp
qed

lemma adjust_back:
  assumes shape: "set_shape sma" and may: "may_try sma sops (Some ulp)" and all: "\<forall>sop \<in> set sops. undoes sop"
    and fresh: "semadj (Some ulp) sma = Some (replicate (length (sem_base sma)) 0)"
    and run: "try_atomic_semop sma sops (Some ulp) pid = (Inr 0, sma')"
  shows "\<exists>a'. semadj (Some ulp) sma' = Some a' \<and> length a' = length (sem_base sma) \<and>
    length (sem_base sma') = length (sem_base sma) \<and> sem_pending sma' = sem_pending sma \<and>
    (\<forall>u. u \<noteq> Some ulp \<longrightarrow> semadj u sma' = semadj u sma) \<and>
    vals_of (map2 (adjust_sem pid') a' (sem_base sma')) = vals_of (sem_base sma)"
proof (cases rule: try_atomic_cases [OF shape may, of pid])
  case 1
  then show ?thesis using run by simp
next
  case (2 sm)
  let ?n = "length (sem_base sma)" and ?vals = "vals_of (sem_base sma)"
  have sm: "sm = sma'" using 2(2) run by simp
  have len: "length (sem_base sma') = ?n" and pend: "sem_pending sma' = sem_pending sma"
    and others: "\<forall>u. u \<noteq> Some ulp \<longrightarrow> semadj u sma' = semadj u sma"
    and val: "\<forall>i < ?n. semval (sem_base sma' ! i) = val_after ?vals sops i" using 2 sm by simp_all
  from 2(8) fresh sm obtain a' where a': "semadj (Some ulp) sma' = Some a'" "length a' = ?n"
    "\<forall>i < ?n. a' ! i = undo_after (replicate ?n 0) sops i" by auto
  have rng: "\<forall>sem \<in> set (sem_base sma'). 0 \<le> semval sem \<and> semval sem \<le> SEMVMX"
    using try_range [OF shape may, of pid] run by simp
  have "semval (adjust_sem pid' (a' ! i) (sem_base sma' ! i)) = ?vals ! i" if i: "i < ?n" for i
  proof -
    let ?S = "\<Sum>sop\<leftarrow>filter (\<lambda>sop. snum sop = i) sops. sop_val sop"
    have old: "0 \<le> ?vals ! i" "?vals ! i \<le> SEMVMX" using shape i by (simp_all add: set_shape_def)
    have new: "semval (sem_base sma' ! i) = ?vals ! i + ?S" using val i by (simp add: val_after_def)
    have "sem_base sma' ! i \<in> set (sem_base sma')" using i len by simp
    then have "0 \<le> semval (sem_base sma' ! i)" "semval (sem_base sma' ! i) \<le> SEMVMX" using rng by simp_all
    then have "0 \<le> ?vals ! i + ?S" "?vals ! i + ?S \<le> SEMVMX" using new by simp_all
    then have S: "- 32768 \<le> - ?S" "- ?S \<le> 32767" using old by (simp_all add: SEMVMX_def)
    have "filter (\<lambda>sop. snum sop = i \<and> undoes sop) sops = filter (\<lambda>sop. snum sop = i) sops"
      using all by (intro filter_cong) auto
    then have "a' ! i = word_of_int (- ?S)" using a'(3) i by (simp add: undo_after_def word_sum)
    then have adj: "sint (a' ! i) = - ?S" using sint16 [OF S] by simp
    show ?thesis
    proof (cases "a' ! i = 0")
      case True
      with adj new show ?thesis by (simp add: adjust_sem_def)
    next
      case False
      with adj new old show ?thesis by (simp add: adjust_sem_def Let_def)
    qed
  qed
  then have "vals_of (map2 (adjust_sem pid') a' (sem_base sma')) = ?vals"
    using len a'(2) by (intro nth_equalityI) simp_all
  with a'(1,2) len pend others show ?thesis by blast
qed

text \<open>
  C38: In any state the tasks of a set can reach: if a process that has nothing to undo yet does
  one \<open>semop\<close> with \<open>SEM_UNDO\<close> on every operation, which succeeds at once and completes no
  pending operation of another task, and then exits, every value and the queue of pending
  operations are as before the call. The adjustments, kept in 16 bits, are exactly the sums to
  give back. (A pending operation that the call lets through keeps what it took.)
\<close>

theorem semop_exit_roundtrip:
  assumes new: "semget_new alloc nsems ns = (Inr sma0, ns')"
    and reach: "semset_step\<^sup>*\<^sup>* \<lparr>set_array = Some sma0, sem_pcs = (\<lambda>_. Idle)\<rparr> s"
    and set: "set_array s = Some sma" and fresh: "semadj (Some ulp) sma = Some (replicate (length (sem_base sma)) 0)"
    and own: "\<forall>q \<in> set (sem_pending sma). q_undo q \<noteq> Some ulp" and undo: "\<forall>sop \<in> set sops. undoes sop"
    and run: "semop_locked t pid (Some ulp) perms sops s = (Some (Inr 0), s1)"
    and set1: "set_array s1 = Some sma1" and quiet: "sem_pending sma1 = sem_pending sma"
  shows "\<exists>sma2. set_array (exit_sem pid' ulp s1) = Some sma2 \<and>
    vals_of (sem_base sma2) = vals_of (sem_base sma) \<and> sem_pending sma2 = sem_pending sma"
proof -
  have "semset_inv s" using semsets.run_keeps [OF reach semset_start [OF new]] .
  with set have I: "set_shape sma" "\<forall>q \<in> set (sem_pending sma). queue_ok sma q \<and> has_to_wait sma q"
    by (simp_all add: semset_inv_def)
  from semop_alone [OF set I(1) _ undo run set1 quiet] I(2) have
    att: "may_try sma sops (Some ulp)" "try_atomic_semop sma sops (Some ulp) pid = (Inr 0, sma1)" by simp_all
  from adjust_back [OF I(1) att(1) undo fresh att(2), of pid'] obtain a where
    a: "semadj (Some ulp) sma1 = Some a" "length a = length (sem_base sma)" "length (sem_base sma1) = length (sem_base sma)"
      "\<forall>u. u \<noteq> Some ulp \<longrightarrow> semadj u sma1 = semadj u sma"
      "vals_of (map2 (adjust_sem pid') a (sem_base sma1)) = vals_of (sem_base sma)" by blast
  let ?sma = "sma1\<lparr>sem_undos := filter (\<lambda>(u, _). u \<noteq> ulp) (sem_undos sma1),
    sem_base := map2 (adjust_sem pid') a (sem_base sma1)\<rparr>"
  have shape1: "set_shape sma1" using try_frame [OF I(1) att(1), of pid] att(2) by simp
  have "set_shape ?sma" unfolding set_shape_def
  proof (intro conjI)
    show "\<forall>sem \<in> set (sem_base ?sma). 0 \<le> semval sem \<and> semval sem \<le> SEMVMX"
      using shape1 adjust_range by (auto simp: set_shape_def dest!: set_zip_rightD)
  qed (use shape1 a(2,3) in \<open>auto simp: set_shape_def distinct_map_filter\<close>)
  moreover have "queue_ok ?sma q \<and> has_to_wait ?sma q" if q: "q \<in> set (sem_pending sma)" for q
  proof -
    have "q_undo q \<noteq> Some ulp" using own q by blast
    then have "semadj (q_undo q) ?sma = semadj (q_undo q) sma1"
      by (cases "q_undo q") (simp_all add: semadj_def map_of_filter_other)
    moreover have "semadj (q_undo q) sma1 = semadj (q_undo q) sma" using a(4) \<open>q_undo q \<noteq> Some ulp\<close> by blast
    ultimately show ?thesis
      using I(2) q a(2,3,5) by (simp add: queue_ok_def may_try_def in_set_def has_to_wait_def)
  qed
  ultimately have "update_loop ?sma [] (sem_pending sma) = (?sma, sem_pending sma, [])"
    using update_loop_waiting [of ?sma "sem_pending sma" "[]"] by simp
  then have "update_queue ?sma = (?sma, [])" using quiet by (simp add: update_queue_def)
  moreover have "map_of (sem_undos sma1) ulp = Some a" using a(1) by (simp add: semadj_def)
  ultimately show ?thesis using set1 a(5) quiet by (simp add: exit_sem_def updated_set_def)
qed

section \<open>Examples\<close>

definition ex_op :: "u16 \<Rightarrow> u16 \<Rightarrow> u16 \<Rightarrow> sembuf" where "ex_op n v f = \<lparr>sem_num = n, sem_op = v, sem_flg = f\<rparr>"

definition ex_set :: sem_array where
  "ex_set = \<lparr>sem_base = [\<lparr>semval = 0, sempid = 0\<rparr>, \<lparr>semval = 0, sempid = 0\<rparr>], sem_undos = [(4, [0, 0])], sem_pending = []\<rparr>"

text \<open>
  The check of the adjustments looks at each operation alone, not at their sum: a list that
  raises a semaphore twice with \<open>SEM_UNDO\<close> and lowers it in between without is accepted,
  and the adjustment wraps around to a positive one. The exit then raises the value to
  32767 instead of lowering it.
\<close>

lemma semadj_wraps:
  defines "sops \<equiv> [ex_op 0 20000 SEM_UNDO, ex_op 0 (- 20000) 0, ex_op 0 20000 SEM_UNDO]"
  shows "fst (try_atomic_semop ex_set sops (Some 4) 7) = Inr 0 \<and>
    map_option vals_of (map_option sem_base
      (set_array (exit_sem 7 4 \<lparr>set_array = Some (snd (try_atomic_semop ex_set sops (Some 4) 7)), sem_pcs = (\<lambda>_. Idle)\<rparr>))) = Some [32767, 0]"
  by (simp add: assms try_atomic_semop_def semadj_def ex_set_def ex_op_def undoes_def nowait_def SEMVMX_def SEMAEM_def Let_def
      set_undo_def exit_sem_def updated_set_def update_queue_def adjust_sem_def)

theorem semop_atomic_witness:
  "fst (try_atomic_semop ex_set [ex_op 0 3 0, ex_op 1 (- 1) 0] None 7) = Inr 1 \<and>
   snd (try_atomic_semop ex_set [ex_op 0 3 0, ex_op 1 (- 1) 0] None 7) = ex_set"
proof -
  have "set_shape ex_set" by (simp add: set_shape_def ex_set_def SEMVMX_def)
  moreover have "may_try ex_set [ex_op 0 3 0, ex_op 1 (- 1) 0] None"
    by (simp add: may_try_def in_set_def ex_set_def ex_op_def undoes_def)
  moreover have "refused_at None [0, 0] [ex_op 0 3 0, ex_op 1 (- 1) 0] 1" "\<not> refused_at None [0, 0] [ex_op 0 3 0, ex_op 1 (- 1) 0] 0"
    by (simp_all add: refused_at_def blocks_def exceeds_def val_after_def ex_op_def undoes_def SEMVMX_def Let_def)
  ultimately show ?thesis
    using semop_atomic [of ex_set "[ex_op 0 3 0, ex_op 1 (- 1) 0]" None 7]
    by (auto simp: less_Suc_eq semadj_def ex_set_def refusal_def blocks_def val_after_def ex_op_def nowait_def split: prod.splits)
qed

text \<open>Task 1 waits for the second semaphore.\<close>

definition ex_ns :: sem_ns where "ex_ns = \<lparr>sc_semmsl = 250, sc_semmns = 32000, sc_semopm = 32, used_sems = 0\<rparr>"

definition ex_new :: sem_array where
  "ex_new = \<lparr>sem_base = replicate 2 \<lparr>semval = 0, sempid = 0\<rparr>, sem_undos = [], sem_pending = []\<rparr>"

definition ex_blocked :: semset where
  "ex_blocked = \<lparr>set_array = Some (ex_new\<lparr>sem_pending := [\<lparr>sleeper = 1, q_undo = None, q_pid = 7,
       q_sops = [ex_op 0 3 0, ex_op 1 (- 1) 0], q_alter = True\<rparr>]\<rparr>), sem_pcs = (\<lambda>_. Idle)(1 := Sleeping None)\<rparr>"

theorem semset_no_lost_wakeup_witness:
  "\<exists>sma q. set_array ex_blocked = Some sma \<and> q \<in> set (sem_pending sma) \<and> sleeper q = 1 \<and>
     try_atomic_semop sma (q_sops q) (q_undo q) (q_pid q) = (Inr 1, sma)"
proof -
  have new: "semget_new True 2 ex_ns = (Inr ex_new, ex_ns\<lparr>used_sems := 2\<rparr>)"
    by (simp add: semget_new_def newary_def ex_ns_def ex_new_def)
  have "semop_locked 1 7 None (\<lambda>_. True) [ex_op 0 3 0, ex_op 1 (- 1) 0] \<lparr>set_array = Some ex_new, sem_pcs = (\<lambda>_. Idle)\<rparr> = (None, ex_blocked)"
    by (simp add: semop_locked_def try_atomic_semop_def ex_new_def ex_op_def ex_blocked_def max_semnum_def alters_def semadj_def
        undoes_def nowait_def SEMVMX_def Let_def enqueue_def numeral_2_eq_2)
  then have "semset_step \<lparr>set_array = Some ex_new, sem_pcs = (\<lambda>_. Idle)\<rparr> ex_blocked"
    by (rule semset_step.enter [rotated 2]) (simp_all add: ex_op_def undoes_def)
  then have "semset_step\<^sup>*\<^sup>* \<lparr>set_array = Some ex_new, sem_pcs = (\<lambda>_. Idle)\<rparr> ex_blocked" by simp
  moreover have "sem_pcs ex_blocked 1 = Sleeping None" by (simp add: ex_blocked_def)
  ultimately show ?thesis using semset_no_lost_wakeup [OF new, of ex_blocked] by blast
qed

text \<open>Task 1 waits for ten units; task 2 adds three, takes one, and exits.\<close>

definition ex_waiting :: semset where
  "ex_waiting = \<lparr>set_array = Some \<lparr>sem_base = replicate 2 \<lparr>semval = 0, sempid = 0\<rparr>, sem_undos = [(4, [0, 0])],
     sem_pending = [\<lparr>sleeper = 1, q_undo = None, q_pid = 7, q_sops = [ex_op 0 (- 10) 0], q_alter = True\<rparr>]\<rparr>,
   sem_pcs = (\<lambda>_. Idle)(1 := Sleeping None)\<rparr>"

lemma replicate_two: "replicate 2 x = [x, x]"
  by (simp add: numeral_2_eq_2)

theorem semop_exit_roundtrip_witness:
  "\<exists>s1 sma1 sma2. semop_locked 2 8 (Some 4) (\<lambda>_. True) [ex_op 0 3 SEM_UNDO, ex_op 0 (- 1) SEM_UNDO] ex_waiting = (Some (Inr 0), s1) \<and>
     set_array s1 = Some sma1 \<and> vals_of (sem_base sma1) = [2, 0] \<and>
     set_array (exit_sem 8 4 s1) = Some sma2 \<and> vals_of (sem_base sma2) = [0, 0] \<and> length (sem_pending sma2) = 1"
proof -
  let ?sops = "[ex_op 0 3 SEM_UNDO, ex_op 0 (- 1) SEM_UNDO]"
  let ?q = "\<lparr>sleeper = 1, q_undo = None, q_pid = 7, q_sops = [ex_op 0 (- 10) 0], q_alter = True\<rparr>"
  let ?sma = "ex_new\<lparr>sem_undos := [(4, [0, 0])], sem_pending := [?q]\<rparr>"
  have new: "semget_new True 2 ex_ns = (Inr ex_new, ex_ns\<lparr>used_sems := 2\<rparr>)"
    by (simp add: semget_new_def newary_def ex_ns_def ex_new_def)
  have "semop_locked 1 7 None (\<lambda>_. True) [ex_op 0 (- 10) 0] \<lparr>set_array = Some ex_new, sem_pcs = (\<lambda>_. Idle)\<rparr> =
      (None, ex_waiting\<lparr>set_array := Some (ex_new\<lparr>sem_pending := [?q]\<rparr>)\<rparr>)"
    by (simp add: semop_locked_def try_atomic_semop_def ex_new_def ex_op_def ex_waiting_def max_semnum_def alters_def semadj_def
        undoes_def nowait_def SEMVMX_def Let_def enqueue_def replicate_two)
  then have "semset_step \<lparr>set_array = Some ex_new, sem_pcs = (\<lambda>_. Idle)\<rparr>
      (ex_waiting\<lparr>set_array := Some (ex_new\<lparr>sem_pending := [?q]\<rparr>)\<rparr>)"
    by (rule semset_step.enter [rotated 2]) (simp_all add: ex_op_def undoes_def)
  moreover have "find_alloc_undo True 4 (ex_waiting\<lparr>set_array := Some (ex_new\<lparr>sem_pending := [?q]\<rparr>)\<rparr>) = (Inr (), ex_waiting)"
    by (simp add: find_alloc_undo_def ex_waiting_def ex_new_def replicate_two)
  then have "semset_step (ex_waiting\<lparr>set_array := Some (ex_new\<lparr>sem_pending := [?q]\<rparr>)\<rparr>) ex_waiting"
    by (rule semset_step.find_undo)
  ultimately have reach: "semset_step\<^sup>*\<^sup>* \<lparr>set_array = Some ex_new, sem_pcs = (\<lambda>_. Idle)\<rparr> ex_waiting"
    by (metis converse_rtranclp_into_rtranclp rtranclp.rtrancl_refl)
  have set: "set_array ex_waiting = Some ?sma" by (simp add: ex_waiting_def ex_new_def)
  define sma1 where "sma1 = ?sma\<lparr>sem_base := [\<lparr>semval = 2, sempid = 8\<rparr>, \<lparr>semval = 0, sempid = 0\<rparr>], sem_undos := [(4, [- 2, 0])]\<rparr>"
  have run: "semop_locked 2 8 (Some 4) (\<lambda>_. True) ?sops ex_waiting = (Some (Inr 0), ex_waiting\<lparr>set_array := Some sma1\<rparr>)"
    by (simp add: semop_locked_def try_atomic_semop_def set ex_new_def ex_op_def ex_waiting_def max_semnum_def alters_def semadj_def
        undoes_def nowait_def SEMVMX_def SEMAEM_def Let_def replicate_two set_undo_def updated_set_def update_queue_def sma1_def)
  have fresh: "semadj (Some 4) ?sma = Some (replicate (length (sem_base ?sma)) 0)"
    by (simp add: semadj_def ex_new_def replicate_two)
  have "\<exists>sma2. set_array (exit_sem 8 4 (ex_waiting\<lparr>set_array := Some sma1\<rparr>)) = Some sma2 \<and>
      vals_of (sem_base sma2) = vals_of (sem_base ?sma) \<and> sem_pending sma2 = sem_pending ?sma"
    by (rule semop_exit_roundtrip [OF new reach set fresh _ _ run, of sma1]) (simp_all add: sma1_def ex_op_def undoes_def)
  moreover have "vals_of (sem_base ?sma) = [0, 0]" "vals_of (sem_base sma1) = [2, 0]"
    by (simp_all add: ex_new_def sma1_def replicate_two)
  ultimately show ?thesis using run by auto
qed

end
