(* ===== verification/FdTable.thy ===== *)
theory FdTable imports Bits begin

text \<open>
  The table of open files of a process (\<open>fs/file.c\<close>, \<open>fs/open.c\<close>, \<open>fs/fcntl.c\<close>): descriptors
  are found by the search of \<open>Bits\<close> in the bitmap of open descriptors. A file is the number
  of its structure; reference counts and what \<open>filp_close\<close> does to a file are left out.
  \<open>None\<close> is an access outside an array. Descriptors are natural numbers: \<open>setrlimit\<close> keeps the
  limit of a process within \<open>sysctl_nr_open\<close>, so that they fit in an \<open>int\<close>. Memory is found or not as a parameter says.
  \<open>expand_files\<close> drops the lock of the table while it allocates: it is cut there.
\<close>

section \<open>The table\<close>

record fdtable =
  max_fds :: nat
  fd :: "nat option list"
  close_on_exec :: "ulong list"
  open_fds :: "ulong list"

record files_struct =
  fdt :: fdtable
  next_fd :: nat

definition NR_OPEN_DEFAULT :: nat where "NR_OPEN_DEFAULT = BITS_PER_LONG"

text \<open>The table of the first process.\<close>

definition init_files :: files_struct where
  "init_files =
     \<lparr>fdt = \<lparr>max_fds = NR_OPEN_DEFAULT, fd = replicate NR_OPEN_DEFAULT None, close_on_exec = [0], open_fds = [0]\<rparr>,
      next_fd = 0\<rparr>"

definition FD_SET :: "nat \<Rightarrow> ulong list \<Rightarrow> ulong list option" where "FD_SET = set_bit_op"
definition FD_CLR :: "nat \<Rightarrow> ulong list \<Rightarrow> ulong list option" where "FD_CLR = clear_bit_op"
definition FD_ISSET :: "nat \<Rightarrow> ulong list \<Rightarrow> bool option" where "FD_ISSET = test_bit"

definition fcheck_files :: "files_struct \<Rightarrow> nat \<Rightarrow> nat option option" where
  "fcheck_files files n = (if n < max_fds (fdt files) then rd (fd (fdt files)) n else Some None)"

text \<open>The limits of the process and of the system.\<close>

record fd_limits =
  rlimit_nofile :: nat
  sysctl_nr_open :: nat

section \<open>Growing\<close>

text \<open>The size of a new table for the descriptor \<open>nr\<close>; the pointers are 4 bytes wide.\<close>

definition fdtable_size :: "nat \<Rightarrow> ulong \<Rightarrow> ulong" where
  "fdtable_size nr_open nr =
     (let nr = nr div (1024 div 4); nr = roundup_pow_of_two (nr + 1); nr = nr * (1024 div 4) in
      if nr > of_nat nr_open then (of_nat nr_open - 1 OR (32 - 1)) + 1 else nr)"

text \<open>
  \<open>alloc_fdtable\<close> gives a table whose arrays hold what was in memory; \<open>copy_fdtable\<close> writes all
  of it. The sizes are multiples of the word, so bytes are counted in words.
\<close>

definition copy_fdtable :: "nat \<Rightarrow> fdtable \<Rightarrow> fdtable option" where
  "copy_fdtable new ofdt =
     (if new < max_fds ofdt then None
      else Some
       \<lparr>max_fds = new,
        fd = take (max_fds ofdt) (fd ofdt) @ replicate (new - max_fds ofdt) None,
        close_on_exec = take (max_fds ofdt div 32) (close_on_exec ofdt) @ replicate ((new - max_fds ofdt) div 32) 0,
        open_fds = take (max_fds ofdt div 32) (open_fds ofdt) @ replicate ((new - max_fds ofdt) div 32) 0\<rparr>)"

text \<open>
  \<open>expand_fdtable\<close> after the lock is taken again, with the size of the new table, or none
  when memory is short. The result 1 is \<open>Inr ()\<close>.
\<close>

definition expand_fdtable :: "nat option \<Rightarrow> nat \<Rightarrow> files_struct \<Rightarrow> (unit result \<times> files_struct) option" where
  "expand_fdtable new nr files =
     (case new of
        None \<Rightarrow> Some (Inl (Err ENOMEM), files)
      | Some sz \<Rightarrow>
          if sz \<le> nr then Some (Inl (Err EMFILE), files)
          else if nr \<ge> max_fds (fdt files)
          then (case copy_fdtable sz (fdt files) of
                  None \<Rightarrow> None | Some t \<Rightarrow> Some (Inr (), files\<lparr>fdt := t\<rparr>))
          else Some (Inr (), files))"

text \<open>\<open>expand_files\<close> up to there: the table is large enough, or it has to grow.\<close>

datatype expand = Enough | Grow | Refuse failure

definition expand_files :: "fd_limits \<Rightarrow> nat \<Rightarrow> files_struct \<Rightarrow> expand" where
  "expand_files lim nr files =
     (if nr \<ge> rlimit_nofile lim then Refuse (Err EMFILE)
      else if nr < max_fds (fdt files) then Enough
      else if nr \<ge> sysctl_nr_open lim then Refuse (Err EMFILE)
      else Grow)"

definition new_fdtable :: "fd_limits \<Rightarrow> bool \<Rightarrow> nat \<Rightarrow> nat option" where
  "new_fdtable lim mem nr = (if mem then Some (unat (fdtable_size (sysctl_nr_open lim) (of_nat nr))) else None)"

section \<open>Allocating a descriptor\<close>

text \<open>The descriptor \<open>alloc_fd\<close> tries in one round.\<close>

definition pick_fd :: "nat \<Rightarrow> files_struct \<Rightarrow> nat option" where
  "pick_fd start files =
     (let n = (if start < next_fd files then next_fd files else start) in
      if n < max_fds (fdt files) then find_next_zero_bit (open_fds (fdt files)) (max_fds (fdt files)) n else Some n)"

text \<open>What it does with a descriptor that fits; the last lines empty the slot if it is not.\<close>

definition take_fd :: "nat \<Rightarrow> bool \<Rightarrow> nat \<Rightarrow> files_struct \<Rightarrow> files_struct option" where
  "take_fd start cloexec n files =
     do { let t = fdt files;
          opn \<leftarrow> FD_SET n (open_fds t);
          clo \<leftarrow> (if cloexec then FD_SET n (close_on_exec t) else FD_CLR n (close_on_exec t));
          slots \<leftarrow> wr (fd t) n None;
          Some (files\<lparr>fdt := t\<lparr>fd := slots, close_on_exec := clo, open_fds := opn\<rparr>,
                      next_fd := (if start \<le> next_fd files then n + 1 else next_fd files)\<rparr>) }"

text \<open>
  One round under the lock: the call ends with a result, or the table has to grow for a
  descriptor and the round is repeated.
\<close>

definition alloc_fd_round :: "fd_limits \<Rightarrow> nat \<Rightarrow> bool \<Rightarrow> files_struct \<Rightarrow> ((nat result + nat) \<times> files_struct) option" where
  "alloc_fd_round lim start cloexec files =
     do { n \<leftarrow> pick_fd start files;
          case expand_files lim n files of
            Refuse e \<Rightarrow> Some (Inl (Inl e), files)
          | Grow \<Rightarrow> Some (Inr n, files)
          | Enough \<Rightarrow> do { files \<leftarrow> take_fd start cloexec n files; Some (Inl (Inr n), files) } }"

text \<open>The call when no other task changes the table.\<close>

partial_function (option) alloc_fd :: "fd_limits \<Rightarrow> bool \<Rightarrow> nat \<Rightarrow> bool \<Rightarrow> files_struct \<Rightarrow> (nat result \<times> files_struct) option" where
  "alloc_fd lim mem start cloexec files =
     (case alloc_fd_round lim start cloexec files of
        None \<Rightarrow> None
      | Some (Inl r, files) \<Rightarrow> Some (r, files)
      | Some (Inr n, files) \<Rightarrow>
          (case expand_fdtable (new_fdtable lim mem n) n files of
             None \<Rightarrow> None
           | Some (Inl e, files) \<Rightarrow> Some (Inl e, files)
           | Some (Inr _, files) \<Rightarrow> alloc_fd lim mem start cloexec files))"

section \<open>Installing, closing, duplicating\<close>

definition put_unused_fd :: "nat \<Rightarrow> files_struct \<Rightarrow> files_struct option" where
  "put_unused_fd n files =
     do { opn \<leftarrow> FD_CLR n (open_fds (fdt files));
          Some (files\<lparr>fdt := (fdt files)\<lparr>open_fds := opn\<rparr>, next_fd := (if n < next_fd files then n else next_fd files)\<rparr>) }"

text \<open>A slot that is taken is a \<open>BUG\<close>.\<close>

definition fd_install :: "nat \<Rightarrow> nat \<Rightarrow> files_struct \<Rightarrow> (unit result \<times> files_struct) option" where
  "fd_install n file files =
     do { old \<leftarrow> rd (fd (fdt files)) n;
          if old \<noteq> None then Some (Inl Bug, files)
          else do { slots \<leftarrow> wr (fd (fdt files)) n (Some file);
                    Some (Inr (), files\<lparr>fdt := (fdt files)\<lparr>fd := slots\<rparr>\<rparr>) } }"

text \<open>\<open>close\<close>; the result is the file for \<open>filp_close\<close>.\<close>

definition sys_close :: "nat \<Rightarrow> files_struct \<Rightarrow> (nat result \<times> files_struct) option" where
  "sys_close n files =
     (if n \<ge> max_fds (fdt files) then Some (Inl (Err EBADF), files)
      else do { filp \<leftarrow> rd (fd (fdt files)) n;
                case filp of
                  None \<Rightarrow> Some (Inl (Err EBADF), files)
                | Some f \<Rightarrow>
                    do { slots \<leftarrow> wr (fd (fdt files)) n None;
                         clo \<leftarrow> FD_CLR n (close_on_exec (fdt files));
                         files \<leftarrow> put_unused_fd n (files\<lparr>fdt := (fdt files)\<lparr>fd := slots, close_on_exec := clo\<rparr>\<rparr>);
                         Some (Inr f, files) } })"

text \<open>
  \<open>dup3\<close> after \<open>expand_files\<close>, whose error is \<open>err\<close>. The second result is the file to close.
\<close>

definition dup3_locked :: "failure option \<Rightarrow> nat \<Rightarrow> nat \<Rightarrow> bool \<Rightarrow> files_struct \<Rightarrow> (nat result \<times> nat option \<times> files_struct) option" where
  "dup3_locked err oldfd newfd cloexec files =
     do { file \<leftarrow> fcheck_files files oldfd;
          case file of
            None \<Rightarrow> Some (Inl (Err EBADF), None, files)
          | Some f \<Rightarrow>
              (case err of
                 Some e \<Rightarrow> Some (Inl (if e = Err EMFILE then Err EBADF else e), None, files)
               | None \<Rightarrow>
                   do { let t = fdt files;
                        tofree \<leftarrow> rd (fd t) newfd;
                        busy \<leftarrow> FD_ISSET newfd (open_fds t);
                        if tofree = None \<and> busy then Some (Inl (Err EBUSY), None, files)
                        else do { slots \<leftarrow> wr (fd t) newfd (Some f);
                                  opn \<leftarrow> FD_SET newfd (open_fds t);
                                  clo \<leftarrow> (if cloexec then FD_SET newfd (close_on_exec t) else FD_CLR newfd (close_on_exec t));
                                  Some (Inr newfd, tofree,
                                    files\<lparr>fdt := t\<lparr>fd := slots, close_on_exec := clo, open_fds := opn\<rparr>\<rparr>) } }) }"

definition dup3_checks :: "nat \<Rightarrow> nat \<Rightarrow> u32 \<Rightarrow> unit result" where
  "dup3_checks oldfd newfd flags =
     (if flags AND NOT 0x80000 \<noteq> 0 then Inl (Err EINVAL)
      else if oldfd = newfd then Inl (Err EINVAL) else Inr ())"

text \<open>\<open>dup3\<close> when no other task changes the table.\<close>

definition sys_dup3 :: "fd_limits \<Rightarrow> bool \<Rightarrow> nat \<Rightarrow> nat \<Rightarrow> u32 \<Rightarrow> files_struct \<Rightarrow> (nat result \<times> nat option \<times> files_struct) option" where
  "sys_dup3 lim mem oldfd newfd flags files =
     (case dup3_checks oldfd newfd flags of
        Inl e \<Rightarrow> Some (Inl e, None, files)
      | Inr _ \<Rightarrow>
          (case expand_files lim newfd files of
             Refuse e \<Rightarrow> dup3_locked (Some e) oldfd newfd (flags \<noteq> 0) files
           | Enough \<Rightarrow> dup3_locked None oldfd newfd (flags \<noteq> 0) files
           | Grow \<Rightarrow>
               (case expand_fdtable (new_fdtable lim mem newfd) newfd files of
                  None \<Rightarrow> None
                | Some (Inl e, files) \<Rightarrow> dup3_locked (Some e) oldfd newfd (flags \<noteq> 0) files
                | Some (Inr _, files) \<Rightarrow> dup3_locked None oldfd newfd (flags \<noteq> 0) files)))"

definition sys_dup2 :: "fd_limits \<Rightarrow> bool \<Rightarrow> nat \<Rightarrow> nat \<Rightarrow> files_struct \<Rightarrow> (nat result \<times> nat option \<times> files_struct) option" where
  "sys_dup2 lim mem oldfd newfd files =
     (if newfd = oldfd
      then do { file \<leftarrow> fcheck_files files oldfd;
                Some (if file = None then Inl (Err EBADF) else Inr oldfd, None, files) }
      else sys_dup3 lim mem oldfd newfd 0 files)"

text \<open>\<open>dup\<close> and \<open>F_DUPFD\<close> with its minimum.\<close>

definition dupfd :: "fd_limits \<Rightarrow> bool \<Rightarrow> nat \<Rightarrow> nat \<Rightarrow> bool \<Rightarrow> files_struct \<Rightarrow> (nat result \<times> files_struct) option" where
  "dupfd lim mem filp arg cloexec files =
     do { (r, files) \<leftarrow> alloc_fd lim mem arg cloexec files;
          case r of
            Inl e \<Rightarrow> Some (Inl e, files)
          | Inr n \<Rightarrow> do { (i, files) \<leftarrow> fd_install n filp files;
                         Some (case i of Inl e \<Rightarrow> Inl e | Inr _ \<Rightarrow> Inr n, files) } }"

definition sys_dup :: "fd_limits \<Rightarrow> bool \<Rightarrow> nat \<Rightarrow> files_struct \<Rightarrow> (nat result \<times> files_struct) option" where
  "sys_dup lim mem fildes files =
     do { file \<leftarrow> fcheck_files files fildes;
          case file of
            None \<Rightarrow> Some (Inl (Err EBADF), files)
          | Some f \<Rightarrow> dupfd lim mem f 0 False files }"

definition fcntl_dupfd :: "fd_limits \<Rightarrow> bool \<Rightarrow> nat \<Rightarrow> nat \<Rightarrow> bool \<Rightarrow> files_struct \<Rightarrow> (nat result \<times> files_struct) option" where
  "fcntl_dupfd lim mem filp arg cloexec files =
     (if arg \<ge> rlimit_nofile lim then Some (Inl (Err EINVAL), files) else dupfd lim mem filp arg cloexec files)"

definition set_close_on_exec :: "nat \<Rightarrow> bool \<Rightarrow> files_struct \<Rightarrow> files_struct option" where
  "set_close_on_exec n flag files =
     do { clo \<leftarrow> (if flag then FD_SET n (close_on_exec (fdt files)) else FD_CLR n (close_on_exec (fdt files)));
          Some (files\<lparr>fdt := (fdt files)\<lparr>close_on_exec := clo\<rparr>\<rparr>) }"

definition get_close_on_exec :: "nat \<Rightarrow> files_struct \<Rightarrow> bool option" where
  "get_close_on_exec n files = FD_ISSET n (close_on_exec (fdt files))"

section \<open>exec and fork\<close>

text \<open>The inner loop of \<open>flush_old_files\<close> over a word, from bit \<open>i\<close> on, and the outer one over the words.\<close>

function flush_word :: "nat \<Rightarrow> ulong \<Rightarrow> files_struct \<Rightarrow> files_struct option" where
  "flush_word i w files =
     (if w = 0 then Some files
      else do { files \<leftarrow> (if w AND 1 \<noteq> 0 then do { (_, files) \<leftarrow> sys_close i files; Some files } else Some files);
                flush_word (i + 1) (drop_bit 1 w) files })"
  by pat_completeness auto
termination
proof (relation "measure (\<lambda>(i, w, files). unat w)")
  fix w :: ulong assume "w \<noteq> 0"
  then have "0 < unat w" by (simp add: unat_gt_0)
  moreover have "drop_bit 1 (unat w) = unat w div 2" by (simp add: drop_bit_eq_div)
  ultimately have "unat (drop_bit 1 w) < unat w" by (simp only: unat_drop_bit_eq)
  then show "((i + 1, drop_bit 1 w, x), i, w, files) \<in> measure (\<lambda>(i, w, files). unat w)" for i x files
    by simp
qed simp

partial_function (option) flush_from :: "nat \<Rightarrow> files_struct \<Rightarrow> files_struct option" where
  "flush_from j files =
     (if j * 32 \<ge> max_fds (fdt files) then Some files
      else case rd (close_on_exec (fdt files)) j of
        None \<Rightarrow> None
      | Some w \<Rightarrow>
          (case flush_word (j * 32) w (files\<lparr>fdt := (fdt files)\<lparr>close_on_exec := (close_on_exec (fdt files))[j := 0]\<rparr>\<rparr>) of
             None \<Rightarrow> None
           | Some files \<Rightarrow> flush_from (j + 1) files))"

definition flush_old_files :: "files_struct \<Rightarrow> files_struct option" where
  "flush_old_files = flush_from 0"

fun count_loop :: "ulong list \<Rightarrow> nat \<Rightarrow> nat option" where
  "count_loop ws 0 = Some 0"
| "count_loop ws (Suc i) = do { w \<leftarrow> rd ws i; if w \<noteq> 0 then Some i else count_loop ws i }"

definition count_open_files :: "fdtable \<Rightarrow> nat option" where
  "count_open_files t = do { i \<leftarrow> count_loop (open_fds t) (max_fds t div 32); Some ((i + 1) * 32) }"

text \<open>
  The loop of \<open>dup_fd\<close> over \<open>n\<close> descriptors from \<open>i\<close> on: a descriptor that is claimed but has no
  file yet is free in the copy.
\<close>

fun dup_loop :: "nat option list \<Rightarrow> nat \<Rightarrow> nat \<Rightarrow> ulong list \<Rightarrow> ulong list option" where
  "dup_loop slots i 0 opn = Some opn"
| "dup_loop slots i (Suc n) opn =
     do { f \<leftarrow> rd slots i;
          opn \<leftarrow> (if f = None then FD_CLR i opn else Some opn);
          dup_loop slots (i + 1) n opn }"

text \<open>\<open>dup_fd\<close> when no other task changes the table.\<close>

definition dup_size :: "fd_limits \<Rightarrow> bool \<Rightarrow> nat \<Rightarrow> nat result" where
  "dup_size lim mem open_files =
     (if \<not> mem then Inl (Err ENOMEM)
      else if open_files \<le> NR_OPEN_DEFAULT then Inr NR_OPEN_DEFAULT
      else let sz = unat (fdtable_size (sysctl_nr_open lim) (of_nat (open_files - 1))) in
           if sz < open_files then Inl (Err EMFILE) else Inr sz)"

definition dup_fd :: "fd_limits \<Rightarrow> bool \<Rightarrow> files_struct \<Rightarrow> files_struct result option" where
  "dup_fd lim mem oldf =
     do { let t = fdt oldf;
          open_files \<leftarrow> count_open_files t;
          case dup_size lim mem open_files of
            Inl e \<Rightarrow> Some (Inl e)
          | Inr sz \<Rightarrow>
              do { let k = open_files div 32;
                   let rest = replicate ((sz - open_files) div 32) 0;
                   opn \<leftarrow> dup_loop (fd t) 0 open_files (take k (open_fds t));
                   Some (Inr
                     \<lparr>fdt = \<lparr>max_fds = sz, fd = take open_files (fd t) @ replicate (sz - open_files) None,
                              close_on_exec = take k (close_on_exec t) @ rest, open_fds = opn @ rest\<rparr>,
                      next_fd = 0\<rparr>) } }"

section \<open>The end of the process\<close>

text \<open>\<open>close_files\<close>: the files that are closed, in order.\<close>

function close_word :: "nat option list \<Rightarrow> nat \<Rightarrow> ulong \<Rightarrow> nat list option" where
  "close_word slots i w =
     (if w = 0 then Some []
      else do { here \<leftarrow> (if w AND 1 \<noteq> 0 then do { f \<leftarrow> rd slots i; Some (case f of None \<Rightarrow> [] | Some f \<Rightarrow> [f]) } else Some []);
                later \<leftarrow> close_word slots (i + 1) (drop_bit 1 w);
                Some (here @ later) })"
  by pat_completeness auto
termination
proof (relation "measure (\<lambda>(slots, i, w). unat w)")
  fix w :: ulong assume "w \<noteq> 0"
  then have "0 < unat w" by (simp add: unat_gt_0)
  moreover have "drop_bit 1 (unat w) = unat w div 2" by (simp add: drop_bit_eq_div)
  ultimately have "unat (drop_bit 1 w) < unat w" by (simp only: unat_drop_bit_eq)
  then show "((slots, i + 1, drop_bit 1 w), slots, i, w) \<in> measure (\<lambda>(slots, i, w). unat w)" for slots :: "nat option list" and i
    by simp
qed simp

function close_from :: "fdtable \<Rightarrow> nat \<Rightarrow> nat list option" where
  "close_from t j =
     (if j * 32 \<ge> max_fds t then Some []
      else do { w \<leftarrow> rd (open_fds t) j;
                here \<leftarrow> close_word (fd t) (j * 32) w;
                later \<leftarrow> close_from t (j + 1);
                Some (here @ later) })"
  by pat_completeness auto
termination by (relation "measure (\<lambda>(t, j). max_fds t - j)") auto

definition close_files :: "files_struct \<Rightarrow> nat list option" where
  "close_files files = close_from (fdt files) 0"

end
