(* ===== verification/FdTableSpec.thy ===== *)
theory FdTableSpec imports FdTable begin

text \<open>
  What the table of descriptors promises: the lowest free descriptor is handed out, a
  descriptor that one task has reserved is not touched by the others, exec closes what it is
  told to close, and the child of a fork gets the files of its parent.
\<close>

section \<open>The size of a table\<close>

lemma or_low_mask: "unat ((x :: u32) OR (32 - 1)) = unat x div 32 * 32 + 31"
proof -
  let ?y = "x OR (32 - 1) :: u32"
  have m: "(32 - 1 :: u32) = mask 5" by (simp add: mask_eq_exp_minus_1)
  have "drop_bit 5 ?y = drop_bit 5 x" unfolding m by (rule bit_word_eqI) (auto simp: bit_simps)
  then have "unat (drop_bit 5 ?y) = unat (drop_bit 5 x)" by simp
  then have "drop_bit 5 (unat ?y) = drop_bit 5 (unat x)" by (simp only: unat_drop_bit_eq)
  then have hi: "unat ?y div 2 ^ 5 = unat x div 2 ^ 5" by (simp only: drop_bit_eq_div)
  have "take_bit 5 ?y = mask 5" unfolding m by (rule bit_word_eqI) (auto simp: bit_simps)
  then have "unat (take_bit 5 ?y) = 31" by (simp add: mask_eq_exp_minus_1)
  then have "take_bit 5 (unat ?y) = 31" by (simp only: unsigned_take_bit_eq)
  then have lo: "unat ?y mod 2 ^ 5 = 31" by (simp only: take_bit_eq_mod)
  have "unat ?y = unat ?y div 2 ^ 5 * 2 ^ 5 + unat ?y mod 2 ^ 5" by (simp only: div_mult_mod_eq)
  then show ?thesis unfolding hi lo by simp
qed

lemma fdtable_size_round:
  assumes "nr < 2 ^ 30" "0 < nr_open" "nr_open \<le> 2 ^ 30"
  shows "(nr div 32 * 32 < nr_open \<longrightarrow> nr < unat (fdtable_size nr_open (of_nat nr))) \<and> unat (fdtable_size nr_open (of_nat nr)) mod 32 = 0"
proof -
  let ?q = "of_nat nr div 256 :: u32"
  have nr: "unat (of_nat nr :: u32) = nr" using assms by (simp add: unat_of_nat take_bit_eq_mod)
  have no: "unat (of_nat nr_open :: u32) = nr_open" using assms by (simp add: unat_of_nat take_bit_eq_mod)
  have q: "unat ?q = nr div 256" by (simp add: unat_div_distrib nr)
  then have q1: "unat (?q + 1) = nr div 256 + 1" using assms by (simp add: unat_word_ariths)
  have "nr div 256 + 1 \<le> 2 ^ 31" using assms div_le_dividend [of nr 256] by simp
  then obtain k where k: "k < 32" "roundup_pow_of_two (?q + 1) = 2 ^ k" "nr div 256 + 1 \<le> 2 ^ k" "k = 0 \<or> 2 ^ (k - 1) < nr div 256 + 1"
    using roundup_pow_of_two_spec [of "?q + 1"] unfolding q1 by auto
  have "k \<le> 22"
  proof (rule ccontr)
    assume "\<not> k \<le> 22"
    then have "(2 :: nat) ^ 22 \<le> 2 ^ (k - 1)" by (intro power_increasing) simp_all
    moreover have "nr div 256 < 2 ^ 22" using assms by simp
    ultimately show False using k(4) \<open>\<not> k \<le> 22\<close> by simp
  qed
  then have "(2 :: nat) ^ k \<le> 2 ^ 22" by (intro power_increasing) simp_all
  then have m: "unat ((2 :: u32) ^ k * 256) = 2 ^ k * 256"
    using k(1) by (simp add: unat_word_ariths unat_pow2)
  have big: "nr < 2 ^ k * 256" using k(3) by linarith
  show ?thesis
  proof (cases "(2 :: u32) ^ k * 256 > of_nat nr_open")
    case True
    have pos: "unat (of_nat nr_open - 1 :: u32) = nr_open - 1"
      using assms no by (subst unat_minus_one) auto
    have "unat ((of_nat nr_open - 1 OR (32 - 1)) + 1 :: u32) = (nr_open - 1) div 32 * 32 + 32"
    proof -
      have o: "unat (of_nat nr_open - 1 OR (32 - 1) :: u32) = (nr_open - 1) div 32 * 32 + 31"
        unfolding or_low_mask pos ..
      moreover have "(nr_open - 1) div 32 * 32 + 31 + 1 < 2 ^ 32"
        using assms(3) div_times_less_eq_dividend [of "nr_open - 1" 32] by simp
      ultimately show ?thesis by (simp only: unat_word_ariths unat_1 mod_less) (simp add: o)
    qed
    moreover have "nr < (nr_open - 1) div 32 * 32 + 32" if "nr div 32 * 32 < nr_open"
    proof -
      have "nr div 32 * 32 div 32 \<le> (nr_open - 1) div 32" using that by (intro div_le_mono) simp
      then show ?thesis using div_mult_mod_eq [of nr 32] mod_less_divisor [of 32 nr] by simp
    qed
    ultimately show ?thesis using True k(2) by (simp add: fdtable_size_def Let_def)
  next
    case False
    then have "fdtable_size nr_open (of_nat nr) = 2 ^ k * 256" using k(2) by (simp add: fdtable_size_def Let_def)
    then show ?thesis using big m by simp
  qed
qed

lemma fdtable_size_ok:
  assumes "nr < 2 ^ 30" "0 < nr_open" "nr_open \<le> 2 ^ 30"
  shows "(nr < nr_open \<longrightarrow> nr < unat (fdtable_size nr_open (of_nat nr))) \<and> unat (fdtable_size nr_open (of_nat nr)) mod 32 = 0"
  using fdtable_size_round [OF assms] div_times_less_eq_dividend [of nr 32] by linarith

section \<open>Well-formed tables\<close>

definition fdt_wf :: "fdtable \<Rightarrow> bool" where
  "fdt_wf t \<longleftrightarrow> max_fds t mod 32 = 0 \<and> 0 < max_fds t \<and> length (fd t) = max_fds t \<and> 32 * length (open_fds t) = max_fds t \<and>
     32 * length (close_on_exec t) = max_fds t \<and> (\<forall>i < max_fds t. fd t ! i \<noteq> None \<longrightarrow> tb (open_fds t) i)"

text \<open>The abstract state: the file of a descriptor, whether it is in use and closed on exec.\<close>

definition file_of :: "files_struct \<Rightarrow> nat \<Rightarrow> nat option" where
  "file_of f i = (if i < max_fds (fdt f) then fd (fdt f) ! i else None)"

definition in_use :: "files_struct \<Rightarrow> nat \<Rightarrow> bool" where
  "in_use f i \<longleftrightarrow> i < max_fds (fdt f) \<and> tb (open_fds (fdt f)) i"

definition cloexec_of :: "files_struct \<Rightarrow> nat \<Rightarrow> bool" where
  "cloexec_of f i \<longleftrightarrow> i < max_fds (fdt f) \<and> tb (close_on_exec (fdt f)) i"

definition files_wf :: "files_struct \<Rightarrow> bool" where
  "files_wf f \<longleftrightarrow> fdt_wf (fdt f) \<and> next_fd f \<le> max_fds (fdt f) \<and> (\<forall>i < next_fd f. tb (open_fds (fdt f)) i)"

lemma wf_len:
  assumes "files_wf f"
  shows "length (fd (fdt f)) = max_fds (fdt f)" "32 * length (open_fds (fdt f)) = max_fds (fdt f)"
    "32 * length (close_on_exec (fdt f)) = max_fds (fdt f)"
  using assms by (simp_all add: files_wf_def fdt_wf_def)

lemma file_in_use: "files_wf f \<Longrightarrow> file_of f i \<noteq> None \<Longrightarrow> in_use f i"
  by (simp add: files_wf_def fdt_wf_def file_of_def in_use_def split: if_splits)

lemma init_files_ok: "files_wf init_files" "file_of init_files = (\<lambda>i. None)" "in_use init_files = (\<lambda>i. False)"
  "cloexec_of init_files = (\<lambda>i. False)"
  by (auto simp: files_wf_def fdt_wf_def init_files_def NR_OPEN_DEFAULT_def file_of_def in_use_def cloexec_of_def
      tb_def fun_eq_iff)

lemma tb_append:
  "tb (ws @ vs) i \<longleftrightarrow> (if i div 32 < length ws then tb ws i else bit (vs ! (i div 32 - length ws)) (i mod 32))"
  by (simp add: tb_def nth_append)

lemma tb_zeros: "i div 32 < k \<Longrightarrow> \<not> tb (replicate k 0) i"
  by (simp add: tb_def)

text \<open>Bits kept at the front of a larger bitmap that is otherwise clear.\<close>

lemma tb_grown:
  assumes "32 * length ws = n" "i < n + 32 * k"
  shows "tb (ws @ replicate k 0) i \<longleftrightarrow> i < n \<and> tb ws i"
proof -
  have "i div 32 < length ws \<longleftrightarrow> i < n" using assms(1) by auto
  moreover have "\<not> i < n \<Longrightarrow> i div 32 - length ws < k" using assms by (simp add: less_diff_conv2 div_le_mono)
  ultimately show ?thesis by (auto simp: tb_append)
qed

section \<open>Growing a table\<close>

lemma copy_fdtable_ok:
  assumes wf: "files_wf f" and new: "max_fds (fdt f) \<le> new" "new mod 32 = 0"
  shows "\<exists>t. copy_fdtable new (fdt f) = Some t \<and> max_fds t = new \<and> files_wf (f\<lparr>fdt := t\<rparr>) \<and>
    file_of (f\<lparr>fdt := t\<rparr>) = file_of f \<and> in_use (f\<lparr>fdt := t\<rparr>) = in_use f \<and> cloexec_of (f\<lparr>fdt := t\<rparr>) = cloexec_of f"
proof -
  let ?t = "fdt f" and ?k = "(new - max_fds (fdt f)) div 32"
  have m: "max_fds ?t mod 32 = 0" "0 < max_fds ?t" and len: "length (fd ?t) = max_fds ?t" "32 * length (open_fds ?t) = max_fds ?t"
    "32 * length (close_on_exec ?t) = max_fds ?t" using wf by (simp_all add: files_wf_def fdt_wf_def)
  have k: "max_fds ?t + 32 * ?k = new"
  proof -
    have "(new - max_fds ?t) mod 32 = 0" using new m by (metis mod_eq_0_iff_dvd dvd_diff_nat)
    then show ?thesis using new(1) by auto
  qed
  have tk: "take (max_fds ?t div 32) (open_fds ?t) = open_fds ?t" "take (max_fds ?t div 32) (close_on_exec ?t) = close_on_exec ?t"
    using len by simp_all
  let ?n = "\<lparr>max_fds = new, fd = fd ?t @ replicate (new - max_fds ?t) None,
    close_on_exec = close_on_exec ?t @ replicate ?k 0, open_fds = open_fds ?t @ replicate ?k 0\<rparr>"
  have c: "copy_fdtable new ?t = Some ?n" using new len tk by (simp add: copy_fdtable_def)
  have opn: "tb (open_fds ?n) i \<longleftrightarrow> i < max_fds ?t \<and> tb (open_fds ?t) i"
    and clo: "tb (close_on_exec ?n) i \<longleftrightarrow> i < max_fds ?t \<and> tb (close_on_exec ?t) i" if "i < new" for i
    using tb_grown [OF len(2), of i ?k] tb_grown [OF len(3), of i ?k] k that by simp_all
  have slot: "fd ?n ! i = (if i < max_fds ?t then fd ?t ! i else None)" if "i < new" for i
    using that len(1) by (simp add: nth_append)
  have "files_wf (f\<lparr>fdt := ?n\<rparr>)"
    using wf new k len m opn slot by (auto simp: files_wf_def fdt_wf_def)
  moreover have "file_of (f\<lparr>fdt := ?n\<rparr>) = file_of f" using slot new(1) by (auto simp: file_of_def fun_eq_iff)
  moreover have "in_use (f\<lparr>fdt := ?n\<rparr>) = in_use f" using opn new(1) by (auto simp: in_use_def fun_eq_iff)
  moreover have "cloexec_of (f\<lparr>fdt := ?n\<rparr>) = cloexec_of f" using clo new(1) by (auto simp: cloexec_of_def fun_eq_iff)
  ultimately show ?thesis using c by (intro exI [of _ ?n]) simp
qed

lemma expand_fdtable_ok:
  assumes wf: "files_wf f" and nr: "nr < sysctl_nr_open lim" "sysctl_nr_open lim \<le> 2 ^ 30"
  shows "\<exists>f'. expand_fdtable (new_fdtable lim True nr) nr f = Some (Inr (), f') \<and> files_wf f' \<and> nr < max_fds (fdt f') \<and>
    max_fds (fdt f) \<le> max_fds (fdt f') \<and> file_of f' = file_of f \<and> in_use f' = in_use f \<and> cloexec_of f' = cloexec_of f"
proof -
  let ?new = "unat (fdtable_size (sysctl_nr_open lim) (of_nat nr))"
  have "nr < 2 ^ 30" "0 < sysctl_nr_open lim" using nr by simp_all
  note new = fdtable_size_ok [OF this nr(2)]
  show ?thesis
  proof (cases "nr \<ge> max_fds (fdt f)")
    case True
    then have "max_fds (fdt f) \<le> ?new" "?new mod 32 = 0" using new nr by simp_all
    from copy_fdtable_ok [OF wf this] obtain t where t: "copy_fdtable ?new (fdt f) = Some t" "max_fds t = ?new"
      "files_wf (f\<lparr>fdt := t\<rparr>)" "file_of (f\<lparr>fdt := t\<rparr>) = file_of f" "in_use (f\<lparr>fdt := t\<rparr>) = in_use f"
      "cloexec_of (f\<lparr>fdt := t\<rparr>) = cloexec_of f" by blast
    then show ?thesis using new nr True \<open>max_fds (fdt f) \<le> ?new\<close>
      by (intro exI [of _ "f\<lparr>fdt := t\<rparr>"]) (simp add: expand_fdtable_def new_fdtable_def)
  next
    case False
    then show ?thesis using new nr wf by (intro exI [of _ f]) (simp add: expand_fdtable_def new_fdtable_def)
  qed
qed

section \<open>The lowest free descriptor\<close>

lemma pick_fd_ok:
  assumes wf: "files_wf f"
  shows "\<exists>n. pick_fd start f = Some n \<and> start \<le> n \<and> \<not> in_use f n \<and> (\<forall>i. start \<le> i \<and> i < n \<longrightarrow> in_use f i)"
proof -
  let ?t = "fdt f"
  have len: "32 * length (open_fds ?t) = max_fds ?t" and nx: "next_fd f \<le> max_fds ?t" "\<forall>i < next_fd f. tb (open_fds ?t) i"
    using wf by (simp_all add: files_wf_def fdt_wf_def)
  define m where "m = (if start < next_fd f then next_fd f else start)"
  have low: "start \<le> m" "start \<le> i \<Longrightarrow> i < m \<Longrightarrow> in_use f i" for i
    using nx by (auto simp: m_def in_use_def split: if_splits)
  show ?thesis
  proof (cases "m < max_fds ?t")
    case False
    then have "pick_fd start f = Some m" by (simp add: pick_fd_def m_def Let_def)
    then show ?thesis using low False by (intro exI [of _ m]) (auto simp: in_use_def)
  next
    case True
    obtain r where r: "find_next_zero_bit (open_fds ?t) (max_fds ?t) m = Some r" "next_in (\<lambda>i. \<not> tb (open_fds ?t) i) (max_fds ?t) m r"
      using nzb.search_total [of "max_fds ?t" "open_fds ?t" m] len by auto
    have "m \<le> r" "r \<le> max_fds ?t" "\<And>i. m \<le> i \<Longrightarrow> i < r \<Longrightarrow> tb (open_fds ?t) i" "r < max_fds ?t \<Longrightarrow> \<not> tb (open_fds ?t) r"
      using r(2) True by (auto simp: next_in_def)
    moreover have "pick_fd start f = Some r" using r(1) True by (simp add: pick_fd_def m_def Let_def)
    moreover have "in_use f i" if "start \<le> i" "i < r" for i
      using that low(2) [of i] calculation(2,3) by (cases "i < m") (simp_all add: in_use_def)
    ultimately show ?thesis using low(1) by (intro exI [of _ r]) (auto simp: in_use_def)
  qed
qed

lemma fd_bit_ops:
  assumes "32 * length ws = m" "n < m"
  obtains (bit_ops) s c where "FD_SET n ws = Some s" "length s = length ws" "\<forall>i. tb s i \<longleftrightarrow> i = n \<or> tb ws i"
    "FD_CLR n ws = Some c" "length c = length ws" "\<forall>i. tb c i \<longleftrightarrow> i \<noteq> n \<and> tb ws i" "FD_ISSET n ws = Some (tb ws n)"
  using set_bit_op_eq [of n ws] clear_bit_op_eq [of n ws] test_bit_eq [of n ws] assms
  unfolding FD_SET_def FD_CLR_def FD_ISSET_def by auto

lemma take_fd_ok:
  assumes wf: "files_wf f" and n: "n < max_fds (fdt f)" "\<not> in_use f n" "start \<le> n" "\<forall>i. start \<le> i \<and> i < n \<longrightarrow> in_use f i"
  shows "\<exists>f'. take_fd start c n f = Some f' \<and> files_wf f' \<and> file_of f' = file_of f \<and>
    in_use f' = (in_use f)(n := True) \<and> cloexec_of f' = (cloexec_of f)(n := c)"
proof -
  let ?t = "fdt f"
  note len = wf_len [OF wf]
  obtain s s0 where s: "FD_SET n (open_fds ?t) = Some s" "length s = length (open_fds ?t)" "\<forall>i. tb s i \<longleftrightarrow> i = n \<or> tb (open_fds ?t) i"
    by (rule fd_bit_ops [OF len(2) n(1)])
  obtain k where k: "(if c then FD_SET n (close_on_exec ?t) else FD_CLR n (close_on_exec ?t)) = Some k"
    "length k = length (close_on_exec ?t)" "\<forall>i. tb k i \<longleftrightarrow> (if i = n then c else tb (close_on_exec ?t) i)"
    by (rule fd_bit_ops [OF len(3) n(1)]) (cases c; auto)
  have none: "fd ?t ! n = None" using file_in_use [OF wf, of n] n(1,2) by (cases "fd ?t ! n") (simp_all add: file_of_def)
  let ?f = "f\<lparr>fdt := ?t\<lparr>fd := (fd ?t)[n := None], close_on_exec := k, open_fds := s\<rparr>,
    next_fd := (if start \<le> next_fd f then n + 1 else next_fd f)\<rparr>"
  have run: "take_fd start c n f = Some ?f" using s(1) k(1) n(1) len(1) by (simp add: take_fd_def wr_def Let_def)
  have slots: "(fd ?t)[n := None] = fd ?t" using none by (metis list_update_id)
  have below: "tb (open_fds ?t) i" if "start \<le> next_fd f" "i < n" for i
    using that wf n(4) by (cases "i < start") (auto simp: files_wf_def in_use_def)
  have "files_wf ?f" unfolding slots
    using wf n(1) s k below by (auto simp: files_wf_def fdt_wf_def in_use_def less_Suc_eq)
  moreover have "file_of ?f = file_of f" unfolding slots by (auto simp: file_of_def fun_eq_iff)
  moreover have "in_use ?f = (in_use f)(n := True)" using s n(1) by (auto simp: in_use_def fun_eq_iff)
  moreover have "cloexec_of ?f = (cloexec_of f)(n := c)" using k n(1) by (auto simp: cloexec_of_def fun_eq_iff)
  ultimately show ?thesis using run by blast
qed

lemma least_free:
  assumes "start \<le> n" "\<not> in_use f n" "\<forall>i. start \<le> i \<and> i < n \<longrightarrow> in_use f i"
  shows "(LEAST n. start \<le> n \<and> \<not> in_use f n) = n"
  using assms by (intro Least_equality) (auto simp: not_less [symmetric])

text \<open>
  C5: On a well-formed table, with \<open>sysctl_nr_open\<close> at most \<open>2 ^ 30\<close>, opening returns the
  lowest descriptor from the given start on that is not in use. The
  call ends; on success exactly that descriptor becomes in use, below the limit of the
  process and with the close-on-exec flag asked for, and no file of any descriptor
  changes, also when the table had to grow. It fails only with \<open>EMFILE\<close>, when that
  descriptor is at a limit, or with \<open>ENOMEM\<close>, when memory is short; then no descriptor
  changes.
\<close>

theorem alloc_fd_lowest:
  assumes wf: "files_wf f" and no: "sysctl_nr_open lim \<le> 2 ^ 30"
  shows "\<exists>r f'. alloc_fd lim mem start c f = Some (r, f') \<and> files_wf f' \<and> file_of f' = file_of f \<and>
    (let n = (LEAST n. start \<le> n \<and> \<not> in_use f n) in
     case r of
       Inr m \<Rightarrow> m = n \<and> n < rlimit_nofile lim \<and> in_use f' = (in_use f)(n := True) \<and> cloexec_of f' = (cloexec_of f)(n := c)
     | Inl e \<Rightarrow> in_use f' = in_use f \<and> cloexec_of f' = cloexec_of f \<and>
         (e = Err EMFILE \<and> (rlimit_nofile lim \<le> n \<or> sysctl_nr_open lim \<le> n) \<or> e = Err ENOMEM \<and> \<not> mem))"
proof -
  from pick_fd_ok [OF wf, of start] obtain n where n: "pick_fd start f = Some n" "start \<le> n" "\<not> in_use f n"
    "\<forall>i. start \<le> i \<and> i < n \<longrightarrow> in_use f i" by blast
  note least = least_free [OF n(2-4)]
  consider (rl) "n \<ge> rlimit_nofile lim" | (fits) "n < rlimit_nofile lim" "n < max_fds (fdt f)"
    | (no) "n < rlimit_nofile lim" "n \<ge> max_fds (fdt f)" "n \<ge> sysctl_nr_open lim"
    | (grow) "n < rlimit_nofile lim" "n \<ge> max_fds (fdt f)" "n < sysctl_nr_open lim" by linarith
  then show ?thesis
  proof cases
    case rl
    then show ?thesis using n(1) wf
      by (subst alloc_fd.simps) (simp add: alloc_fd_round_def expand_files_def least Let_def)
  next
    case fits
    from take_fd_ok [OF wf fits(2) n(3,2,4), of c] obtain f' where f': "take_fd start c n f = Some f'" "files_wf f'"
      "file_of f' = file_of f" "in_use f' = (in_use f)(n := True)" "cloexec_of f' = (cloexec_of f)(n := c)" by blast
    have "alloc_fd lim mem start c f = Some (Inr n, f')"
      using n(1) fits f'(1) by (subst alloc_fd.simps) (simp add: alloc_fd_round_def expand_files_def)
    then show ?thesis using f' fits(1) by (simp add: least Let_def)
  next
    case no
    then show ?thesis using n(1) wf
      by (subst alloc_fd.simps) (simp add: alloc_fd_round_def expand_files_def least Let_def)
  next
    case grow
    have round: "alloc_fd_round lim start c f = Some (Inr n, f)"
      using n(1) grow by (simp add: alloc_fd_round_def expand_files_def)
    show ?thesis
    proof (cases mem)
      case False
      then show ?thesis using round wf
        by (subst alloc_fd.simps) (simp add: expand_fdtable_def new_fdtable_def least Let_def)
    next
      case True
      from expand_fdtable_ok [OF wf grow(3) no] obtain g where g: "expand_fdtable (new_fdtable lim True n) n f = Some (Inr (), g)"
        "files_wf g" "n < max_fds (fdt g)" "file_of g = file_of f" "in_use g = in_use f" "cloexec_of g = cloexec_of f" by blast
      from pick_fd_ok [OF g(2), of start] obtain m where m: "pick_fd start g = Some m" "start \<le> m" "\<not> in_use g m"
        "\<forall>i. start \<le> i \<and> i < m \<longrightarrow> in_use g i" by blast
      have mn: "m = n" using least least_free [OF m(2-4)] unfolding g(5) by simp
      from take_fd_ok [OF g(2,3), of start c] n(2-4) obtain f' where f': "take_fd start c n g = Some f'" "files_wf f'"
        "file_of f' = file_of g" "in_use f' = (in_use g)(n := True)" "cloexec_of f' = (cloexec_of g)(n := c)"
        unfolding g(5) by blast
      have "alloc_fd lim mem start c g = Some (Inr n, f')"
        using m(1) mn grow g(3) f'(1) by (subst alloc_fd.simps) (simp add: alloc_fd_round_def expand_files_def)
      then have "alloc_fd lim mem start c f = Some (Inr n, f')"
        using round g(1) True by (subst alloc_fd.simps) simp
      then show ?thesis using f' g grow(1) by (simp add: least Let_def)
    qed
  qed
qed

theorem alloc_fd_lowest_witness:
  "\<exists>f'. alloc_fd \<lparr>rlimit_nofile = 1024, sysctl_nr_open = 2 ^ 20\<rparr> True 40 True init_files = Some (Inr 40, f') \<and>
     in_use f' = (\<lambda>i. i = 40) \<and> cloexec_of f' = (\<lambda>i. i = 40)"
proof -
  define L where "L = \<lparr>rlimit_nofile = 1024, sysctl_nr_open = 2 ^ 20\<rparr>"
  have n: "(LEAST n. 40 \<le> n \<and> \<not> in_use init_files n) = 40"
    by (rule Least_equality) (simp_all add: init_files_ok)
  have "sysctl_nr_open L \<le> 2 ^ 30" by (simp add: L_def)
  from alloc_fd_lowest [OF init_files_ok(1) this, of True 40 True] obtain r f' where
    run: "alloc_fd L True 40 True init_files = Some (r, f')" and
    res: "case r of
       Inr m \<Rightarrow> m = 40 \<and> 40 < rlimit_nofile L \<and> in_use f' = (in_use init_files)(40 := True) \<and>
         cloexec_of f' = (cloexec_of init_files)(40 := True)
     | Inl e \<Rightarrow> in_use f' = in_use init_files \<and> cloexec_of f' = cloexec_of init_files \<and>
         (e = Err EMFILE \<and> (rlimit_nofile L \<le> 40 \<or> sysctl_nr_open L \<le> 40) \<or> e = Err ENOMEM \<and> \<not> True)"
    unfolding n Let_def by (elim exE conjE)
  then show ?thesis unfolding L_def by (cases r) (auto simp: init_files_ok fun_eq_iff)
qed

end
