(* ===== verification/FdTableInv.thy ===== *)
theory FdTableInv imports FdTableSpec begin

text \<open>
  Tasks that share a table of descriptors: a descriptor is reserved by \<open>alloc_fd\<close> and gets
  its file later, and the table may grow while the lock is dropped.
\<close>

section \<open>The operations on the abstract table\<close>

lemma put_unused_fd_ok:
  assumes wf: "files_wf f" and n: "n < max_fds (fdt f)" "file_of f n = None"
  shows "\<exists>f'. put_unused_fd n f = Some f' \<and> files_wf f' \<and> file_of f' = file_of f \<and> in_use f' = (in_use f)(n := False) \<and>
    cloexec_of f' = cloexec_of f"
proof -
  let ?t = "fdt f"
  note len = wf_len [OF wf]
  obtain c where c: "FD_CLR n (open_fds ?t) = Some c" "length c = length (open_fds ?t)" "\<forall>i. tb c i \<longleftrightarrow> i \<noteq> n \<and> tb (open_fds ?t) i"
    by (rule fd_bit_ops [OF len(2) n(1)])
  let ?f = "f\<lparr>fdt := ?t\<lparr>open_fds := c\<rparr>, next_fd := (if n < next_fd f then n else next_fd f)\<rparr>"
  have "put_unused_fd n f = Some ?f" using c(1) by (simp add: put_unused_fd_def)
  moreover have "files_wf ?f" using wf n c by (auto simp: files_wf_def fdt_wf_def file_of_def)
  moreover have "file_of ?f = file_of f" "cloexec_of ?f = cloexec_of f" by (auto simp: file_of_def cloexec_of_def fun_eq_iff)
  moreover have "in_use ?f = (in_use f)(n := False)" using c by (auto simp: in_use_def fun_eq_iff)
  ultimately show ?thesis by blast
qed

lemma fd_install_ok:
  assumes wf: "files_wf f" and n: "in_use f n" "file_of f n = None"
  shows "\<exists>f'. fd_install n file f = Some (Inr (), f') \<and> files_wf f' \<and> file_of f' = (file_of f)(n := Some file) \<and>
    in_use f' = in_use f \<and> cloexec_of f' = cloexec_of f"
proof -
  let ?t = "fdt f"
  note len = wf_len [OF wf]
  have m: "n < max_fds ?t" and none: "fd ?t ! n = None" and used: "tb (open_fds ?t) n"
    using n by (simp_all add: in_use_def file_of_def)
  let ?f = "f\<lparr>fdt := ?t\<lparr>fd := (fd ?t)[n := Some file]\<rparr>\<rparr>"
  have "fd_install n file f = Some (Inr (), ?f)" using m none len by (simp add: fd_install_def rd_def wr_def)
  moreover have "\<forall>i < max_fds ?t. (fd ?t)[n := Some file] ! i \<noteq> None \<longrightarrow> tb (open_fds ?t) i"
    using wf used len m by (auto simp: files_wf_def fdt_wf_def nth_list_update split: if_splits)
  then have "files_wf ?f" using wf by (simp add: files_wf_def fdt_wf_def)
  moreover have "file_of ?f = (file_of f)(n := Some file)" using m len by (auto simp: file_of_def fun_eq_iff)
  moreover have "in_use ?f = in_use f" "cloexec_of ?f = cloexec_of f" by (auto simp: in_use_def cloexec_of_def fun_eq_iff)
  ultimately show ?thesis by blast
qed

lemma sys_close_ok:
  assumes wf: "files_wf f"
  shows "case file_of f n of
    None \<Rightarrow> sys_close n f = Some (Inl (Err EBADF), f)
  | Some fl \<Rightarrow> \<exists>f'. sys_close n f = Some (Inr fl, f') \<and> files_wf f' \<and> file_of f' = (file_of f)(n := None) \<and>
      in_use f' = (in_use f)(n := False) \<and> cloexec_of f' = (cloexec_of f)(n := False)"
proof (cases "file_of f n")
  case None
  then show ?thesis using wf_len [OF wf] by (auto simp: sys_close_def file_of_def rd_def split: if_splits)
next
  case (Some fl)
  let ?t = "fdt f"
  note len = wf_len [OF wf]
  have m: "n < max_fds ?t" and slot: "fd ?t ! n = Some fl" using Some by (simp_all add: file_of_def split: if_splits)
  obtain c where c: "FD_CLR n (close_on_exec ?t) = Some c" "length c = length (close_on_exec ?t)"
    "\<forall>i. tb c i \<longleftrightarrow> i \<noteq> n \<and> tb (close_on_exec ?t) i"
    by (rule fd_bit_ops [OF len(3) m])
  let ?f = "f\<lparr>fdt := ?t\<lparr>fd := (fd ?t)[n := None], close_on_exec := c\<rparr>\<rparr>"
  have wf': "files_wf ?f" using wf c m by (auto simp: files_wf_def fdt_wf_def nth_list_update split: if_splits)
  have "file_of ?f = (file_of f)(n := None)" using m len by (auto simp: file_of_def fun_eq_iff)
  moreover have "in_use ?f = in_use f" by (auto simp: in_use_def fun_eq_iff)
  moreover have "cloexec_of ?f = (cloexec_of f)(n := False)" using c by (auto simp: cloexec_of_def fun_eq_iff)
  moreover obtain f' where "put_unused_fd n ?f = Some f'" "files_wf f'" "file_of f' = file_of ?f"
    "in_use f' = (in_use ?f)(n := False)" "cloexec_of f' = cloexec_of ?f"
    using put_unused_fd_ok [OF wf', of n] m \<open>file_of ?f = (file_of f)(n := None)\<close> by auto
  moreover have "sys_close n f = do { files \<leftarrow> put_unused_fd n ?f; Some (Inr fl, files) }"
    using m slot len c(1) by (simp add: sys_close_def rd_def wr_def)
  ultimately show ?thesis using Some by simp
qed

lemma dup3_locked_ok:
  assumes wf: "files_wf f" and m: "newfd < max_fds (fdt f)"
  shows "case file_of f oldfd of
      None \<Rightarrow> dup3_locked None oldfd newfd c f = Some (Inl (Err EBADF), None, f)
    | Some fl \<Rightarrow>
        if file_of f newfd = None \<and> in_use f newfd then dup3_locked None oldfd newfd c f = Some (Inl (Err EBUSY), None, f)
        else \<exists>f'. dup3_locked None oldfd newfd c f = Some (Inr newfd, file_of f newfd, f') \<and> files_wf f' \<and>
          file_of f' = (file_of f)(newfd := Some fl) \<and> in_use f' = (in_use f)(newfd := True) \<and>
          cloexec_of f' = (cloexec_of f)(newfd := c)"
proof -
  let ?t = "fdt f"
  note len = wf_len [OF wf]
  have chk: "fcheck_files f oldfd = Some (file_of f oldfd)" using len by (simp add: fcheck_files_def file_of_def rd_def)
  obtain s where s: "FD_SET newfd (open_fds ?t) = Some s" "length s = length (open_fds ?t)" "\<forall>i. tb s i \<longleftrightarrow> i = newfd \<or> tb (open_fds ?t) i"
    "FD_ISSET newfd (open_fds ?t) = Some (tb (open_fds ?t) newfd)"
    by (rule fd_bit_ops [OF len(2) m])
  obtain k where k: "(if c then FD_SET newfd (close_on_exec ?t) else FD_CLR newfd (close_on_exec ?t)) = Some k"
    "length k = length (close_on_exec ?t)" "\<forall>i. tb k i \<longleftrightarrow> (if i = newfd then c else tb (close_on_exec ?t) i)"
    by (rule fd_bit_ops [OF len(3) m]) (cases c; auto)
  have slot: "rd (fd ?t) newfd = Some (file_of f newfd)" "wr (fd ?t) newfd x = Some ((fd ?t)[newfd := x])"
    "tb (open_fds ?t) newfd = in_use f newfd" for x using m len by (simp_all add: rd_def wr_def file_of_def in_use_def)
  show ?thesis
  proof (cases "file_of f oldfd")
    case None
    then show ?thesis using chk by (simp add: dup3_locked_def)
  next
    case (Some fl)
    let ?f = "f\<lparr>fdt := ?t\<lparr>fd := (fd ?t)[newfd := Some fl], close_on_exec := k, open_fds := s\<rparr>\<rparr>"
    have "files_wf ?f" using wf s k by (auto simp: files_wf_def fdt_wf_def nth_list_update)
    moreover have "file_of ?f = (file_of f)(newfd := Some fl)" using m len by (auto simp: file_of_def fun_eq_iff)
    moreover have "in_use ?f = (in_use f)(newfd := True)" using s m by (auto simp: in_use_def fun_eq_iff)
    moreover have "cloexec_of ?f = (cloexec_of f)(newfd := c)" using k m by (auto simp: cloexec_of_def fun_eq_iff)
    ultimately show ?thesis using Some chk slot s k by (auto simp: dup3_locked_def Let_def)
  qed
qed

lemma dup3_refused: "files_wf f \<Longrightarrow> \<exists>r. dup3_locked (Some e) oldfd newfd c f = Some (Inl r, None, f)"
  using wf_len [of f] by (auto simp: dup3_locked_def fcheck_files_def rd_def split: option.split)

lemma set_close_on_exec_ok:
  assumes wf: "files_wf f" and m: "n < max_fds (fdt f)"
  shows "\<exists>f'. set_close_on_exec n c f = Some f' \<and> files_wf f' \<and> file_of f' = file_of f \<and> in_use f' = in_use f \<and>
    cloexec_of f' = (cloexec_of f)(n := c) \<and> get_close_on_exec n f' = Some c"
proof -
  let ?t = "fdt f"
  note len = wf_len [OF wf]
  obtain k where k: "(if c then FD_SET n (close_on_exec ?t) else FD_CLR n (close_on_exec ?t)) = Some k"
    "length k = length (close_on_exec ?t)" "\<forall>i. tb k i \<longleftrightarrow> (if i = n then c else tb (close_on_exec ?t) i)"
    by (rule fd_bit_ops [OF len(3) m]) (cases c; auto)
  let ?f = "f\<lparr>fdt := ?t\<lparr>close_on_exec := k\<rparr>\<rparr>"
  have "files_wf ?f" using wf k by (auto simp: files_wf_def fdt_wf_def)
  moreover have "file_of ?f = file_of f" "in_use ?f = in_use f" by (auto simp: file_of_def in_use_def fun_eq_iff)
  moreover have "cloexec_of ?f = (cloexec_of f)(n := c)" using k m by (auto simp: cloexec_of_def fun_eq_iff)
  moreover have "FD_ISSET n k = Some c" using test_bit_eq [of n k] k m len by (simp add: FD_ISSET_def)
  ultimately show ?thesis using k(1) by (intro exI [of _ ?f]) (simp add: set_close_on_exec_def get_close_on_exec_def)
qed

section \<open>Tasks that share the table\<close>

text \<open>
  An activity is outside, in \<open>alloc_fd\<close> or \<open>dup3\<close> while the table grows without the lock, or holds a
  descriptor that it has reserved; a task that reserves several counts as several. \<open>crashed\<close>: a \<open>BUG\<close> or an access outside an array.
\<close>

datatype fd_pc = FdIdle | AllocGrow nat bool nat | DupGrow nat nat bool | Reserved nat

record fd_sys =
  table :: files_struct
  fd_pcs :: "nat \<Rightarrow> fd_pc"
  crashed :: bool

definition after_alloc :: "nat \<Rightarrow> nat \<Rightarrow> bool \<Rightarrow> ((nat result + nat) \<times> files_struct) option \<Rightarrow> fd_sys \<Rightarrow> fd_sys" where
  "after_alloc t start c res s =
     (case res of
        None \<Rightarrow> s\<lparr>crashed := True\<rparr>
      | Some (Inl (Inl e), f) \<Rightarrow> s\<lparr>table := f, fd_pcs := (fd_pcs s)(t := FdIdle)\<rparr>
      | Some (Inl (Inr n), f) \<Rightarrow> s\<lparr>table := f, fd_pcs := (fd_pcs s)(t := Reserved n)\<rparr>
      | Some (Inr nr, f) \<Rightarrow> s\<lparr>table := f, fd_pcs := (fd_pcs s)(t := AllocGrow start c nr)\<rparr>)"

definition idle_with :: "nat \<Rightarrow> files_struct option \<Rightarrow> fd_sys \<Rightarrow> fd_sys" where
  "idle_with t res s =
     (case res of None \<Rightarrow> s\<lparr>crashed := True\<rparr> | Some f \<Rightarrow> s\<lparr>table := f, fd_pcs := (fd_pcs s)(t := FdIdle)\<rparr>)"

definition sane_limits :: "fd_limits \<Rightarrow> bool" where
  "sane_limits lim \<longleftrightarrow> 0 < sysctl_nr_open lim \<and> sysctl_nr_open lim \<le> 2 ^ 30"

text \<open>
  The limits may change from step to step. The system call behind \<open>set_close_on_exec\<close> has found
  a file before, so the descriptor is in the table, which never shrinks.
\<close>

inductive fd_step :: "fd_sys \<Rightarrow> fd_sys \<Rightarrow> bool" where
  alloc: "fd_step s (after_alloc t start c (alloc_fd_round lim start c (table s)) s)"
    if "fd_pcs s t = FdIdle" "sane_limits lim"
| alloc_grown: "fd_step s (case expand_fdtable (new_fdtable lim' mem nr) nr (table s) of
      None \<Rightarrow> s\<lparr>crashed := True\<rparr>
    | Some (Inl e, f) \<Rightarrow> idle_with t (Some f) s
    | Some (Inr _, f) \<Rightarrow> after_alloc t start c (alloc_fd_round lim start c f) s)"
    if "fd_pcs s t = AllocGrow start c nr" "sane_limits lim" "sane_limits lim'"
| install: "fd_step s (case fd_install n f (table s) of
      Some (Inr _, f) \<Rightarrow> idle_with t (Some f) s | _ \<Rightarrow> s\<lparr>crashed := True\<rparr>)"
    if "fd_pcs s t = Reserved n"
| abandon: "fd_step s (idle_with t (put_unused_fd n (table s)) s)" if "fd_pcs s t = Reserved n"
| close: "fd_step s (idle_with t (map_option snd (sys_close n (table s))) s)" if "fd_pcs s t = FdIdle"
| dup: "fd_step s (case expand_files lim newfd (table s) of
      Refuse e \<Rightarrow> idle_with t (map_option (snd \<circ> snd) (dup3_locked (Some e) oldfd newfd c (table s))) s
    | Enough \<Rightarrow> idle_with t (map_option (snd \<circ> snd) (dup3_locked None oldfd newfd c (table s))) s
    | Grow \<Rightarrow> s\<lparr>fd_pcs := (fd_pcs s)(t := DupGrow oldfd newfd c)\<rparr>)"
    if "fd_pcs s t = FdIdle" "sane_limits lim"
| dup_grown: "fd_step s (case expand_fdtable (new_fdtable lim mem newfd) newfd (table s) of
      None \<Rightarrow> s\<lparr>crashed := True\<rparr>
    | Some (Inl e, f) \<Rightarrow> idle_with t (map_option (snd \<circ> snd) (dup3_locked (Some e) oldfd newfd c f)) s
    | Some (Inr _, f) \<Rightarrow> idle_with t (map_option (snd \<circ> snd) (dup3_locked None oldfd newfd c f)) s)"
    if "fd_pcs s t = DupGrow oldfd newfd c" "sane_limits lim"
| setfd: "fd_step s (idle_with t (set_close_on_exec n c (table s)) s)"
    if "fd_pcs s t = FdIdle" "n < max_fds (fdt (table s))"

definition growing_ok :: "fd_pc \<Rightarrow> bool" where
  "growing_ok pc \<longleftrightarrow> (case pc of AllocGrow _ _ nr \<Rightarrow> nr < 2 ^ 30 | DupGrow _ nr _ \<Rightarrow> nr < 2 ^ 30 | _ \<Rightarrow> True)"

definition fd_inv :: "fd_sys \<Rightarrow> bool" where
  "fd_inv s \<longleftrightarrow> \<not> crashed s \<and> files_wf (table s) \<and> (\<forall>t. growing_ok (fd_pcs s t)) \<and>
     (\<forall>t n. fd_pcs s t = Reserved n \<longrightarrow> in_use (table s) n \<and> file_of (table s) n = None \<and>
        (\<forall>t'. fd_pcs s t' = Reserved n \<longrightarrow> t' = t))"

text \<open>A step that leaves the reserved descriptors alone.\<close>

lemma fd_inv_idle:
  assumes inv: "fd_inv s" and f: "files_wf f"
    and keep: "\<And>u n. u \<noteq> t \<Longrightarrow> fd_pcs s u = Reserved n \<Longrightarrow> in_use f n \<and> file_of f n = None"
  shows "fd_inv (idle_with t (Some f) s)"
  using assms by (auto simp: fd_inv_def idle_with_def growing_ok_def)

lemma fd_inv_same:
  assumes inv: "fd_inv s" and f: "files_wf f" "in_use f = in_use (table s)" "file_of f = file_of (table s)"
  shows "fd_inv (s\<lparr>table := f\<rparr>)"
  using assms by (simp add: fd_inv_def)

lemma fd_pcs_grow: "fd_inv s \<Longrightarrow> growing_ok pc \<Longrightarrow> \<forall>n. pc \<noteq> Reserved n \<Longrightarrow> fd_inv (s\<lparr>fd_pcs := (fd_pcs s)(t := pc)\<rparr>)"
  by (auto simp: fd_inv_def)

lemma crashed_alloc: "crashed (after_alloc t start c res s) \<longleftrightarrow> res = None \<or> crashed s"
  by (auto simp: after_alloc_def split: option.split sum.split)

lemma alloc_round_inv:
  assumes inv: "fd_inv s" and lim: "sane_limits lim"
  shows "fd_inv (after_alloc t start c (alloc_fd_round lim start c (table s)) s)"
proof -
  let ?f = "table s"
  have wf: "files_wf ?f" using inv by (simp add: fd_inv_def)
  from pick_fd_ok [OF wf, of start] obtain n where n: "pick_fd start ?f = Some n" "start \<le> n" "\<not> in_use ?f n"
    "\<forall>i. start \<le> i \<and> i < n \<longrightarrow> in_use ?f i" by blast
  show ?thesis
  proof (cases "expand_files lim n ?f")
    case Enough
    then have "n < max_fds (fdt ?f)" by (simp add: expand_files_def split: if_splits)
    from take_fd_ok [OF wf this n(3,2,4), of c] obtain f' where f': "take_fd start c n ?f = Some f'" "files_wf f'"
      "file_of f' = file_of ?f" "in_use f' = (in_use ?f)(n := True)" by blast
    have res: "after_alloc t start c (alloc_fd_round lim start c ?f) s = s\<lparr>table := f', fd_pcs := (fd_pcs s)(t := Reserved n)\<rparr>"
      using n(1) Enough f'(1) by (simp add: alloc_fd_round_def after_alloc_def)
    have "file_of ?f n = None" using file_in_use [OF wf, of n] n(3) by (cases "file_of ?f n") simp_all
    then show ?thesis unfolding res using inv f' n(3) by (auto simp: fd_inv_def growing_ok_def)
  next
    case Grow
    then have "growing_ok (AllocGrow start c n)" using lim by (auto simp: expand_files_def growing_ok_def sane_limits_def split: if_splits)
    then show ?thesis using n(1) Grow fd_pcs_grow [OF inv, of "AllocGrow start c n" t]
      by (simp add: alloc_fd_round_def after_alloc_def)
  next
    case (Refuse e)
    then show ?thesis using n(1) fd_pcs_grow [OF inv, of FdIdle t] by (simp add: alloc_fd_round_def after_alloc_def growing_ok_def)
  qed
qed

lemma expand_any:
  assumes wf: "files_wf f" and nr: "nr < 2 ^ 30" and lim: "sane_limits lim"
  obtains r f' where "expand_fdtable (new_fdtable lim mem nr) nr f = Some (r, f')" "files_wf f'" "r = Inr () \<Longrightarrow> nr < max_fds (fdt f')"
    "file_of f' = file_of f" "in_use f' = in_use f"
proof (cases "mem \<and> nr < unat (fdtable_size (sysctl_nr_open lim) (of_nat nr)) \<and> max_fds (fdt f) \<le> nr")
  case True
  let ?new = "unat (fdtable_size (sysctl_nr_open lim) (of_nat nr))"
  have "max_fds (fdt f) \<le> ?new" "?new mod 32 = 0"
    using True fdtable_size_ok [OF nr, of "sysctl_nr_open lim"] lim by (simp_all add: sane_limits_def)
  from copy_fdtable_ok [OF wf this] obtain t where t: "copy_fdtable ?new (fdt f) = Some t" "max_fds t = ?new"
    "files_wf (f\<lparr>fdt := t\<rparr>)" "file_of (f\<lparr>fdt := t\<rparr>) = file_of f" "in_use (f\<lparr>fdt := t\<rparr>) = in_use f" by blast
  then show ?thesis using True by (intro that [of "Inr ()" "f\<lparr>fdt := t\<rparr>"]) (simp_all add: expand_fdtable_def new_fdtable_def)
next
  case False
  then show ?thesis using wf
    by (intro that [of "fst (the (expand_fdtable (new_fdtable lim mem nr) nr f))" f])
      (auto simp: expand_fdtable_def new_fdtable_def split: if_splits)
qed

lemma dup3_inv:
  assumes inv: "fd_inv s" and f: "files_wf f" "in_use f = in_use (table s)" "file_of f = file_of (table s)"
    and m: "newfd < max_fds (fdt f)"
  shows "fd_inv (idle_with t (map_option (snd \<circ> snd) (dup3_locked None oldfd newfd c f)) s)"
proof -
  have keep: "in_use f n \<and> file_of f n = None" if "fd_pcs s u = Reserved n" for u n
    using inv that f by (simp add: fd_inv_def)
  have same: ?thesis if "map_option (snd \<circ> snd) (dup3_locked None oldfd newfd c f) = Some f"
    unfolding that by (rule fd_inv_idle [OF inv f(1)]) (rule keep)
  show ?thesis
  proof (cases "file_of f oldfd")
    case None
    then show ?thesis using dup3_locked_ok [OF f(1) m, of oldfd c] same by simp
  next
    case (Some fl)
    show ?thesis
    proof (cases "file_of f newfd = None \<and> in_use f newfd")
      case True
      then show ?thesis using dup3_locked_ok [OF f(1) m, of oldfd c] Some same by simp
    next
      case False
      with dup3_locked_ok [OF f(1) m, of oldfd c] Some obtain f' where
        f': "dup3_locked None oldfd newfd c f = Some (Inr newfd, file_of f newfd, f')" "files_wf f'"
          "file_of f' = (file_of f)(newfd := Some fl)" "in_use f' = (in_use f)(newfd := True)" by auto
      have "in_use f' n \<and> file_of f' n = None" if "fd_pcs s u = Reserved n" for u n
        using keep [OF that] False f' by auto
      then show ?thesis using fd_inv_idle [OF inv f'(2), of t] f'(1) by simp
    qed
  qed
qed

lemma dup3_refused_inv:
  assumes inv: "fd_inv s" and f: "files_wf f" "in_use f = in_use (table s)" "file_of f = file_of (table s)"
  shows "fd_inv (idle_with t (map_option (snd \<circ> snd) (dup3_locked (Some e) oldfd newfd c f)) s)"
proof -
  obtain r where "dup3_locked (Some e) oldfd newfd c f = Some (Inl r, None, f)" using dup3_refused [OF f(1)] by blast
  moreover have "in_use f n \<and> file_of f n = None" if "fd_pcs s u = Reserved n" for u n
    using inv that f by (simp add: fd_inv_def)
  ultimately show ?thesis using fd_inv_idle [OF inv f(1), of t] by simp
qed

lemma fd_step_inv:
  assumes inv: "fd_inv s" and step: "fd_step s s'"
  shows "fd_inv s'"
proof -
  let ?f = "table s"
  have wf: "files_wf ?f" using inv by (simp add: fd_inv_def)
  have res: "in_use ?f n \<and> file_of ?f n = None" if "fd_pcs s u = Reserved n" for u n
    using inv that by (simp add: fd_inv_def)
  from step show ?thesis
  proof cases
    case (alloc t lim start c)
    then show ?thesis using alloc_round_inv [OF inv] by simp
  next
    case (alloc_grown t start c nr lim lim' mem)
    have "growing_ok (fd_pcs s t)" using inv by (simp add: fd_inv_def)
    then have "nr < 2 ^ 30" using alloc_grown(2) by (simp add: growing_ok_def)
    from expand_any [OF wf this alloc_grown(4), of mem] obtain r f' where
      e: "expand_fdtable (new_fdtable lim' mem nr) nr ?f = Some (r, f')" "files_wf f'" "file_of f' = file_of ?f" "in_use f' = in_use ?f"
      by metis
    have "fd_inv (after_alloc t start c (alloc_fd_round lim start c f') (s\<lparr>table := f'\<rparr>))"
      using alloc_round_inv [OF fd_inv_same [OF inv e(2,4,3)] alloc_grown(3), of t start c] by simp
    moreover have "after_alloc t start c x (s\<lparr>table := f'\<rparr>) = after_alloc t start c x s" if "x \<noteq> None" for x
      using that by (auto simp: after_alloc_def split: sum.split option.split)
    moreover have "alloc_fd_round lim start c f' \<noteq> None"
      using calculation(1) by (auto simp: fd_inv_def crashed_alloc)
    ultimately have "fd_inv (after_alloc t start c (alloc_fd_round lim start c f') s)" by simp
    moreover have "fd_inv (idle_with t (Some f') s)" using fd_inv_idle [OF inv e(2), of t] e res by simp
    ultimately show ?thesis unfolding alloc_grown(1) e(1) by (cases r) simp_all
  next
    case (install t n fl)
    have used: "in_use ?f n" "file_of ?f n = None" using res [OF install(2)] by simp_all
    obtain f' where f': "fd_install n fl ?f = Some (Inr (), f')" "files_wf f'"
      "file_of f' = (file_of ?f)(n := Some fl)" "in_use f' = in_use ?f" using fd_install_ok [OF wf used, of fl] by (elim exE conjE)
    have "in_use f' k \<and> file_of f' k = None" if "u \<noteq> t" "fd_pcs s u = Reserved k" for u k
      using inv res [OF that(2)] that install(2) f' by (auto simp: fd_inv_def)
    then have "fd_inv (idle_with t (Some f') s)" by (rule fd_inv_idle [OF inv f'(2)])
    then show ?thesis unfolding install(1) f'(1) by simp
  next
    case (abandon t n)
    have used: "n < max_fds (fdt ?f)" "file_of ?f n = None" using res [OF abandon(2)] by (simp_all add: in_use_def)
    obtain f' where f': "put_unused_fd n ?f = Some f'" "files_wf f'"
      "file_of f' = file_of ?f" "in_use f' = (in_use ?f)(n := False)" using put_unused_fd_ok [OF wf used] by (elim exE conjE)
    have "in_use f' k \<and> file_of f' k = None" if "u \<noteq> t" "fd_pcs s u = Reserved k" for u k
      using inv res [OF that(2)] that abandon(2) f' by (auto simp: fd_inv_def)
    then have "fd_inv (idle_with t (Some f') s)" by (rule fd_inv_idle [OF inv f'(2)])
    then show ?thesis unfolding abandon(1) f'(1) by simp
  next
    case (close t n)
    show ?thesis
    proof (cases "file_of ?f n")
      case None
      then show ?thesis using sys_close_ok [OF wf, of n] fd_inv_idle [OF inv wf, of t] res close(1) by simp
    next
      case (Some fl)
      with sys_close_ok [OF wf, of n] obtain f' where f': "sys_close n ?f = Some (Inr fl, f')" "files_wf f'"
        "file_of f' = (file_of ?f)(n := None)" "in_use f' = (in_use ?f)(n := False)" by auto
      have "in_use f' k \<and> file_of f' k = None" if "fd_pcs s u = Reserved k" for u k
        using res [OF that] Some f' by auto
      then show ?thesis using fd_inv_idle [OF inv f'(2), of t] close(1) f'(1) by simp
    qed
  next
    case (dup t lim newfd oldfd c)
    show ?thesis
    proof (cases "expand_files lim newfd ?f")
      case Enough
      then have "newfd < max_fds (fdt ?f)" by (simp add: expand_files_def split: if_splits)
      then show ?thesis using dup(1) Enough dup3_inv [OF inv wf refl refl, of newfd t oldfd c] by simp
    next
      case Grow
      then have "growing_ok (DupGrow oldfd newfd c)" using dup(3) by (auto simp: expand_files_def growing_ok_def sane_limits_def split: if_splits)
      then show ?thesis using dup(1) Grow fd_pcs_grow [OF inv, of "DupGrow oldfd newfd c" t] by simp
    next
      case (Refuse e)
      then show ?thesis using dup(1) dup3_refused_inv [OF inv wf refl refl, of t e oldfd newfd c] by simp
    qed
  next
    case (dup_grown t oldfd newfd c lim mem)
    have "growing_ok (fd_pcs s t)" using inv by (simp add: fd_inv_def)
    then have "newfd < 2 ^ 30" using dup_grown(2) by (simp add: growing_ok_def)
    from expand_any [OF wf this dup_grown(3), of mem] obtain r f' where
      e: "expand_fdtable (new_fdtable lim mem newfd) newfd ?f = Some (r, f')" "files_wf f'" "file_of f' = file_of ?f"
        "in_use f' = in_use ?f" "r = Inr () \<Longrightarrow> newfd < max_fds (fdt f')"
      by metis
    show ?thesis
    proof (cases r)
      case (Inl a)
      then show ?thesis using dup_grown(1) e(1) dup3_refused_inv [OF inv e(2,4,3), of t a oldfd newfd c] by simp
    next
      case (Inr b)
      then show ?thesis using dup_grown(1) e(1,5) dup3_inv [OF inv e(2,4,3), of newfd t oldfd c] by simp
    qed
  next
    case (setfd t n c)
    with set_close_on_exec_ok [OF wf, of n c] obtain f' where f': "set_close_on_exec n c ?f = Some f'" "files_wf f'"
      "file_of f' = file_of ?f" "in_use f' = in_use ?f" by blast
    then show ?thesis using fd_inv_idle [OF inv f'(2), of t] res setfd(1) by simp
  qed
qed

interpretation fd_tables: step_invariant fd_step fd_inv
  by unfold_locales (rule fd_step_inv)

definition fd_start :: "files_struct \<Rightarrow> fd_sys" where
  "fd_start f = \<lparr>table = f, fd_pcs = (\<lambda>_. FdIdle), crashed = False\<rparr>"

lemma fd_start_inv: "files_wf f \<Longrightarrow> fd_inv (fd_start f)"
  by (simp add: fd_inv_def fd_start_def growing_ok_def)

text \<open>
  C6: However the tasks that share a table open, install, give up, close, duplicate and set
  flags, whenever memory is short and whatever the limits become: no array is accessed
  outside its bounds and no \<open>BUG\<close> is reached; a descriptor that a task has reserved stays in
  use and without a file, belongs to that task only, and installing a file in it succeeds
  and changes that descriptor alone.
\<close>

theorem fd_reserved_safe:
  assumes "files_wf f" and "fd_step\<^sup>*\<^sup>* (fd_start f) s"
  shows "\<not> crashed s \<and> files_wf (table s) \<and>
    (\<forall>t n. fd_pcs s t = Reserved n \<longrightarrow> in_use (table s) n \<and> file_of (table s) n = None \<and>
       (\<forall>t'. fd_pcs s t' = Reserved n \<longrightarrow> t' = t) \<and>
       (\<exists>f'. fd_install n fl (table s) = Some (Inr (), f') \<and> file_of f' = (file_of (table s))(n := Some fl)))"
proof -
  have inv: "fd_inv s" by (rule fd_tables.run_keeps [OF assms(2) fd_start_inv [OF assms(1)]])
  have "\<exists>f'. fd_install n fl (table s) = Some (Inr (), f') \<and> file_of f' = (file_of (table s))(n := Some fl)"
    if "fd_pcs s t = Reserved n" for t n
    using fd_install_ok [of "table s" n fl] inv that by (auto simp: fd_inv_def)
  then show ?thesis using inv unfolding fd_inv_def by blast
qed

text \<open>Two tasks that open at the same time; the second is refused the descriptor of the first.\<close>

definition ex_lim :: fd_limits where "ex_lim = \<lparr>rlimit_nofile = 1024, sysctl_nr_open = 2 ^ 20\<rparr>"

definition ex_two :: fd_sys where
  "ex_two = \<lparr>table = \<lparr>fdt = \<lparr>max_fds = 32, fd = replicate 32 None, close_on_exec = [0], open_fds = [3]\<rparr>, next_fd = 2\<rparr>,
     fd_pcs = (\<lambda>_. FdIdle)(1 := Reserved 0, 2 := Reserved 1), crashed = False\<rparr>"

definition ex_one :: files_struct where
  "ex_one = \<lparr>fdt = \<lparr>max_fds = 32, fd = replicate 32 None, close_on_exec = [0], open_fds = [1]\<rparr>, next_fd = 1\<rparr>"

lemma pick_least: "files_wf f \<Longrightarrow> \<not> in_use f n \<Longrightarrow> \<forall>i. start \<le> i \<and> i < n \<longrightarrow> in_use f i \<Longrightarrow> start \<le> n \<Longrightarrow> pick_fd start f = Some n"
  using pick_fd_ok [of f start] by (metis linorder_cases)

lemma ex_take: "take_fd 0 False 0 init_files = Some ex_one" "take_fd 0 False 1 ex_one = Some (table ex_two)"
  by (simp_all add: take_fd_def init_files_def ex_one_def ex_two_def NR_OPEN_DEFAULT_def FD_SET_def FD_CLR_def set_bit_op_def
      clear_bit_op_def rd_def wr_def Let_def list_update_same_conv [THEN iffD2])

lemma ex_one_ok: "files_wf ex_one" "in_use ex_one = (\<lambda>i. False)(0 := True)"
proof -
  have n: "0 < max_fds (fdt init_files)" by (simp add: init_files_def NR_OPEN_DEFAULT_def)
  have "\<not> in_use init_files 0" by (simp add: init_files_ok)
  then show "files_wf ex_one" "in_use ex_one = (\<lambda>i. False)(0 := True)"
    using take_fd_ok [OF init_files_ok(1) n, of 0 False] ex_take(1) by (simp_all add: init_files_ok)
qed

lemma ex_round1: "alloc_fd_round ex_lim 0 False init_files = Some (Inl (Inr 0), ex_one)"
  using pick_least [OF init_files_ok(1), of 0 0] ex_take(1)
  by (simp add: init_files_ok alloc_fd_round_def expand_files_def ex_lim_def) (simp add: init_files_def NR_OPEN_DEFAULT_def)

lemma ex_round2: "alloc_fd_round ex_lim 0 False ex_one = Some (Inl (Inr 1), table ex_two)"
proof -
  have "pick_fd 0 ex_one = Some 1" by (rule pick_least) (auto simp: ex_one_ok)
  then show ?thesis using ex_take(2) by (simp add: alloc_fd_round_def expand_files_def ex_lim_def) (simp add: ex_one_def)
qed

theorem fd_reserved_safe_witness:
  "\<exists>f'. fd_install 1 9 (table ex_two) = Some (Inr (), f') \<and> file_of f' = (file_of (table ex_two))(1 := Some 9)"
proof -
  have lim: "sane_limits ex_lim" by (simp add: sane_limits_def ex_lim_def)
  let ?one = "\<lparr>table = ex_one, fd_pcs = (\<lambda>_. FdIdle)(1 := Reserved 0), crashed = False\<rparr>"
  have "after_alloc 1 0 False (alloc_fd_round ex_lim 0 False init_files) (fd_start init_files) = ?one"
    unfolding ex_round1 by (simp add: after_alloc_def fd_start_def)
  then have "fd_step (fd_start init_files) ?one"
    using fd_step.alloc [of "fd_start init_files" 1 ex_lim 0 False] lim by (simp add: fd_start_def)
  moreover have "after_alloc 2 0 False (alloc_fd_round ex_lim 0 False ex_one) ?one = ex_two"
    unfolding ex_round2 by (simp add: after_alloc_def ex_two_def)
  then have "fd_step ?one ex_two" using fd_step.alloc [of ?one 2 ex_lim 0 False] lim by simp
  ultimately have "fd_step\<^sup>*\<^sup>* (fd_start init_files) ex_two" by simp
  moreover have "fd_pcs ex_two 2 = Reserved 1" by (simp add: ex_two_def)
  ultimately show ?thesis using fd_reserved_safe [OF init_files_ok(1), of ex_two 9] by blast
qed

end
