(* ===== verification/FdTableFork.thy ===== *)
theory FdTableFork imports FdTableInv begin

text \<open>
  What fork, exec and exit do with the table: the child's copy, the descriptors that are closed
  on exec, and the files that are closed at the end.
\<close>

section \<open>Fork\<close>

lemma count_loop_ok:
  "k \<le> length ws \<Longrightarrow> \<exists>i. count_loop ws k = Some i \<and> (i < k \<or> k = 0 \<and> i = 0) \<and> (\<forall>j. i < j \<and> j < k \<longrightarrow> ws ! j = 0) \<and>
     (i \<noteq> 0 \<longrightarrow> ws ! i \<noteq> 0)"
proof (induction k)
  case (Suc k)
  show ?case
  proof (cases "ws ! k = 0")
    case True
    from Suc obtain i where "count_loop ws k = Some i" "i < k \<or> k = 0 \<and> i = 0" "\<forall>j. i < j \<and> j < k \<longrightarrow> ws ! j = 0"
      "i \<noteq> 0 \<longrightarrow> ws ! i \<noteq> 0" by auto
    then show ?thesis using True Suc.prems by (intro exI [of _ i]) (auto simp: rd_def less_Suc_eq)
  next
    case False
    then show ?thesis using Suc.prems by (intro exI [of _ k]) (auto simp: rd_def)
  qed
qed simp

lemma count_open_files_ok:
  assumes wf: "files_wf f"
  shows "\<exists>n. count_open_files (fdt f) = Some n \<and> n mod 32 = 0 \<and> 0 < n \<and> n \<le> max_fds (fdt f) \<and>
    (\<forall>i \<ge> n. \<not> in_use f i) \<and> (32 < n \<longrightarrow> (\<exists>i \<ge> n - 32. in_use f i))"
proof -
  let ?t = "fdt f" and ?ws = "open_fds (fdt f)"
  have len: "32 * length ?ws = max_fds ?t" and pos: "0 < max_fds ?t" using wf by (simp_all add: files_wf_def fdt_wf_def)
  have k: "max_fds ?t div 32 = length ?ws" using len by simp
  from count_loop_ok [of "length ?ws" ?ws] obtain i where
    i: "count_loop ?ws (length ?ws) = Some i" "i < length ?ws" "\<forall>j. i < j \<and> j < length ?ws \<longrightarrow> ?ws ! j = 0"
      "i \<noteq> 0 \<longrightarrow> ?ws ! i \<noteq> 0" using len pos by auto
  have "\<not> in_use f j" if "(i + 1) * 32 \<le> j" for j
  proof
    assume u: "in_use f j"
    then have "i < j div 32" "j div 32 < length ?ws" using that len by (auto simp: in_use_def)
    then show False using u i(3) by (simp add: in_use_def tb_def)
  qed
  moreover have "\<exists>j \<ge> (i + 1) * 32 - 32. in_use f j" if "32 < (i + 1) * 32"
  proof -
    have "?ws ! i \<noteq> 0" using i(4) that by simp
    then obtain b where b: "bit (?ws ! i) b" by (auto simp: bit_eq_iff)
    then have "b < 32" using bit_imp_le_length by fastforce
    then show ?thesis using b i(2) len by (intro exI [of _ "i * 32 + b"]) (auto simp: in_use_def tb_def)
  qed
  ultimately show ?thesis using i(1,2) len k
    by (intro exI [of _ "(i + 1) * 32"]) (auto simp: count_open_files_def)
qed

lemma dup_loop_ok:
  assumes "length slots \<ge> i + n" "32 * length opn = m" "i + n \<le> m"
  shows "\<exists>opn'. dup_loop slots i n opn = Some opn' \<and> length opn' = length opn \<and>
    (\<forall>j. tb opn' j \<longleftrightarrow> tb opn j \<and> \<not> (i \<le> j \<and> j < i + n \<and> slots ! j = None))"
  using assms
proof (induction n arbitrary: i opn)
  case (Suc n)
  have i: "i < m" using Suc.prems by simp
  obtain c where c: "FD_CLR i opn = Some c" "length c = length opn" "\<forall>j. tb c j \<longleftrightarrow> j \<noteq> i \<and> tb opn j"
    by (rule fd_bit_ops [OF Suc.prems(2) i])
  define opn1 where "opn1 = (if slots ! i = None then c else opn)"
  have o: "(if slots ! i = None then FD_CLR i opn else Some opn) = Some opn1" "length opn1 = length opn"
    "\<forall>j. tb opn1 j \<longleftrightarrow> tb opn j \<and> \<not> (j = i \<and> slots ! i = None)"
    using c by (auto simp: opn1_def)
  from Suc.IH [of "i + 1" opn1] Suc.prems o(2) obtain opn' where
    "dup_loop slots (i + 1) n opn1 = Some opn'" "length opn' = length opn"
    "\<forall>j. tb opn' j \<longleftrightarrow> tb opn1 j \<and> \<not> (i + 1 \<le> j \<and> j < i + 1 + n \<and> slots ! j = None)" by auto
  then show ?case using o Suc.prems by (auto simp: rd_def Suc_le_eq le_less)
qed simp

lemma tb_take: "i < 32 * k \<Longrightarrow> tb (take k ws) i = tb ws i"
proof -
  assume "i < 32 * k"
  then have "i div 32 < k" by linarith
  then show ?thesis unfolding tb_def by (simp only: nth_take)
qed

lemma dup_size_ok:
  assumes n: "n mod 32 = 0" "0 < n" "n \<le> 2 ^ 30" and lim: "0 < sysctl_nr_open lim" "sysctl_nr_open lim \<le> 2 ^ 30"
  shows "case dup_size lim mem n of
     Inr sz \<Rightarrow> n \<le> sz \<and> sz mod 32 = 0
   | Inl e \<Rightarrow> e = Err ENOMEM \<and> \<not> mem \<or> e = Err EMFILE \<and> mem \<and> 32 < n \<and> sysctl_nr_open lim \<le> n - 32"
proof -
  have "n - 1 < 2 ^ 30" using n by simp
  note size = fdtable_size_round [OF this lim]
  have "0 < n div 32" using n(1,2) by auto
  then have "n - 1 = 31 + 32 * (n div 32 - 1)" using n(1,2) by auto
  then have "(n - 1) div 32 = n div 32 - 1" by simp
  then have r: "(n - 1) div 32 * 32 = n - 32" using n(1) by (simp add: diff_mult_distrib)
  have s: "n - 32 < sysctl_nr_open lim \<longrightarrow> n - 1 < unat (fdtable_size (sysctl_nr_open lim) (of_nat (n - 1)))"
    "unat (fdtable_size (sysctl_nr_open lim) (of_nat (n - 1))) mod 32 = 0"
    by (rule conjunct1 [OF size, unfolded r], rule conjunct2 [OF size])
  define sz where "sz = unat (fdtable_size (sysctl_nr_open lim) (of_nat (n - 1)))"
  have d: "dup_size lim mem n = (if \<not> mem then Inl (Err ENOMEM) else if n \<le> 32 then Inr 32 else if sz < n then Inl (Err EMFILE) else Inr sz)"
    by (simp add: dup_size_def NR_OPEN_DEFAULT_def Let_def sz_def)
  have "sysctl_nr_open lim \<le> n - 32 \<or> n - 1 < sz" "sz mod 32 = 0" using s unfolding sz_def by (simp_all add: not_less [symmetric])
  then show ?thesis unfolding d using n(2) by auto
qed

text \<open>The child's table, when \<open>n\<close> descriptors are copied into a table of size \<open>sz\<close>.\<close>

lemma dup_table_ok:
  assumes wf: "files_wf f" and n: "n mod 32 = 0" "0 < n" "n \<le> max_fds (fdt f)" "\<forall>i \<ge> n. \<not> in_use f i"
    and sz: "n \<le> sz" "sz mod 32 = 0"
  shows "\<exists>opn. dup_loop (fd (fdt f)) 0 n (take (n div 32) (open_fds (fdt f))) = Some opn \<and>
    (let g = \<lparr>fdt = \<lparr>max_fds = sz, fd = take n (fd (fdt f)) @ replicate (sz - n) None,
        close_on_exec = take (n div 32) (close_on_exec (fdt f)) @ replicate ((sz - n) div 32) 0,
        open_fds = opn @ replicate ((sz - n) div 32) 0\<rparr>, next_fd = 0\<rparr> in
     files_wf g \<and> file_of g = file_of f \<and> (\<forall>i. in_use g i \<longleftrightarrow> file_of f i \<noteq> None) \<and>
     (\<forall>i. in_use g i \<longrightarrow> cloexec_of g i = cloexec_of f i))"
proof -
  let ?t = "fdt f"
  note len = wf_len [OF wf]
  let ?k = "n div 32" and ?z = "(sz - n) div 32"
  have k: "32 * ?k = n" using n(1) by auto
  have "(sz - n) mod 32 = 0" using n(1) sz(2) by (metis mod_eq_0_iff_dvd dvd_diff_nat)
  then have z: "n + 32 * ?z = sz" using sz(1) by auto
  have kl: "?k \<le> length (open_fds ?t)" "?k \<le> length (close_on_exec ?t)" using k len n(3) by linarith+
  then have tl: "32 * length (take ?k (open_fds ?t)) = n" "32 * length (take ?k (close_on_exec ?t)) = n" using k by simp_all
  from dup_loop_ok [of 0 n "fd ?t" "take ?k (open_fds ?t)" n] tl len n(3) obtain opn where
    opn: "dup_loop (fd ?t) 0 n (take ?k (open_fds ?t)) = Some opn" "length opn = length (take ?k (open_fds ?t))"
      "\<forall>j. tb opn j \<longleftrightarrow> tb (take ?k (open_fds ?t)) j \<and> \<not> (j < n \<and> fd ?t ! j = None)" by auto
  let ?g = "\<lparr>fdt = \<lparr>max_fds = sz, fd = take n (fd ?t) @ replicate (sz - n) None,
      close_on_exec = take ?k (close_on_exec ?t) @ replicate ?z 0, open_fds = opn @ replicate ?z 0\<rparr>, next_fd = 0\<rparr>"
  have ol: "32 * length opn = n" using opn(2) tl by simp
  have tbo: "tb (opn @ replicate ?z 0) i \<longleftrightarrow> i < n \<and> tb (open_fds ?t) i \<and> fd ?t ! i \<noteq> None" if "i < sz" for i
    using tb_grown [OF ol, of i ?z] that z opn(3) tb_take [of i ?k "open_fds ?t"] k by auto
  have tbc: "tb (take ?k (close_on_exec ?t) @ replicate ?z 0) i \<longleftrightarrow> i < n \<and> tb (close_on_exec ?t) i" if "i < sz" for i
    using tb_grown [OF tl(2), of i ?z] that z tb_take [of i ?k "close_on_exec ?t"] k by auto
  have free: "file_of f i = None" if "n \<le> i" for i using file_in_use [OF wf, of i] n(4) that by blast
  have files: "file_of ?g i = file_of f i" for i
    using free [of i] n(3) sz len by (auto simp: file_of_def nth_append not_less)
  have used: "in_use ?g i \<longleftrightarrow> file_of f i \<noteq> None" for i
  proof (cases "i < n")
    case True
    then have "i < sz" "i < max_fds ?t" using sz(1) n(3) by simp_all
    then show ?thesis using tbo [of i] True file_in_use [OF wf, of i] by (auto simp: in_use_def file_of_def)
  next
    case False
    then show ?thesis using tbo [of i] free [of i] by (auto simp: in_use_def)
  qed
  have "in_use ?g i \<Longrightarrow> cloexec_of ?g i = cloexec_of f i" for i
    using tbc [of i] tbo [of i] n(3) by (auto simp: in_use_def cloexec_of_def)
  moreover have "files_wf ?g"
  proof -
    have "\<forall>i < sz. (take n (fd ?t) @ replicate (sz - n) None) ! i \<noteq> None \<longrightarrow> tb (opn @ replicate ?z 0) i"
    proof (intro allI impI)
      fix i assume "i < sz" "(take n (fd ?t) @ replicate (sz - n) None) ! i \<noteq> None"
      then have "file_of ?g i \<noteq> None" by (simp add: file_of_def)
      then show "tb (opn @ replicate ?z 0) i" using files [of i] used [of i] by (simp add: in_use_def)
    qed
    then show ?thesis using sz n(2,3) len ol tl z by (simp add: files_wf_def fdt_wf_def)
  qed
  moreover have "file_of ?g = file_of f" using files by (simp add: fun_eq_iff)
  ultimately show ?thesis using opn(1) used unfolding Let_def by (intro exI [of _ opn] conjI allI impI)
qed

text \<open>
  C7: For a well-formed table, with \<open>sysctl_nr_open\<close> not 0 and it and the table at most
  \<open>2 ^ 30\<close>, the child of a fork gets exactly the files of its parent: every descriptor with a file
  leads to the same file, with the same close-on-exec flag; every other descriptor,
  reserved ones included, is free in the child, whose table is well formed. The fork
  fails only with \<open>ENOMEM\<close>, when memory is short, or with \<open>EMFILE\<close>, when the parent uses a
  descriptor beyond a limit that was lowered since.
\<close>

theorem dup_fd_copies:
  assumes wf: "files_wf f" and lim: "0 < sysctl_nr_open lim" "sysctl_nr_open lim \<le> 2 ^ 30" "max_fds (fdt f) \<le> 2 ^ 30"
  shows "\<exists>r. dup_fd lim mem f = Some r \<and>
    (case r of
       Inr g \<Rightarrow> files_wf g \<and> file_of g = file_of f \<and> (\<forall>i. in_use g i \<longleftrightarrow> file_of f i \<noteq> None) \<and>
         (\<forall>i. in_use g i \<longrightarrow> cloexec_of g i = cloexec_of f i)
     | Inl e \<Rightarrow> e = Err ENOMEM \<and> \<not> mem \<or> e = Err EMFILE \<and> mem \<and> (\<exists>i \<ge> sysctl_nr_open lim. in_use f i))"
proof -
  obtain n where n: "count_open_files (fdt f) = Some n" "n mod 32 = 0" "0 < n" "n \<le> max_fds (fdt f)" "\<forall>i \<ge> n. \<not> in_use f i"
    "32 < n \<longrightarrow> (\<exists>i \<ge> n - 32. in_use f i)" using count_open_files_ok [OF wf] by (elim exE conjE)
  have "n \<le> 2 ^ 30" using n(4) lim(3) by simp
  note sz = dup_size_ok [OF n(2,3) this lim(1,2), of mem]
  show ?thesis
  proof (cases "dup_size lim mem n")
    case (Inl e)
    then have "dup_fd lim mem f = Some (Inl e)" using n(1) by (simp add: dup_fd_def Let_def)
    moreover have "e = Err ENOMEM \<and> \<not> mem \<or> e = Err EMFILE \<and> mem \<and> (\<exists>i \<ge> sysctl_nr_open lim. in_use f i)"
      using sz n(6) Inl by (auto intro: le_trans)
    ultimately show ?thesis by simp
  next
    case (Inr sz)
    with dup_size_ok [OF n(2,3) \<open>n \<le> 2 ^ 30\<close> lim(1,2), of mem] have "n \<le> sz" "sz mod 32 = 0" by simp_all
    from dup_table_ok [OF wf n(2-5) this] obtain g where "dup_fd lim mem f = Some (Inr g)"
      "files_wf g" "file_of g = file_of f" "\<forall>i. in_use g i \<longleftrightarrow> file_of f i \<noteq> None" "\<forall>i. in_use g i \<longrightarrow> cloexec_of g i = cloexec_of f i"
      using n(1) Inr unfolding dup_fd_def Let_def by auto
    then show ?thesis by simp
  qed
qed

definition ex_parent :: files_struct where
  "ex_parent = \<lparr>fdt = \<lparr>max_fds = 32, fd = (replicate 32 None)[1 := Some 9], close_on_exec = [2], open_fds = [3]\<rparr>, next_fd = 2\<rparr>"

lemma ex_parent_ok: "files_wf ex_parent" "file_of ex_parent = (\<lambda>i. if i = 1 then Some 9 else None)"
proof -
  have bits: "tb [3] i \<longleftrightarrow> i < 2" if "i < 32" for i
  proof -
    have "bit (3 :: ulong) i \<longleftrightarrow> i < 2"
      using bit_mask_iff [where 'a = "32 word", of 2 i] by (simp add: mask_eq_exp_minus_1) linarith
    then show ?thesis using that by (simp add: tb_def)
  qed
  have slot: "(replicate 32 None)[Suc 0 := Some 9] ! i = (if i = Suc 0 then Some 9 else None)" if "i < 32" for i :: nat
    using that by (simp add: nth_list_update)
  show "files_wf ex_parent" by (simp add: files_wf_def fdt_wf_def ex_parent_def bits slot split: if_splits)
  show "file_of ex_parent = (\<lambda>i. if i = 1 then Some 9 else None)"
    by (auto simp: file_of_def ex_parent_def slot fun_eq_iff)
qed

text \<open>Descriptor 0 is reserved, descriptor 1 has a file.\<close>

theorem dup_fd_copies_witness:
  "\<exists>g. dup_fd \<lparr>rlimit_nofile = 1024, sysctl_nr_open = 2 ^ 20\<rparr> True ex_parent = Some (Inr g) \<and>
     \<not> in_use g 0 \<and> in_use g 1 \<and> file_of g 1 = Some 9"
proof -
  have "0 < sysctl_nr_open \<lparr>rlimit_nofile = 1024, sysctl_nr_open = 2 ^ 20\<rparr>"
    "sysctl_nr_open \<lparr>rlimit_nofile = 1024, sysctl_nr_open = 2 ^ 20\<rparr> \<le> 2 ^ 30" "max_fds (fdt ex_parent) \<le> 2 ^ 30"
    by (simp_all add: ex_parent_def)
  from dup_fd_copies [OF ex_parent_ok(1) this, of True] obtain r where
    r: "dup_fd \<lparr>rlimit_nofile = 1024, sysctl_nr_open = 2 ^ 20\<rparr> True ex_parent = Some r"
    "case r of Inr g \<Rightarrow> files_wf g \<and> file_of g = file_of ex_parent \<and> (\<forall>i. in_use g i \<longleftrightarrow> file_of ex_parent i \<noteq> None) \<and>
         (\<forall>i. in_use g i \<longrightarrow> cloexec_of g i = cloexec_of ex_parent i)
     | Inl e \<Rightarrow> e = Err ENOMEM \<and> \<not> True \<or> e = Err EMFILE \<and> True \<and>
         (\<exists>i \<ge> sysctl_nr_open \<lparr>rlimit_nofile = 1024, sysctl_nr_open = 2 ^ 20\<rparr>. in_use ex_parent i)"
    by (elim exE conjE)
  show ?thesis
  proof (cases r)
    case (Inl e)
    then show ?thesis using r(2) by (auto simp: in_use_def ex_parent_def)
  next
    case (Inr g)
    then show ?thesis using r by (simp add: ex_parent_ok(2))
  qed
qed

section \<open>Exec\<close>

lemma sys_close_table:
  assumes wf: "files_wf f"
  obtains r f' where "sys_close n f = Some (r, f')" "files_wf f'" "max_fds (fdt f') = max_fds (fdt f)"
    "file_of f' = (file_of f)(n := None)" "in_use f' = (if file_of f n = None then in_use f else (in_use f)(n := False))"
    "cloexec_of f' = (if file_of f n = None then cloexec_of f else (cloexec_of f)(n := False))"
proof (cases "file_of f n")
  case None
  then show ?thesis using sys_close_ok [OF wf, of n] wf by (intro that [of "Inl (Err EBADF)" f]) (auto simp: fun_eq_iff)
next
  case (Some fl)
  with sys_close_ok [OF wf, of n] obtain f' where f': "sys_close n f = Some (Inr fl, f')" "files_wf f'"
    "file_of f' = (file_of f)(n := None)" "in_use f' = (in_use f)(n := False)" "cloexec_of f' = (cloexec_of f)(n := False)" by auto
  moreover have "max_fds (fdt f') = max_fds (fdt f)"
    using f'(1) by (auto simp: sys_close_def put_unused_fd_def Let_def split: if_splits option.splits bind_splits)
  ultimately show ?thesis using Some by (intro that [of "Inr fl" f']) simp_all
qed

text \<open>The descriptors from \<open>i\<close> on whose bits are set in \<open>w\<close>.\<close>

definition picked :: "nat \<Rightarrow> ulong \<Rightarrow> nat \<Rightarrow> bool" where
  "picked i w k \<longleftrightarrow> i \<le> k \<and> bit w (k - i)"

lemma picked_step: "picked i w k \<longleftrightarrow> k = i \<and> odd w \<or> picked (i + 1) (drop_bit 1 w) k"
proof -
  have "bit w (k - i) = bit (drop_bit 1 w) (k - (i + 1))" if "i < k"
    using that by (simp add: bit_simps Suc_diff_Suc)
  then show ?thesis by (cases "k = i") (auto simp: picked_def bit_0)
qed

lemma not_picked: "\<not> picked (i + 1) w i" "\<not> picked i 0 k"
  by (simp_all add: picked_def)

declare flush_word.simps [simp del]

lemma flush_word_ok:
  assumes "files_wf f"
  shows "\<exists>f'. flush_word i w f = Some f' \<and> files_wf f' \<and> max_fds (fdt f') = max_fds (fdt f) \<and>
    (\<forall>k. file_of f' k = (if picked i w k then None else file_of f k)) \<and>
    (\<forall>k. in_use f' k \<longleftrightarrow> in_use f k \<and> \<not> (picked i w k \<and> file_of f k \<noteq> None)) \<and>
    (\<forall>k. cloexec_of f' k \<longleftrightarrow> cloexec_of f k \<and> \<not> (picked i w k \<and> file_of f k \<noteq> None))"
  using assms
proof (induction i w f rule: flush_word.induct)
  case (1 i w f)
  show ?case
  proof (cases "w = 0")
    case True
    then show ?thesis using 1(2) by (simp add: flush_word.simps not_picked)
  next
    case False
    have bit0: "w AND 1 \<noteq> 0 \<longleftrightarrow> odd w" by (simp add: and_one_eq odd_iff_mod_2_eq_one)
    obtain f1 where f1: "(if w AND 1 \<noteq> 0 then do { (_, files) \<leftarrow> sys_close i f; Some files } else Some f) = Some f1" "files_wf f1"
      "max_fds (fdt f1) = max_fds (fdt f)"
      "\<forall>k. file_of f1 k = (if k = i \<and> odd w then None else file_of f k)"
      "\<forall>k. in_use f1 k \<longleftrightarrow> in_use f k \<and> \<not> (k = i \<and> odd w \<and> file_of f k \<noteq> None)"
      "\<forall>k. cloexec_of f1 k \<longleftrightarrow> cloexec_of f k \<and> \<not> (k = i \<and> odd w \<and> file_of f k \<noteq> None)"
    proof (cases "odd w")
      case True
      obtain r g where "sys_close i f = Some (r, g)" "files_wf g" "max_fds (fdt g) = max_fds (fdt f)"
        "file_of g = (file_of f)(i := None)" "in_use g = (if file_of f i = None then in_use f else (in_use f)(i := False))"
        "cloexec_of g = (if file_of f i = None then cloexec_of f else (cloexec_of f)(i := False))"
        by (rule sys_close_table [OF 1(2)])
      then show ?thesis using True bit0 by (intro that [of g]) auto
    next
      case False
      then show ?thesis using 1(2) bit0 by (intro that [of f]) auto
    qed
    from 1(1) [OF False f1(1,2)] obtain f' where f': "flush_word (i + 1) (drop_bit 1 w) f1 = Some f'" "files_wf f'"
      "max_fds (fdt f') = max_fds (fdt f1)"
      "\<forall>k. file_of f' k = (if picked (i + 1) (drop_bit 1 w) k then None else file_of f1 k)"
      "\<forall>k. in_use f' k \<longleftrightarrow> in_use f1 k \<and> \<not> (picked (i + 1) (drop_bit 1 w) k \<and> file_of f1 k \<noteq> None)"
      "\<forall>k. cloexec_of f' k \<longleftrightarrow> cloexec_of f1 k \<and> \<not> (picked (i + 1) (drop_bit 1 w) k \<and> file_of f1 k \<noteq> None)"
      by (elim exE conjE)
    have "flush_word i w f = Some f'" using False f1(1) f'(1) by (simp add: flush_word.simps [of i w])
    moreover note p = picked_step [of i w]
    moreover have "\<forall>k. file_of f' k = (if picked i w k then None else file_of f k)" using f1(4) f'(4) p by auto
    moreover have "\<forall>k. in_use f' k \<longleftrightarrow> in_use f k \<and> \<not> (picked i w k \<and> file_of f k \<noteq> None)"
      using f1(4,5) f'(5) p not_picked(1) [of i] by auto
    moreover have "\<forall>k. cloexec_of f' k \<longleftrightarrow> cloexec_of f k \<and> \<not> (picked i w k \<and> file_of f k \<noteq> None)"
      using f1(4,6) f'(6) p not_picked(1) [of i] by auto
    ultimately show ?thesis using f'(2,3) f1(3) by auto
  qed
qed

lemma picked_word:
  "picked (j * 32) (ws ! j) k \<longleftrightarrow> k div 32 = j \<and> tb ws k" if "j < length ws" for ws :: "ulong list"
proof (cases "k div 32 = j")
  case True
  then have "j * 32 \<le> k" "k - j * 32 = k mod 32" by (auto simp: minus_div_mult_eq_mod)
  then show ?thesis using True by (simp add: picked_def tb_def)
next
  case False
  have "k div 32 = j" if "j * 32 \<le> k" "k - j * 32 < 32"
    using that by (metis div_nat_eqI less_diff_conv2 add.commute mult.commute mult_Suc)
  then show ?thesis using False bit_imp_le_length [of "ws ! j" "k - j * 32"] by (auto simp: picked_def)
qed

lemma flush_from_ok:
  assumes "files_wf f"
  shows "\<exists>f'. flush_from j f = Some f' \<and> files_wf f' \<and>
    (\<forall>k. file_of f' k = (if 32 * j \<le> k \<and> cloexec_of f k then None else file_of f k)) \<and>
    (\<forall>k. in_use f' k \<longleftrightarrow> in_use f k \<and> \<not> (32 * j \<le> k \<and> cloexec_of f k \<and> file_of f k \<noteq> None)) \<and>
    (\<forall>k. cloexec_of f' k \<longleftrightarrow> cloexec_of f k \<and> k < 32 * j)"
  using assms
proof (induction "max_fds (fdt f) - 32 * j" arbitrary: j f rule: less_induct)
  case less
  let ?t = "fdt f" and ?ws = "close_on_exec (fdt f)"
  note len = wf_len [OF less.prems]
  show ?case
  proof (cases "j * 32 \<ge> max_fds ?t")
    case True
    then show ?thesis using less.prems by (subst flush_from.simps) (auto simp: cloexec_of_def)
  next
    case False
    then have j: "j < length ?ws" using len by simp
    let ?g = "f\<lparr>fdt := ?t\<lparr>close_on_exec := ?ws[j := 0]\<rparr>\<rparr>"
    have wf: "files_wf ?g" using less.prems by (simp add: files_wf_def fdt_wf_def)
    have same: "file_of ?g = file_of f" "in_use ?g = in_use f" "max_fds (fdt ?g) = max_fds ?t"
      by (auto simp: file_of_def in_use_def fun_eq_iff)
    have "tb (?ws[j := 0]) k \<longleftrightarrow> tb ?ws k \<and> k div 32 \<noteq> j" for k
      using j by (cases "k div 32 = j") (simp_all add: tb_def)
    then have clo: "cloexec_of ?g k \<longleftrightarrow> cloexec_of f k \<and> k div 32 \<noteq> j" for k by (auto simp: cloexec_of_def)
    have pick: "picked (j * 32) (?ws ! j) k \<longleftrightarrow> k div 32 = j \<and> cloexec_of f k" for k
      using picked_word [OF j, of k] j len by (auto simp: cloexec_of_def)
    from flush_word_ok [OF wf, of "j * 32" "?ws ! j"] obtain h where h: "flush_word (j * 32) (?ws ! j) ?g = Some h" "files_wf h"
      "max_fds (fdt h) = max_fds ?t"
      "\<forall>k. file_of h k = (if picked (j * 32) (?ws ! j) k then None else file_of f k)"
      "\<forall>k. in_use h k \<longleftrightarrow> in_use f k \<and> \<not> (picked (j * 32) (?ws ! j) k \<and> file_of f k \<noteq> None)"
      "\<forall>k. cloexec_of h k \<longleftrightarrow> cloexec_of ?g k \<and> \<not> (picked (j * 32) (?ws ! j) k \<and> file_of f k \<noteq> None)"
      unfolding same by (elim exE conjE)
    have clo_h: "\<forall>k. cloexec_of h k \<longleftrightarrow> cloexec_of f k \<and> k div 32 \<noteq> j" using h(6) clo pick by auto
    have "max_fds (fdt h) - 32 * (j + 1) < max_fds ?t - 32 * j" using False h(3) by simp
    from less.hyps [OF this h(2)] obtain f' where f': "flush_from (j + 1) h = Some f'" "files_wf f'"
      "\<forall>k. file_of f' k = (if 32 * (j + 1) \<le> k \<and> cloexec_of h k then None else file_of h k)"
      "\<forall>k. in_use f' k \<longleftrightarrow> in_use h k \<and> \<not> (32 * (j + 1) \<le> k \<and> cloexec_of h k \<and> file_of h k \<noteq> None)"
      "\<forall>k. cloexec_of f' k \<longleftrightarrow> cloexec_of h k \<and> k < 32 * (j + 1)"
      by (elim exE conjE)
    have rng: "32 * j \<le> k \<longleftrightarrow> k div 32 = j \<or> 32 * (j + 1) \<le> k" "32 * (j + 1) \<le> k \<longrightarrow> k div 32 \<noteq> j" for k by auto
    have "flush_from j f = Some f'"
      using False j h(1) f'(1) by (subst flush_from.simps) (simp add: rd_def)
    moreover have "\<forall>k. file_of f' k = (if 32 * j \<le> k \<and> cloexec_of f k then None else file_of f k)"
      using f'(3) h(4) clo_h pick rng by auto
    moreover have "\<forall>k. in_use f' k \<longleftrightarrow> in_use f k \<and> \<not> (32 * j \<le> k \<and> cloexec_of f k \<and> file_of f k \<noteq> None)"
      using f'(4) h(4,5) clo_h pick rng by auto
    moreover have "\<forall>k. cloexec_of f' k \<longleftrightarrow> cloexec_of f k \<and> k < 32 * j"
      using f'(5) clo_h rng by (auto simp: not_le [symmetric])
    ultimately show ?thesis using f'(2) by blast
  qed
qed

text \<open>
  C11: On a well-formed table, exec closes exactly the descriptors that are to be closed on exec: their files are gone
  and the descriptors free, every other descriptor keeps its file, no flag is left set, and
  the table stays well formed. The call ends and accesses no array outside its bounds.
\<close>

theorem flush_old_files_closes:
  assumes "files_wf f"
  shows "\<exists>f'. flush_old_files f = Some f' \<and> files_wf f' \<and>
    (\<forall>k. file_of f' k = (if cloexec_of f k then None else file_of f k)) \<and>
    (\<forall>k. in_use f' k \<longleftrightarrow> in_use f k \<and> \<not> (cloexec_of f k \<and> file_of f k \<noteq> None)) \<and> (\<forall>k. \<not> cloexec_of f' k)"
  using flush_from_ok [OF assms, of 0] by (simp add: flush_old_files_def)

theorem flush_old_files_closes_witness:
  "\<exists>f'. flush_old_files ex_parent = Some f' \<and> file_of f' 1 = None \<and> \<not> in_use f' 1"
proof -
  have "tb [2 :: ulong] 1" by (simp add: tb_def bit_iff_odd)
  then have "cloexec_of ex_parent 1" by (simp add: cloexec_of_def ex_parent_def)
  moreover have "file_of ex_parent 1 \<noteq> None" by (simp add: ex_parent_ok(2))
  ultimately show ?thesis using flush_old_files_closes [OF ex_parent_ok(1)] by auto
qed

section \<open>Exit\<close>

text \<open>The files of the descriptors \<open>i\<close> to \<open>n - 1\<close>, in order.\<close>

abbreviation files_between :: "files_struct \<Rightarrow> nat \<Rightarrow> nat \<Rightarrow> nat list" where
  "files_between f i n \<equiv> List.map_filter (file_of f) [i..<n]"

declare close_word.simps [simp del] close_from.simps [simp del]

lemma close_word_ok:
  assumes "i + m \<le> length slots" "\<forall>k. bit w k \<longrightarrow> k < m" "\<forall>k < m. slots ! (i + k) \<noteq> None \<longrightarrow> bit w k"
  shows "close_word slots i w = Some (List.map_filter (\<lambda>k. slots ! k) [i..<i + m])"
  using assms
proof (induction m arbitrary: i w)
  case 0
  then have "w = 0" by (simp add: bit_eq_iff)
  then show ?case by (simp add: close_word.simps map_filter_simps)
next
  case (Suc m)
  have sh: "bit (drop_bit 1 w) k \<longleftrightarrow> bit w (Suc k)" for k by (simp add: bit_simps)
  have rest: "close_word slots (i + 1) (drop_bit 1 w) = Some (List.map_filter (\<lambda>k. slots ! k) [i + 1..<i + 1 + m])"
  proof (rule Suc.IH)
    show "i + 1 + m \<le> length slots" using Suc.prems(1) by simp
    show "\<forall>k. bit (drop_bit 1 w) k \<longrightarrow> k < m" using Suc.prems(2) sh by auto
    show "\<forall>k < m. slots ! (i + 1 + k) \<noteq> None \<longrightarrow> bit (drop_bit 1 w) k" unfolding sh
      using Suc.prems(3) by (metis Suc_less_eq add.assoc add_Suc_right plus_1_eq_Suc)
  qed
  have up: "[i..<i + Suc m] = i # [i + 1..<i + 1 + m]" by (simp add: upt_conv_Cons)
  have bit0: "w AND 1 \<noteq> 0 \<longleftrightarrow> bit w 0" by (simp add: and_one_eq odd_iff_mod_2_eq_one bit_0)
  have none: "w = 0 \<Longrightarrow> List.map_filter (\<lambda>k. slots ! k) [i..<i + Suc m] = []"
  proof -
    assume "w = 0"
    have "slots ! k = None" if "i \<le> k" "k < i + Suc m" for k
    proof (rule ccontr)
      assume "slots ! k \<noteq> None"
      moreover have "k - i < Suc m" "i + (k - i) = k" using that by simp_all
      ultimately show False using Suc.prems(3) [rule_format, of "k - i"] \<open>w = 0\<close> by simp
    qed
    then show ?thesis by (auto simp: List.map_filter_def filter_empty_conv)
  qed
  have first: "slots ! i \<noteq> None \<longrightarrow> bit w 0" using Suc.prems(3) by force
  show ?case
  proof (cases "w = 0")
    case True
    then show ?thesis using none by (simp add: close_word.simps)
  next
    case False
    then show ?thesis
      using rest first bit0 Suc.prems(1) unfolding up
      by (subst close_word.simps) (auto simp: rd_def map_filter_simps split: option.splits)
  qed
qed

lemma close_from_ok:
  assumes wf: "files_wf f"
  shows "close_from (fdt f) j = Some (files_between f (32 * j) (max_fds (fdt f)))"
proof (induction "fdt f" j rule: close_from.induct)
  case (1 j)
  let ?t = "fdt f"
  note len = wf_len [OF wf]
  show ?case
  proof (cases "j * 32 \<ge> max_fds ?t")
    case True
    then show ?thesis by (subst close_from.simps) (simp add: map_filter_simps)
  next
    case False
    let ?w = "open_fds ?t ! j"
    have j: "j < length (open_fds ?t)" using False len by simp
    have m: "32 * j + 32 \<le> max_fds ?t" using j len by linarith
    have "slots = fd ?t \<Longrightarrow> close_word slots (j * 32) ?w = Some (List.map_filter (\<lambda>k. slots ! k) [j * 32..<j * 32 + 32])" for slots
    proof (rule close_word_ok)
      assume s: "slots = fd ?t"
      show "j * 32 + 32 \<le> length slots" using m len s by simp
      show "\<forall>k. bit ?w k \<longrightarrow> k < 32" using bit_imp_le_length [of ?w] by auto
      show "\<forall>k < 32. slots ! (j * 32 + k) \<noteq> None \<longrightarrow> bit ?w k"
      proof (intro allI impI)
        fix k :: nat assume "k < 32" "slots ! (j * 32 + k) \<noteq> None"
        moreover have "(j * 32 + k) div 32 = j" "(j * 32 + k) mod 32 = k" using \<open>k < 32\<close> by simp_all
        moreover have "j * 32 + k < max_fds ?t" using \<open>k < 32\<close> m by simp
        moreover have "\<forall>i < max_fds ?t. fd ?t ! i \<noteq> None \<longrightarrow> tb (open_fds ?t) i"
          using wf unfolding files_wf_def fdt_wf_def by blast
        ultimately have "tb (open_fds ?t) (j * 32 + k)" using s by blast
        then show "bit ?w k" using \<open>(j * 32 + k) div 32 = j\<close> \<open>(j * 32 + k) mod 32 = k\<close> by (simp only: tb_def)
      qed
    qed
    moreover have "List.map_filter (\<lambda>k. fd ?t ! k) [j * 32..<j * 32 + 32] = files_between f (32 * j) (32 * (j + 1))"
    proof -
      have "[j * 32..<j * 32 + 32] = [32 * j..<32 * (j + 1)]" by (simp add: mult.commute add.commute)
      then show ?thesis unfolding List.map_filter_def using m by (intro map_cong filter_cong) (auto simp: file_of_def)
    qed
    moreover have "rd (open_fds ?t) j = Some ?w" using j by (simp add: rd_def)
    moreover have "files_between f (32 * j) (max_fds ?t) = files_between f (32 * j) (32 * (j + 1)) @ files_between f (32 * (j + 1)) (max_fds ?t)"
    proof -
      have "[32 * j..<max_fds ?t] = [32 * j..<32 * (j + 1)] @ [32 * (j + 1)..<max_fds ?t]"
        using upt_add_eq_append [of "32 * j" "32 * (j + 1)" "max_fds ?t - 32 * (j + 1)"] m by simp
      then show ?thesis by (simp add: List.map_filter_def)
    qed
    ultimately show ?thesis using 1 False by (subst close_from.simps) simp
  qed
qed

text \<open>
  When the last task that uses a table ends, \<open>close_files\<close> closes the file of every
  descriptor that has one, once for each such descriptor and in the order of the
  descriptors, and nothing else.
\<close>

theorem close_files_all:
  assumes "files_wf f"
  shows "close_files f = Some (List.map_filter (file_of f) [0..<max_fds (fdt f)])"
  using close_from_ok [OF assms, of 0] by (simp add: close_files_def)

theorem close_files_all_witness: "close_files ex_parent = Some [9]"
proof -
  have "[0..<32] = 0 # 1 # [2..<32 :: nat]" by (simp add: upt_rec)
  moreover have "List.map_filter (file_of ex_parent) [2..<32] = []"
    by (auto simp: ex_parent_ok(2) List.map_filter_def filter_empty_conv)
  ultimately show ?thesis using close_files_all [OF ex_parent_ok(1)]
    by (simp add: ex_parent_ok(2) map_filter_simps) (simp add: ex_parent_def map_filter_simps)
qed

end
