(* ===== verification/FdTableDup.thy ===== *)
theory FdTableDup imports FdTableFork begin

text \<open>
  What \<open>dup3\<close> and \<open>dup2\<close> promise to their caller, on every branch.
\<close>

text \<open>The outcome of \<open>dup3\<close>, in terms of the abstract table: result, file to close, new table.\<close>

definition dup3_outcome :: "fd_limits \<Rightarrow> bool \<Rightarrow> nat \<Rightarrow> nat \<Rightarrow> bool \<Rightarrow> files_struct \<Rightarrow> nat result \<Rightarrow> nat option \<Rightarrow> files_struct \<Rightarrow> bool" where
  "dup3_outcome lim mem oldfd newfd c f r old f' \<longleftrightarrow> files_wf f' \<and>
     (case r of
        Inr n \<Rightarrow> n = newfd \<and> old = file_of f newfd \<and> file_of f oldfd \<noteq> None \<and> newfd < rlimit_nofile lim \<and>
          \<not> (in_use f newfd \<and> file_of f newfd = None) \<and>
          file_of f' = (file_of f)(newfd := file_of f oldfd) \<and> in_use f' = (in_use f)(newfd := True) \<and>
          cloexec_of f' = (cloexec_of f)(newfd := c)
      | Inl e \<Rightarrow> old = None \<and> file_of f' = file_of f \<and> in_use f' = in_use f \<and> cloexec_of f' = cloexec_of f \<and>
          (e = Err EBADF \<and> (file_of f oldfd = None \<or> rlimit_nofile lim \<le> newfd \<or> sysctl_nr_open lim \<le> newfd)
           \<or> e = Err ENOMEM \<and> \<not> mem \<or> e = Err EBUSY \<and> in_use f newfd \<and> file_of f newfd = None))"

lemma dup3_fits:
  assumes g: "files_wf g" "file_of g = file_of f" "in_use g = in_use f" "cloexec_of g = cloexec_of f"
    and n: "newfd < max_fds (fdt g)" "newfd < rlimit_nofile lim"
  shows "\<exists>r old f'. dup3_locked None oldfd newfd c g = Some (r, old, f') \<and> dup3_outcome lim mem oldfd newfd c f r old f'"
proof -
  note ok = dup3_locked_ok [OF g(1) n(1), of oldfd c]
  show ?thesis
  proof (cases "file_of f oldfd")
    case None
    then show ?thesis using ok g unfolding dup3_outcome_def by (intro exI [of _ "Inl (Err EBADF)"] exI [of _ None] exI [of _ g]) simp
  next
    case (Some fl)
    show ?thesis
    proof (cases "file_of f newfd = None \<and> in_use f newfd")
      case True
      then show ?thesis using ok Some g unfolding dup3_outcome_def
        by (intro exI [of _ "Inl (Err EBUSY)"] exI [of _ None] exI [of _ g]) simp
    next
      case False
      with ok Some g obtain f' where "dup3_locked None oldfd newfd c g = Some (Inr newfd, file_of g newfd, f')" "files_wf f'"
        "file_of f' = (file_of g)(newfd := Some fl)" "in_use f' = (in_use g)(newfd := True)"
        "cloexec_of f' = (cloexec_of g)(newfd := c)" by auto
      then show ?thesis using False Some g n(2) unfolding dup3_outcome_def
        by (intro exI [of _ "Inr newfd"] exI [of _ "file_of g newfd"] exI [of _ f']) auto
    qed
  qed
qed

lemma dup3_refused_ok:
  assumes wf: "files_wf f"
    and e: "e = Err EMFILE \<and> (rlimit_nofile lim \<le> newfd \<or> sysctl_nr_open lim \<le> newfd) \<or> e = Err ENOMEM \<and> \<not> mem"
  shows "\<exists>r old f'. dup3_locked (Some e) oldfd newfd c f = Some (r, old, f') \<and> dup3_outcome lim mem oldfd newfd c f r old f'"
proof -
  have chk: "fcheck_files f oldfd = Some (file_of f oldfd)" using wf_len [OF wf] by (simp add: fcheck_files_def file_of_def rd_def)
  show ?thesis
  proof (cases "file_of f oldfd")
    case None
    then show ?thesis using chk wf by (simp add: dup3_locked_def dup3_outcome_def)
  next
    case (Some fl)
    then show ?thesis using chk wf e by (auto simp: dup3_locked_def dup3_outcome_def)
  qed
qed

text \<open>
  C9: \<open>dup3\<close> on every branch, on a well-formed table, with \<open>sysctl_nr_open\<close> at most \<open>2 ^ 30\<close>. On success the new descriptor leads to the file of the old
  one, is in use and has the flag asked for, no other descriptor changes, and the file it
  had before, if any, is handed back to be closed. A descriptor that another task has
  reserved is refused with \<open>EBUSY\<close>. Bad flags or twice the same descriptor give
  \<open>EINVAL\<close>; an old descriptor without a file, or a new one at a limit, \<open>EBADF\<close>; short
  memory \<open>ENOMEM\<close>; a call that fails changes no descriptor.
\<close>

theorem dup3_every_branch:
  assumes wf: "files_wf f" and no: "sysctl_nr_open lim \<le> 2 ^ 30"
  shows "(flags AND NOT 0x80000 \<noteq> 0 \<or> oldfd = newfd) \<and> sys_dup3 lim mem oldfd newfd flags f = Some (Inl (Err EINVAL), None, f) \<or>
    flags AND NOT 0x80000 = 0 \<and> oldfd \<noteq> newfd \<and>
      (\<exists>r old f'. sys_dup3 lim mem oldfd newfd flags f = Some (r, old, f') \<and>
         dup3_outcome lim mem oldfd newfd (flags \<noteq> 0) f r old f')"
proof (cases "flags AND NOT 0x80000 \<noteq> 0 \<or> oldfd = newfd")
  case True
  then show ?thesis by (auto simp: sys_dup3_def dup3_checks_def)
next
  case False
  then have chk: "dup3_checks oldfd newfd flags = Inr ()" by (simp add: dup3_checks_def)
  have "\<exists>r old f'. sys_dup3 lim mem oldfd newfd flags f = Some (r, old, f') \<and> dup3_outcome lim mem oldfd newfd (flags \<noteq> 0) f r old f'"
  proof (cases "expand_files lim newfd f")
    case Enough
    then have "newfd < max_fds (fdt f)" "newfd < rlimit_nofile lim" by (simp_all add: expand_files_def split: if_splits)
    from dup3_fits [OF wf refl refl refl this, of oldfd "flags \<noteq> 0" mem] show ?thesis
      using chk Enough by (simp add: sys_dup3_def)
  next
    case (Refuse e)
    then have "e = Err EMFILE \<and> (rlimit_nofile lim \<le> newfd \<or> sysctl_nr_open lim \<le> newfd)"
      by (auto simp: expand_files_def split: if_splits)
    from dup3_refused_ok [OF wf disjI1 [OF this], where mem = mem and oldfd = oldfd and c = "flags \<noteq> 0"] show ?thesis
      using chk Refuse by (simp add: sys_dup3_def)
  next
    case Grow
    then have lim: "newfd < sysctl_nr_open lim" "newfd < rlimit_nofile lim" by (simp_all add: expand_files_def split: if_splits)
    show ?thesis
    proof (cases mem)
      case True
      from expand_fdtable_ok [OF wf lim(1) no] obtain g where g: "expand_fdtable (new_fdtable lim True newfd) newfd f = Some (Inr (), g)"
        "files_wf g" "newfd < max_fds (fdt g)" "file_of g = file_of f" "in_use g = in_use f" "cloexec_of g = cloexec_of f"
        by (elim exE conjE)
      from dup3_fits [OF g(2,4-6,3) lim(2), of oldfd "flags \<noteq> 0" mem] show ?thesis
        using chk Grow g(1) True by (simp add: sys_dup3_def)
    next
      case False
      then have "expand_fdtable (new_fdtable lim mem newfd) newfd f = Some (Inl (Err ENOMEM), f)"
        by (simp add: expand_fdtable_def new_fdtable_def)
      then show ?thesis using chk Grow False dup3_refused_ok [OF wf, of "Err ENOMEM" lim newfd mem oldfd "flags \<noteq> 0"]
        by (simp add: sys_dup3_def)
    qed
  qed
  then show ?thesis using False by simp
qed

text \<open>Descriptor 0 of the table is reserved: a \<open>dup3\<close> onto it is refused.\<close>

theorem dup3_every_branch_witness:
  "\<exists>f'. sys_dup3 \<lparr>rlimit_nofile = 1024, sysctl_nr_open = 2 ^ 20\<rparr> True 1 0 0 ex_parent = Some (Inl (Err EBUSY), None, f') \<and>
     file_of f' 0 = None"
proof -
  define L where "L = \<lparr>rlimit_nofile = 1024, sysctl_nr_open = 2 ^ 20\<rparr>"
  have "tb [3 :: ulong] 0" by (simp add: tb_def bit_iff_odd)
  then have used: "in_use ex_parent 0" by (simp add: in_use_def ex_parent_def)
  have "sysctl_nr_open L \<le> 2 ^ 30" by (simp add: L_def)
  from dup3_every_branch [OF ex_parent_ok(1) this, of 0 1 0 True] obtain r old f' where
    run: "sys_dup3 L True 1 0 0 ex_parent = Some (r, old, f')" and out: "dup3_outcome L True 1 0 False ex_parent r old f'"
    by auto
  show ?thesis
  proof (cases r)
    case (Inl e)
    then have "e = Err EBUSY \<and> old = None \<and> file_of f' 0 = None" using out used
      by (simp add: dup3_outcome_def ex_parent_ok(2) L_def)
    then show ?thesis using run Inl unfolding L_def by simp
  next
    case (Inr n)
    then show ?thesis using out used by (simp add: dup3_outcome_def ex_parent_ok(2))
  qed
qed

end
