(* ===== verification/RtcLib.thy ===== *)
theory RtcLib imports Bits begin

text \<open>
  The calendar of the real-time clocks (\<open>drivers/rtc/rtc-lib.c\<close>, \<open>mktime\<close> of \<open>kernel/time.c\<close>):
  seconds since 1970 to a date and back. \<open>unsigned\<close> and \<open>unsigned long\<close> are words of 32
  bits; a C \<open>int\<close> is an integer, with the conversions from words written out.
\<close>

section \<open>The code\<close>

record rtc_time =
  tm_sec :: int
  tm_min :: int
  tm_hour :: int
  tm_mday :: int
  tm_mon :: int
  tm_year :: int
  tm_wday :: int
  tm_yday :: int

definition rtc_days_in_month :: "int list" where
  "rtc_days_in_month = [31, 28, 31, 30, 31, 30, 31, 31, 30, 31, 30, 31]"

definition rtc_ydays :: "int list list" where
  "rtc_ydays =
     [[0, 31, 59, 90, 120, 151, 181, 212, 243, 273, 304, 334, 365],
      [0, 31, 60, 91, 121, 152, 182, 213, 244, 274, 305, 335, 366]]"

definition LEAPS_THRU_END_OF :: "u32 \<Rightarrow> u32" where
  "LEAPS_THRU_END_OF y = y div 4 - y div 100 + y div 400"

definition LEAP_YEAR :: "u32 \<Rightarrow> bool" where
  "LEAP_YEAR year \<longleftrightarrow> year mod 4 = 0 \<and> year mod 100 \<noteq> 0 \<or> year mod 400 = 0"

text \<open>The two functions read their tables with the month; \<open>None\<close> is behind the table.\<close>

definition rtc_month_days :: "nat \<Rightarrow> u32 \<Rightarrow> int option" where
  "rtc_month_days month year =
     do { d \<leftarrow> rd rtc_days_in_month month; Some (d + (if LEAP_YEAR year \<and> month = 1 then 1 else 0)) }"

definition rtc_year_days :: "int \<Rightarrow> nat \<Rightarrow> u32 \<Rightarrow> int option" where
  "rtc_year_days day month year =
     do { row \<leftarrow> rd rtc_ydays (if LEAP_YEAR year then 1 else 0); d \<leftarrow> rd row month; Some (d + day - 1) }"

text \<open>The loop over the months: the month it stops at and the days that are left.\<close>

function month_loop :: "u32 \<Rightarrow> nat \<Rightarrow> int \<Rightarrow> (nat \<times> int) option" where
  "month_loop year month days =
     (if month < 11
      then do { d \<leftarrow> rtc_month_days month year;
                if days - d < 0 then Some (month, days) else month_loop year (month + 1) (days - d) }
      else Some (month, days))"
  by pat_completeness auto
termination by (relation "measure (\<lambda>(year, month, days). 11 - month)") auto

definition rtc_time_to_tm :: "u32 \<Rightarrow> rtc_time option" where
  "rtc_time_to_tm time =
     do { let days = sint (time div 86400);
          let rest = time - of_int days * 86400;
          let wday = (days + 4) mod 7;
          let year0 = 1970 + (of_int (days div 365) :: u32);
          let days0 = sint (of_int days - ((year0 - 1970) * 365 + LEAPS_THRU_END_OF (year0 - 1) - LEAPS_THRU_END_OF (1970 - 1)));
          let year = (if days0 < 0 then year0 - 1 else year0);
          let yday = (if days0 < 0 then days0 + 365 + (if LEAP_YEAR year then 1 else 0) else days0);
          (month, mday) \<leftarrow> month_loop year 0 yday;
          let hour = rest div 3600;
          let rest2 = rest - hour * 3600;
          let minute = rest2 div 60;
          Some \<lparr>tm_sec = sint (rest2 - minute * 60), tm_min = sint minute, tm_hour = sint hour, tm_mday = mday + 1, tm_mon = int month,
                tm_year = sint (year - 1900), tm_wday = wday, tm_yday = yday + 1\<rparr> }"

text \<open>A month from 12 on is refused before the table of months is read.\<close>

definition rtc_valid_tm :: "rtc_time \<Rightarrow> unit result option" where
  "rtc_valid_tm tm =
     (if tm_year tm < 70 \<or> (of_int (tm_mon tm) :: u32) \<ge> 12 \<or> tm_mday tm < 1 then Some (Inl (Err EINVAL))
      else do { d \<leftarrow> rtc_month_days (unat (of_int (tm_mon tm) :: u32)) (of_int (tm_year tm + 1900));
                Some (if tm_mday tm > d \<or> (of_int (tm_hour tm) :: u32) \<ge> 24 \<or> (of_int (tm_min tm) :: u32) \<ge> 60 \<or>
                         (of_int (tm_sec tm) :: u32) \<ge> 60
                      then Inl (Err EINVAL) else Inr ()) })"

definition mktime :: "u32 \<Rightarrow> u32 \<Rightarrow> u32 \<Rightarrow> u32 \<Rightarrow> u32 \<Rightarrow> u32 \<Rightarrow> u32" where
  "mktime year0 mon0 day hour minute sec =
     (let early = (0 \<ge> sint (mon0 - 2));
          mon = (if early then mon0 - 2 + 12 else mon0 - 2);
          year = (if early then year0 - 1 else year0) in
      (((year div 4 - year div 100 + year div 400 + 367 * mon div 12 + day + year * 365 - 719499) * 24 + hour) * 60 + minute) * 60 + sec)"

definition rtc_tm_to_time :: "rtc_time \<Rightarrow> u32" where
  "rtc_tm_to_time tm =
     mktime (of_int (tm_year tm + 1900)) (of_int (tm_mon tm + 1)) (of_int (tm_mday tm)) (of_int (tm_hour tm)) (of_int (tm_min tm))
       (of_int (tm_sec tm))"

section \<open>Words as integers\<close>

lemma of_int_div: "0 \<le> n \<Longrightarrow> n < 2 ^ 32 \<Longrightarrow> 0 < k \<Longrightarrow> k < 2 ^ 32 \<Longrightarrow> (of_int n :: u32) div of_int k = of_int (n div k)"
proof -
  assume a: "0 \<le> n" "n < 2 ^ 32" "0 < k" "k < 2 ^ 32"
  have u: "uint (of_int x :: u32) = x" if "0 \<le> x" "x < 2 ^ 32" for x
    using that by (simp add: unsigned_of_int take_bit_int_eq_self)
  have "0 \<le> n div k" "n div k < 2 ^ 32"
    using a zdiv_mono2 [of n 1 k] by (simp_all add: pos_imp_zdiv_nonneg_iff)
  then show ?thesis using a by (simp only: word_uint_eq_iff uint_div u less_imp_le)
qed

lemmas div_4 = of_int_div [of _ 4, simplified] and div_100 = of_int_div [of _ 100, simplified]
  and div_400 = of_int_div [of _ 400, simplified] and div_60 = of_int_div [of _ 60, simplified]
  and div_3600 = of_int_div [of _ 3600, simplified] and div_86400 = of_int_div [of _ 86400, simplified]

lemma sint_of_int: "- (2 ^ 31) \<le> x \<Longrightarrow> x < 2 ^ 31 \<Longrightarrow> sint (of_int x :: u32) = x"
  by (simp add: signed_of_int signed_take_bit_int_eq_self)

lemma of_int_uint: "of_int (uint w) = (w :: u32)"
  by simp

section \<open>The calendar\<close>

definition leap :: "int \<Rightarrow> bool" where
  "leap y \<longleftrightarrow> y mod 4 = 0 \<and> y mod 100 \<noteq> 0 \<or> y mod 400 = 0"

definition leaps :: "int \<Rightarrow> int" where
  "leaps y = y div 4 - y div 100 + y div 400"

text \<open>The days from 1 January 1970 to 1 January of a year.\<close>

definition jan1 :: "int \<Rightarrow> int" where
  "jan1 y = 365 * (y - 1970) + leaps (y - 1) - 477"

definition year_length :: "int \<Rightarrow> int" where
  "year_length y = (if leap y then 366 else 365)"

text \<open>The days of a month, and the days before it in its year; months count from 0.\<close>

definition month_length :: "int \<Rightarrow> nat \<Rightarrow> int" where
  "month_length y m = (if leap y \<and> m = 1 then 29 else rtc_days_in_month ! m)"

definition days_before :: "int \<Rightarrow> nat \<Rightarrow> int" where
  "days_before y m = rtc_ydays ! (if leap y then 1 else 0) ! m"

lemma div_pred: "(y :: int) div k = (y - 1) div k + (if y mod k = 0 then 1 else 0)" if "0 < k"
proof -
  define q r where "q = y div k" and "r = y mod k"
  have y: "y = k * q + r" "0 \<le> r" "r < k" using that by (simp_all add: q_def r_def)
  have "(y - 1) div k = q - (if r = 0 then 1 else 0)"
  proof (cases "r = 0")
    case True
    then have "y - 1 = k * (q - 1) + (k - 1)" using y(1) by (simp add: right_diff_distrib)
    from int_div_pos_eq [OF this] show ?thesis using True that by simp
  next
    case False
    have "y - 1 = k * q + (r - 1)" using y(1) by simp
    from int_div_pos_eq [OF this] show ?thesis using False y by simp
  qed
  then show ?thesis by (simp add: q_def r_def)
qed

lemma leaps_step: "leaps y = leaps (y - 1) + (if leap y then 1 else 0)"
proof -
  define A B C where "A \<longleftrightarrow> y mod 4 = 0" and "B \<longleftrightarrow> y mod 100 = 0" and "C \<longleftrightarrow> y mod 400 = 0"
  define a b c where "a = (y - 1) div 4" and "b = (y - 1) div 100" and "c = (y - 1) div 400"
  have "B \<longrightarrow> A" "C \<longrightarrow> B"
  proof -
    have "y mod 4 = y mod 100 mod 4" "y mod 100 = y mod 400 mod 100" by (rule mod_mod_cancel [symmetric], simp)+
    then show "B \<longrightarrow> A" "C \<longrightarrow> B" unfolding A_def B_def C_def by (metis mod_0)+
  qed
  moreover have "leap y \<longleftrightarrow> A \<and> \<not> B \<or> C" unfolding leap_def A_def B_def C_def by (rule refl)
  moreover have "leaps (y - 1) = a - b + c" unfolding leaps_def a_def b_def c_def by (rule refl)
  moreover have "leaps y = a + (if A then 1 else 0) - (b + (if B then 1 else 0)) + (c + (if C then 1 else 0))"
  proof -
    have "y div 4 = a + (if A then 1 else 0)" "y div 100 = b + (if B then 1 else 0)" "y div 400 = c + (if C then 1 else 0)"
      unfolding A_def B_def C_def a_def b_def c_def by (rule div_pred, simp)+
    then show ?thesis by (simp only: leaps_def)
  qed
  ultimately show ?thesis by (cases A; cases B; cases C) simp_all
qed

lemma jan1_step: "jan1 (y + 1) = jan1 y + year_length y"
  using leaps_step [of y] by (auto simp: jan1_def year_length_def)

lemma leaps_bounds: "1970 \<le> y \<Longrightarrow> y \<le> 2107 \<Longrightarrow> 477 \<le> leaps (y - 1) \<and> leaps (y - 1) \<le> 512"
proof -
  assume y: "1970 \<le> y" "y \<le> 2107"
  have q: "k * ((y - 1) div k) \<le> y - 1 \<and> y - 1 < k * ((y - 1) div k) + k" if "0 < k" for k
    using that mult_div_mod_eq [of k "y - 1"] pos_mod_sign [of k "y - 1"] pos_mod_bound [of k "y - 1"] by linarith
  define a b c where "a = (y - 1) div 4" and "b = (y - 1) div 100" and "c = (y - 1) div 400"
  have d: "4 * a \<le> y - 1" "y - 1 < 4 * a + 4" "100 * b \<le> y - 1" "y - 1 < 100 * b + 100" "400 * c \<le> y - 1" "y - 1 < 400 * c + 400"
    using q [of 4] q [of 100] q [of 400] by (simp_all add: a_def b_def c_def)
  have r: "19 \<le> b" "b \<le> 21" "4 \<le> c" "c \<le> 5" "492 \<le> a" "a \<le> 526" using d y by linarith+
  consider "b = 19" | "b = 20" | "b = 21" using r(1,2) by linarith
  then have "477 \<le> a - b + c \<and> a - b + c \<le> 512"
  proof cases
    case 1
    then show ?thesis using r by linarith
  next
    case 2
    then have "500 \<le> a" using d by linarith
    then show ?thesis using 2 r by linarith
  next
    case 3
    then have "525 \<le> a" using d by linarith
    then show ?thesis using 3 r by linarith
  qed
  then show ?thesis by (simp add: leaps_def a_def b_def c_def)
qed

lemma LEAP_YEAR_eq: "0 \<le> y \<Longrightarrow> y < 2 ^ 32 \<Longrightarrow> LEAP_YEAR (of_int y) = leap y"
proof -
  assume y: "0 \<le> y" "y < 2 ^ 32"
  have u: "uint (of_int x :: u32) = x" if "0 \<le> x" "x < 2 ^ 32" for x
    using that by (simp add: unsigned_of_int take_bit_int_eq_self)
  have "(of_int y :: u32) mod of_int k = 0 \<longleftrightarrow> y mod k = 0" if "0 < k" "k < 2 ^ 32" for k
  proof -
    have "uint ((of_int y :: u32) mod of_int k) = y mod k" using y that by (simp only: uint_mod u)
    then show ?thesis by (metis uint_0_iff)
  qed
  from this [of 4] this [of 100] this [of 400] show ?thesis by (simp add: LEAP_YEAR_def leap_def)
qed

lemma LEAPS_eq: "0 \<le> y \<Longrightarrow> y < 2 ^ 32 \<Longrightarrow> LEAPS_THRU_END_OF (of_int y) = of_int (leaps y)"
  by (simp add: LEAPS_THRU_END_OF_def leaps_def div_4 div_100 div_400)

lemma month_cases: "m < 12 \<Longrightarrow> m \<in> {0, 1, 2, 3, 4, 5, 6, 7, 8, 9, 10, 11 :: nat}"
  by (auto simp: numeral_eq_Suc less_Suc_eq)

lemma days_before_step: "m < 12 \<Longrightarrow> days_before y (m + 1) = days_before y m + month_length y m"
  by (drule month_cases) (auto simp: days_before_def month_length_def rtc_ydays_def rtc_days_in_month_def)

lemma days_before_ends: "days_before y 0 = 0" "days_before y 12 = year_length y"
  by (simp_all add: days_before_def rtc_ydays_def year_length_def)

lemma month_days_eq: "0 \<le> y \<Longrightarrow> y < 2 ^ 32 \<Longrightarrow> m < 12 \<Longrightarrow> rtc_month_days m (of_int y) = Some (month_length y m)"
  by (auto simp: rtc_month_days_def rd_def month_length_def LEAP_YEAR_eq) (simp_all add: rtc_days_in_month_def)

lemma year_days_eq: "0 \<le> y \<Longrightarrow> y < 2 ^ 32 \<Longrightarrow> m < 12 \<Longrightarrow> rtc_year_days d m (of_int y) = Some (days_before y m + d - 1)"
  by (auto simp: rtc_year_days_def rd_def days_before_def LEAP_YEAR_eq) (simp_all add: rtc_ydays_def)

declare month_loop.simps [simp del]

lemma month_loop_ok:
  assumes y: "0 \<le> y" "y < 2 ^ 32"
  shows "m \<le> 11 \<Longrightarrow> 0 \<le> d \<Longrightarrow> days_before y m + d < year_length y \<Longrightarrow>
    \<exists>m' d'. month_loop (of_int y) m d = Some (m', d') \<and> m' \<le> 11 \<and> 0 \<le> d' \<and> d' < month_length y m' \<and>
      days_before y m' + d' = days_before y m + d"
proof (induction "11 - m" arbitrary: m d)
  case 0
  then have "m = 11" by simp
  then show ?case using 0 days_before_step [of 11 y] days_before_ends(2) [of y] by (simp add: month_loop.simps)
next
  case (Suc k)
  then have m: "m < 11" by simp
  note len = month_days_eq [OF y, of m]
  show ?case
  proof (cases "d - month_length y m < 0")
    case True
    then show ?thesis using m len Suc.prems by (subst month_loop.simps) simp
  next
    case False
    have "\<exists>m' d'. month_loop (of_int y) (m + 1) (d - month_length y m) = Some (m', d') \<and> m' \<le> 11 \<and> 0 \<le> d' \<and> d' < month_length y m' \<and>
      days_before y m' + d' = days_before y (m + 1) + (d - month_length y m)"
      using Suc.hyps(2) Suc.prems False m days_before_step [of m y] by (intro Suc.hyps(1)) simp_all
    then show ?thesis using m len False days_before_step [of m y] by (subst month_loop.simps) simp
  qed
qed

section \<open>Seconds to a date\<close>

lemma year_guess:
  assumes d: "0 \<le> d" "d \<le> 49710"
  defines "y \<equiv> 1970 + d div 365"
  shows "1970 \<le> y" "y \<le> 2106" "d - jan1 y < 365" "- 365 < d - jan1 y" "d - jan1 y < 0 \<Longrightarrow> 1971 \<le> y"
proof -
  define q r where "q = d div 365" and "r = d mod 365"
  have "d = 365 * q + r" "0 \<le> r" "r < 365" by (simp_all add: q_def r_def)
  moreover have "0 \<le> q" "q \<le> 136" using calculation d by linarith+
  moreover have y: "y = 1970 + q" by (simp add: y_def q_def)
  moreover have "477 \<le> leaps (y - 1) \<and> leaps (y - 1) \<le> 512" using calculation by (intro leaps_bounds) simp_all
  moreover have "leaps 1969 = 477" by (simp add: leaps_def)
  ultimately show "1970 \<le> y" "y \<le> 2106" "d - jan1 y < 365" "- 365 < d - jan1 y" "d - jan1 y < 0 \<Longrightarrow> 1971 \<le> y"
    by (cases "q = 0"; simp add: jan1_def)+
qed

text \<open>The date of a day, and that it is the only one.\<close>

definition date_of :: "int \<Rightarrow> int \<Rightarrow> nat \<Rightarrow> int \<Rightarrow> bool" where
  "date_of d y m k \<longleftrightarrow> m < 12 \<and> 1 \<le> k \<and> k \<le> month_length y m \<and> d = jan1 y + days_before y m + k - 1"

lemma year_length_pos: "0 < year_length y"
  by (simp add: year_length_def)

lemma jan1_mono: "y \<le> z \<Longrightarrow> jan1 y \<le> jan1 z"
proof (induction rule: int_ge_induct)
  case (step z)
  then show ?case using jan1_step [of z] year_length_pos [of z] by simp
qed simp

lemma days_before_mono: "m \<le> n \<Longrightarrow> n \<le> 12 \<Longrightarrow> days_before y m \<le> days_before y n"
proof (induction n)
  case (Suc n)
  have "0 \<le> month_length y n" if "n < 12"
    using month_cases [OF that] by (auto simp: month_length_def rtc_days_in_month_def)
  then show ?case using Suc days_before_step [of n y] by (cases "m = Suc n") auto
qed simp

lemma date_in_year: "date_of d y m k \<Longrightarrow> jan1 y \<le> d \<and> d < jan1 (y + 1)"
  using days_before_mono [of 0 m y] days_before_mono [of "m + 1" 12 y] days_before_step [of m y] jan1_step [of y] days_before_ends [of y]
  by (simp add: date_of_def)

lemma date_unique:
  assumes "date_of d y m k" "date_of d y' m' k'"
  shows "y' = y \<and> m' = m \<and> k' = k"
proof -
  have "\<not> a < b" if "jan1 b \<le> d" "d < jan1 (a + 1)" for a b
    using jan1_mono [of "a + 1" b] that by (meson less_le_trans not_less zless_imp_add1_zle)
  then have y: "y' = y" using date_in_year [OF assms(1)] date_in_year [OF assms(2)] by (meson linorder_cases)
  have lt: "days_before y a + k1 < days_before y b + k2"
    if "a < b" "b < 12" "k1 \<le> month_length y a" "1 \<le> k2" for a b k1 k2
    using days_before_mono [of "a + 1" b y] days_before_step [of a y] that by simp
  have "\<not> m < m'" "\<not> m' < m" using lt [of m m' k k'] lt [of m' m k' k] assms y by (auto simp: date_of_def)
  then have "m' = m" by simp
  then show ?thesis using assms y by (simp add: date_of_def)
qed

text \<open>What the code computes, for a number of seconds given as an integer.\<close>

lemma rtc_time_to_tm_ok:
  assumes s: "0 \<le> s" "s < 2 ^ 32"
  shows "\<exists>y m k. 1970 \<le> y \<and> y \<le> 2106 \<and> date_of (s div 86400) y m k \<and>
    rtc_time_to_tm (of_int s) = Some
      \<lparr>tm_sec = s mod 60, tm_min = s div 60 mod 60, tm_hour = s div 3600 mod 24, tm_mday = k, tm_mon = int m, tm_year = y - 1900,
       tm_wday = (s div 86400 + 4) mod 7, tm_yday = days_before y m + k\<rparr>"
proof -
  define d r where "d = s div 86400" and "r = s mod 86400"
  have s_eq: "s = 86400 * d + r" "0 \<le> r" "r < 86400" by (simp_all add: d_def r_def)
  moreover have "s < 4294967296" using s(2) by simp
  ultimately have d: "0 \<le> d" "d \<le> 49710" using s(1) by linarith+
  define y0 where "y0 = 1970 + d div 365"
  note g = year_guess [OF d, folded y0_def]
  define y where "y = (if d - jan1 y0 < 0 then y0 - 1 else y0)"
  have y: "1970 \<le> y" "y \<le> 2106" using g by (auto simp: y_def)
  define yd where "yd = d - jan1 y"
  have yd_eq: "yd = (if d - jan1 y0 < 0 then d - jan1 y0 + year_length y else d - jan1 y0)"
    using jan1_step [of "y0 - 1"] by (simp add: yd_def y_def)
  have yd: "0 \<le> yd" "yd < year_length y" using g(3,4) by (auto simp: yd_eq year_length_def)
  obtain m k0 where loop: "month_loop (of_int y) 0 yd = Some (m, k0)" "m \<le> 11" "0 \<le> k0" "k0 < month_length y m"
    "days_before y m + k0 = yd"
    using month_loop_ok [of y 0 yd] y yd days_before_ends(1) [of y] by auto
  have date: "date_of d y m (k0 + 1)" using loop by (simp add: date_of_def yd_def)
  have days: "sint ((of_int s :: u32) div 86400) = d" using s d div_86400 [of s] by (simp add: d_def sint_of_int)
  have rest: "(of_int s :: u32) - of_int d * 86400 = of_int r" using s_eq(1) by simp
  have year0: "1970 + (of_int (d div 365) :: u32) = of_int y0" by (simp add: y0_def)
  have leaps0: "LEAPS_THRU_END_OF (of_int y0 - 1) = of_int (leaps (y0 - 1))" using LEAPS_eq [of "y0 - 1"] g(1,2) by simp
  have leaps1: "LEAPS_THRU_END_OF (1970 - 1) = of_int 477" by (simp add: LEAPS_THRU_END_OF_def)
  have days0: "sint (of_int d - ((of_int y0 - 1970) * 365 + LEAPS_THRU_END_OF (of_int y0 - 1) - LEAPS_THRU_END_OF (1970 - 1)) :: u32) = d - jan1 y0"
  proof -
    have "(of_int d - ((of_int y0 - 1970) * 365 + LEAPS_THRU_END_OF (of_int y0 - 1) - LEAPS_THRU_END_OF (1970 - 1)) :: u32) =
        of_int (d - jan1 y0)" unfolding leaps0 leaps1 jan1_def by (simp add: algebra_simps)
    moreover have "sint (of_int (d - jan1 y0) :: u32) = d - jan1 y0" using g(3,4) by (intro sint_of_int) simp_all
    ultimately show ?thesis by (simp only:)
  qed
  have year: "(if d - jan1 y0 < 0 then of_int y0 - 1 else of_int y0 :: u32) = of_int y" by (simp add: y_def)
  have yday: "(if d - jan1 y0 < 0 then d - jan1 y0 + 365 + (if LEAP_YEAR (of_int y) then 1 else 0) else d - jan1 y0) = yd"
    using y by (simp add: yd_eq LEAP_YEAR_eq year_length_def)
  define h where "h = r div 3600"
  have hour: "(of_int r :: u32) div 3600 = of_int h" using s_eq(2,3) by (simp add: div_3600 h_def)
  have rest2: "(of_int r :: u32) - of_int h * 3600 = of_int (r mod 3600)"
    unfolding h_def by (simp add: minus_div_mult_eq_mod [symmetric])
  have "0 \<le> r mod 3600" "r mod 3600 < 3600" by simp_all
  then have minute: "(of_int (r mod 3600) :: u32) div 60 = of_int (r mod 3600 div 60)" by (simp add: div_60)
  have sec: "(of_int (r mod 3600) :: u32) - of_int (r mod 3600 div 60) * 60 = of_int (r mod 3600 mod 60)"
    by (simp add: minus_div_mult_eq_mod [symmetric])
  have small: "sint (of_int h :: u32) = h" "sint (of_int (r mod 3600 div 60) :: u32) = r mod 3600 div 60"
    "sint (of_int (r mod 3600 mod 60) :: u32) = r mod 3600 mod 60" "sint (of_int y - 1900 :: u32) = y - 1900"
  proof -
    have "0 \<le> h" "h < 24" using s_eq(2,3) unfolding h_def by linarith+
    then show "sint (of_int h :: u32) = h" by (intro sint_of_int) simp_all
    have "0 \<le> r mod 3600 div 60" "r mod 3600 div 60 < 60" by linarith+
    then show "sint (of_int (r mod 3600 div 60) :: u32) = r mod 3600 div 60" by (intro sint_of_int) simp_all
    have "0 \<le> r mod 3600 mod 60" "r mod 3600 mod 60 < 60" by simp_all
    then show "sint (of_int (r mod 3600 mod 60) :: u32) = r mod 3600 mod 60" by (intro sint_of_int) simp_all
    have "sint (of_int (y - 1900) :: u32) = y - 1900" using y by (intro sint_of_int) simp_all
    then show "sint (of_int y - 1900 :: u32) = y - 1900" by simp
  qed
  have parts: "h = s div 3600 mod 24" "r mod 3600 div 60 = s div 60 mod 60" "r mod 3600 mod 60 = s mod 60"
  proof -
    have s3: "s = r + 3600 * (24 * d)" "s = r + 60 * (1440 * d)" using s_eq(1) by simp_all
    have "s div 3600 = h + 24 * d" unfolding h_def by (subst s3(1)) simp
    moreover have "0 \<le> h" "h < 24" using s_eq(2,3) unfolding h_def by linarith+
    ultimately show "h = s div 3600 mod 24" by simp
    have r: "r = r mod 3600 + 3600 * h" by (simp add: h_def)
    have "s div 60 = r div 60 + 60 * (24 * d)" by (subst s3(2)) simp
    moreover have "r div 60 = r mod 3600 div 60 + 60 * h"
    proof -
      have "r div 60 = (r mod 3600 + 60 * (60 * h)) div 60" using r by simp
      then show ?thesis by simp
    qed
    moreover have "0 \<le> r mod 3600 div 60" "r mod 3600 div 60 < 60" by linarith+
    ultimately have "s div 60 = r mod 3600 div 60 + 60 * (h + 24 * d)" by simp
    then have "s div 60 mod 60 = r mod 3600 div 60 mod 60" by (simp only: mod_mult_self2)
    then show "r mod 3600 div 60 = s div 60 mod 60"
      using \<open>0 \<le> r mod 3600 div 60\<close> \<open>r mod 3600 div 60 < 60\<close> by simp
    have "s mod 60 = r mod 60" by (subst s3(2)) (simp only: mod_mult_self2)
    then show "r mod 3600 mod 60 = s mod 60" by (simp add: mod_mod_cancel)
  qed
  have "rtc_time_to_tm (of_int s) = Some
      \<lparr>tm_sec = s mod 60, tm_min = s div 60 mod 60, tm_hour = s div 3600 mod 24, tm_mday = k0 + 1, tm_mon = int m, tm_year = y - 1900,
       tm_wday = (d + 4) mod 7, tm_yday = yd + 1\<rparr>"
    unfolding rtc_time_to_tm_def Let_def days rest year0 days0 year yday hour rest2 minute sec small loop(1)
    by (simp add: parts)
  then show ?thesis using y date loop(5) unfolding d_def [symmetric]
    by (intro exI [of _ y] exI [of _ m] exI [of _ "k0 + 1"]) simp
qed

section \<open>A date to seconds\<close>

lemma mktime_ok:
  assumes y: "1970 \<le> y" "y < 2 ^ 31" and m: "m < 12"
  shows "mktime (of_int y) (of_int (int m + 1)) (of_int k) (of_int h) (of_int mi) (of_int s) =
    of_int ((((jan1 y + days_before y m + k - 1) * 24 + h) * 60 + mi) * 60 + s)"
proof -
  define early where "early \<longleftrightarrow> m < 2"
  define y1 mon where "y1 = (if early then y - 1 else y)" and "mon = (if early then int m + 11 else int m - 1)"
  have mon: "0 \<le> mon" "mon \<le> 12" using m by (auto simp: mon_def early_def)
  have e: "0 \<ge> sint ((of_int (int m + 1) :: u32) - 2) \<longleftrightarrow> early"
  proof -
    have "sint (of_int (int m - 1) :: u32) = int m - 1" using m by (intro sint_of_int) simp_all
    then show ?thesis by (simp add: early_def) linarith
  qed
  have y1: "(if early then of_int y - 1 else of_int y :: u32) = of_int y1" by (simp add: y1_def)
  have mon1: "(if early then (of_int (int m + 1) :: u32) - 2 + 12 else of_int (int m + 1) - 2) = of_int mon" by (simp add: mon_def)
  have divs: "(of_int y1 :: u32) div 4 - of_int y1 div 100 + of_int y1 div 400 = of_int (leaps y1)"
    using y by (simp add: leaps_def y1_def div_4 div_100 div_400)
  have m12: "(367 * of_int mon :: u32) div 12 = of_int (367 * mon div 12)"
    using of_int_div [of "367 * mon" 12] mon by simp
  have days: "leaps y1 + 367 * mon div 12 + k + y1 * 365 - 719499 = jan1 y + days_before y m + k - 1"
  proof -
    have l: "leaps y = leaps (y - 1) + (if leap y then 1 else 0)" by (rule leaps_step)
    show ?thesis using month_cases [OF m] l
      by (auto simp: y1_def mon_def early_def jan1_def days_before_def rtc_ydays_def)
  qed
  have "mktime (of_int y) (of_int (int m + 1)) (of_int k) (of_int h) (of_int mi) (of_int s) =
    (((of_int (leaps y1) + of_int (367 * mon div 12) + of_int k + of_int y1 * 365 - 719499) * 24 + of_int h) * 60 + of_int mi) * 60 + of_int s"
    unfolding mktime_def Let_def e y1 mon1 divs m12 ..
  also have "\<dots> = of_int ((((leaps y1 + 367 * mon div 12 + k + y1 * 365 - 719499) * 24 + h) * 60 + mi) * 60 + s)" by simp
  finally show ?thesis unfolding days .
qed

lemma valid_ok:
  assumes "1970 \<le> y" "y \<le> 2106" "m < 12" "1 \<le> k" "k \<le> month_length y m" "0 \<le> h" "h < 24" "0 \<le> mi" "mi < 60" "0 \<le> s" "s < 60"
  shows "rtc_valid_tm \<lparr>tm_sec = s, tm_min = mi, tm_hour = h, tm_mday = k, tm_mon = int m, tm_year = y - 1900, tm_wday = w, tm_yday = yd\<rparr> =
    Some (Inr ())"
proof -
  have u: "uint (of_int x :: u32) = x" if "0 \<le> x" "x < 2 ^ 31" for x
    using that by (simp add: unsigned_of_int take_bit_int_eq_self)
  have less: "\<not> (of_int x :: u32) \<ge> of_int c" if "0 \<le> x" "x < c" "c < 2 ^ 31" for x c
    using that by (simp add: word_le_def u)
  have mon: "unat (of_int (int m) :: u32) = m" using assms(3) by (simp add: unat_of_nat take_bit_nat_eq_self)
  show ?thesis using assms less [of "int m" 12] less [of h 24] less [of mi 60] less [of s 60] month_days_eq [of y m] mon
    by (simp add: rtc_valid_tm_def)
qed

text \<open>
  C31: Every number of seconds that a clock of 32 bits can hold is a valid date, and \<open>mktime\<close>
  brings that date back to the same number, over all 2^32 values; the date is the one of the
  Gregorian calendar, and the day of the year and of the week agree with it.
\<close>

theorem rtc_seconds_roundtrip:
  "\<exists>tm. rtc_time_to_tm time = Some tm \<and> rtc_valid_tm tm = Some (Inr ()) \<and> rtc_tm_to_time tm = time \<and>
     date_of (uint time div 86400) (tm_year tm + 1900) (nat (tm_mon tm)) (tm_mday tm) \<and>
     rtc_year_days (tm_mday tm) (nat (tm_mon tm)) (of_int (tm_year tm + 1900)) = Some (tm_yday tm - 1) \<and>
     tm_wday tm = (uint time div 86400 + 4) mod 7"
proof -
  let ?s = "uint time"
  have s: "0 \<le> ?s" "?s < 2 ^ 32" using uint_bounded [of time] by simp_all
  from rtc_time_to_tm_ok [OF s] obtain y m k where y: "1970 \<le> y" "y \<le> 2106" and date: "date_of (?s div 86400) y m k" and
    run: "rtc_time_to_tm (of_int ?s) = Some
      \<lparr>tm_sec = ?s mod 60, tm_min = ?s div 60 mod 60, tm_hour = ?s div 3600 mod 24, tm_mday = k, tm_mon = int m, tm_year = y - 1900,
       tm_wday = (?s div 86400 + 4) mod 7, tm_yday = days_before y m + k\<rparr>" (is "_ = Some ?tm") by blast
  have m: "m < 12" "1 \<le> k" "k \<le> month_length y m" and d: "?s div 86400 = jan1 y + days_before y m + k - 1"
    using date by (simp_all add: date_of_def)
  have "rtc_valid_tm ?tm = Some (Inr ())" using y m by (intro valid_ok) simp_all
  moreover have "rtc_tm_to_time ?tm = time"
  proof -
    have "rtc_tm_to_time ?tm = of_int (((?s div 86400 * 24 + ?s div 3600 mod 24) * 60 + ?s div 60 mod 60) * 60 + ?s mod 60)"
      using mktime_ok [of y m k "?s div 3600 mod 24" "?s div 60 mod 60" "?s mod 60"] y m(1)
      by (simp add: rtc_tm_to_time_def d)
    moreover have "((?s div 86400 * 24 + ?s div 3600 mod 24) * 60 + ?s div 60 mod 60) * 60 + ?s mod 60 = ?s"
    proof -
      have "?s div 86400 = ?s div 3600 div 24" "?s div 3600 = ?s div 60 div 60" by (simp_all add: zdiv_zmult2_eq [symmetric])
      then show ?thesis by (simp only: div_mult_mod_eq)
    qed
    ultimately show ?thesis by (simp only: of_int_uint)
  qed
  moreover have "rtc_year_days k m (of_int y) = Some (days_before y m + k - 1)" using y m by (intro year_days_eq) simp_all
  ultimately show ?thesis using run date by (simp add: of_int_uint)
qed

text \<open>A C \<open>int\<close>.\<close>

definition c_int :: "int \<Rightarrow> bool" where
  "c_int x \<longleftrightarrow> - (2 ^ 31) \<le> x \<and> x < 2 ^ 31"

lemma small_word:
  assumes "c_int x" "0 \<le> c" "c < 2 ^ 31" "\<not> (of_int x :: u32) \<ge> of_int c"
  shows "0 \<le> x" "x < c"
proof -
  have "uint (of_int x :: u32) < c"
    using assms by (simp add: word_le_def unsigned_of_int take_bit_int_eq_self)
  moreover have "uint (of_int x :: u32) = x + 2 ^ 32" if "x < 0"
  proof -
    have "uint (of_int x :: u32) = (x + 2 ^ 32) mod 2 ^ 32" by (simp add: unsigned_of_int take_bit_eq_mod)
    also have "\<dots> = x + 2 ^ 32" using that assms(1) by (intro mod_pos_pos_trivial) (simp_all add: c_int_def)
    finally show ?thesis .
  qed
  moreover have "uint (of_int x :: u32) = x" if "0 \<le> x"
    using that assms(1) by (simp add: unsigned_of_int c_int_def take_bit_int_eq_self)
  ultimately have "0 \<le> x \<and> x < c" using assms(1,3) by (cases "x < 0") (simp_all add: c_int_def)
  then show "0 \<le> x" "x < c" by simp_all
qed

text \<open>
  C40: A date of the years 1970 to 2105 that \<open>rtc_valid_tm\<close> accepts, in fields of type
  \<open>int\<close>, survives the way to seconds
  and back: \<open>rtc_time_to_tm\<close> gives the same second, minute, hour, day, month and year.
\<close>

theorem rtc_date_roundtrip:
  assumes valid: "rtc_valid_tm tm = Some (Inr ())" and year: "tm_year tm < 206"
    and int: "c_int (tm_mon tm)" "c_int (tm_hour tm)" "c_int (tm_min tm)" "c_int (tm_sec tm)"
  shows "\<exists>w yd. rtc_time_to_tm (rtc_tm_to_time tm) = Some (tm\<lparr>tm_wday := w, tm_yday := yd\<rparr>)"
proof -
  define y m where "y = tm_year tm + 1900" and "m = nat (tm_mon tm)"
  have ok: "\<not> tm_year tm < 70" "\<not> (of_int (tm_mon tm) :: u32) \<ge> 12" "\<not> tm_mday tm < 1"
    using valid by (auto simp: rtc_valid_tm_def split: if_splits)
  have mon: "0 \<le> tm_mon tm" "tm_mon tm < 12" using small_word [OF int(1), of 12] ok(2) by simp_all
  have y: "1970 \<le> y" "y < 2106" using ok(1) year by (simp_all add: y_def)
  have m: "m < 12" "int m = tm_mon tm" "unat (of_int (tm_mon tm) :: u32) = m"
    using mon by (simp_all add: m_def unat_eq_nat_uint unsigned_of_int take_bit_int_eq_self)
  have "rtc_month_days m (of_int y) = Some (month_length y m)" using y m by (intro month_days_eq) simp_all
  then have rest: "tm_mday tm \<le> month_length y m" "\<not> (of_int (tm_hour tm) :: u32) \<ge> 24" "\<not> (of_int (tm_min tm) :: u32) \<ge> 60"
    "\<not> (of_int (tm_sec tm) :: u32) \<ge> 60"
    using valid ok m(3) by (auto simp: rtc_valid_tm_def y_def split: if_splits)
  have h: "0 \<le> tm_hour tm" "tm_hour tm < 24" and mi: "0 \<le> tm_min tm" "tm_min tm < 60" and s: "0 \<le> tm_sec tm" "tm_sec tm < 60"
    using small_word [OF int(2), of 24] small_word [OF int(3), of 60] small_word [OF int(4), of 60] rest by simp_all
  define d t where "d = jan1 y + days_before y m + tm_mday tm - 1" and "t = ((d * 24 + tm_hour tm) * 60 + tm_min tm) * 60 + tm_sec tm"
  have date: "date_of d y m (tm_mday tm)" using m ok(3) rest(1) by (simp add: date_of_def d_def)
  have time: "rtc_tm_to_time tm = of_int t"
    using mktime_ok [of y m "tm_mday tm" "tm_hour tm" "tm_min tm" "tm_sec tm"] y m
    by (simp add: rtc_tm_to_time_def y_def t_def d_def)
  have "jan1 1970 = 0" "jan1 2106 = 49673" by (simp_all add: jan1_def leaps_def)
  then have d: "0 \<le> d" "d < 49673"
    using date_in_year [OF date] jan1_mono [of 1970 y] jan1_mono [of "y + 1" 2106] y by simp_all
  then have t: "0 \<le> t" "t < 2 ^ 32" using h mi s by (simp_all add: t_def)
  have parts: "t div 86400 = d" "t mod 60 = tm_sec tm" "t div 60 mod 60 = tm_min tm" "t div 3600 mod 24 = tm_hour tm"
  proof -
    have "t div 60 = (d * 24 + tm_hour tm) * 60 + tm_min tm" using s unfolding t_def by simp
    then have m60: "t div 60 = tm_min tm + 60 * (d * 24 + tm_hour tm)" by simp
    have "t div 60 mod 60 = tm_min tm" unfolding m60 using mi by (simp only: mod_mult_self2 mod_pos_pos_trivial)
    moreover have "t div 60 div 60 = d * 24 + tm_hour tm" unfolding m60 using mi by simp
    moreover have "t div 3600 = t div 60 div 60" "t div 86400 = t div 3600 div 24" by (simp_all add: zdiv_zmult2_eq [symmetric])
    ultimately show "t div 86400 = d" "t div 60 mod 60 = tm_min tm" "t div 3600 mod 24 = tm_hour tm" using h by simp_all
    have "t = tm_sec tm + 60 * ((d * 24 + tm_hour tm) * 60 + tm_min tm)" by (simp add: t_def)
    then show "t mod 60 = tm_sec tm" using s by (simp only: mod_mult_self2 mod_pos_pos_trivial)
  qed
  from rtc_time_to_tm_ok [OF t] obtain y' m' k' where "date_of (t div 86400) y' m' k'" and
    run: "rtc_time_to_tm (of_int t) = Some
      \<lparr>tm_sec = t mod 60, tm_min = t div 60 mod 60, tm_hour = t div 3600 mod 24, tm_mday = k', tm_mon = int m', tm_year = y' - 1900,
       tm_wday = (t div 86400 + 4) mod 7, tm_yday = days_before y' m' + k'\<rparr>" by blast
  then have "y' = y \<and> m' = m \<and> k' = tm_mday tm" using date_unique [OF date] parts(1) by simp
  then have "rtc_time_to_tm (rtc_tm_to_time tm) = Some (tm\<lparr>tm_wday := (d + 4) mod 7, tm_yday := days_before y m + tm_mday tm\<rparr>)"
    using run time parts m(2) by (cases tm) (simp add: y_def)
  then show ?thesis by blast
qed

theorem rtc_date_roundtrip_witness:
  "\<exists>w yd. rtc_time_to_tm (rtc_tm_to_time \<lparr>tm_sec = 59, tm_min = 59, tm_hour = 23, tm_mday = 29, tm_mon = 1, tm_year = 100, tm_wday = 0, tm_yday = 0\<rparr>) =
     Some \<lparr>tm_sec = 59, tm_min = 59, tm_hour = 23, tm_mday = 29, tm_mon = 1, tm_year = 100, tm_wday = w, tm_yday = yd\<rparr>"
proof -
  let ?tm = "\<lparr>tm_sec = 59, tm_min = 59, tm_hour = 23, tm_mday = 29, tm_mon = 1, tm_year = 100, tm_wday = 0, tm_yday = 0\<rparr>"
  have "rtc_valid_tm ?tm = Some (Inr ())" by code_simp
  from rtc_date_roundtrip [OF this] show ?thesis by (simp add: c_int_def)
qed

end
