(* ===== verification/SortLib.thy ===== *)
theory SortLib imports Bits begin

text \<open>
  \<open>lib/sort.c\<close>: the heap sort of the kernel, on an array of bytes with elements of any size.
  The comparison is the caller's; the exchange is the caller's or one of the two of the
  file. \<open>None\<close> is an access outside the array or a call that does not return.
\<close>

section \<open>The code\<close>

type_synonym cmp_fn = "u8 list \<Rightarrow> u8 list \<Rightarrow> int"
type_synonym swap_fn = "nat \<Rightarrow> nat \<Rightarrow> nat \<Rightarrow> u8 list \<Rightarrow> u8 list option"

text \<open>The element of \<open>sz\<close> bytes at an offset.\<close>

definition element :: "nat \<Rightarrow> u8 list \<Rightarrow> nat \<Rightarrow> u8 list option" where
  "element sz mem off = (if off + sz \<le> length mem then Some (take sz (drop off mem)) else None)"

definition store :: "u8 list \<Rightarrow> nat \<Rightarrow> u8 list \<Rightarrow> u8 list option" where
  "store mem off bs = (if off + length bs \<le> length mem then Some (take off mem @ bs @ drop (off + length bs) mem) else None)"

definition u32_swap :: swap_fn where
  "u32_swap a b sz mem =
     do { t \<leftarrow> element 4 mem a;
          u \<leftarrow> element 4 mem b;
          mem \<leftarrow> store mem a u;
          store mem b t }"

text \<open>The loop tests the size after the first byte.\<close>

function generic_swap :: swap_fn where
  "generic_swap a b sz mem =
     do { t \<leftarrow> rd mem a;
          u \<leftarrow> rd mem b;
          mem \<leftarrow> wr mem a u;
          mem \<leftarrow> wr mem b t;
          if sz > 1 then generic_swap (a + 1) (b + 1) (sz - 1) mem else Some mem }"
  by pat_completeness auto
termination by (relation "measure (\<lambda>(a, b, sz, mem). sz)") auto

definition cmp_at :: "cmp_fn \<Rightarrow> nat \<Rightarrow> u8 list \<Rightarrow> int \<Rightarrow> int \<Rightarrow> int option" where
  "cmp_at cmp sz mem a b =
     do { x \<leftarrow> element sz mem (nat a); y \<leftarrow> element sz mem (nat b); Some (cmp x y) }"

text \<open>The inner loop of both phases.\<close>

partial_function (option) sift :: "cmp_fn \<Rightarrow> swap_fn \<Rightarrow> nat \<Rightarrow> int \<Rightarrow> int \<Rightarrow> u8 list \<Rightarrow> u8 list option" where
  "sift cmp swp sz n r mem =
     (if r * 2 + int sz < n
      then do { let c = r * 2 + int sz;
                d \<leftarrow> (if c < n - int sz then cmp_at cmp sz mem c (c + int sz) else Some 0);
                let c = (if d < 0 then c + int sz else c);
                e \<leftarrow> cmp_at cmp sz mem r c;
                if e \<ge> 0 then Some mem
                else do { mem \<leftarrow> swp (nat r) (nat c) sz mem; sift cmp swp sz n c mem } }
      else Some mem)"

partial_function (option) heapify :: "cmp_fn \<Rightarrow> swap_fn \<Rightarrow> nat \<Rightarrow> int \<Rightarrow> int \<Rightarrow> u8 list \<Rightarrow> u8 list option" where
  "heapify cmp swp sz n i mem =
     (if i \<ge> 0 then do { mem \<leftarrow> sift cmp swp sz n i mem; heapify cmp swp sz n (i - int sz) mem } else Some mem)"

partial_function (option) sort_down :: "cmp_fn \<Rightarrow> swap_fn \<Rightarrow> nat \<Rightarrow> int \<Rightarrow> u8 list \<Rightarrow> u8 list option" where
  "sort_down cmp swp sz i mem =
     (if i > 0
      then do { mem \<leftarrow> swp 0 (nat i) sz mem;
                mem \<leftarrow> sift cmp swp sz i 0 mem;
                sort_down cmp swp sz (i - int sz) mem }
      else Some mem)"

declare sift.simps [code] heapify.simps [code] sort_down.simps [code]

text \<open>\<open>sort\<close>; the counters are computed as \<open>size_t\<close> and kept as \<open>int\<close>.\<close>

definition sort_array :: "u32 \<Rightarrow> u32 \<Rightarrow> cmp_fn \<Rightarrow> swap_fn option \<Rightarrow> u8 list \<Rightarrow> u8 list option" where
  "sort_array num sz cmp swp mem =
     do { let i = sint ((num div 2 - 1) * sz);
          let n = sint (num * sz);
          let f = (case swp of Some f \<Rightarrow> f | None \<Rightarrow> if sz = 4 then u32_swap else generic_swap);
          mem \<leftarrow> heapify cmp f (unat sz) n i mem;
          sort_down cmp f (unat sz) (n - int (unat sz)) mem }"

section \<open>Arrays of elements\<close>

definition elems :: "nat \<Rightarrow> nat \<Rightarrow> u8 list \<Rightarrow> u8 list list" where
  "elems sz k mem = map (\<lambda>j. take sz (drop (j * sz) mem)) [0..<k]"

definition exchange :: "nat \<Rightarrow> nat \<Rightarrow> 'a list \<Rightarrow> 'a list" where
  "exchange a b xs = xs[a := xs ! b, b := xs ! a]"

lemma elems_length [simp]: "length (elems sz k mem) = k"
  by (simp add: elems_def)

lemma elems_nth: "j < k \<Longrightarrow> elems sz k mem ! j = take sz (drop (j * sz) mem)"
  by (simp add: elems_def)

lemma element_at: "length mem = k * sz \<Longrightarrow> j < k \<Longrightarrow> element sz mem (j * sz) = Some (elems sz k mem ! j)"
proof -
  assume m: "length mem = k * sz" "j < k"
  then have "(j + 1) * sz \<le> k * sz" by (intro mult_right_mono) simp_all
  then show ?thesis using m by (simp add: element_def elems_nth)
qed

lemma cmp_at_ok: "length mem = k * sz \<Longrightarrow> a < k \<Longrightarrow> b < k \<Longrightarrow>
  cmp_at cmp sz mem (int (a * sz)) (int (b * sz)) = Some (cmp (elems sz k mem ! a) (elems sz k mem ! b))"
  using element_at [of mem k sz a] element_at [of mem k sz b] by (simp add: cmp_at_def nat_mult_distrib)

lemma exchange_simps:
  "length (exchange a b xs) = length xs"
  "a < length xs \<Longrightarrow> b < length xs \<Longrightarrow> j < length xs \<Longrightarrow>
     exchange a b xs ! j = (if j = a then xs ! b else if j = b then xs ! a else xs ! j)"
  by (auto simp: exchange_def nth_list_update)

lemma exchange_mset: "a < length xs \<Longrightarrow> b < length xs \<Longrightarrow> mset (exchange a b xs) = mset xs"
  by (simp add: exchange_def mset_swap)

section \<open>Heaps\<close>

text \<open>An order of the elements of a set, as a comparison of C gives it.\<close>

definition cmp_order :: "('a \<Rightarrow> 'a \<Rightarrow> int) \<Rightarrow> 'a set \<Rightarrow> bool" where
  "cmp_order cmp A \<longleftrightarrow> (\<forall>x \<in> A. \<forall>y \<in> A. cmp x y \<ge> 0 \<or> cmp y x \<ge> 0) \<and>
     (\<forall>x \<in> A. \<forall>y \<in> A. \<forall>z \<in> A. cmp x y \<ge> 0 \<and> cmp y z \<ge> 0 \<longrightarrow> cmp x z \<ge> 0)"

lemma cmp_total: "cmp_order cmp A \<Longrightarrow> x \<in> A \<Longrightarrow> y \<in> A \<Longrightarrow> cmp x y < 0 \<Longrightarrow> cmp y x \<ge> 0"
proof -
  assume "cmp_order cmp A" "x \<in> A" "y \<in> A" "cmp x y < 0"
  moreover from this have "cmp x y \<ge> 0 \<or> cmp y x \<ge> 0" unfolding cmp_order_def by blast
  ultimately show "cmp y x \<ge> 0" by simp
qed

lemma cmp_trans: "cmp_order cmp A \<Longrightarrow> x \<in> A \<Longrightarrow> y \<in> A \<Longrightarrow> z \<in> A \<Longrightarrow> cmp x y \<ge> 0 \<Longrightarrow> cmp y z \<ge> 0 \<Longrightarrow> cmp x z \<ge> 0"
  unfolding cmp_order_def by blast

definition child :: "nat \<Rightarrow> nat \<Rightarrow> bool" where
  "child p c \<longleftrightarrow> c = 2 * p + 1 \<or> c = 2 * p + 2"

lemma child_facts: "child p c \<Longrightarrow> p < c" "child p c \<Longrightarrow> child q c \<Longrightarrow> p = q"
  by (auto simp: child_def)

text \<open>The elements from \<open>m\<close> to \<open>n - 1\<close> are a heap, or one but for the element at \<open>r\<close>.\<close>

definition heap_on :: "('a \<Rightarrow> 'a \<Rightarrow> int) \<Rightarrow> 'a list \<Rightarrow> nat \<Rightarrow> nat \<Rightarrow> bool" where
  "heap_on cmp xs m n \<longleftrightarrow> (\<forall>p c. m \<le> p \<and> child p c \<and> c < n \<longrightarrow> cmp (xs ! p) (xs ! c) \<ge> 0)"

definition heap_but :: "('a \<Rightarrow> 'a \<Rightarrow> int) \<Rightarrow> 'a list \<Rightarrow> nat \<Rightarrow> nat \<Rightarrow> nat \<Rightarrow> bool" where
  "heap_but cmp xs m n r \<longleftrightarrow>
     (\<forall>p c. m \<le> p \<and> p \<noteq> r \<and> child p c \<and> c < n \<longrightarrow> cmp (xs ! p) (xs ! c) \<ge> 0) \<and>
     (\<forall>p c. m \<le> p \<and> child p r \<and> child r c \<and> c < n \<longrightarrow> cmp (xs ! p) (xs ! c) \<ge> 0)"

lemma heap_but_leaf: "heap_but cmp xs m n r \<Longrightarrow> n \<le> 2 * r + 1 \<Longrightarrow> heap_on cmp xs m n"
  unfolding heap_on_def
proof (intro allI impI)
  fix p c assume "heap_but cmp xs m n r" "n \<le> 2 * r + 1" "m \<le> p \<and> child p c \<and> c < n"
  moreover from this have "p \<noteq> r" by (auto simp: child_def)
  ultimately show "cmp (xs ! p) (xs ! c) \<ge> 0" unfolding heap_but_def by blast
qed

lemma heap_but_done:
  assumes ord: "cmp_order cmp A" "set xs \<subseteq> A" "n \<le> length xs" and hole: "heap_but cmp xs m n r"
    and c: "child r c" "c < n" "\<forall>d. child r d \<and> d < n \<longrightarrow> cmp (xs ! c) (xs ! d) \<ge> 0 \<or> d = c" "cmp (xs ! r) (xs ! c) \<ge> 0"
  shows "heap_on cmp xs m n"
proof -
  have mem: "xs ! j \<in> A" if "j < n" for j using ord that by (meson nth_mem subsetD order.strict_trans2)
  have "cmp (xs ! r) (xs ! d) \<ge> 0" if "child r d" "d < n" for d
    using c that cmp_trans [OF ord(1) mem mem mem, of r c d] child_facts(1) [OF c(1)] by (cases "d = c") auto
  then have "cmp (xs ! p) (xs ! d) \<ge> 0" if "m \<le> p" "child p d" "d < n" for p d
    using hole that unfolding heap_but_def by (cases "p = r") blast+
  then show ?thesis by (simp add: heap_on_def)
qed

lemma heap_but_step:
  assumes ord: "cmp_order cmp A" "set xs \<subseteq> A" "n \<le> length xs" and hole: "heap_but cmp xs m n r"
    and c: "child r c" "c < n" "\<forall>d. child r d \<and> d < n \<longrightarrow> cmp (xs ! c) (xs ! d) \<ge> 0 \<or> d = c" "cmp (xs ! r) (xs ! c) < 0"
  shows "heap_but cmp (exchange r c xs) m n c"
proof -
  have mem: "xs ! j \<in> A" if "j < n" for j using ord that by (meson nth_mem subsetD order.strict_trans2)
  have rc: "r < c" "r < n" using child_facts(1) [OF c(1)] c(2) by simp_all
  have nth: "exchange r c xs ! j = (if j = r then xs ! c else if j = c then xs ! r else xs ! j)" if "j < n" for j
    using that rc c(2) ord(3) by (intro exchange_simps(2)) simp_all
  have up: "cmp (xs ! c) (xs ! r) \<ge> 0" using cmp_total [OF ord(1) mem mem c(4)] rc c(2) by simp
  have "cmp (exchange r c xs ! p) (exchange r c xs ! q) \<ge> 0" if p: "m \<le> p" "p \<noteq> c" "child p q" "q < n" for p q
  proof -
    have pq: "p < q" "p < n" using child_facts(1) [OF p(3)] p(4) by simp_all
    show ?thesis
    proof (cases "p = r")
      case True
      then show ?thesis using nth [OF pq(2)] nth [OF p(4)] c(3) p pq up by (cases "q = c") auto
    next
      case False
      then have "q \<noteq> c" using child_facts(2) [OF c(1), of p] p(3) by auto
      show ?thesis
      proof (cases "q = r")
        case True
        then have "cmp (xs ! p) (xs ! c) \<ge> 0" using hole p c(1,2) unfolding heap_but_def by blast
        then show ?thesis using nth [OF pq(2)] nth [OF p(4)] True False p(2) by simp
      next
        case False
        have "cmp (xs ! p) (xs ! q) \<ge> 0" using hole p \<open>p \<noteq> r\<close> unfolding heap_but_def by blast
        then show ?thesis using nth [OF pq(2)] nth [OF p(4)] False \<open>p \<noteq> r\<close> \<open>q \<noteq> c\<close> p(2) by simp
      qed
    qed
  qed
  moreover have "cmp (exchange r c xs ! p) (exchange r c xs ! q) \<ge> 0" if p: "m \<le> p" "child p c" "child c q" "q < n" for p q
  proof -
    have "p = r" using child_facts(2) [OF p(2) c(1)] .
    moreover have "c < q" using child_facts(1) [OF p(3)] .
    moreover have "m \<le> c" "c \<noteq> r" using p(1) rc \<open>p = r\<close> by simp_all
    then have "cmp (xs ! c) (xs ! q) \<ge> 0" using hole p(3,4) unfolding heap_but_def by blast
    ultimately show ?thesis using nth [OF p(4)] nth [of r] rc by simp
  qed
  ultimately show ?thesis unfolding heap_but_def by blast
qed

text \<open>The root of a heap is not below any element of it.\<close>

lemma heap_root:
  assumes ord: "cmp_order cmp A" "set xs \<subseteq> A" "n \<le> length xs" and heap: "heap_on cmp xs 0 n"
  shows "j < n \<Longrightarrow> cmp (xs ! 0) (xs ! j) \<ge> 0"
proof (induction j rule: less_induct)
  case (less j)
  have mem: "xs ! j \<in> A" if "j < n" for j using ord that by (meson nth_mem subsetD order.strict_trans2)
  show ?case
  proof (cases "j = 0")
    case True
    then show ?thesis using cmp_total [OF ord(1) mem [OF less.prems] mem [OF less.prems]] by force
  next
    case False
    define p where "p = (j - 1) div 2"
    have "child p j" using False by (auto simp: child_def p_def)
    then have p: "p < j" "cmp (xs ! p) (xs ! j) \<ge> 0" using child_facts(1) heap less.prems unfolding heap_on_def by blast+
    then show ?thesis using less.IH [of p] less.prems cmp_trans [OF ord(1) mem mem mem, of 0 p j] by simp
  qed
qed

section \<open>The sort, for any exchange\<close>

text \<open>What \<open>sort\<close> needs of the exchange function it is given, for elements of one size.\<close>

locale swapper =
  fixes swp :: swap_fn and sz :: nat
  assumes size_pos: "0 < sz"
    and swap_ok: "length mem = k * sz \<Longrightarrow> a < k \<Longrightarrow> b < k \<Longrightarrow> a \<noteq> b \<Longrightarrow>
      \<exists>mem'. swp (a * sz) (b * sz) sz mem = Some mem' \<and> length mem' = length mem \<and> elems sz k mem' = exchange a b (elems sz k mem)"
begin

lemma sift_ok:
  assumes ord: "cmp_order cmp A"
  shows "r < n \<Longrightarrow> m \<le> r \<Longrightarrow> n \<le> k \<Longrightarrow> length mem = k * sz \<Longrightarrow> set (elems sz k mem) \<subseteq> A \<Longrightarrow> heap_but cmp (elems sz k mem) m n r \<Longrightarrow>
    \<exists>mem'. sift cmp swp sz (int (n * sz)) (int (r * sz)) mem = Some mem' \<and> length mem' = length mem \<and>
      mset (elems sz k mem') = mset (elems sz k mem) \<and> heap_on cmp (elems sz k mem') m n \<and> drop n (elems sz k mem') = drop n (elems sz k mem)"
proof (induction "n - r" arbitrary: r mem rule: less_induct)
  case less
  note len = less.prems(4)
  let ?xs = "elems sz k mem"
  have scale: "int (a * sz) < int (b * sz) \<longleftrightarrow> a < b" for a b using size_pos by (simp only: of_nat_less_iff mult_less_cancel2) simp
  have first: "int (r * sz) * 2 + int sz = int ((2 * r + 1) * sz)" by (simp add: algebra_simps)
  have next_child: "int ((2 * r + 1) * sz) + int sz = int ((2 * r + 2) * sz)" by (simp add: algebra_simps)
  show ?case
  proof (cases "2 * r + 1 < n")
    case False
    then have "heap_on cmp ?xs m n" using heap_but_leaf [OF less.prems(6)] by simp
    moreover have "sift cmp swp sz (int (n * sz)) (int (r * sz)) mem = Some mem"
      using False by (subst sift.simps) (simp only: first scale if_False)
    ultimately show ?thesis by simp
  next
    case True
    have last: "int ((2 * r + 1) * sz) < int (n * sz) - int sz \<longleftrightarrow> 2 * r + 2 < n"
    proof -
      have "int ((2 * r + 1) * sz) < int (n * sz) - int sz \<longleftrightarrow> int ((2 * r + 2) * sz) < int (n * sz)" by (simp add: algebra_simps)
      then show ?thesis by (simp only: scale)
    qed
    define d where "d = (if 2 * r + 2 < n then cmp (?xs ! (2 * r + 1)) (?xs ! (2 * r + 2)) else 0)"
    define c where "c = (if d < 0 then 2 * r + 2 else 2 * r + 1)"
    have c: "child r c" "c < n" "r < c" using True by (auto simp: child_def c_def d_def split: if_splits)
    have mem_A: "?xs ! j \<in> A" if "j < n" for j
      using nth_mem [of j ?xs] less.prems(3,5) that by auto
    have best: "\<forall>e. child r e \<and> e < n \<longrightarrow> cmp (?xs ! c) (?xs ! e) \<ge> 0 \<or> e = c"
    proof (intro allI impI)
      fix e assume e: "child r e \<and> e < n"
      show "cmp (?xs ! c) (?xs ! e) \<ge> 0 \<or> e = c"
      proof (cases "d < 0")
        case True
        then have "cmp (?xs ! (2 * r + 1)) (?xs ! (2 * r + 2)) < 0" "2 * r + 2 < n" by (auto simp: d_def split: if_splits)
        then show ?thesis using cmp_total [OF ord mem_A mem_A, of "2 * r + 1" "2 * r + 2"] True e by (auto simp: c_def child_def)
      next
        case False
        then show ?thesis using e by (auto simp: c_def d_def child_def split: if_splits)
      qed
    qed
    have step_d: "(if int ((2 * r + 1) * sz) < int (n * sz) - int sz
        then cmp_at cmp sz mem (int ((2 * r + 1) * sz)) (int ((2 * r + 1) * sz) + int sz) else Some 0) = Some d"
      using cmp_at_ok [OF len, of "2 * r + 1" "2 * r + 2" cmp] less.prems(3) True unfolding last next_child d_def by simp
    have step_c: "(if d < 0 then int ((2 * r + 1) * sz) + int sz else int ((2 * r + 1) * sz)) = int (c * sz)"
      unfolding next_child c_def by (cases "d < 0") (simp_all only: if_True if_False)
    have step_e: "cmp_at cmp sz mem (int (r * sz)) (int (c * sz)) = Some (cmp (?xs ! r) (?xs ! c))"
      using c less.prems(1,3) by (intro cmp_at_ok [OF len]) simp_all
    have unfold: "sift cmp swp sz (int (n * sz)) (int (r * sz)) mem =
      (if cmp (?xs ! r) (?xs ! c) \<ge> 0 then Some mem
       else do { mem \<leftarrow> swp (r * sz) (c * sz) sz mem; sift cmp swp sz (int (n * sz)) (int (c * sz)) mem })"
      using True by (subst sift.simps)
        (simp only: first scale if_True Let_def step_d Option.bind.bind_lunit step_c step_e nat_int)
    show ?thesis
    proof (cases "cmp (?xs ! r) (?xs ! c) \<ge> 0")
      case True
      then have "heap_on cmp ?xs m n"
        using heap_but_done [OF ord less.prems(5) _ less.prems(6) c(1,2) best] less.prems(3) by simp
      then show ?thesis using unfold True by simp
    next
      case False
      have rc: "r < k" "c < k" "r \<noteq> c" using c less.prems(1,3) by simp_all
      from swap_ok [OF len rc] obtain mem1 where mem1: "swp (r * sz) (c * sz) sz mem = Some mem1" "length mem1 = length mem"
        "elems sz k mem1 = exchange r c ?xs" by blast
      have same: "mset (elems sz k mem1) = mset ?xs" unfolding mem1(3) using rc by (intro exchange_mset) simp_all
      then have sub: "set (elems sz k mem1) \<subseteq> A" using less.prems(5) by (metis set_mset_mset)
      have hole: "heap_but cmp (elems sz k mem1) m n c" unfolding mem1(3)
        using heap_but_step [OF ord less.prems(5) _ less.prems(6) c(1,2) best] less.prems(3) False by simp
      have tail: "drop n (elems sz k mem1) = drop n ?xs" unfolding mem1(3) exchange_def using c less.prems(1) by simp
      have "n - c < n - r" "m \<le> c" using c less.prems(1,2) by simp_all
      from less.hyps [OF this(1) c(2) this(2) less.prems(3) _ sub hole] mem1(2) len obtain mem' where
        "sift cmp swp sz (int (n * sz)) (int (c * sz)) mem1 = Some mem'" "length mem' = length mem1"
        "mset (elems sz k mem') = mset (elems sz k mem1)" "heap_on cmp (elems sz k mem') m n" "drop n (elems sz k mem') = drop n (elems sz k mem1)"
        by auto
      then show ?thesis using unfold False mem1 same tail by simp
    qed
  qed
qed

lemma heapify_ok:
  assumes ord: "cmp_order cmp A"
  shows "j \<le> k \<Longrightarrow> length mem = k * sz \<Longrightarrow> set (elems sz k mem) \<subseteq> A \<Longrightarrow> heap_on cmp (elems sz k mem) j k \<Longrightarrow>
    \<exists>mem'. heapify cmp swp sz (int (k * sz)) (int (j * sz) - int sz) mem = Some mem' \<and> length mem' = length mem \<and>
      mset (elems sz k mem') = mset (elems sz k mem) \<and> heap_on cmp (elems sz k mem') 0 k"
proof (induction j arbitrary: mem)
  case 0
  then show ?case using size_pos by (subst heapify.simps) simp
next
  case (Suc j)
  let ?xs = "elems sz k mem"
  have i: "int (Suc j * sz) - int sz = int (j * sz)" by simp
  have hole: "heap_but cmp ?xs j k j"
    using Suc.prems(4) child_facts(1) unfolding heap_but_def heap_on_def by (metis Suc_leI le_neq_implies_less leD)
  from sift_ok [OF ord _ _ order_refl Suc.prems(2,3) hole] Suc.prems(1) obtain mem1 where
    m1: "sift cmp swp sz (int (k * sz)) (int (j * sz)) mem = Some mem1" "length mem1 = length mem"
      "mset (elems sz k mem1) = mset ?xs" "heap_on cmp (elems sz k mem1) j k" by auto
  have "set (elems sz k mem1) \<subseteq> A" using m1(3) Suc.prems(3) by (metis set_mset_mset)
  from Suc.IH [OF _ _ this m1(4)] m1(2) Suc.prems(1,2) obtain mem' where
    "heapify cmp swp sz (int (k * sz)) (int (j * sz) - int sz) mem1 = Some mem'" "length mem' = length mem1"
    "mset (elems sz k mem') = mset (elems sz k mem1)" "heap_on cmp (elems sz k mem') 0 k" by auto
  then show ?case using m1 unfolding i by (subst heapify.simps) simp
qed

lemma sort_down_ok:
  assumes ord: "cmp_order cmp A"
  shows "j < k \<Longrightarrow> length mem = k * sz \<Longrightarrow> set (elems sz k mem) \<subseteq> A \<Longrightarrow> heap_on cmp (elems sz k mem) 0 (Suc j) \<Longrightarrow>
    (\<And>a b. j < b \<Longrightarrow> b < k \<Longrightarrow> a < b \<Longrightarrow> cmp (elems sz k mem ! b) (elems sz k mem ! a) \<ge> 0) \<Longrightarrow>
    \<exists>mem'. sort_down cmp swp sz (int (j * sz)) mem = Some mem' \<and> length mem' = length mem \<and>
      mset (elems sz k mem') = mset (elems sz k mem) \<and>
      (\<forall>a b. a < b \<and> b < k \<longrightarrow> cmp (elems sz k mem' ! b) (elems sz k mem' ! a) \<ge> 0)"
proof (induction j arbitrary: mem)
  case 0
  then show ?case by (subst sort_down.simps) simp
next
  case (Suc j)
  let ?xs = "elems sz k mem" and ?n = "Suc j"
  have i: "int (?n * sz) - int sz = int (j * sz)" "0 < int (?n * sz)" "nat (int (?n * sz)) = ?n * sz" using size_pos by (simp_all del: of_nat_mult)
  from swap_ok [OF Suc.prems(2), of 0 ?n] Suc.prems(1) obtain mem1 where m1: "swp 0 (?n * sz) sz mem = Some mem1" "length mem1 = length mem"
    "elems sz k mem1 = exchange 0 ?n ?xs" by auto
  have x1: "elems sz k mem1 ! a = (if a = 0 then ?xs ! ?n else if a = ?n then ?xs ! 0 else ?xs ! a)" if "a < k" for a
    unfolding m1(3) using that Suc.prems(1) by (intro exchange_simps(2)) simp_all
  have same: "mset (elems sz k mem1) = mset ?xs" unfolding m1(3) using Suc.prems(1) by (intro exchange_mset) simp_all
  then have sub: "set (elems sz k mem1) \<subseteq> A" using Suc.prems(3) by (metis set_mset_mset)
  have hole: "heap_but cmp (elems sz k mem1) 0 ?n 0" unfolding heap_but_def
  proof (intro conjI allI impI)
    fix p c assume p: "0 \<le> p \<and> p \<noteq> 0 \<and> child p c \<and> c < ?n"
    then have "cmp (?xs ! p) (?xs ! c) \<ge> 0" using Suc.prems(4) unfolding heap_on_def by auto
    then show "cmp (elems sz k mem1 ! p) (elems sz k mem1 ! c) \<ge> 0" using p child_facts(1) [of p c] Suc.prems(1) by (simp add: x1)
  next
    fix p c assume "0 \<le> p \<and> child p 0 \<and> child 0 c \<and> c < ?n"
    then show "cmp (elems sz k mem1 ! p) (elems sz k mem1 ! c) \<ge> 0" by (simp add: child_def)
  qed
  have "length mem1 = k * sz" using m1(2) Suc.prems(2) by simp
  from sift_ok [OF ord _ _ _ this sub hole] Suc.prems(1) obtain mem2 where m2:
    "sift cmp swp sz (int (?n * sz)) 0 mem1 = Some mem2" "length mem2 = length mem1" "mset (elems sz k mem2) = mset (elems sz k mem1)"
    "heap_on cmp (elems sz k mem2) 0 ?n" "drop ?n (elems sz k mem2) = drop ?n (elems sz k mem1)" by auto
  have front: "set (take ?n (elems sz k mem2)) = set (take ?n (elems sz k mem1))"
  proof -
    have "mset (take ?n ys) + mset (drop ?n ys) = mset ys" for ys :: "u8 list list" by (metis append_take_drop_id mset_append)
    then have "mset (take ?n (elems sz k mem2)) = mset (take ?n (elems sz k mem1))" using m2(3,5) by (metis add_right_cancel)
    then show ?thesis by (metis set_mset_mset)
  qed
  have origin: "\<exists>a'. elems sz k mem2 ! a = ?xs ! a' \<and> (if a \<le> ?n then a' \<le> ?n else a' = a)" if "a < k" for a
  proof (cases "a < ?n")
    case True
    then have "elems sz k mem2 ! a \<in> set (take ?n (elems sz k mem2))" using that by (auto simp: in_set_conv_nth)
    then obtain a1 where "a1 < ?n" "elems sz k mem2 ! a = elems sz k mem1 ! a1" unfolding front by (auto simp: in_set_conv_nth)
    then show ?thesis using x1 [of a1] Suc.prems(1) True by (cases "a1 = 0") auto
  next
    case False
    then have "elems sz k mem2 ! a = elems sz k mem1 ! a" using m2(5) that
      by (metis add_diff_inverse_nat elems_length less_imp_le_nat nth_drop Suc.prems(1))
    then show ?thesis using x1 [OF that] False by (cases "a = ?n") auto
  qed
  have at_n: "elems sz k mem2 ! ?n = ?xs ! 0"
  proof -
    have "elems sz k mem2 ! ?n = elems sz k mem1 ! ?n" using m2(5) Suc.prems(1)
      by (metis add_0_right elems_length less_imp_le_nat nth_drop)
    then show ?thesis using x1 [OF Suc.prems(1)] by simp
  qed
  have tail: "cmp (elems sz k mem2 ! b) (elems sz k mem2 ! a) \<ge> 0" if "j < b" "b < k" "a < b" for a b
  proof -
    have "a < k" using that by simp
    from origin [OF this] obtain a' where a': "elems sz k mem2 ! a = ?xs ! a'" "if a \<le> ?n then a' \<le> ?n else a' = a" by auto
    show ?thesis
    proof (cases "b = ?n")
      case True
      then have "a' < Suc ?n" using a' that by simp
      then show ?thesis using heap_root [OF ord Suc.prems(3) _ Suc.prems(4), of a'] Suc.prems(1) at_n a'(1) True by simp
    next
      case False
      then have "?n < b" using that by simp
      moreover obtain b' where "elems sz k mem2 ! b = ?xs ! b'" "b' = b" using origin [OF \<open>b < k\<close>] \<open>?n < b\<close> by auto
      moreover have "a' < b" using a'(2) that \<open>?n < b\<close> by (auto split: if_splits)
      ultimately show ?thesis using Suc.prems(5) [of b a'] that(2) a'(1) by simp
    qed
  qed
  have sub2: "set (elems sz k mem2) \<subseteq> A" using m2(3) sub by (metis set_mset_mset)
  from Suc.IH [OF _ _ sub2 m2(4) tail] m1(2) m2(2) Suc.prems(1,2) obtain mem' where
    "sort_down cmp swp sz (int (j * sz)) mem2 = Some mem'" "length mem' = length mem2" "mset (elems sz k mem') = mset (elems sz k mem2)"
    "\<forall>a b. a < b \<and> b < k \<longrightarrow> cmp (elems sz k mem' ! b) (elems sz k mem' ! a) \<ge> 0" by auto
  moreover have "sort_down cmp swp sz (int (?n * sz)) mem = sort_down cmp swp sz (int (j * sz)) mem2"
    using i m1(1) m2(1) by (subst sort_down.simps) (simp only: if_True Option.bind.bind_lunit)
  ultimately show ?case using m1(2) m2(2,3) same by simp
qed

text \<open>Both phases, when the counters do not overflow.\<close>

lemma phases_ok:
  assumes ord: "cmp_order cmp (set (elems sz k mem))" and len: "length mem = k * sz"
  shows "\<exists>mem'. do { mem \<leftarrow> heapify cmp swp sz (int (k * sz)) (int (k div 2 * sz) - int sz) mem;
                   sort_down cmp swp sz (int (k * sz) - int sz) mem } = Some mem' \<and>
    length mem' = length mem \<and> mset (elems sz k mem') = mset (elems sz k mem) \<and>
    (\<forall>a b. a < b \<and> b < k \<longrightarrow> cmp (elems sz k mem' ! b) (elems sz k mem' ! a) \<ge> 0)"
proof -
  have "heap_on cmp (elems sz k mem) (k div 2) k" by (auto simp: heap_on_def child_def)
  from heapify_ok [OF ord _ len subset_refl this] obtain mem1 where
    m1: "heapify cmp swp sz (int (k * sz)) (int (k div 2 * sz) - int sz) mem = Some mem1" "length mem1 = length mem"
      "mset (elems sz k mem1) = mset (elems sz k mem)" "heap_on cmp (elems sz k mem1) 0 k" by auto
  show ?thesis
  proof (cases k)
    case 0
    then show ?thesis using m1 size_pos by (intro exI [of _ mem1]) (subst sort_down.simps, simp)
  next
    case (Suc j)
    have i: "int (k * sz) - int sz = int (j * sz)" by (simp add: Suc)
    have sub: "set (elems sz k mem1) \<subseteq> set (elems sz k mem)" using m1(3) by (metis set_mset_mset subset_refl)
    have "length mem1 = k * sz" using m1(2) len by simp
    from sort_down_ok [OF ord _ this sub, of j] m1(4) Suc obtain mem' where
      "sort_down cmp swp sz (int (j * sz)) mem1 = Some mem'" "length mem' = length mem1"
      "mset (elems sz k mem') = mset (elems sz k mem1)"
      "\<forall>a b. a < b \<and> b < k \<longrightarrow> cmp (elems sz k mem' ! b) (elems sz k mem' ! a) \<ge> 0" by auto
    then show ?thesis using m1 unfolding i by simp
  qed
qed

end

section \<open>The two exchange functions\<close>

text \<open>The bytes of two regions that do not overlap, exchanged.\<close>

definition exchanged :: "nat \<Rightarrow> nat \<Rightarrow> nat \<Rightarrow> u8 list \<Rightarrow> u8 list \<Rightarrow> bool" where
  "exchanged a b sz mem mem' \<longleftrightarrow> length mem' = length mem \<and>
     (\<forall>i < length mem. mem' ! i = (if a \<le> i \<and> i < a + sz then mem ! (b + (i - a))
        else if b \<le> i \<and> i < b + sz then mem ! (a + (i - b)) else mem ! i))"

lemma generic_swap_ok:
  "0 < sz \<Longrightarrow> a + sz \<le> length mem \<Longrightarrow> b + sz \<le> length mem \<Longrightarrow> a + sz \<le> b \<or> b + sz \<le> a \<Longrightarrow>
    \<exists>mem'. generic_swap a b sz mem = Some mem' \<and> exchanged a b sz mem mem'"
proof (induction sz arbitrary: a b mem)
  case (Suc s)
  let ?m = "mem[a := mem ! b, b := mem ! a]"
  have one: "generic_swap a b (Suc s) mem = (if s = 0 then Some ?m else generic_swap (a + 1) (b + 1) s ?m)"
    using Suc.prems by (subst generic_swap.simps) (simp add: rd_def wr_def)
  have m: "?m ! i = (if i = a then mem ! b else if i = b then mem ! a else mem ! i)" if "i < length mem" for i
    using that Suc.prems by (auto simp: nth_list_update)
  show ?case
  proof (cases "s = 0")
    case True
    then show ?thesis using one m by (auto simp: exchanged_def)
  next
    case False
    from Suc.IH [of "a + 1" ?m "b + 1"] Suc.prems False obtain mem' where
      run: "generic_swap (a + 1) (b + 1) s ?m = Some mem'" "exchanged (a + 1) (b + 1) s ?m mem'" by auto
    have "mem' ! i = (if a \<le> i \<and> i < a + Suc s then mem ! (b + (i - a))
        else if b \<le> i \<and> i < b + Suc s then mem ! (a + (i - b)) else mem ! i)" if i: "i < length mem" for i
    proof -
      have e: "mem' ! i = (if a + 1 \<le> i \<and> i < a + 1 + s then ?m ! (b + 1 + (i - (a + 1)))
        else if b + 1 \<le> i \<and> i < b + 1 + s then ?m ! (a + 1 + (i - (b + 1))) else ?m ! i)"
        using run(2) i by (simp add: exchanged_def)
      consider "i = a" | "i = b" "i \<noteq> a" | "a < i" "i < a + Suc s" | "b < i" "i < b + Suc s" "\<not> (a \<le> i \<and> i < a + Suc s)"
        | "\<not> (a \<le> i \<and> i < a + Suc s)" "\<not> (b \<le> i \<and> i < b + Suc s)" by linarith
      then show ?thesis
      proof cases
        case 1
        then show ?thesis using e m [of a] Suc.prems i by auto
      next
        case 2
        then show ?thesis using e m [of b] Suc.prems i by auto
      next
        case 3
        then have "b + 1 + (i - (a + 1)) = b + (i - a)" "b + (i - a) < length mem" "b + (i - a) \<noteq> a" "b + (i - a) \<noteq> b"
          using Suc.prems by auto
        then show ?thesis using e m [of "b + (i - a)"] 3 by simp
      next
        case 4
        then have "a + 1 + (i - (b + 1)) = a + (i - b)" "a + (i - b) < length mem" "a + (i - b) \<noteq> a" "a + (i - b) \<noteq> b"
          using Suc.prems by auto
        moreover have "\<not> (a + 1 \<le> i \<and> i < a + 1 + s)" using 4 by simp
        ultimately show ?thesis using e m [of "a + (i - b)"] 4 by (simp only: if_False if_True) auto
      next
        case 5
        then show ?thesis using e m [OF i] by auto
      qed
    qed
    then show ?thesis using one run False by (simp add: exchanged_def)
  qed
qed simp

lemma u32_swap_ok:
  "a + 4 \<le> length mem \<Longrightarrow> b + 4 \<le> length mem \<Longrightarrow> a + 4 \<le> b \<or> b + 4 \<le> a \<Longrightarrow>
    \<exists>mem'. u32_swap a b 4 mem = Some mem' \<and> exchanged a b 4 mem mem'"
proof -
  assume ab: "a + 4 \<le> length mem" "b + 4 \<le> length mem" "a + 4 \<le> b \<or> b + 4 \<le> a"
  let ?u = "take 4 (drop b mem)" and ?t = "take 4 (drop a mem)"
  let ?m = "take a mem @ ?u @ drop (a + 4) mem"
  let ?m2 = "take b ?m @ ?t @ drop (b + 4) ?m"
  have l: "length ?u = 4" "length ?t = 4" "length ?m = length mem" using ab by simp_all
  have run: "u32_swap a b 4 mem = Some ?m2" using ab l by (simp add: u32_swap_def element_def store_def)
  have put: "(take x ys @ zs @ drop (x + 4) ys) ! i = (if x \<le> i \<and> i < x + 4 then zs ! (i - x) else ys ! i)"
    if "x + 4 \<le> length ys" "length zs = 4" "i < length ys" for x i and ys zs :: "u8 list"
    using that by (auto simp: nth_append)
  have "?m2 ! i = (if b \<le> i \<and> i < b + 4 then ?t ! (i - b) else if a \<le> i \<and> i < a + 4 then ?u ! (i - a) else mem ! i)"
    if "i < length mem" for i using put [of b ?m ?t i] put [of a mem ?u i] ab l that by simp
  then have "exchanged a b 4 mem ?m2" using ab by (auto simp: exchanged_def)
  then show ?thesis using run by blast
qed

lemma exchanged_elems:
  assumes x: "exchanged (a * sz) (b * sz) sz mem mem'" and len: "length mem = k * sz" and ab: "a < k" "b < k" "a \<noteq> b" and sz: "0 < sz"
  shows "elems sz k mem' = exchange a b (elems sz k mem)"
proof (rule nth_equalityI)
  fix j assume "j < length (elems sz k mem')"
  then have j: "j < k" by simp
  have fits: "j * sz + i < length mem" if "i < sz" "j < k" for i j
  proof -
    have "(j + 1) * sz \<le> k * sz" using that by (intro mult_right_mono) simp_all
    then show ?thesis using that len by simp
  qed
  have apart: "\<not> (c * sz \<le> j * sz + i \<and> j * sz + i < c * sz + sz)" if "i < sz" "c \<noteq> j" for c i
  proof
    assume "c * sz \<le> j * sz + i \<and> j * sz + i < c * sz + sz"
    then have "(j * sz + i) div sz = c" by (intro div_nat_eqI) (simp_all add: mult.commute)
    then show False using that sz by simp
  qed
  have byte: "take sz (drop (j * sz) mem') ! i =
      (if j = a then take sz (drop (b * sz) mem) else if j = b then take sz (drop (a * sz) mem) else take sz (drop (j * sz) mem)) ! i"
    if i: "i < sz" for i
  proof -
    have "take sz (drop (c * sz) ys) ! i = ys ! (c * sz + i)" if "length ys = length mem" "c < k" for c and ys :: "u8 list"
      using fits [OF i, of c] that i by simp
    moreover have "mem' ! (j * sz + i) = (if j = a then mem ! (b * sz + i) else if j = b then mem ! (a * sz + i) else mem ! (j * sz + i))"
      using x fits [OF i j] apart [OF i, of a] apart [OF i, of b] i unfolding exchanged_def by auto
    ultimately show ?thesis using x j ab by (auto simp: exchanged_def)
  qed
  have full: "length (take sz (drop (c * sz) ys)) = sz" if "length ys = length mem" "c < k" for c and ys :: "u8 list"
  proof -
    have "(c + 1) * sz \<le> k * sz" using that by (intro mult_right_mono) simp_all
    then show ?thesis using that len by simp
  qed
  have "take sz (drop (j * sz) mem') =
      (if j = a then take sz (drop (b * sz) mem) else if j = b then take sz (drop (a * sz) mem) else take sz (drop (j * sz) mem))"
  proof (rule nth_equalityI)
    show "length (take sz (drop (j * sz) mem')) =
      length (if j = a then take sz (drop (b * sz) mem) else if j = b then take sz (drop (a * sz) mem) else take sz (drop (j * sz) mem))"
      using full [of mem' j] full [of mem a] full [of mem b] full [of mem j] x j ab by (auto simp: exchanged_def)
    show "take sz (drop (j * sz) mem') ! i =
      (if j = a then take sz (drop (b * sz) mem) else if j = b then take sz (drop (a * sz) mem) else take sz (drop (j * sz) mem)) ! i"
      if "i < length (take sz (drop (j * sz) mem'))" for i using byte [of i] that by simp
  qed
  then show "elems sz k mem' ! j = exchange a b (elems sz k mem) ! j"
    using j ab by (simp add: exchange_simps(2) elems_nth)
qed (simp add: exchange_simps(1))

lemma regions: "a < k \<Longrightarrow> b < k \<Longrightarrow> a \<noteq> b \<Longrightarrow>
  a * sz + sz \<le> k * sz \<and> b * sz + sz \<le> k * sz \<and> (a * sz + sz \<le> b * sz \<or> b * sz + sz \<le> a * sz)" for sz :: nat
proof -
  have "x * sz + sz \<le> y * sz" if "x < y" for x y
  proof -
    have "(x + 1) * sz \<le> y * sz" using that by (intro mult_right_mono) simp_all
    then show ?thesis by simp
  qed
  then show "a < k \<Longrightarrow> b < k \<Longrightarrow> a \<noteq> b \<Longrightarrow> ?thesis" by (meson linorder_neqE_nat)
qed

interpretation generic: swapper generic_swap "Suc s" for s
proof (unfold_locales)
  fix mem :: "u8 list" and k a b :: nat
  assume len: "length mem = k * Suc s" and ab: "a < k" "b < k" "a \<noteq> b"
  from regions [OF ab, of "Suc s"] generic_swap_ok [of "Suc s" "a * Suc s" mem "b * Suc s"] len obtain mem' where
    "generic_swap (a * Suc s) (b * Suc s) (Suc s) mem = Some mem'" "exchanged (a * Suc s) (b * Suc s) (Suc s) mem mem'" by auto
  then show "\<exists>mem'. generic_swap (a * Suc s) (b * Suc s) (Suc s) mem = Some mem' \<and> length mem' = length mem \<and>
      elems (Suc s) k mem' = exchange a b (elems (Suc s) k mem)"
    using exchanged_elems [OF _ len ab, of mem'] by (auto simp: exchanged_def)
qed simp

interpretation u32: swapper u32_swap 4
proof (unfold_locales)
  fix mem :: "u8 list" and k a b :: nat
  assume len: "length mem = k * 4" and ab: "a < k" "b < k" "a \<noteq> b"
  from regions [OF ab, of 4] u32_swap_ok [of "a * 4" mem "b * 4"] len obtain mem' where
    "u32_swap (a * 4) (b * 4) 4 mem = Some mem'" "exchanged (a * 4) (b * 4) 4 mem mem'" by auto
  then show "\<exists>mem'. u32_swap (a * 4) (b * 4) 4 mem = Some mem' \<and> length mem' = length mem \<and> elems 4 k mem' = exchange a b (elems 4 k mem)"
    using exchanged_elems [OF _ len ab, of mem'] by (auto simp: exchanged_def)
qed simp

section \<open>The sort\<close>

lemma counters:
  fixes num sz :: u32
  assumes "unat sz \<le> 2 ^ 30" "unat num * unat sz \<le> 2 ^ 30"
  shows "sint (num * sz) = int (unat num * unat sz)"
    "sint ((num div 2 - 1) * sz) = int (unat num div 2 * unat sz) - int (unat sz)"
proof -
  have conv: "sint (of_int x :: u32) = x" if "- (2 ^ 30) \<le> x" "x \<le> 2 ^ 30" for x
    using that by (simp add: signed_of_int signed_take_bit_int_eq_self)
  have "num * sz = of_int (int (unat num * unat sz))" by simp
  moreover have "sint (of_int (int (unat num * unat sz)) :: u32) = int (unat num * unat sz)"
    using assms(2) by (intro conv) (simp_all del: of_nat_mult)
  ultimately show "sint (num * sz) = int (unat num * unat sz)" by (simp only:)
  have half: "num div 2 = of_nat (unat num div 2)" by (simp add: word_arith_nat_div)
  have "(num div 2 - 1) * sz = of_int (int (unat num div 2 * unat sz) - int (unat sz))"
    unfolding half by (simp add: algebra_simps)
  moreover have "unat num div 2 * unat sz \<le> 2 ^ 30"
    using assms(2) by (meson div_le_dividend le_trans mult_le_mono1)
  moreover have "- (2 ^ 30) \<le> int a - int b \<and> int a - int b \<le> 2 ^ 30" if "a \<le> 2 ^ 30" "b \<le> 2 ^ 30" for a b :: nat
    using that by simp
  ultimately show "sint ((num div 2 - 1) * sz) = int (unat num div 2 * unat sz) - int (unat sz)"
    using conv assms(1) by (simp only:)
qed

text \<open>
  C16: \<open>sort\<close> ends without an access outside the array and leaves a permutation of its elements in
  ascending order, for every element size and number of elements whose product the \<open>int\<close>
  counters can hold twice, every comparison that orders the elements of the array, and both
  its own exchange functions and any that exchanges two elements.
\<close>

theorem sort_array_correct:
  assumes sz: "0 < unat sz" "unat sz \<le> 2 ^ 30" "unat num * unat sz \<le> 2 ^ 30" and len: "length mem = unat num * unat sz"
    and ord: "cmp_order cmp (set (elems (unat sz) (unat num) mem))"
    and swp: "case swp of Some f \<Rightarrow> swapper f (unat sz) | None \<Rightarrow> True"
  shows "\<exists>mem'. sort_array num sz cmp swp mem = Some mem' \<and> length mem' = length mem \<and>
    mset (elems (unat sz) (unat num) mem') = mset (elems (unat sz) (unat num) mem) \<and>
    sorted_wrt (\<lambda>x y. cmp y x \<ge> 0) (elems (unat sz) (unat num) mem')"
proof -
  let ?f = "case swp of Some f \<Rightarrow> f | None \<Rightarrow> if sz = 4 then u32_swap else generic_swap"
  have f: "swapper ?f (unat sz)"
  proof (cases swp)
    case None
    obtain s where "unat sz = Suc s" using sz(1) gr0_conv_Suc by blast
    show ?thesis
    proof (cases "sz = 4")
      case True
      then show ?thesis using None u32.swapper_axioms by simp
    next
      case False
      then show ?thesis using None \<open>unat sz = Suc s\<close> generic.swapper_axioms [of s] by simp
    qed
  next
    case (Some f)
    then show ?thesis using swp by simp
  qed
  note run = swapper.phases_ok [OF f ord len]
  have "sort_array num sz cmp swp mem =
      do { mem \<leftarrow> heapify cmp ?f (unat sz) (int (unat num * unat sz)) (int (unat num div 2 * unat sz) - int (unat sz)) mem;
           sort_down cmp ?f (unat sz) (int (unat num * unat sz) - int (unat sz)) mem }"
    unfolding sort_array_def Let_def counters [OF sz(2,3)] by (rule refl)
  moreover obtain mem' where "do { mem \<leftarrow> heapify cmp ?f (unat sz) (int (unat num * unat sz)) (int (unat num div 2 * unat sz) - int (unat sz)) mem;
           sort_down cmp ?f (unat sz) (int (unat num * unat sz) - int (unat sz)) mem } = Some mem'"
    and ok: "length mem' = length mem" "mset (elems (unat sz) (unat num) mem') = mset (elems (unat sz) (unat num) mem)"
      "\<forall>a b. a < b \<and> b < unat num \<longrightarrow> cmp (elems (unat sz) (unat num) mem' ! b) (elems (unat sz) (unat num) mem' ! a) \<ge> 0"
    using run by (elim exE conjE)
  ultimately have "sort_array num sz cmp swp mem = Some mem'" by (simp only:)
  then show ?thesis using ok by (intro exI [of _ mem'] conjI) (simp_all add: sorted_wrt_iff_nth_less)
qed

definition cmp_first :: cmp_fn where
  "cmp_first x y = uint (hd x) - uint (hd y)"

theorem sort_array_correct_witness:
  "\<exists>mem'. sort_array 3 2 cmp_first None [3, 3, 1, 1, 2, 2] = Some mem' \<and> mset (elems 2 3 mem') = {# [1, 1], [2, 2], [3, 3] #} \<and>
     sorted_wrt (\<lambda>x y. cmp_first y x \<ge> 0) (elems 2 3 mem')"
proof -
  have e: "elems 2 3 [3, 3, 1, 1, 2, 2] = [[3, 3], [1, 1], [2, 2 :: u8]]" by (simp add: elems_def upt_rec)
  have "cmp_order cmp_first (set (elems 2 3 [3, 3, 1, 1, 2, 2]))" unfolding cmp_order_def cmp_first_def by auto
  moreover have "unat (2 :: u32) = 2" "unat (3 :: u32) = 3" "length [3, 3, 1, 1, 2, 2 :: u8] = 3 * 2" by simp_all
  ultimately obtain mem' where "sort_array 3 2 cmp_first None [3, 3, 1, 1, 2, 2] = Some mem'"
    "mset (elems 2 3 mem') = mset [[3, 3], [1, 1], [2, 2]]" "sorted_wrt (\<lambda>x y. cmp_first y x \<ge> 0) (elems 2 3 mem')"
    using sort_array_correct [of 2 3 "[3, 3, 1, 1, 2, 2]" cmp_first None] e by auto
  moreover have "mset [[3, 3], [1, 1], [2, 2]] = {# [1, 1], [2, 2], [3, 3 :: u8] #}" by simp
  ultimately show ?thesis by (simp only:) blast
qed

end
