(* ===== verification/TextSearch.thy ===== *)
theory TextSearch imports Bits begin

text \<open>
  Text search: the algorithm of Knuth, Morris and Pratt of \<open>lib/ts_kmp.c\<close> over a text that comes
  in blocks, and the linear source of \<open>lib/textsearch.c\<close>. Lengths and positions in the pattern
  are natural numbers; offsets into the text are words of 32 bits. \<open>None\<close> is an access outside
  an array or a call that does not return.
\<close>

section \<open>Characters\<close>

text \<open>The classes of \<open>lib/ctype.c\<close>, one byte for each character.\<close>

definition ctype :: "u8 list" where
  "ctype =
    [0x08, 0x08, 0x08, 0x08, 0x08, 0x08, 0x08, 0x08, 0x08, 0x28, 0x28, 0x28, 0x28, 0x28, 0x08, 0x08,
     0x08, 0x08, 0x08, 0x08, 0x08, 0x08, 0x08, 0x08, 0x08, 0x08, 0x08, 0x08, 0x08, 0x08, 0x08, 0x08,
     0xA0, 0x10, 0x10, 0x10, 0x10, 0x10, 0x10, 0x10, 0x10, 0x10, 0x10, 0x10, 0x10, 0x10, 0x10, 0x10,
     0x04, 0x04, 0x04, 0x04, 0x04, 0x04, 0x04, 0x04, 0x04, 0x04, 0x10, 0x10, 0x10, 0x10, 0x10, 0x10,
     0x10, 0x41, 0x41, 0x41, 0x41, 0x41, 0x41, 0x01, 0x01, 0x01, 0x01, 0x01, 0x01, 0x01, 0x01, 0x01,
     0x01, 0x01, 0x01, 0x01, 0x01, 0x01, 0x01, 0x01, 0x01, 0x01, 0x01, 0x10, 0x10, 0x10, 0x10, 0x10,
     0x10, 0x42, 0x42, 0x42, 0x42, 0x42, 0x42, 0x02, 0x02, 0x02, 0x02, 0x02, 0x02, 0x02, 0x02, 0x02,
     0x02, 0x02, 0x02, 0x02, 0x02, 0x02, 0x02, 0x02, 0x02, 0x02, 0x02, 0x10, 0x10, 0x10, 0x10, 0x08,
     0, 0, 0, 0, 0, 0, 0, 0, 0, 0, 0, 0, 0, 0, 0, 0,
     0, 0, 0, 0, 0, 0, 0, 0, 0, 0, 0, 0, 0, 0, 0, 0,
     0xA0, 0x10, 0x10, 0x10, 0x10, 0x10, 0x10, 0x10, 0x10, 0x10, 0x10, 0x10, 0x10, 0x10, 0x10, 0x10,
     0x10, 0x10, 0x10, 0x10, 0x10, 0x10, 0x10, 0x10, 0x10, 0x10, 0x10, 0x10, 0x10, 0x10, 0x10, 0x10,
     0x01, 0x01, 0x01, 0x01, 0x01, 0x01, 0x01, 0x01, 0x01, 0x01, 0x01, 0x01, 0x01, 0x01, 0x01, 0x01,
     0x01, 0x01, 0x01, 0x01, 0x01, 0x01, 0x01, 0x10, 0x01, 0x01, 0x01, 0x01, 0x01, 0x01, 0x01, 0x02,
     0x02, 0x02, 0x02, 0x02, 0x02, 0x02, 0x02, 0x02, 0x02, 0x02, 0x02, 0x02, 0x02, 0x02, 0x02, 0x02,
     0x02, 0x02, 0x02, 0x02, 0x02, 0x02, 0x02, 0x10, 0x02, 0x02, 0x02, 0x02, 0x02, 0x02, 0x02, 0x02]"

definition islower :: "u8 \<Rightarrow> bool" where
  "islower c \<longleftrightarrow> ctype ! unat c AND 0x02 \<noteq> 0"

definition toupper :: "u8 \<Rightarrow> u8" where
  "toupper c = (if islower c then c - (0x61 - 0x41) else c)"

section \<open>The code\<close>

text \<open>A search configuration; \<open>case\<close> is folded when \<open>ignore_case\<close> is set.\<close>

record ts_kmp =
  pattern :: "u8 list"
  prefix_tbl :: "nat list"
  ignore_case :: bool

definition fold_case :: "bool \<Rightarrow> u8 \<Rightarrow> u8" where
  "fold_case icase c = (if icase then toupper c else c)"

text \<open>The loop that falls back to a shorter prefix; \<open>get\<close> reads the pattern.\<close>

partial_function (option) fall_back :: "(nat \<Rightarrow> u8 option) \<Rightarrow> nat list \<Rightarrow> u8 \<Rightarrow> nat \<Rightarrow> nat option" where
  "fall_back get tbl c q =
     (if q > 0
      then do { p \<leftarrow> get q;
                if p \<noteq> c then do { q \<leftarrow> rd tbl (q - 1); fall_back get tbl c q } else Some q }
      else Some q)"

declare fall_back.simps [code]

text \<open>One character of the text or of the pattern.\<close>

definition advance :: "(nat \<Rightarrow> u8 option) \<Rightarrow> nat list \<Rightarrow> u8 \<Rightarrow> nat \<Rightarrow> nat option" where
  "advance get tbl c q =
     do { q \<leftarrow> fall_back get tbl c q; p \<leftarrow> get q; Some (if p = c then q + 1 else q) }"

function prefix_loop :: "u8 list \<Rightarrow> bool \<Rightarrow> nat \<Rightarrow> nat \<Rightarrow> nat list \<Rightarrow> nat list option" where
  "prefix_loop pat icase k q tbl =
     (if q < length pat
      then do { c \<leftarrow> rd pat q;
                k \<leftarrow> advance (\<lambda>i. map_option (fold_case icase) (rd pat i)) tbl (fold_case icase c) k;
                tbl \<leftarrow> wr tbl q k;
                prefix_loop pat icase k (q + 1) tbl }
      else Some tbl)"
  by pat_completeness auto
termination by (relation "measure (\<lambda>(pat, icase, k, q, tbl). length pat - q)") auto

text \<open>The memory of the table is cleared when it is allocated.\<close>

definition compute_prefix_tbl :: "u8 list \<Rightarrow> bool \<Rightarrow> nat list option" where
  "compute_prefix_tbl pat icase = prefix_loop pat icase 0 1 (replicate (length pat) 0)"

definition kmp_init :: "u8 list \<Rightarrow> bool \<Rightarrow> ts_kmp option" where
  "kmp_init pat icase =
     do { tbl \<leftarrow> compute_prefix_tbl pat icase;
          Some \<lparr>pattern = map (fold_case icase) pat, prefix_tbl = tbl, ignore_case = icase\<rparr> }"

text \<open>The search in one block: the index at which a match ends, or the state at the end.\<close>

fun kmp_block :: "ts_kmp \<Rightarrow> u8 list \<Rightarrow> nat \<Rightarrow> nat \<Rightarrow> (nat + nat) option" where
  "kmp_block kmp [] i q = Some (Inr q)"
| "kmp_block kmp (c # body) i q =
     do { q \<leftarrow> advance (rd (pattern kmp)) (prefix_tbl kmp) (fold_case (ignore_case kmp) c) q;
          if q = length (pattern kmp) then Some (Inl i) else kmp_block kmp body (i + 1) q }"

definition UINT_MAX :: u32 where "UINT_MAX = 0xFFFFFFFF"

text \<open>
  \<open>kmp_find\<close>: the result, the new \<open>state->offset\<close>, and the state of the source of blocks.
\<close>

partial_function (option) kmp_blocks ::
    "ts_kmp \<Rightarrow> (u32 \<Rightarrow> 's \<Rightarrow> u8 list \<times> 's) \<Rightarrow> u32 \<Rightarrow> u32 \<Rightarrow> nat \<Rightarrow> 's \<Rightarrow> (u32 \<times> u32 \<times> 's) option" where
  "kmp_blocks kmp get_next_block offset consumed q s =
     (case get_next_block consumed s of
        (body, s) \<Rightarrow>
          if body = [] then Some (UINT_MAX, offset, s)
          else do { r \<leftarrow> kmp_block kmp body 0 q;
                    case r of
                      Inl i \<Rightarrow> (let offset = consumed + of_nat i + 1 in Some (offset - of_nat (length (pattern kmp)), offset, s))
                    | Inr q \<Rightarrow> kmp_blocks kmp get_next_block offset (consumed + of_nat (length body)) q s })"

declare kmp_blocks.simps [code]

definition kmp_find :: "ts_kmp \<Rightarrow> (u32 \<Rightarrow> 's \<Rightarrow> u8 list \<times> 's) \<Rightarrow> u32 \<Rightarrow> 's \<Rightarrow> (u32 \<times> u32 \<times> 's) option" where
  "kmp_find kmp get_next_block offset s = kmp_blocks kmp get_next_block offset offset 0 s"

text \<open>Linear data, whose state does not change.\<close>

definition get_linear_data :: "u8 list \<Rightarrow> u32 \<Rightarrow> unit \<Rightarrow> u8 list \<times> unit" where
  "get_linear_data data consumed s = (if unat consumed < length data then drop (unat consumed) data else [], s)"

text \<open>The first match, and the next one from the offset left by the last call.\<close>

definition textsearch_next :: "ts_kmp \<Rightarrow> u8 list \<Rightarrow> u32 \<Rightarrow> (u32 \<times> u32) option" where
  "textsearch_next kmp data offset =
     do { (r, offset, s) \<leftarrow> kmp_find kmp (get_linear_data data) offset (); Some (r, offset) }"

definition textsearch_find_continuous :: "ts_kmp \<Rightarrow> u8 list \<Rightarrow> (u32 \<times> u32) option" where
  "textsearch_find_continuous kmp data = textsearch_next kmp data 0"

section \<open>Prefixes of the pattern that end a text\<close>

definition suf :: "'a list \<Rightarrow> 'a list \<Rightarrow> nat \<Rightarrow> bool" where
  "suf pat s k \<longleftrightarrow> k \<le> length pat \<and> k \<le> length s \<and> drop (length s - k) s = take k pat"

lemma suf_0 [simp]: "suf pat s 0"
  by (simp add: suf_def)

lemma suf_step: "k < length pat \<Longrightarrow> suf pat (s @ [c]) (Suc k) \<longleftrightarrow> suf pat s k \<and> pat ! k = c"
  by (auto simp: suf_def take_Suc_conv_app_nth)

lemma suf_within: "suf pat s q \<Longrightarrow> k \<le> q \<Longrightarrow> suf pat s k \<longleftrightarrow> suf pat (take q pat) k"
proof -
  assume q: "suf pat s q" "k \<le> q"
  then have "drop (q - k) (take q pat) = drop (q - k) (drop (length s - q) s)" by (simp only: suf_def)
  also have "\<dots> = drop (length s - k) s"
  proof -
    have "q - k + (length s - q) = length s - k" using q by (auto simp: suf_def)
    then show ?thesis by (simp only: drop_drop)
  qed
  finally show ?thesis using q by (auto simp: suf_def)
qed

lemma suf_tail: "k < length s \<Longrightarrow> suf pat (drop 1 s) k \<longleftrightarrow> suf pat s k"
proof -
  assume "k < length s"
  then have "length (drop 1 s) - k + 1 = length s - k" "k \<le> length (drop 1 s)" by simp_all
  then show ?thesis by (simp only: suf_def drop_drop) (use \<open>k < length s\<close> in simp)
qed

text \<open>The longest such prefix, and the table of the longest proper borders.\<close>

definition longest :: "'a list \<Rightarrow> 'a list \<Rightarrow> nat \<Rightarrow> bool" where
  "longest pat s q \<longleftrightarrow> suf pat s q \<and> (\<forall>k. suf pat s k \<longrightarrow> k \<le> q)"

definition tbl_ok :: "'a list \<Rightarrow> nat list \<Rightarrow> nat \<Rightarrow> bool" where
  "tbl_ok pat tbl n \<longleftrightarrow> length tbl = length pat \<and> n \<le> length pat \<and> (\<forall>j < n. longest pat (drop 1 (take (Suc j) pat)) (tbl ! j))"

lemma border:
  assumes "tbl_ok pat tbl n" "j < n"
  shows "tbl ! j \<le> j" "suf pat (take (Suc j) pat) (tbl ! j)" "k \<le> j \<Longrightarrow> suf pat (take (Suc j) pat) k \<Longrightarrow> k \<le> tbl ! j"
proof -
  have l: "longest pat (drop 1 (take (Suc j) pat)) (tbl ! j)" and j: "Suc j \<le> length pat" using assms by (auto simp: tbl_ok_def)
  then show b: "tbl ! j \<le> j" by (simp add: longest_def suf_def)
  show "suf pat (take (Suc j) pat) (tbl ! j)" using suf_tail [of "tbl ! j" "take (Suc j) pat" pat] l b j by (simp add: longest_def)
  show "k \<le> tbl ! j" if "k \<le> j" "suf pat (take (Suc j) pat) k"
    using suf_tail [of k "take (Suc j) pat" pat] l that j by (simp add: longest_def)
qed

lemma fall_back_ok:
  assumes tbl: "tbl_ok pat tbl n"
  shows "q \<le> n \<Longrightarrow> q < length pat \<Longrightarrow> suf pat s q \<Longrightarrow> \<forall>k < length pat. suf pat s k \<and> pat ! k = c \<longrightarrow> k \<le> q \<Longrightarrow>
    \<exists>q'. fall_back (rd pat) tbl c q = Some q' \<and> q' \<le> q \<and> suf pat s q' \<and> (q' = 0 \<or> pat ! q' = c) \<and>
      (\<forall>k < length pat. suf pat s k \<and> pat ! k = c \<longrightarrow> k \<le> q')"
proof (induction q rule: less_induct)
  case (less q)
  show ?case
  proof (cases "q = 0 \<or> pat ! q = c")
    case True
    then show ?thesis using less.prems by (subst fall_back.simps) (auto simp: rd_def)
  next
    case False
    then have j: "q - 1 < n" "Suc (q - 1) = q" using less.prems(1) by auto
    note b = border [OF tbl j(1), unfolded j(2)]
    let ?q = "tbl ! (q - 1)"
    have lt: "?q < q" using b(1) j(2) by linarith
    have "suf pat s ?q" using suf_within [OF less.prems(3)] b(2) lt by simp
    moreover have "\<forall>k < length pat. suf pat s k \<and> pat ! k = c \<longrightarrow> k \<le> ?q"
    proof (intro allI impI)
      fix k assume k: "k < length pat" "suf pat s k \<and> pat ! k = c"
      then have "k \<le> q" "k \<noteq> q" using less.prems(4) False by auto
      then have "k \<le> q - 1" "suf pat (take q pat) k" using suf_within [OF less.prems(3)] k(2) by auto
      then show "k \<le> ?q" by (rule b(3))
    qed
    moreover have "?q \<le> n" "?q < length pat" using lt less.prems(1,2) by simp_all
    ultimately obtain q' where "fall_back (rd pat) tbl c ?q = Some q'" "q' \<le> ?q" "suf pat s q'" "q' = 0 \<or> pat ! q' = c"
      "\<forall>k < length pat. suf pat s k \<and> pat ! k = c \<longrightarrow> k \<le> q'" using less.IH [OF lt] by blast
    moreover have "fall_back (rd pat) tbl c q = fall_back (rd pat) tbl c ?q"
      using False less.prems(2) tbl j by (subst fall_back.simps) (auto simp: rd_def tbl_ok_def)
    ultimately show ?thesis using lt by (intro exI [of _ q']) simp
  qed
qed

lemma advance_ok:
  assumes tbl: "tbl_ok pat tbl n" and q: "q \<le> n" "q < length pat" "longest pat s q"
  shows "\<exists>q'. advance (rd pat) tbl c q = Some q' \<and> longest pat (s @ [c]) q'"
proof -
  obtain q1 where q1: "fall_back (rd pat) tbl c q = Some q1" "q1 \<le> q" "suf pat s q1" "q1 = 0 \<or> pat ! q1 = c"
    "\<forall>k < length pat. suf pat s k \<and> pat ! k = c \<longrightarrow> k \<le> q1"
    using fall_back_ok [OF tbl q(1,2), of s c] q(3) unfolding longest_def by blast
  have lt: "q1 < length pat" using q1(2) q(2) by simp
  have run: "advance (rd pat) tbl c q = Some (if pat ! q1 = c then Suc q1 else q1)"
    using q1(1) lt by (simp add: advance_def rd_def)
  have max: "k \<le> (if pat ! q1 = c then Suc q1 else q1)" if k: "suf pat (s @ [c]) k" for k
  proof (cases k)
    case (Suc j)
    have "j < length pat" using k Suc by (simp add: suf_def)
    then have "suf pat s j" "pat ! j = c" using suf_step [of j pat s c] k Suc by simp_all
    then have "j \<le> q1" using q1(5) \<open>j < length pat\<close> by blast
    then show ?thesis using Suc q1(4) \<open>pat ! j = c\<close> by auto
  qed simp
  have "suf pat (s @ [c]) (if pat ! q1 = c then Suc q1 else q1)"
    using suf_step [OF lt, of s c] q1(3,4) by auto
  then show ?thesis using run max by (simp add: longest_def)
qed

section \<open>The table\<close>

declare prefix_loop.simps [simp del]

lemma prefix_loop_ok:
  assumes pat: "pat = map (fold_case icase) raw"
  shows "1 \<le> q \<Longrightarrow> q \<le> length pat \<Longrightarrow> tbl_ok pat tbl q \<Longrightarrow> longest pat (drop 1 (take q pat)) k \<Longrightarrow>
    \<exists>tbl'. prefix_loop raw icase k q tbl = Some tbl' \<and> tbl_ok pat tbl' (length pat)"
proof (induction "length pat - q" arbitrary: q tbl k)
  case 0
  then show ?case using pat by (subst prefix_loop.simps) simp
next
  case (Suc m)
  then have q: "q < length pat" by simp
  have len: "length raw = length pat" and get: "(\<lambda>i. map_option (fold_case icase) (rd raw i)) = rd pat"
    and char: "fold_case icase (raw ! q) = pat ! q" using pat q by (auto simp: rd_def fun_eq_iff)
  have "k \<le> q - 1" using Suc.prems(4) q by (simp add: longest_def suf_def)
  then have "k < q" using Suc.prems(1) by linarith
  then have "k \<le> q" "k < length pat" using q by simp_all
  from advance_ok [OF Suc.prems(3) this Suc.prems(4), of "pat ! q"] obtain k' where
    k': "advance (rd pat) tbl (pat ! q) k = Some k'" "longest pat (drop 1 (take q pat) @ [pat ! q]) k'" by blast
  have "drop 1 (take q pat) @ [pat ! q] = drop 1 (take (Suc q) pat)"
    using q Suc.prems(1) by (simp add: take_Suc_conv_app_nth)
  then have l: "longest pat (drop 1 (take (Suc q) pat)) k'" using k'(2) by simp
  have "tbl_ok pat (tbl[q := k']) (Suc q)" using Suc.prems(3) q l by (auto simp: tbl_ok_def less_Suc_eq nth_list_update)
  moreover have "m = length pat - Suc q" "1 \<le> Suc q" "Suc q \<le> length pat" using Suc.hyps(2) q by simp_all
  ultimately obtain tbl' where
    "prefix_loop raw icase k' (Suc q) (tbl[q := k']) = Some tbl'" "tbl_ok pat tbl' (length pat)"
    using Suc.hyps(1) l by blast
  moreover have "q < length tbl" using Suc.prems(3) q by (simp add: tbl_ok_def)
  then have "wr tbl q k' = Some (tbl[q := k'])" by (simp add: wr_def)
  moreover have "rd raw q = Some (raw ! q)" using q len by (simp add: rd_def)
  ultimately show ?case using q len k'(1) char by (subst prefix_loop.simps) (simp add: get)
qed

definition kmp_ok :: "ts_kmp \<Rightarrow> bool" where
  "kmp_ok kmp \<longleftrightarrow> pattern kmp \<noteq> [] \<and> tbl_ok (pattern kmp) (prefix_tbl kmp) (length (pattern kmp))"

lemma kmp_init_ok:
  assumes "raw \<noteq> []"
  shows "\<exists>kmp. kmp_init raw icase = Some kmp \<and> kmp_ok kmp \<and> pattern kmp = map (fold_case icase) raw \<and> ignore_case kmp = icase"
proof -
  let ?pat = "map (fold_case icase) raw"
  have len: "0 < length raw" using assms by simp
  have "longest ?pat [] 0" by (simp add: longest_def suf_def)
  moreover have "drop 1 (take 1 ?pat) = []" by simp
  moreover have "tbl_ok ?pat (replicate (length raw) 0) 1"
    using len calculation by (simp add: tbl_ok_def Suc_le_eq)
  ultimately obtain tbl where "prefix_loop raw icase 0 1 (replicate (length raw) 0) = Some tbl" "tbl_ok ?pat tbl (length ?pat)"
    using prefix_loop_ok [OF refl, of 1 icase raw "replicate (length raw) 0" 0] len by (auto simp: Suc_le_eq)
  then show ?thesis using assms by (simp add: kmp_init_def compute_prefix_tbl_def kmp_ok_def)
qed

section \<open>The search\<close>

text \<open>The pattern occurs in a text at a position, and no prefix of a text ends in it.\<close>

definition occurs :: "'a list \<Rightarrow> 'a list \<Rightarrow> nat \<Rightarrow> bool" where
  "occurs pat s p \<longleftrightarrow> p + length pat \<le> length s \<and> take (length pat) (drop p s) = pat"

definition ends :: "'a list \<Rightarrow> 'a list \<Rightarrow> bool" where
  "ends pat s \<longleftrightarrow> suf pat s (length pat)"

lemma occurs_ends: "p + length pat \<le> length s \<Longrightarrow> occurs pat s p \<longleftrightarrow> ends pat (take (p + length pat) s)"
  by (auto simp: occurs_def ends_def suf_def take_drop add.commute)

text \<open>The state after a text in which no match has ended.\<close>

definition searched :: "'a list \<Rightarrow> 'a list \<Rightarrow> nat \<Rightarrow> bool" where
  "searched pat s q \<longleftrightarrow> longest pat s q \<and> q < length pat \<and> (\<forall>e \<le> length s. \<not> ends pat (take e s))"

lemma searched_start: "pat \<noteq> [] \<Longrightarrow> searched pat [] 0"
  by (simp add: searched_def longest_def suf_def ends_def)

lemma searched_step:
  assumes tbl: "tbl_ok pat tbl (length pat)" and q: "searched pat s q"
  shows "\<exists>q'. advance (rd pat) tbl c q = Some q' \<and> (if q' = length pat then ends pat (s @ [c]) else searched pat (s @ [c]) q')"
proof -
  obtain q' where q': "advance (rd pat) tbl c q = Some q'" "longest pat (s @ [c]) q'"
    using advance_ok [OF tbl _ _, of q s c] q by (auto simp: searched_def)
  have "q' \<le> length pat" using q'(2) by (simp add: longest_def suf_def)
  moreover have "\<not> ends pat (take e (s @ [c]))" if "q' \<noteq> length pat" "e \<le> length (s @ [c])" for e
  proof (cases "e \<le> length s")
    case True
    then show ?thesis using q by (simp add: searched_def)
  next
    case False
    then have "take e (s @ [c]) = s @ [c]" using that(2) by simp
    then show ?thesis using q'(2) calculation that(1) by (auto simp: ends_def longest_def)
  qed
  ultimately show ?thesis using q' by (auto simp: searched_def ends_def longest_def)
qed

text \<open>The outcome after more of the text: the first end of a match, or none.\<close>

lemma kmp_block_ok:
  assumes kmp: "kmp_ok kmp"
  defines "f \<equiv> fold_case (ignore_case kmp)"
  shows "searched (pattern kmp) s q \<Longrightarrow>
    \<exists>r. kmp_block kmp body i q = Some r \<and>
      (case r of
         Inl j \<Rightarrow> i \<le> j \<and> j < i + length body \<and> ends (pattern kmp) (s @ map f (take (j - i + 1) body)) \<and>
           (\<forall>e \<le> length s + (j - i). \<not> ends (pattern kmp) (take e (s @ map f body)))
       | Inr q' \<Rightarrow> searched (pattern kmp) (s @ map f body) q')"
proof (induction body arbitrary: s q i)
  case Nil
  then show ?case by simp
next
  case (Cons c body)
  let ?pat = "pattern kmp"
  have tbl: "tbl_ok ?pat (prefix_tbl kmp) (length ?pat)" using kmp by (simp add: kmp_ok_def)
  obtain q' where q': "advance (rd ?pat) (prefix_tbl kmp) (f c) q = Some q'"
    "if q' = length ?pat then ends ?pat (s @ [f c]) else searched ?pat (s @ [f c]) q'"
    using searched_step [OF tbl Cons.prems, of "f c"] by blast
  show ?case
  proof (cases "q' = length ?pat")
    case True
    have "\<not> ends ?pat (take e (s @ map f (c # body)))" if "e \<le> length s" for e
      using Cons.prems that by (simp add: searched_def)
    then show ?thesis using q' True by (intro exI [of _ "Inl i"]) (simp add: f_def)
  next
    case False
    then have s: "searched ?pat (s @ [f c]) q'" using q'(2) by simp
    from Cons.IH [OF s, of "i + 1"] obtain r where r: "kmp_block kmp body (i + 1) q' = Some r"
      "case r of
         Inl j \<Rightarrow> i + 1 \<le> j \<and> j < i + 1 + length body \<and> ends ?pat ((s @ [f c]) @ map f (take (j - (i + 1) + 1) body)) \<and>
           (\<forall>e \<le> length (s @ [f c]) + (j - (i + 1)). \<not> ends ?pat (take e ((s @ [f c]) @ map f body)))
       | Inr q' \<Rightarrow> searched ?pat ((s @ [f c]) @ map f body) q'" by blast
    have run: "kmp_block kmp (c # body) i q = Some r" using q'(1) False r(1) by (simp add: f_def)
    show ?thesis
    proof (cases r)
      case (Inl j)
      then have j: "i + 1 \<le> j" "j < i + 1 + length body" "ends ?pat ((s @ [f c]) @ map f (take (j - (i + 1) + 1) body))"
        "\<forall>e \<le> length (s @ [f c]) + (j - (i + 1)). \<not> ends ?pat (take e ((s @ [f c]) @ map f body))" using r(2) by simp_all
      have "j - i + 1 = Suc (j - (i + 1) + 1)" using j(1) by simp
      then have "take (j - i + 1) (c # body) = c # take (j - (i + 1) + 1) body" by (simp only: take_Suc_Cons)
      moreover have "length (s @ [f c]) + (j - (i + 1)) = length s + (j - i)" using j(1) by simp
      ultimately show ?thesis using run Inl j by simp
    next
      case (Inr q2)
      then show ?thesis using run r(2) by simp
    qed
  qed
qed

text \<open>
  What \<open>kmp_find\<close> needs of its source: from each offset it is \<open>ready\<close> for, it delivers the next
  part of one text, and nothing at the end.
\<close>

locale text_source =
  fixes get_next_block :: "u32 \<Rightarrow> 's \<Rightarrow> u8 list \<times> 's" and body :: "u8 list" and ready :: "nat \<Rightarrow> 's \<Rightarrow> bool"
  assumes next_part: "ready c s \<Longrightarrow> c < length body \<Longrightarrow> \<exists>k s'. get_next_block (of_nat c) s = (take k (drop c body), s') \<and>
      0 < k \<and> c + k \<le> length body \<and> ready (c + k) s'"
    and at_end: "ready c s \<Longrightarrow> length body \<le> c \<Longrightarrow> c < 2 ^ 32 \<Longrightarrow> fst (get_next_block (of_nat c) s) = []"
    and short: "length body < 2 ^ 32"
begin

lemma kmp_blocks_ok:
  assumes kmp: "kmp_ok kmp"
  defines "f \<equiv> fold_case (ignore_case kmp)"
  shows "ready c s \<Longrightarrow> start \<le> c \<Longrightarrow> c < 2 ^ 32 \<Longrightarrow> searched (pattern kmp) (map f (take (c - start) (drop start body))) q \<Longrightarrow>
    \<exists>r off s'. kmp_blocks kmp get_next_block offset (of_nat c) q s = Some (r, off, s') \<and>
      (let all = map f (drop start body) in
       (\<exists>e. e \<le> length all \<and> ends (pattern kmp) (take e all) \<and> (\<forall>e' < e. \<not> ends (pattern kmp) (take e' all)) \<and>
          off = of_nat (start + e) \<and> r = off - of_nat (length (pattern kmp))) \<or>
       (\<forall>e \<le> length all. \<not> ends (pattern kmp) (take e all)) \<and> r = UINT_MAX \<and> off = offset)"
proof (induction "length body - c" arbitrary: c q s rule: less_induct)
  case less
  let ?pat = "pattern kmp" and ?all = "map f (drop start body)"
  show ?case
  proof (cases "c < length body")
    case False
    obtain s' where "get_next_block (of_nat c) s = ([], s')"
      using at_end [OF less.prems(1) _ less.prems(3)] False by (metis not_less prod.collapse)
    then have "kmp_blocks kmp get_next_block offset (of_nat c) q s = Some (UINT_MAX, offset, s')"
      by (subst kmp_blocks.simps) simp
    moreover have "take (c - start) (drop start body) = drop start body" using False by simp
    then have "\<forall>e \<le> length ?all. \<not> ends ?pat (take e ?all)" using less.prems(4) by (simp add: searched_def)
    ultimately show ?thesis by (simp add: Let_def)
  next
    case True
    from next_part [OF less.prems(1) True] obtain k s' where b: "get_next_block (of_nat c) s = (take k (drop c body), s')" "0 < k"
      "c + k \<le> length body" "ready (c + k) s'" by blast
    let ?blk = "take k (drop c body)" and ?seen = "map f (take (c - start) (drop start body))"
    have blk: "?blk \<noteq> []" "length ?blk = k" using b(2,3) by auto
    have joined: "?seen @ map f (take j ?blk) = take (c - start + j) ?all" if "j \<le> k" for j
    proof -
      have "drop (c - start) (drop start body) = drop c body" using less.prems(2) by simp
      then have "take (c - start + j) (drop start body) = take (c - start) (drop start body) @ take j (drop c body)"
        by (simp only: take_add)
      moreover have "take j ?blk = take j (drop c body)" using that by (simp add: min_def)
      ultimately show ?thesis by (simp only: take_map map_append)
    qed
    have seen: "length ?seen = c - start" using True by simp
    obtain r where r: "kmp_block kmp ?blk 0 q = Some r"
      "case r of
         Inl j \<Rightarrow> 0 \<le> j \<and> j < 0 + length ?blk \<and> ends ?pat (?seen @ map f (take (j - 0 + 1) ?blk)) \<and>
           (\<forall>e \<le> length ?seen + (j - 0). \<not> ends ?pat (take e (?seen @ map f ?blk)))
       | Inr q' \<Rightarrow> searched ?pat (?seen @ map f ?blk) q'"
      using kmp_block_ok [OF kmp less.prems(4) [unfolded f_def], of ?blk 0] unfolding f_def by blast
    have whole: "?seen @ map f ?blk = take (c + k - start) ?all" using joined [of k] less.prems(2) by simp
    show ?thesis
    proof (cases r)
      case (Inl j)
      note out = r(2) [unfolded Inl sum.case blk(2) seen diff_zero add_0]
      have j: "j < k" "ends ?pat (?seen @ map f (take (j + 1) ?blk))" "\<forall>e \<le> c - start + j. \<not> ends ?pat (take e (?seen @ map f ?blk))"
        by (rule conjunct1 [OF conjunct2 [OF out]], rule conjunct1 [OF conjunct2 [OF conjunct2 [OF out]]],
          rule conjunct2 [OF conjunct2 [OF conjunct2 [OF out]]])
      let ?e = "c - start + (j + 1)"
      have "of_nat c + of_nat j + 1 = (of_nat (start + ?e) :: u32)"
      proof -
        have "start + ?e = c + j + 1" using less.prems(2) by simp
        then show ?thesis by simp
      qed
      then have "kmp_blocks kmp get_next_block offset (of_nat c) q s =
          Some (of_nat (start + ?e) - of_nat (length ?pat), of_nat (start + ?e), s')"
        using b(1) blk(1) r(1) Inl by (subst kmp_blocks.simps) (simp add: Let_def)
      moreover have "ends ?pat (take ?e ?all)" using j(1,2) joined [of "j + 1"] by simp
      moreover have "\<forall>e' < ?e. \<not> ends ?pat (take e' ?all)"
      proof (intro allI impI)
        fix e' assume e': "e' < ?e"
        then have same: "take e' (take (c + k - start) ?all) = take e' ?all" using j(1) less.prems(2) by (simp add: min_def)
        have "\<not> ends ?pat (take e' (take (c + k - start) ?all))" using j(3) e' unfolding whole by simp
        then show "\<not> ends ?pat (take e' ?all)" unfolding same .
      qed
      moreover have "?e \<le> length ?all" using j(1) b(3) less.prems(2) by simp
      ultimately show ?thesis unfolding Let_def
        by (intro exI [of _ "of_nat (start + ?e) - of_nat (length ?pat)"] exI [of _ "of_nat (start + ?e)"] exI [of _ s'])
          (intro conjI disjI1 exI [of _ ?e]; simp)
    next
      case (Inr q')
      then have q': "searched ?pat (map f (take (c + k - start) (drop start body))) q'" using r(2) whole by (simp add: take_map)
      have "length body - (c + k) < length body - c" "start \<le> c + k" "c + k < 2 ^ 32" using b(2,3) less.prems(2) short by simp_all
      from less.hyps [OF this(1) b(4) this(2,3) q'] obtain r' off s2 where
        rest: "kmp_blocks kmp get_next_block offset (of_nat (c + k)) q' s' = Some (r', off, s2)" and
        out: "(let all = map f (drop start body) in
       (\<exists>e. e \<le> length all \<and> ends (pattern kmp) (take e all) \<and> (\<forall>e' < e. \<not> ends (pattern kmp) (take e' all)) \<and>
          off = of_nat (start + e) \<and> r' = off - of_nat (length (pattern kmp))) \<or>
       (\<forall>e \<le> length all. \<not> ends (pattern kmp) (take e all)) \<and> r' = UINT_MAX \<and> off = offset)" by (elim exE conjE)
      have "kmp_blocks kmp get_next_block offset (of_nat c) q s = kmp_blocks kmp get_next_block offset (of_nat (c + k)) q' s'"
        using b(1) blk r(1) Inr by (subst kmp_blocks.simps) simp
      then show ?thesis using rest out by (intro exI [of _ r'] exI [of _ off] exI [of _ s2]) simp
    qed
  qed
qed

end

text \<open>Linear data are such a source; the length of the data is an \<open>unsigned int\<close>.\<close>

interpretation linear: text_source "get_linear_data data" "take 0xFFFFFFFF data" "\<lambda>c s. length data < 2 ^ 32" for data
proof
  fix c :: nat and s
  assume l: "length data < 2 ^ 32" and c: "c < length (take 0xFFFFFFFF data)"
  then have "take 0xFFFFFFFF data = data" "unat (of_nat c :: u32) = c" by (simp_all add: unat_of_nat take_bit_nat_eq_self)
  then show "\<exists>k s'. get_linear_data data (of_nat c) s = (take k (drop c (take 0xFFFFFFFF data)), s') \<and> 0 < k \<and>
      c + k \<le> length (take 0xFFFFFFFF data) \<and> length data < 2 ^ 32"
    using l c by (intro exI [of _ "length data - c"] exI [of _ s]) (simp add: get_linear_data_def)
next
  fix c :: nat and s
  assume l: "length data < 2 ^ 32" and c: "length (take 0xFFFFFFFF data) \<le> c" "c < 2 ^ 32"
  then have "take 0xFFFFFFFF data = data" "unat (of_nat c :: u32) = c" by (simp_all add: unat_of_nat take_bit_nat_eq_self)
  then show "fst (get_linear_data data (of_nat c) s) = []" using c by (simp add: get_linear_data_def)
qed simp

section \<open>What a search returns\<close>

text \<open>The pattern occurs in the text, up to case when case is ignored.\<close>

definition match_at :: "bool \<Rightarrow> u8 list \<Rightarrow> u8 list \<Rightarrow> nat \<Rightarrow> bool" where
  "match_at icase raw body p \<longleftrightarrow> occurs (map (fold_case icase) raw) (map (fold_case icase) body) p"

text \<open>The result and the new offset of a search that starts at an offset.\<close>

definition first_match :: "bool \<Rightarrow> u8 list \<Rightarrow> u8 list \<Rightarrow> nat \<Rightarrow> u32 \<Rightarrow> u32 \<Rightarrow> bool" where
  "first_match icase raw body start r off \<longleftrightarrow>
     (\<exists>p \<ge> start. match_at icase raw body p \<and> (\<forall>p'. start \<le> p' \<and> p' < p \<longrightarrow> \<not> match_at icase raw body p') \<and>
        r = of_nat p \<and> off = of_nat (p + length raw)) \<or>
     (\<forall>p \<ge> start. \<not> match_at icase raw body p) \<and> r = UINT_MAX \<and> off = of_nat start"

lemma ends_match:
  assumes "start + e \<le> length body" "length raw \<le> e"
  shows "ends (map (fold_case icase) raw) (take e (map (fold_case icase) (drop start body))) \<longleftrightarrow> match_at icase raw body (start + e - length raw)"
proof -
  let ?f = "fold_case icase"
  have "match_at icase raw body (start + e - length raw) \<longleftrightarrow>
      take (length raw) (drop (start + e - length raw) (map ?f body)) = map ?f raw"
    using assms by (simp add: match_at_def occurs_def)
  moreover have "drop (start + e - length raw) (map ?f body) = drop (e - length raw) (map ?f (drop start body))"
    using assms by (simp add: drop_map add.commute)
  moreover have "take (length raw) (drop (e - length raw) ys) = drop (e - length raw) (take e ys)" for ys :: "u8 list"
    using assms(2) by (simp add: take_drop)
  ultimately show ?thesis using assms by (simp add: ends_def suf_def)
qed

lemma ends_long: "ends pat (take e s) \<Longrightarrow> length pat \<le> e"
  by (simp add: ends_def suf_def)

text \<open>
  C17: For any source of blocks, wherever the blocks are cut, \<open>kmp_find\<close> ends and returns the
  first position from the given offset on at which the pattern occurs in the text, up to
  case when case is ignored, and leaves the offset behind the match; without a match it
  returns \<open>UINT_MAX\<close> and leaves the offset alone. The table that \<open>kmp_init\<close> computes is always
  built, for every pattern that is not empty.
\<close>

theorem kmp_find_first:
  assumes src: "text_source get_next_block body ready" "ready start s" "start < 2 ^ 32" and raw: "raw \<noteq> []"
  shows "\<exists>kmp r off s'. kmp_init raw icase = Some kmp \<and> kmp_find kmp get_next_block (of_nat start) s = Some (r, off, s') \<and>
    first_match icase raw body start r off"
proof -
  let ?f = "fold_case icase"
  obtain kmp where kmp: "kmp_init raw icase = Some kmp" "kmp_ok kmp" "pattern kmp = map ?f raw" "ignore_case kmp = icase"
    using kmp_init_ok [OF raw] by blast
  have "searched (pattern kmp) (map (fold_case (ignore_case kmp)) (take (start - start) (drop start body))) 0"
    using searched_start [of "pattern kmp"] kmp(3) raw by simp
  from text_source.kmp_blocks_ok [OF src(1) kmp(2) src(2) order_refl src(3) this, of "of_nat start"] obtain r off s' where
    run: "kmp_find kmp get_next_block (of_nat start) s = Some (r, off, s')" and
    out: "let all = map ?f (drop start body) in
       (\<exists>e. e \<le> length all \<and> ends (map ?f raw) (take e all) \<and> (\<forall>e' < e. \<not> ends (map ?f raw) (take e' all)) \<and>
          off = of_nat (start + e) \<and> r = off - of_nat (length (map ?f raw))) \<or>
       (\<forall>e \<le> length all. \<not> ends (map ?f raw) (take e all)) \<and> r = UINT_MAX \<and> off = of_nat start"
    unfolding kmp_find_def kmp(3,4) by (elim exE conjE)
  let ?all = "map ?f (drop start body)"
  have none: "\<not> match_at icase raw body p'"
    if n: "\<forall>e' < b. \<not> ends (map ?f raw) (take e' ?all)" and p: "start \<le> p'" "p' - start + length raw < b" for p' b
  proof
    assume m: "match_at icase raw body p'"
    let ?e' = "p' - start + length raw"
    have "start + ?e' \<le> length body" using m p(1) by (simp add: match_at_def occurs_def)
    then have "ends (map ?f raw) (take ?e' ?all)" using ends_match [of start ?e' body raw icase] m p(1) by simp
    then show False using n p(2) by blast
  qed
  from out [unfolded Let_def] have "first_match icase raw body start r off"
  proof (elim disjE exE conjE)
    fix e assume e: "e \<le> length ?all" "ends (map ?f raw) (take e ?all)" "\<forall>e' < e. \<not> ends (map ?f raw) (take e' ?all)"
      "off = of_nat (start + e)" "r = off - of_nat (length (map ?f raw))"
    have len: "length raw \<le> e" using ends_long [OF e(2)] by simp
    have fit: "start + e \<le> length body" using e(1,2) len raw by (cases "start \<le> length body") auto
    let ?p = "start + e - length raw"
    have "match_at icase raw body ?p" using ends_match [OF fit len, of icase] e(2) by simp
    moreover have "start \<le> ?p" "?p + length raw = start + e" using len by simp_all
    moreover have "r = of_nat ?p" using e(4,5) len by (simp add: of_nat_diff)
    moreover have "\<forall>p'. start \<le> p' \<and> p' < ?p \<longrightarrow> \<not> match_at icase raw body p'"
      using none [OF e(3)] by auto
    ultimately show ?thesis using e(4) unfolding first_match_def by (intro disjI1 exI [of _ ?p]) simp
  next
    assume n: "\<forall>e \<le> length ?all. \<not> ends (map ?f raw) (take e ?all)" "r = UINT_MAX" "off = of_nat start"
    have "\<not> match_at icase raw body p'" if p: "start \<le> p'" for p'
    proof
      assume m: "match_at icase raw body p'"
      then have "p' + length raw \<le> length body" by (simp add: match_at_def occurs_def)
      then have "p' - start + length raw < length ?all + 1" using p by simp
      then show False using none [of "length ?all + 1" p'] n(1) p m by (simp add: less_Suc_eq_le)
    qed
    then show ?thesis using n unfolding first_match_def by simp
  qed
  then show ?thesis using kmp(1) run by blast
qed

theorem kmp_find_first_witness:
  "\<exists>kmp off s'. kmp_init [0x61, 0x62] True = Some kmp \<and> kmp_find kmp (get_linear_data [1, 0x61, 0x41, 0x42]) 0 () = Some (2, off, s')"
proof -
  let ?d = "[1, 0x61, 0x41, 0x42] :: u8 list"
  have up: "toupper 1 = 1" "toupper 0x61 = 0x41" "toupper 0x62 = 0x42" "toupper 0x41 = 0x41" "toupper 0x42 = 0x42"
    by (simp_all add: toupper_def islower_def ctype_def)
  have "take 0xFFFFFFFF ?d = ?d" by simp
  then have "text_source (get_linear_data ?d) ?d (\<lambda>c s. length ?d < 2 ^ 32)" using linear.text_source_axioms [of ?d] by simp
  from kmp_find_first [OF this, where start = 0 and s = "()" and raw = "[0x61, 0x62]" and icase = True] obtain kmp r off s' where
    run: "kmp_init [0x61, 0x62] True = Some kmp" "kmp_find kmp (get_linear_data ?d) 0 () = Some (r, off, s')" and
    first: "first_match True [0x61, 0x62] ?d 0 r off" by auto
  have m: "match_at True [0x61, 0x62] ?d p \<longleftrightarrow> p = 2" for p
  proof -
    consider "p = 0" | "p = 1" | "p = 2" | "2 < p" by linarith
    then show ?thesis by cases (auto simp: match_at_def occurs_def fold_case_def up)
  qed
  then have "r = 2" using first by (auto simp: first_match_def)
  then show ?thesis using run by blast
qed

end
