(* ===== verification/Spec2Isabelle.thy ===== *)
theory Spec2Isabelle
  imports Prelude Bits Hweight Bitmap BitmapMap BitmapRegion Kfifo Skb Bpf Resource Rwsem Semaphore
    Caps Setid GroupInfo PosixAcl FileLock FileLockLoop FileLockSpec FileLockInv FileLockReq
    SemSet SemSetSpec FdTable FdTableSpec FdTableInv FdTableFork FdTableDup
    RtcLib SortLib TextSearch
begin

text \<open>
  A verification library for core data structures and algorithms of the Linux kernel tree
  under \<open>src/linux-2.6.28.6\<close>, for the 32-bit ARM target it configures: \<open>unsigned long\<close> has
  32 bits, the byte order does not matter to the parts modelled except where a theory says so.

  \<^bold>\<open>Modelling.\<close> A C integer is a word of its width; a sum or a difference wraps as in C, and
  a signed comparison is one of \<open>sint\<close>. A structure is a record, an array a list with
  \<open>None\<close> for an access outside it, an intrusive tree of structures a datatype. A function
  that returns a negative error is a function into \<open>'a result\<close> (\<open>Prelude\<close>): \<open>Inl (Err e)\<close> is
  the return of \<open>- e\<close>; the other failures, a trap and an access outside memory, are values
  of the same sum. A function that changes a structure returns the changed structure. Code
  under a spinlock is one function on the state the lock protects; a function that sleeps is
  cut at the points where it sleeps, and a step relation interleaves the pieces. Memory
  allocation and copies between user and kernel space succeed or fail as a parameter says.

  \<^bold>\<open>Parts and theories.\<close>
  \<^item> \<open>Prelude\<close>: integer types, error codes, results, byte-wise copies, and the locale
    \<open>step_invariant\<close> of an invariant of a step relation, which the theories of the
    semaphores, the semaphore sets, the resource tree, the secure bits, the user ids, the
    file locks and the descriptor tables interpret.
  \<^item> Bit operations: \<open>Bits\<close> (\<open>fls\<close>, \<open>__ffs\<close>, powers of two, \<open>lib/find_next_bit.c\<close>),
    \<open>Hweight\<close> (\<open>lib/hweight.c\<close>). The locale \<open>bit_search\<close> is the contract of a search;
    the two searches interpret it and the iteration over set bits rests on it.
  \<^item> Bitmaps (\<open>lib/bitmap.c\<close>, \<open>include/linux/bitmap.h\<close>): \<open>Bitmap\<close> (tests, logic, right
    shift, weight), \<open>BitmapMap\<close> (remap, bitremap, onto, fold), \<open>BitmapRegion\<close> (aligned
    regions). Every operation is related to the set of bits of the bitmap.
  \<^item> Byte FIFO: \<open>Kfifo\<close> (\<open>kernel/kfifo.c\<close>) refines a queue of bytes with bounded capacity
    (locale \<open>byte_queue\<close>), also with one reader and one writer running without a lock.
  \<^item> Socket filter: \<open>Skb\<close> (reading of socket buffers, \<open>net/core/skbuff.c\<close>) and \<open>Bpf\<close>
    (checker, interpreter, attaching and detaching, \<open>net/core/filter.c\<close>). The interpreter
    reads packets through \<open>Skb\<close>; attaching runs the checker; the properties compose the
    two: what the checker accepts ends, and is safe with plain loads or on packets that back
    every load.
  \<^item> Address ranges: \<open>Resource\<close> (\<open>kernel/resource.c\<close>): request, release, allocate, insert,
    expand, adjust, and busy regions, on a tree whose invariant every operation keeps.
  \<^item> Semaphores: \<open>Rwsem\<close> (\<open>lib/rwsem-spinlock.c\<close>) and \<open>Semaphore\<close> (\<open>kernel/semaphore.c\<close>),
    state machines of the semaphore with the tasks that use it.
  \<^item> Credentials: \<open>Caps\<close> (\<open>security/commoncap.c\<close>: capability sets, exec, capset, prctl),
    \<open>Setid\<close> (the set-id calls of \<open>kernel/sys.c\<close>, on the credentials of \<open>Caps\<close>),
    \<open>GroupInfo\<close> (supplementary groups, \<open>kernel/sys.c\<close>; locale \<open>group_lookup\<close>), and
    \<open>PosixAcl\<close> (\<open>fs/posix_acl.c\<close> and \<open>generic_permission\<close> of \<open>fs/namei.c\<close>), which decides
    by the ids, the groups and the capabilities of the other three.
  \<^item> Locks on files (\<open>fs/locks.c\<close>): \<open>FileLock\<close> has the definitions (POSIX byte-range locks,
    \<open>flock\<close> locks, waiting requests, the conversion of \<open>struct flock\<close>), \<open>FileLockLoop\<close> the
    invariant of the loop of \<open>__posix_lock_file\<close>, \<open>FileLockSpec\<close> its effect on who holds which
    byte, \<open>FileLockInv\<close> the calls in any order, \<open>FileLockReq\<close> the requests of programs.
  \<^item> Tables of open files: \<open>FdTable\<close> has the definitions (\<open>fs/file.c\<close>, \<open>fs/open.c\<close>,
    \<open>fs/fcntl.c\<close>, \<open>flush_old_files\<close> of \<open>fs/exec.c\<close>, \<open>close_files\<close> of \<open>kernel/exit.c\<close>; the free
    descriptor is found by the search of \<open>Bits\<close>), \<open>FdTableSpec\<close> the abstract table and the
    allocation, \<open>FdTableInv\<close> tasks that share a table and grow it without its lock,
    \<open>FdTableFork\<close> fork, exec and exit, \<open>FdTableDup\<close> \<open>dup3\<close> on every branch.
  \<^item> Algorithms: \<open>SortLib\<close> (\<open>lib/sort.c\<close>; the locale \<open>swapper\<close> is what the sort needs of an
    exchange function, and both functions of the file interpret it), \<open>TextSearch\<close>
    (\<open>lib/ts_kmp.c\<close>; the locale \<open>text_source\<close> is what the search needs of its source of blocks, and
    the linear source of \<open>lib/textsearch.c\<close> interprets it), \<open>RtcLib\<close> (\<open>drivers/rtc/rtc-lib.c\<close> and
    \<open>mktime\<close> of \<open>kernel/time.c\<close>).
  \<^item> Semaphore sets (\<open>ipc/sem.c\<close>): \<open>SemSet\<close> has the definitions (\<open>semtimedop\<close>, \<open>semctl\<close>, the
    undo structures, creation, removal, the exit of a task), \<open>SemSetSpec\<close> the effect of a list
    of operations and the set with its sleeping tasks.

  \<^bold>\<open>What is shown.\<close> Invariants: the resource tree stays sorted and disjoint as long
  as its callers give well-formed resources and sizes that do not wrap, the
  semaphores exclude and conserve, a task asleep on a semaphore set is one that cannot go on,
  locks of different owners never conflict, a reserved descriptor belongs to one task, locked
  secure bits stay locked, an unprivileged task stays inside its ids. Functional behaviour: every bitmap operation on sets, the searches,
  the sort and search of groups, the capability formulas, the access decision of a list, the
  bytes a lock covers, a list of semaphore operations, the table of descriptors, the heap
  sort, the first occurrence of a pattern.
  Equivalence: bit-parallel counts, packet layouts, ordinals that are kept or recomputed.
  Refinement: the FIFO is a queue. Round trips: regions of bitmaps and of resources,
  the mode bits of an access list, the adjustments of a semaphore, seconds and dates. Termination: the loops are total functions by a measure; the loop of
  \<open>insert_resource_expand_to_fit\<close>, which follows no measure in the code, is a partial
  function that is proved to return. Errors: each part says when which error is returned, and some
  theorems and lemmas show inputs on which the code does other than it means to. The
  only fuel is the number of instructions a run of the socket filter may execute; the length
  of a checked filter is proved to be enough.

  \<^bold>\<open>Not modelled.\<close> Drivers, architectures, memory management, file systems, protocols, the
  scheduler and other concurrent code over hardware or interrupts. In the parts above: the
  text forms and the left shift of bitmaps, \<open>capset\<close> on other tasks, allocation and
  reference counts of filters, groups and access lists, leases and the callbacks of file
  systems and lock managers in the locks on files, security modules other than the
  default capabilities, the reference counts of open files and the freeing of old tables, the
  keys and the status of semaphore sets, and the listing of resources in \<open>/proc\<close>.

  \<^bold>\<open>Plan.\<close> Next: logical memory blocks (\<open>lib/lmb.c\<close>), resource counters (\<open>kernel/res_counter.c\<close>),
  number parsing (\<open>lib/vsprintf.c\<close>, \<open>lib/cmdline.c\<close>), and the rest of the bitmaps.
\<close>

end
